(* ===== verification/Lotus_Prelude.thy ===== *)
theory Lotus_Prelude
  imports Main "HOL-Library.Multiset"
begin

section \<open>Prelude: shared types, machine arithmetic and generic lemmas\<close>

text \<open>
  What every component of the development uses: the vocabulary of the chain (addresses, token
  amounts, epochs), Go's integers at their widths, results of fallible operations, and the generic
  lemmas on lists, options, maps and finite sums that the component proofs share.

  \<^item> \<open>abi.TokenAmount\<close>, \<open>types.BigInt\<close> and \<open>big.Int\<close> are unbounded: \<^typ>\<open>int\<close>.
  \<^item> \<open>int64\<close> and \<open>uint64\<close> are \<^typ>\<open>int\<close> with the wrap-around written out: every sum, difference and
    product of the source goes through \<open>wrap64\<close> (two's complement) or \<open>wrapu64\<close>.
  \<^item> a Go error is the left value of a sum; a panic is an error value of its own.
\<close>

subsection \<open>Rewrite collections of the development\<close>

named_theorems i64_simps \<open>machine arithmetic that does not wrap\<close>
named_theorems view_simps \<open>what a state tree operation does to the actors one can read\<close>

subsection \<open>Vocabulary\<close>

type_synonym token = int
type_synonym epoch = int
type_synonym method_num = nat
type_synonym bytes = "nat list"
type_synonym cid = string

text \<open>
  An address of \<open>go-address\<close>: undefined, or a payload under one of the four protocols.
  \<open>Protocol()\<close> of the library is the constructor.
\<close>

datatype address =
    AddrUndef
  | AddrID nat
  | AddrSecp string
  | AddrActor string
  | AddrBLS string

fun is_id_addr :: "address \<Rightarrow> bool" where
  "is_id_addr (AddrID n) = True"
| "is_id_addr _ = False"

subsection \<open>Go's 64-bit integers\<close>

definition wrap64 :: "int \<Rightarrow> int" where
  "wrap64 x = (x + 2 ^ 63) mod 2 ^ 64 - 2 ^ 63"

definition wrapu64 :: "int \<Rightarrow> int" where
  "wrapu64 x = x mod 2 ^ 64"

definition in64 :: "int \<Rightarrow> bool" where
  "in64 x \<longleftrightarrow> - (2 ^ 63) \<le> x \<and> x < 2 ^ 63"

definition inu64 :: "int \<Rightarrow> bool" where
  "inu64 x \<longleftrightarrow> 0 \<le> x \<and> x < 2 ^ 64"

definition add64 :: "int \<Rightarrow> int \<Rightarrow> int" where
  "add64 a b = wrap64 (a + b)"

definition sub64 :: "int \<Rightarrow> int \<Rightarrow> int" where
  "sub64 a b = wrap64 (a - b)"

definition mul64 :: "int \<Rightarrow> int \<Rightarrow> int" where
  "mul64 a b = wrap64 (a * b)"

text \<open>Go's \<open>/\<close> on integers truncates towards zero; the divisor is never zero where it is used.\<close>

definition quot64 :: "int \<Rightarrow> int \<Rightarrow> int" where
  "quot64 a b = wrap64 (sgn a * sgn b * (\<bar>a\<bar> div \<bar>b\<bar>))"

lemma wrap64_in64 [i64_simps]: "in64 x \<Longrightarrow> wrap64 x = x"
  by (simp add: in64_def wrap64_def)

lemma in64_wrap64 [simp]: "in64 (wrap64 x)"
proof -
  have "0 \<le> (x + 2 ^ 63) mod 2 ^ 64" "(x + 2 ^ 63) mod 2 ^ 64 < (2::int) ^ 64"
    by simp_all
  then show ?thesis by (simp add: in64_def wrap64_def)
qed

lemma wrapu64_inu64 [i64_simps]: "inu64 x \<Longrightarrow> wrapu64 x = x"
  by (simp add: inu64_def wrapu64_def)

lemma wrapu64_add: "wrapu64 (wrapu64 a + b) = wrapu64 (a + b)"
  by (simp add: wrapu64_def mod_add_left_eq)

lemma wrap64_add: "wrap64 (wrap64 a + b) = wrap64 (a + b)"
proof -
  have "(((a + 2 ^ 63) mod 2 ^ 64 - 2 ^ 63) + b + 2 ^ 63) mod 2 ^ 64 = ((a + 2 ^ 63) mod 2 ^ 64 + b) mod (2 ^ 64 :: int)" by simp
  also have "\<dots> = (a + b + 2 ^ 63) mod 2 ^ 64" by (simp only: mod_add_left_eq) (simp add: algebra_simps)
  finally show ?thesis unfolding wrap64_def by simp
qed

lemma add64_exact [i64_simps]: "in64 (a + b) \<Longrightarrow> add64 a b = a + b"
  by (simp add: add64_def wrap64_in64)

lemma sub64_exact [i64_simps]: "in64 (a - b) \<Longrightarrow> sub64 a b = a - b"
  by (simp add: sub64_def wrap64_in64)

lemma mul64_exact [i64_simps]: "in64 (a * b) \<Longrightarrow> mul64 a b = a * b"
  by (simp add: mul64_def wrap64_in64)

lemma quot64_exact [i64_simps]:
  assumes "0 \<le> a" and "0 < b" and "in64 a"
  shows "quot64 a b = a div b"
proof -
  have "a div b \<le> a"
    using assms(1,2) by (cases "b = 1") (auto simp: int_div_less_self le_less)
  moreover have "0 \<le> a div b"
    using assms(1,2) by (simp add: pos_imp_zdiv_nonneg_iff)
  ultimately have "in64 (a div b)"
    using assms(3) by (simp add: in64_def)
  then show ?thesis
    using assms(1,2) by (cases "a = 0") (simp_all add: quot64_def wrap64_in64)
qed

lemma in64_between: "0 \<le> x \<Longrightarrow> x \<le> y \<Longrightarrow> in64 y \<Longrightarrow> in64 x"
  by (simp add: in64_def)

subsection \<open>Sums over finite sets of addresses\<close>

text \<open>Moving an amount between two entries of a finite table leaves its total alone.\<close>

lemma sum_upd:
  fixes f :: "'a \<Rightarrow> int"
  assumes "finite S" and "x \<in> S"
  shows "(\<Sum>a\<in>S. (f(x := v)) a) = (\<Sum>a\<in>S. f a) - f x + v"
proof -
  have "(\<Sum>a\<in>S. (f(x := v)) a) = v + (\<Sum>a\<in>S - {x}. (f(x := v)) a)"
    using assms by (simp add: sum.remove)
  also have "(\<Sum>a\<in>S - {x}. (f(x := v)) a) = (\<Sum>a\<in>S - {x}. f a)"
    by (rule sum.cong) auto
  also have "v + (\<Sum>a\<in>S - {x}. f a) = (\<Sum>a\<in>S. f a) - f x + v"
    using assms by (simp add: sum.remove)
  finally show ?thesis .
qed

lemma sum_move:
  fixes f :: "'a \<Rightarrow> int"
  assumes "finite S" and "x \<in> S" and "y \<in> S" and "x \<noteq> y"
  shows "(\<Sum>a\<in>S. (f(x := f x - d, y := f y + d)) a) = (\<Sum>a\<in>S. f a)"
  using assms by (simp add: sum_upd del: fun_upd_apply) simp

end
