(* ===== verification/Gas.thy ===== *)
theory Gas
  imports Lotus_Prelude
begin

section \<open>Gas: charges, price lists and the settlement of a message's gas\<close>

text \<open>
  Models \<open>src/chain/vm/gas.go\<close>, \<open>src/chain/vm/gas_v0.go\<close> and \<open>src/chain/vm/burn.go\<close>: a gas charge,
  the price list of the legacy VM and its two versions, the choice of the list for an epoch, and
  the split of the gas funds of an applied message into burn, tip and refund. All gas amounts are
  \<open>int64\<close> and go through the wrapping operations of the prelude; token amounts are unbounded.
\<close>

subsection \<open>Charges\<close>

text \<open>The \<open>Extra\<close> field is an \<open>interface{}\<close> that only tracing reads; the kinds the code stores.\<close>

datatype gas_extra =
    ExtraNil
  | ExtraString string
  | ExtraInt int
  | ExtraTypeSize string int

record GasCharge =
  ChargeName :: string
  Extra :: gas_extra
  ComputeGas :: int
  StorageGas :: int
  VirtualCompute :: int
  VirtualStorage :: int

definition Total :: "GasCharge \<Rightarrow> int" where
  "Total g = add64 (ComputeGas g) (StorageGas g)"

definition WithVirtual :: "GasCharge \<Rightarrow> int \<Rightarrow> int \<Rightarrow> GasCharge" where
  "WithVirtual g compute storage = g\<lparr>VirtualCompute := compute, VirtualStorage := storage\<rparr>"

definition WithExtra :: "GasCharge \<Rightarrow> gas_extra \<Rightarrow> GasCharge" where
  "WithExtra g extra = g\<lparr>Extra := extra\<rparr>"

definition newGasCharge :: "string \<Rightarrow> int \<Rightarrow> int \<Rightarrow> GasCharge" where
  "newGasCharge name computeGas storageGas =
     \<lparr>ChargeName = name, Extra = ExtraNil, ComputeGas = computeGas, StorageGas = storageGas,
      VirtualCompute = 0, VirtualStorage = 0\<rparr>"

subsection \<open>Price lists\<close>

record scalingCost =
  flat :: int
  scale :: int

text \<open>A step is its \<open>start\<close> and its \<open>cost\<close>.\<close>

type_synonym step = "int \<times> int"
type_synonym stepCost = "step list"

text \<open>
  The loop of \<open>Lookup\<close> stops at the first step that starts above \<open>x\<close> (index \<open>i\<close>), and the step
  before it, if any, is the answer.
\<close>

fun Lookup_loop :: "stepCost \<Rightarrow> int \<Rightarrow> nat \<Rightarrow> nat" where
  "Lookup_loop [] x i = i"
| "Lookup_loop (s # sc) x i = (if fst s > x then i else Lookup_loop sc x (Suc i))"

definition Lookup :: "stepCost \<Rightarrow> int \<Rightarrow> int" where
  "Lookup sc x =
     (let i = Lookup_loop sc x 0
      in if i = 0 then 0 else snd (sc ! (i - 1)))"

text \<open>Proof and signature types of \<open>go-state-types\<close>: the ones the price lists name, and the rest.\<close>

datatype SigType = SigTypeSecp256k1 | SigTypeBLS | SigTypeOther nat

datatype RegisteredSealProof = StackedDrg32GiBV1_1 | StackedDrg64GiBV1_1 | SealProofOther nat

datatype RegisteredPoStProof =
    StackedDrgWindow512MiBV1
  | StackedDrgWindow32GiBV1
  | StackedDrgWindow64GiBV1
  | PoStProofOther nat

record pricelistV0 =
  computeGasMulti :: int
  storageGasMulti :: int
  onChainMessageComputeBase :: int
  onChainMessageStorageBase :: int
  onChainMessageStoragePerByte :: int
  onChainReturnValuePerByte :: int
  sendBase :: int
  sendTransferFunds :: int
  sendTransferOnlyPremium :: int
  sendInvokeMethod :: int
  ipldGetBase :: int
  ipldPutBase :: int
  ipldPutPerByte :: int
  createActorCompute :: int
  createActorStorage :: int
  deleteActor :: int
  verifySignature :: "SigType \<rightharpoonup> int"
  hashingBase :: int
  computeUnsealedSectorCidBase :: int
  verifySealBase :: int
  verifyAggregateSealBase :: int
  verifyAggregateSealPer :: "RegisteredSealProof \<rightharpoonup> int"
  verifyAggregateSealSteps :: "RegisteredSealProof \<rightharpoonup> stepCost"
  verifyPostLookup :: "RegisteredPoStProof \<rightharpoonup> scalingCost"
  verifyPostDiscount :: bool
  verifyConsensusFault :: int
  verifyReplicaUpdate :: int

text \<open>Reading a Go map at a missing key gives the zero value of the element type.\<close>

definition map_int :: "('k \<rightharpoonup> int) \<Rightarrow> 'k \<Rightarrow> int" where
  "map_int m k = (case m k of None \<Rightarrow> 0 | Some v \<Rightarrow> v)"

definition MethodSend :: method_num where
  "MethodSend = 0"

definition OnChainMessage :: "pricelistV0 \<Rightarrow> int \<Rightarrow> GasCharge" where
  "OnChainMessage pl msgSize =
     newGasCharge ''OnChainMessage'' (onChainMessageComputeBase pl)
       (mul64 (add64 (onChainMessageStorageBase pl) (mul64 (onChainMessageStoragePerByte pl) msgSize))
          (storageGasMulti pl))"

definition OnChainReturnValue :: "pricelistV0 \<Rightarrow> int \<Rightarrow> GasCharge" where
  "OnChainReturnValue pl dataSize =
     newGasCharge ''OnChainReturnValue'' 0
       (mul64 (mul64 dataSize (onChainReturnValuePerByte pl)) (storageGasMulti pl))"

definition OnMethodInvocation :: "pricelistV0 \<Rightarrow> token \<Rightarrow> method_num \<Rightarrow> GasCharge" where
  "OnMethodInvocation pl value methodNum =
     (let ret = sendBase pl;
          ret = (if value \<noteq> 0 then add64 ret (sendTransferFunds pl) else ret);
          ret = (if value \<noteq> 0 \<and> methodNum = MethodSend
                 then add64 ret (sendTransferOnlyPremium pl) else ret);
          extra = (if value \<noteq> 0 then ''t'' else '''');
          extra = (if methodNum \<noteq> MethodSend then extra @ ''i'' else extra);
          ret = (if methodNum \<noteq> MethodSend then add64 ret (sendInvokeMethod pl) else ret)
      in WithExtra (newGasCharge ''OnMethodInvocation'' ret 0) (ExtraString extra))"

definition OnIpldGet :: "pricelistV0 \<Rightarrow> GasCharge" where
  "OnIpldGet pl = WithVirtual (newGasCharge ''OnIpldGet'' (ipldGetBase pl) 0) 114617 0"

definition OnIpldPut :: "pricelistV0 \<Rightarrow> int \<Rightarrow> GasCharge" where
  "OnIpldPut pl dataSize =
     WithVirtual
       (WithExtra
          (newGasCharge ''OnIpldPut'' (ipldPutBase pl)
             (mul64 (mul64 dataSize (ipldPutPerByte pl)) (storageGasMulti pl)))
          (ExtraInt dataSize))
       400000 (mul64 dataSize 1300)"

definition OnCreateActor :: "pricelistV0 \<Rightarrow> GasCharge" where
  "OnCreateActor pl =
     newGasCharge ''OnCreateActor'' (createActorCompute pl)
       (mul64 (createActorStorage pl) (storageGasMulti pl))"

definition OnDeleteActor :: "pricelistV0 \<Rightarrow> GasCharge" where
  "OnDeleteActor pl =
     newGasCharge ''OnDeleteActor'' 0 (mul64 (deleteActor pl) (storageGasMulti pl))"

text \<open>\<open>sigType.Name()\<close> belongs to \<open>go-state-types\<close>; the two names are its documented ones.\<close>

fun SigTypeName :: "SigType \<Rightarrow> string" where
  "SigTypeName SigTypeSecp256k1 = ''secp256k1''"
| "SigTypeName SigTypeBLS = ''bls''"
| "SigTypeName (SigTypeOther n) = ''''"

definition OnVerifySignature :: "pricelistV0 \<Rightarrow> SigType \<Rightarrow> int \<Rightarrow> string + GasCharge" where
  "OnVerifySignature pl sigType planTextSize =
     (case verifySignature pl sigType of
        None \<Rightarrow> Inl ''cost function for signature type not supported''
      | Some cost \<Rightarrow>
          Inr (WithExtra (newGasCharge ''OnVerifySignature'' cost 0)
                 (ExtraTypeSize (SigTypeName sigType) planTextSize)))"

definition OnHashing :: "pricelistV0 \<Rightarrow> int \<Rightarrow> GasCharge" where
  "OnHashing pl dataSize = WithExtra (newGasCharge ''OnHashing'' (hashingBase pl) 0) (ExtraInt dataSize)"

definition OnComputeUnsealedSectorCid :: "pricelistV0 \<Rightarrow> GasCharge" where
  "OnComputeUnsealedSectorCid pl =
     newGasCharge ''OnComputeUnsealedSectorCid'' (computeUnsealedSectorCidBase pl) 0"

definition OnVerifySeal :: "pricelistV0 \<Rightarrow> GasCharge" where
  "OnVerifySeal pl = newGasCharge ''OnVerifySeal'' (verifySealBase pl) 0"

text \<open>The aggregate is its seal proof type and the number of its \<open>Infos\<close>.\<close>

definition OnVerifyAggregateSeals :: "pricelistV0 \<Rightarrow> RegisteredSealProof \<Rightarrow> int \<Rightarrow> GasCharge" where
  "OnVerifyAggregateSeals pl proofType num =
     (let perProof = (case verifyAggregateSealPer pl proofType of
                        Some p \<Rightarrow> p
                      | None \<Rightarrow> map_int (verifyAggregateSealPer pl) StackedDrg32GiBV1_1);
          step = (case verifyAggregateSealSteps pl proofType of
                    Some s \<Rightarrow> s
                  | None \<Rightarrow> (case verifyAggregateSealSteps pl StackedDrg32GiBV1_1 of
                               None \<Rightarrow> [] | Some s \<Rightarrow> s))
      in newGasCharge ''OnVerifyAggregateSeals'' (add64 (mul64 perProof num) (Lookup step num)) 0)"

definition OnVerifyReplicaUpdate :: "pricelistV0 \<Rightarrow> GasCharge" where
  "OnVerifyReplicaUpdate pl = newGasCharge ''OnVerifyReplicaUpdate'' (verifyReplicaUpdate pl) 0"

text \<open>
  \<open>info.Proofs\<close> is the list of proof types, \<open>n\<close> the number of challenged sectors. The sector size of
  a proof type is the library's \<open>SectorSize().ShortString()\<close>, \<open>None\<close> where it errs.
\<close>

definition OnVerifyPost ::
  "(RegisteredPoStProof \<Rightarrow> string option) \<Rightarrow> pricelistV0 \<Rightarrow> RegisteredPoStProof list \<Rightarrow> int \<Rightarrow> GasCharge"
where
  "OnVerifyPost sectorSizeOf pl proofs n =
     (let proofType = (case proofs of [] \<Rightarrow> PoStProofOther 0 | p # _ \<Rightarrow> p);
          sectorSize = (case proofs of
                          [] \<Rightarrow> ''unknown''
                        | p # _ \<Rightarrow> (case sectorSizeOf p of None \<Rightarrow> ''unknown'' | Some s \<Rightarrow> s));
          cost = (case verifyPostLookup pl proofType of
                    Some c \<Rightarrow> c
                  | None \<Rightarrow> (case verifyPostLookup pl StackedDrgWindow512MiBV1 of
                               Some c \<Rightarrow> c | None \<Rightarrow> \<lparr>flat = 0, scale = 0\<rparr>));
          gasUsed = add64 (flat cost) (mul64 n (scale cost));
          gasUsed = (if verifyPostDiscount pl then quot64 gasUsed 2 else gasUsed)
      in WithExtra
           (WithVirtual (newGasCharge ''OnVerifyPost'' gasUsed 0)
              (add64 117680921 (mul64 43780 n)) 0)
           (ExtraTypeSize sectorSize n))"

definition OnVerifyConsensusFault :: "pricelistV0 \<Rightarrow> GasCharge" where
  "OnVerifyConsensusFault pl = newGasCharge ''OnVerifyConsensusFault'' (verifyConsensusFault pl) 0"

subsection \<open>The two price lists and the choice of one\<close>

definition prices_genesis :: pricelistV0 where
  "prices_genesis =
     \<lparr>computeGasMulti = 1, storageGasMulti = 1000,
      onChainMessageComputeBase = 38863, onChainMessageStorageBase = 36,
      onChainMessageStoragePerByte = 1, onChainReturnValuePerByte = 1,
      sendBase = 29233, sendTransferFunds = 27500, sendTransferOnlyPremium = 159672,
      sendInvokeMethod = - 5377,
      ipldGetBase = 75242, ipldPutBase = 84070, ipldPutPerByte = 1,
      createActorCompute = 1108454, createActorStorage = 36 + 40, deleteActor = - (36 + 40),
      verifySignature = [SigTypeBLS \<mapsto> 16598605, SigTypeSecp256k1 \<mapsto> 1637292],
      hashingBase = 31355, computeUnsealedSectorCidBase = 98647, verifySealBase = 2000,
      verifyAggregateSealBase = 0, verifyAggregateSealPer = Map.empty,
      verifyAggregateSealSteps = Map.empty,
      verifyPostLookup =
        [StackedDrgWindow512MiBV1 \<mapsto> \<lparr>flat = 123861062, scale = 9226981\<rparr>,
         StackedDrgWindow32GiBV1 \<mapsto> \<lparr>flat = 748593537, scale = 85639\<rparr>,
         StackedDrgWindow64GiBV1 \<mapsto> \<lparr>flat = 748593537, scale = 85639\<rparr>],
      verifyPostDiscount = True, verifyConsensusFault = 495422, verifyReplicaUpdate = 0\<rparr>"

definition prices_calico :: pricelistV0 where
  "prices_calico =
     \<lparr>computeGasMulti = 1, storageGasMulti = 1300,
      onChainMessageComputeBase = 38863, onChainMessageStorageBase = 36,
      onChainMessageStoragePerByte = 1, onChainReturnValuePerByte = 1,
      sendBase = 29233, sendTransferFunds = 27500, sendTransferOnlyPremium = 159672,
      sendInvokeMethod = - 5377,
      ipldGetBase = 114617, ipldPutBase = 353640, ipldPutPerByte = 1,
      createActorCompute = 1108454, createActorStorage = 36 + 40, deleteActor = - (36 + 40),
      verifySignature = [SigTypeBLS \<mapsto> 16598605, SigTypeSecp256k1 \<mapsto> 1637292],
      hashingBase = 31355, computeUnsealedSectorCidBase = 98647, verifySealBase = 2000,
      verifyAggregateSealBase = 0,
      verifyAggregateSealPer =
        [StackedDrg32GiBV1_1 \<mapsto> 449900, StackedDrg64GiBV1_1 \<mapsto> 359272],
      verifyAggregateSealSteps =
        [StackedDrg32GiBV1_1 \<mapsto>
           [(4, 103994170), (7, 112356810), (13, 122912610), (26, 137559930), (52, 162039100),
            (103, 210960780), (205, 318351180), (410, 528274980)],
         StackedDrg64GiBV1_1 \<mapsto>
           [(4, 102581240), (7, 110803030), (13, 120803700), (26, 134642130), (52, 157357890),
            (103, 203017690), (205, 304253590), (410, 509880640)]],
      verifyPostLookup =
        [StackedDrgWindow512MiBV1 \<mapsto> \<lparr>flat = 117680921, scale = 43780\<rparr>,
         StackedDrgWindow32GiBV1 \<mapsto> \<lparr>flat = 117680921, scale = 43780\<rparr>,
         StackedDrgWindow64GiBV1 \<mapsto> \<lparr>flat = 117680921, scale = 43780\<rparr>],
      verifyPostDiscount = False, verifyConsensusFault = 495422, verifyReplicaUpdate = 36316136\<rparr>"

text \<open>
  \<open>Prices\<close> is a Go map. It is modelled by the list of its entries in the order one iteration visits
  them, which Go leaves open; \<open>calico\<close> is \<open>build.UpgradeCalicoHeight\<close>, set per network.
\<close>

definition Prices :: "epoch \<Rightarrow> (epoch \<times> pricelistV0) list" where
  "Prices calico = [(0, prices_genesis), (calico, prices_calico)]"

fun PricelistByEpoch_loop ::
  "(epoch \<times> 'p) list \<Rightarrow> epoch \<Rightarrow> epoch \<times> 'p option \<Rightarrow> epoch \<times> 'p option"
where
  "PricelistByEpoch_loop [] ep best = best"
| "PricelistByEpoch_loop ((e, pl) # ps) ep best =
     PricelistByEpoch_loop ps ep (if e > fst best \<and> e \<le> ep then (e, Some pl) else best)"

text \<open>\<open>None\<close> is the panic of a set-up without prices.\<close>

definition PricelistByEpoch :: "(epoch \<times> 'p) list \<Rightarrow> epoch \<Rightarrow> 'p option" where
  "PricelistByEpoch prices ep = snd (PricelistByEpoch_loop prices ep (0, map_of prices 0))"

subsection \<open>Settlement of a message's gas\<close>

definition gasOveruseNum :: int where
  "gasOveruseNum = 11"

definition gasOveruseDenom :: int where
  "gasOveruseDenom = 10"

record GasOutputs =
  BaseFeeBurn :: token
  OverEstimationBurn :: token
  MinerPenalty :: token
  MinerTip :: token
  Refund :: token
  GasRefund :: int
  GasBurned :: int

definition ZeroGasOutputs :: GasOutputs where
  "ZeroGasOutputs =
     \<lparr>BaseFeeBurn = 0, OverEstimationBurn = 0, MinerPenalty = 0, MinerTip = 0, Refund = 0,
      GasRefund = 0, GasBurned = 0\<rparr>"

text \<open>
  \<open>big.Div\<close> is Euclidean division; its divisor \<open>gasUsed\<close> is positive wherever it is reached on a
  gas amount the VM produces, and then it is \<^term>\<open>(div)\<close>. \<open>Int64()\<close> of a big integer keeps its low
  64 bits.
\<close>

definition big_div :: "int \<Rightarrow> int \<Rightarrow> int" where
  "big_div a b = (if b < 0 then - (a div (- b)) else a div b)"

definition ComputeGasOverestimationBurn :: "int \<Rightarrow> int \<Rightarrow> int \<times> int" where
  "ComputeGasOverestimationBurn gasUsed gasLimit =
     (if gasUsed = 0 then (0, gasLimit)
      else
        let over = sub64 gasLimit (quot64 (mul64 gasOveruseNum gasUsed) gasOveruseDenom)
        in if over < 0 then (sub64 gasLimit gasUsed, 0)
           else
             let over = (if over > gasUsed then gasUsed else over);
                 gasToBurn = sub64 gasLimit gasUsed;
                 gasToBurn = gasToBurn * over;
                 gasToBurn = big_div gasToBurn gasUsed
             in (sub64 (sub64 gasLimit gasUsed) (wrap64 gasToBurn), wrap64 gasToBurn))"

definition ComputeGasOutputs ::
  "int \<Rightarrow> int \<Rightarrow> token \<Rightarrow> token \<Rightarrow> token \<Rightarrow> bool \<Rightarrow> GasOutputs"
where
  "ComputeGasOutputs gasUsed gasLimit baseFee feeCap gasPremium chargeNetworkFee =
     (let out = ZeroGasOutputs;
          baseFeeToPay = (if baseFee > feeCap then feeCap else baseFee);
          out = (if baseFee > feeCap then out\<lparr>MinerPenalty := (baseFee - feeCap) * gasUsed\<rparr> else out);
          out = (if chargeNetworkFee then out\<lparr>BaseFeeBurn := baseFeeToPay * gasUsed\<rparr> else out);
          minerTip = (if baseFeeToPay + gasPremium > feeCap then feeCap - baseFeeToPay else gasPremium);
          out = out\<lparr>MinerTip := minerTip * gasLimit\<rparr>;
          rb = ComputeGasOverestimationBurn gasUsed gasLimit;
          out = out\<lparr>GasRefund := fst rb, GasBurned := snd rb\<rparr>;
          out = (if GasBurned out \<noteq> 0
                 then out\<lparr>OverEstimationBurn := baseFeeToPay * GasBurned out,
                          MinerPenalty := MinerPenalty out + (baseFee - baseFeeToPay) * GasBurned out\<rparr>
                 else out);
          requiredFunds = gasLimit * feeCap;
          refund = requiredFunds - BaseFeeBurn out;
          refund = refund - MinerTip out;
          refund = refund - OverEstimationBurn out
      in out\<lparr>Refund := refund\<rparr>)"

subsection \<open>The overestimation burn\<close>

text \<open>Gas limits up to a block's limit (and far beyond) keep all the products in range.\<close>

definition gas_ok :: "int \<Rightarrow> int \<Rightarrow> bool" where
  "gas_ok gasUsed gasLimit \<longleftrightarrow> 0 \<le> gasUsed \<and> gasUsed \<le> gasLimit \<and> gasOveruseNum * gasLimit < 2 ^ 63"

text \<open>The burn without machine arithmetic: the excess scaled by the capped overuse.\<close>

definition overuse :: "int \<Rightarrow> int \<Rightarrow> int" where
  "overuse gasUsed gasLimit = min (gasLimit - 11 * gasUsed div 10) gasUsed"

definition burn_spec :: "int \<Rightarrow> int \<Rightarrow> int" where
  "burn_spec gasUsed gasLimit =
     (if gasUsed = 0 then gasLimit
      else if overuse gasUsed gasLimit < 0 then 0
      else (gasLimit - gasUsed) * overuse gasUsed gasLimit div gasUsed)"

lemma burn_spec_bounds:
  assumes "0 \<le> gasUsed" and "gasUsed \<le> gasLimit"
  shows "0 \<le> burn_spec gasUsed gasLimit" and "burn_spec gasUsed gasLimit \<le> gasLimit - gasUsed"
proof -
  have le: "(gasLimit - gasUsed) * overuse gasUsed gasLimit div gasUsed \<le> gasLimit - gasUsed"
    if "gasUsed \<noteq> 0"
  proof -
    have "(gasLimit - gasUsed) * overuse gasUsed gasLimit \<le> (gasLimit - gasUsed) * gasUsed"
      using assms by (intro mult_left_mono) (auto simp: overuse_def)
    then have "(gasLimit - gasUsed) * overuse gasUsed gasLimit div gasUsed
        \<le> (gasLimit - gasUsed) * gasUsed div gasUsed"
      using assms that by (intro zdiv_mono1) auto
    then show ?thesis using that by simp
  qed
  show "burn_spec gasUsed gasLimit \<le> gasLimit - gasUsed"
    using le assms by (auto simp: burn_spec_def)
  show "0 \<le> burn_spec gasUsed gasLimit"
    using assms by (auto simp: burn_spec_def pos_imp_zdiv_nonneg_iff)
qed

lemma overestimation_refines:
  assumes "gas_ok gasUsed gasLimit"
  shows "ComputeGasOverestimationBurn gasUsed gasLimit =
    (gasLimit - gasUsed - burn_spec gasUsed gasLimit, burn_spec gasUsed gasLimit)"
proof (cases "gasUsed = 0")
  case True
  then show ?thesis by (simp add: ComputeGasOverestimationBurn_def burn_spec_def)
next
  case False
  let ?over = "gasLimit - 11 * gasUsed div 10"
  from assms False have u: "0 < gasUsed" "gasUsed \<le> gasLimit" "11 * gasLimit < 2 ^ 63"
    by (auto simp: gas_ok_def gasOveruseNum_def)
  have in1: "in64 (11 * gasUsed)" "in64 ?over" "in64 (gasLimit - gasUsed)"
    using u by (auto simp: in64_def)
  have q: "sub64 gasLimit (quot64 (mul64 gasOveruseNum gasUsed) gasOveruseDenom) = ?over"
    using u in1 by (simp add: i64_simps gasOveruseNum_def gasOveruseDenom_def)
  have d: "sub64 gasLimit gasUsed = gasLimit - gasUsed"
    using in1 by (simp add: i64_simps)
  have b: "0 \<le> burn_spec gasUsed gasLimit" "burn_spec gasUsed gasLimit \<le> gasLimit - gasUsed"
    using burn_spec_bounds u by simp_all
  then have in2: "in64 (burn_spec gasUsed gasLimit)"
      "in64 (gasLimit - gasUsed - burn_spec gasUsed gasLimit)"
    using in1(3) u by (auto simp: in64_def)
  have neg: "overuse gasUsed gasLimit < 0 \<longleftrightarrow> ?over < 0"
    using u by (auto simp: overuse_def min_def)
  have capped: "(if ?over > gasUsed then gasUsed else ?over) = overuse gasUsed gasLimit"
    by (auto simp: overuse_def min_def)
  show ?thesis
  proof (cases "?over < 0")
    case True
    then show ?thesis
      using False neg by (simp add: ComputeGasOverestimationBurn_def q d burn_spec_def)
  next
    case nonneg: False
    have burn: "(gasLimit - gasUsed) * overuse gasUsed gasLimit div gasUsed
        = burn_spec gasUsed gasLimit"
      using False nonneg neg by (simp add: burn_spec_def)
    show ?thesis
      using False nonneg u in2 unfolding ComputeGasOverestimationBurn_def q d Let_def capped
      by (simp add: big_div_def burn i64_simps)
  qed
qed

lemma burn_spec_mono:
  assumes "0 \<le> gasUsed" and "gasUsed \<le> l1" and "l1 \<le> l2"
  shows "burn_spec gasUsed l1 \<le> burn_spec gasUsed l2"
proof (cases "gasUsed = 0 \<or> overuse gasUsed l1 < 0")
  case True
  then show ?thesis
    using assms burn_spec_bounds(1) [of gasUsed l2] by (auto simp: burn_spec_def)
next
  case False
  have ov: "overuse gasUsed l1 \<le> overuse gasUsed l2"
    using assms by (auto simp: overuse_def)
  have "(l1 - gasUsed) * overuse gasUsed l1 \<le> (l2 - gasUsed) * overuse gasUsed l2"
    using assms False ov by (intro mult_mono) auto
  then show ?thesis
    using assms False ov by (auto simp: burn_spec_def intro!: zdiv_mono1)
qed

text \<open>
  The overestimation burn splits the unused gas exactly: what is refunded and what is burned
  add up to the limit less the gas used, and neither is negative, for every gas limit the 64-bit
  products can hold (a block's limit is far below it).
\<close>

theorem overestimation_burn_splits_unused_gas:
  assumes "gas_ok gasUsed gasLimit"
    and "ComputeGasOverestimationBurn gasUsed gasLimit = (refund, burn)"
  shows "refund + burn = gasLimit - gasUsed \<and> 0 \<le> refund \<and> 0 \<le> burn"
proof -
  have r: "refund = gasLimit - gasUsed - burn" and b: "burn = burn_spec gasUsed gasLimit"
    using assms(2) unfolding overestimation_refines [OF assms(1)] by simp_all
  have u: "0 \<le> gasUsed" "gasUsed \<le> gasLimit"
    using assms(1) by (simp_all add: gas_ok_def)
  show ?thesis
    using r b burn_spec_bounds [OF u] by simp
qed

theorem overestimation_burn_splits_unused_gas_witness:
  "\<exists>refund burn. ComputeGasOverestimationBurn 1000 2000 = (refund, burn) \<and> refund = 100 \<and> burn = 900
     \<and> refund + burn = 2000 - 1000 \<and> 0 \<le> refund \<and> 0 \<le> burn"
proof -
  have ok: "gas_ok 1000 2000" by (simp add: gas_ok_def gasOveruseNum_def)
  have eq: "ComputeGasOverestimationBurn 1000 2000 = (100, 900)" by code_simp
  show ?thesis using eq overestimation_burn_splits_unused_gas [OF ok eq] by simp
qed

text \<open>
  Asking for more gas never lowers the burn: with the gas used fixed, the burned amount grows
  with the gas limit, so over-estimating cannot be made cheaper by over-estimating more.
\<close>

theorem overestimation_burn_monotone:
  assumes "gas_ok gasUsed limit1" and "gas_ok gasUsed limit2" and "limit1 \<le> limit2"
  shows "snd (ComputeGasOverestimationBurn gasUsed limit1)
    \<le> snd (ComputeGasOverestimationBurn gasUsed limit2)"
  using assms burn_spec_mono [of gasUsed limit1 limit2]
  by (simp add: overestimation_refines) (simp add: gas_ok_def)

theorem overestimation_burn_monotone_witness:
  "snd (ComputeGasOverestimationBurn 1000 1200) \<le> snd (ComputeGasOverestimationBurn 1000 5000)
   \<and> snd (ComputeGasOverestimationBurn 1000 1200) = 20
   \<and> snd (ComputeGasOverestimationBurn 1000 5000) = 4000"
proof -
  have ok: "gas_ok 1000 1200" "gas_ok 1000 5000" by (simp_all add: gas_ok_def gasOveruseNum_def)
  have v: "ComputeGasOverestimationBurn 1000 1200 = (180, 20)"
      "ComputeGasOverestimationBurn 1000 5000 = (0, 4000)"
    by code_simp+
  show ?thesis using overestimation_burn_monotone [OF ok] v by simp
qed

subsection \<open>The split of the gas funds\<close>

text \<open>
  The sender's gas funds are \<open>gasLimit * feeCap\<close>. The four shares add up to them by construction of
  the refund; that the refund is not negative is where the caps on the base fee and the tip matter.
\<close>

lemma gas_outputs_fields:
  fixes gasUsed gasLimit baseFee feeCap gasPremium :: int and charge :: bool
  assumes "ComputeGasOverestimationBurn gasUsed gasLimit = (refund, burn)"
  defines "toPay \<equiv> min baseFee feeCap"
  defines "out \<equiv> ComputeGasOutputs gasUsed gasLimit baseFee feeCap gasPremium charge"
  shows "BaseFeeBurn out = (if charge then toPay * gasUsed else 0)"
    and "OverEstimationBurn out = toPay * burn"
    and "MinerTip out = min gasPremium (feeCap - toPay) * gasLimit"
    and "MinerPenalty out = (baseFee - toPay) * (gasUsed + burn)"
    and "Refund out = gasLimit * feeCap - BaseFeeBurn out - MinerTip out - OverEstimationBurn out"
    and "GasRefund out = refund" and "GasBurned out = burn"
  using assms(1)
  by (auto simp: out_def toPay_def ComputeGasOutputs_def ZeroGasOutputs_def Let_def min_def
      algebra_simps)

lemma refund_nonneg:
  fixes gasUsed :: int
  assumes "0 \<le> toPay" "toPay \<le> feeCap" "tip \<le> feeCap - toPay" "0 \<le> gasUsed + burn"
    "gasUsed + burn \<le> gasLimit"
  shows "toPay * gasUsed + tip * gasLimit + toPay * burn \<le> gasLimit * feeCap"
proof -
  have "toPay * (gasUsed + burn) \<le> toPay * gasLimit"
    using assms by (intro mult_left_mono) auto
  moreover have "tip * gasLimit \<le> (feeCap - toPay) * gasLimit"
    using assms by (intro mult_right_mono) auto
  ultimately show ?thesis by (simp add: algebra_simps)
qed

definition fees_ok :: "token \<Rightarrow> token \<Rightarrow> token \<Rightarrow> bool" where
  "fees_ok baseFee feeCap gasPremium \<longleftrightarrow> 0 \<le> baseFee \<and> 0 \<le> feeCap \<and> 0 \<le> gasPremium"

lemma gas_outputs_ok:
  fixes gasUsed gasLimit baseFee feeCap gasPremium :: int and charge :: bool
  assumes "gas_ok gasUsed gasLimit" and "fees_ok baseFee feeCap gasPremium"
  defines "out \<equiv> ComputeGasOutputs gasUsed gasLimit baseFee feeCap gasPremium charge"
  shows "BaseFeeBurn out + MinerTip out + OverEstimationBurn out + Refund out = gasLimit * feeCap"
    and "0 \<le> BaseFeeBurn out" and "0 \<le> MinerTip out" and "0 \<le> OverEstimationBurn out"
    and "0 \<le> Refund out" and "0 \<le> MinerPenalty out"
proof -
  let ?burn = "burn_spec gasUsed gasLimit" and ?toPay = "min baseFee feeCap"
  note f = gas_outputs_fields [OF overestimation_refines [OF assms(1)], of baseFee feeCap gasPremium charge,
      folded out_def]
  from assms(1) have u: "0 \<le> gasUsed" "gasUsed \<le> gasLimit" by (auto simp: gas_ok_def)
  note b = burn_spec_bounds [OF u]
  from assms(2) have t: "0 \<le> ?toPay" "?toPay \<le> feeCap" "?toPay \<le> baseFee"
    by (auto simp: fees_ok_def)
  show "BaseFeeBurn out + MinerTip out + OverEstimationBurn out + Refund out = gasLimit * feeCap"
    using f(5) by simp
  show bb: "0 \<le> BaseFeeBurn out" using f(1) u t by simp
  show "0 \<le> MinerTip out" using f(3) u t assms(2) by (simp add: fees_ok_def)
  show "0 \<le> OverEstimationBurn out" using f(2) b t by simp
  show "0 \<le> MinerPenalty out" using f(4) b u t by simp
  have "?toPay * gasUsed + min gasPremium (feeCap - ?toPay) * gasLimit + ?toPay * ?burn
      \<le> gasLimit * feeCap"
    using u b t by (intro refund_nonneg) auto
  moreover have "BaseFeeBurn out \<le> ?toPay * gasUsed" using f(1) u t by simp
  ultimately show "0 \<le> Refund out" using f(2,3,5) by simp
qed

text \<open>
  C5. The settlement of a message's gas conserves the sender's funds: base-fee burn, miner tip,
  overestimation burn and refund add up to \<open>gasLimit * feeCap\<close>, none of them is negative, and the
  penalty put on the miner is not negative either.
\<close>

theorem gas_outputs_conserve_funds:
  assumes "gas_ok gasUsed gasLimit" and "fees_ok baseFee feeCap gasPremium"
    and "out = ComputeGasOutputs gasUsed gasLimit baseFee feeCap gasPremium charge"
  shows "BaseFeeBurn out + MinerTip out + OverEstimationBurn out + Refund out = gasLimit * feeCap
    \<and> 0 \<le> BaseFeeBurn out \<and> 0 \<le> MinerTip out \<and> 0 \<le> OverEstimationBurn out
    \<and> 0 \<le> Refund out \<and> 0 \<le> MinerPenalty out"
  using gas_outputs_ok [OF assms(1,2)] assms(3) by simp

theorem gas_outputs_conserve_funds_witness:
  "\<exists>out. out = ComputeGasOutputs 1000 2000 100 60 30 True
     \<and> BaseFeeBurn out = 60000 \<and> MinerTip out = 0 \<and> OverEstimationBurn out = 54000
     \<and> Refund out = 6000 \<and> MinerPenalty out = 76000
     \<and> BaseFeeBurn out + MinerTip out + OverEstimationBurn out + Refund out = 2000 * 60"
proof -
  have ok: "gas_ok 1000 2000" "fees_ok 100 60 30"
    by (simp_all add: gas_ok_def gasOveruseNum_def fees_ok_def)
  have v: "BaseFeeBurn (ComputeGasOutputs 1000 2000 100 60 30 True) = 60000
      \<and> MinerTip (ComputeGasOutputs 1000 2000 100 60 30 True) = 0
      \<and> OverEstimationBurn (ComputeGasOutputs 1000 2000 100 60 30 True) = 54000
      \<and> Refund (ComputeGasOutputs 1000 2000 100 60 30 True) = 6000
      \<and> MinerPenalty (ComputeGasOutputs 1000 2000 100 60 30 True) = 76000"
    by code_simp
  show ?thesis
    using v gas_outputs_conserve_funds [OF ok refl, of True] by blast
qed

subsection \<open>The choice of a price list\<close>

text \<open>
  The table of price lists as its user relies on it: one entry per epoch, and one for epoch 0. The
  iteration order of the Go map is not fixed, so the lemmas hold for every order of the entries.
\<close>

locale price_table =
  fixes prices :: "(epoch \<times> 'p) list"
  assumes one_per_epoch: "distinct (map fst prices)"
    and has_genesis: "0 \<in> fst ` set prices"
begin

lemma loop_latest:
  assumes "distinct (map fst ps)" and "PricelistByEpoch_loop ps ep (b, v) = (r, w)"
  shows "(r = b \<and> w = v \<or> b < r \<and> r \<le> ep \<and> (r, the w) \<in> set ps \<and> w \<noteq> None)
    \<and> (\<forall>e \<in> fst ` set ps. e \<le> ep \<longrightarrow> e \<le> r)"
  using assms
proof (induction ps arbitrary: b v)
  case Nil
  then show ?case by simp
next
  case (Cons p ps)
  obtain e pl where p: "p = (e, pl)" by (cases p)
  show ?case
  proof (cases "b < e \<and> e \<le> ep")
    case True
    then have "(r = e \<and> w = Some pl \<or> e < r \<and> r \<le> ep \<and> (r, the w) \<in> set ps \<and> w \<noteq> None)
        \<and> (\<forall>e \<in> fst ` set ps. e \<le> ep \<longrightarrow> e \<le> r)"
      by (intro Cons.IH) (use Cons.prems p in auto)
    then show ?thesis using True p by auto
  next
    case False
    then have "(r = b \<and> w = v \<or> b < r \<and> r \<le> ep \<and> (r, the w) \<in> set ps \<and> w \<noteq> None)
        \<and> (\<forall>e \<in> fst ` set ps. e \<le> ep \<longrightarrow> e \<le> r)"
      by (intro Cons.IH) (use Cons.prems p in auto)
    then show ?thesis using False p by auto
  qed
qed

text \<open>The list in force at an epoch, as a function of the table alone.\<close>

lemma in_force:
  assumes "(e, pl) \<in> set prices" and "0 \<le> e" and "e \<le> ep \<or> e = 0"
    and "\<And>e'. e' \<in> fst ` set prices \<Longrightarrow> e' \<le> ep \<Longrightarrow> e' \<le> e"
  shows "PricelistByEpoch prices ep = Some pl"
proof -
  obtain r w where rw: "PricelistByEpoch_loop prices ep (0, map_of prices 0) = (r, w)" by fastforce
  note l = loop_latest [OF one_per_epoch rw]
  have e: "map_of prices e = Some pl" using assms(1) one_per_epoch by simp
  have "e \<in> fst ` set prices" using assms(1) by force
  then have "e \<le> r" using l assms(2,3) by auto
  moreover have "r \<le> e"
    using l assms(2,4) by (metis fst_conv image_eqI)
  ultimately have "r = e" by simp
  moreover have "map_of prices r = w"
    using l one_per_epoch by auto
  ultimately show ?thesis using rw e by (simp add: PricelistByEpoch_def)
qed

lemma latest_exists:
  "\<exists>e pl. (e, pl) \<in> set prices \<and> 0 \<le> e \<and> (e \<le> ep \<or> e = 0)
     \<and> (\<forall>e' \<in> fst ` set prices. e' \<le> ep \<longrightarrow> e' \<le> e)"
proof -
  let ?C = "insert 0 {e \<in> fst ` set prices. 0 < e \<and> e \<le> ep}"
  have m: "Max ?C \<in> ?C" by (rule Max_in) simp_all
  then have "Max ?C = 0 \<or> Max ?C \<in> fst ` set prices" by blast
  then have "Max ?C \<in> fst ` set prices" using has_genesis by (elim disjE) (simp_all only:)
  moreover have "e' \<le> Max ?C" if "e' \<in> fst ` set prices" "e' \<le> ep" for e'
  proof (cases "0 < e'")
    case True
    then show ?thesis using that by (intro Max_ge) simp_all
  next
    case False
    moreover have "0 \<le> Max ?C" by (rule Max_ge) simp_all
    ultimately show ?thesis by linarith
  qed
  moreover have "0 \<le> Max ?C" by (rule Max_ge) simp_all
  moreover have "Max ?C \<le> ep \<or> Max ?C = 0" using m by blast
  ultimately show ?thesis by (metis (no_types, lifting) image_iff prod.collapse)
qed

lemma never_panics: "PricelistByEpoch prices ep \<noteq> None"
  using latest_exists [of ep] in_force by (metis option.distinct(1))

lemma order_irrelevant:
  assumes "mset prices' = mset prices"
  shows "PricelistByEpoch prices' ep = PricelistByEpoch prices ep"
proof -
  have s: "set prices' = set prices" using assms by (rule mset_eq_setD)
  have "distinct (map fst prices')"
    using one_per_epoch mset_map [of fst prices] mset_map [of fst prices'] assms
    by (metis mset_eq_imp_distinct_iff)
  then have p': "price_table prices'" using s has_genesis by unfold_locales auto
  obtain e pl where e: "(e, pl) \<in> set prices" "0 \<le> e" "e \<le> ep \<or> e = 0"
      "\<forall>e' \<in> fst ` set prices. e' \<le> ep \<longrightarrow> e' \<le> e"
    using latest_exists [of ep] by blast
  have "PricelistByEpoch prices' ep = Some pl"
    by (rule price_table.in_force [OF p' _ e(2,3)]) (use e s in auto)
  moreover have "PricelistByEpoch prices ep = Some pl"
    by (rule in_force [OF e(1,2,3)]) (use e in auto)
  ultimately show ?thesis by simp
qed

end

lemma price_table_Prices: "calico \<noteq> 0 \<Longrightarrow> price_table (Prices calico)"
  by unfold_locales (auto simp: Prices_def)

interpretation mainnet: price_table "Prices 265200"
  by (rule price_table_Prices) simp

interpretation calibnet: price_table "Prices 120"
  by (rule price_table_Prices) simp

text \<open>
  The price list of an epoch does not depend on the order in which Go iterates the table: any
  order of the entries gives the genesis list before the Calico upgrade and the Calico list from
  the upgrade on, and the lookup never reaches its panic.
\<close>

theorem pricelist_by_epoch_order_independent:
  assumes "0 < calico" and "mset entries = mset (Prices calico)"
  shows "PricelistByEpoch entries ep = Some (if calico \<le> ep then prices_calico else prices_genesis)"
proof -
  have t: "price_table (Prices calico)" using assms(1) by (simp add: price_table_Prices)
  have "PricelistByEpoch (Prices calico) ep = Some (if calico \<le> ep then prices_calico else prices_genesis)"
    using assms(1)
    by (intro price_table.in_force [OF t, of "if calico \<le> ep then calico else 0"])
      (auto simp: Prices_def split: if_splits)
  then show ?thesis using price_table.order_irrelevant [OF t assms(2), of ep] by simp
qed

theorem pricelist_by_epoch_order_independent_witness:
  "PricelistByEpoch [(265200, prices_calico), (0, prices_genesis)] 300000 = Some prices_calico
   \<and> PricelistByEpoch [(265200, prices_calico), (0, prices_genesis)] 1000 = Some prices_genesis"
  using pricelist_by_epoch_order_independent
      [of 265200 "[(265200, prices_calico), (0, prices_genesis)]" 300000]
    pricelist_by_epoch_order_independent
      [of 265200 "[(265200, prices_calico), (0, prices_genesis)]" 1000]
  by (simp add: Prices_def add_mset_commute)

subsection \<open>Step costs\<close>

lemma Lookup_loop_takeWhile:
  "Lookup_loop sc x i = i + length (takeWhile (\<lambda>s. fst s \<le> x) sc)"
  by (induction sc arbitrary: i) auto

lemma Lookup_takeWhile:
  "Lookup sc x = (if takeWhile (\<lambda>s. fst s \<le> x) sc = [] then 0
                  else snd (last (takeWhile (\<lambda>s. fst s \<le> x) sc)))"
proof -
  let ?t = "takeWhile (\<lambda>s. fst s \<le> x) sc"
  have "sc ! (length ?t - 1) = last ?t" if "?t \<noteq> []"
    using that by (simp add: last_conv_nth takeWhile_nth)
  then show ?thesis by (auto simp: Lookup_def Lookup_loop_takeWhile)
qed

lemma takeWhile_le_prefix:
  "x \<le> y \<Longrightarrow> \<exists>zs. takeWhile (\<lambda>s. fst s \<le> (y::int)) sc = takeWhile (\<lambda>s. fst s \<le> x) sc @ zs
     \<and> set zs \<subseteq> set sc"
  by (induction sc) (auto dest: set_takeWhileD)

lemma Lookup_mono:
  assumes "sorted (map snd sc)" and "\<forall>s \<in> set sc. 0 \<le> snd s" and "x \<le> y"
  shows "Lookup sc x \<le> Lookup sc y"
proof -
  let ?a = "takeWhile (\<lambda>s. fst s \<le> x) sc"
  obtain zs where b: "takeWhile (\<lambda>s. fst s \<le> y) sc = ?a @ zs" and "set zs \<subseteq> set sc"
    using takeWhile_le_prefix [OF assms(3)] by blast
  then have zs: "\<forall>s \<in> set zs. 0 \<le> snd s" using assms(2) by blast
  obtain rest where "sc = (?a @ zs) @ rest"
    using b by (metis takeWhile_dropWhile_id)
  then have "sorted (map snd (?a @ zs))"
    using assms(1) by (metis map_append sorted_append)
  then have "snd s \<le> snd t" if "s \<in> set ?a" "t \<in> set zs" for s t
    using that unfolding map_append sorted_append by auto
  then show ?thesis
    unfolding Lookup_takeWhile b using zs by (cases "zs = []") auto
qed

lemma Lookup_bounds:
  assumes "\<forall>s \<in> set sc. 0 \<le> snd s \<and> snd s \<le> B" and "0 \<le> B"
  shows "0 \<le> Lookup sc x \<and> Lookup sc x \<le> B"
proof (cases "takeWhile (\<lambda>s. fst s \<le> x) sc = []")
  case True
  then show ?thesis using assms(2) by (simp add: Lookup_takeWhile)
next
  case False
  then have "last (takeWhile (\<lambda>s. fst s \<le> x) sc) \<in> set sc"
    using last_in_set set_takeWhileD by metis
  then show ?thesis using False assms(1) by (simp add: Lookup_takeWhile)
qed

lemma in64_small_sum: "0 \<le> x \<Longrightarrow> x \<le> 2 ^ 52 \<Longrightarrow> 0 \<le> l \<Longrightarrow> l < 2 ^ 40 \<Longrightarrow> in64 x \<and> in64 (x + l)"
  by (simp add: in64_def)

lemma aggregate_gas_exact:
  assumes "0 \<le> n" "n < 2 ^ 32" "0 \<le> per" "per < 2 ^ 20" "0 \<le> l" "l < 2 ^ 40"
  shows "add64 (mul64 per n) l = per * n + l"
proof -
  have "per * n \<le> 2 ^ 20 * 2 ^ 32" using assms by (intro mult_mono) auto
  then have "in64 (per * n) \<and> in64 (per * n + l)"
    using assms by (intro in64_small_sum) simp_all
  then show ?thesis by (simp add: i64_simps)
qed

text \<open>The two step tables, and the one a proof type is priced by.\<close>

definition calico_steps :: "RegisteredSealProof \<Rightarrow> stepCost" where
  "calico_steps proofType =
     the (verifyAggregateSealSteps prices_calico
       (if proofType = StackedDrg64GiBV1_1 then StackedDrg64GiBV1_1 else StackedDrg32GiBV1_1))"

definition calico_per :: "RegisteredSealProof \<Rightarrow> int" where
  "calico_per proofType = (if proofType = StackedDrg64GiBV1_1 then 359272 else 449900)"

lemma calico_steps_facts:
  "sorted (map snd (calico_steps p))" "\<forall>s \<in> set (calico_steps p). 0 \<le> snd s \<and> snd s \<le> 528274980"
  by (simp_all add: calico_steps_def prices_calico_def)

lemma aggregate_gas_calico:
  assumes "0 \<le> n" "n < 2 ^ 32"
  shows "ComputeGas (OnVerifyAggregateSeals prices_calico p n) = calico_per p * n + Lookup (calico_steps p) n"
proof -
  have l: "0 \<le> Lookup (calico_steps p) n \<and> Lookup (calico_steps p) n \<le> 528274980"
    by (rule Lookup_bounds) (use calico_steps_facts in auto)
  have "OnVerifyAggregateSeals prices_calico p n =
      newGasCharge ''OnVerifyAggregateSeals'' (add64 (mul64 (calico_per p) n) (Lookup (calico_steps p) n)) 0"
    by (cases p) (simp_all add: OnVerifyAggregateSeals_def calico_per_def calico_steps_def map_int_def
        prices_calico_def)
  moreover have "add64 (mul64 (calico_per p) n) (Lookup (calico_steps p) n)
      = calico_per p * n + Lookup (calico_steps p) n"
    by (rule aggregate_gas_exact) (use assms l in \<open>simp_all add: calico_per_def\<close>)
  ultimately show ?thesis by (simp add: newGasCharge_def)
qed

text \<open>
  Under the Calico price list, verifying an aggregate of more seal proofs never costs less gas
  (for any proof type, known to the table or priced by its 32 GiB fallback).
\<close>

theorem verify_aggregate_seals_gas_monotone:
  assumes "0 \<le> n" and "n \<le> m" and "m < 2 ^ 32"
  shows "ComputeGas (OnVerifyAggregateSeals prices_calico proofType n)
    \<le> ComputeGas (OnVerifyAggregateSeals prices_calico proofType m)"
proof -
  have "Lookup (calico_steps proofType) n \<le> Lookup (calico_steps proofType) m"
    by (rule Lookup_mono) (use calico_steps_facts assms(2) in auto)
  moreover have "calico_per proofType * n \<le> calico_per proofType * m"
    using assms(2) by (simp add: calico_per_def)
  ultimately show ?thesis using assms by (simp add: aggregate_gas_calico)
qed

theorem verify_aggregate_seals_gas_monotone_witness:
  "ComputeGas (OnVerifyAggregateSeals prices_calico StackedDrg32GiBV1_1 5)
    \<le> ComputeGas (OnVerifyAggregateSeals prices_calico StackedDrg32GiBV1_1 13)"
  using verify_aggregate_seals_gas_monotone [of 5 13 StackedDrg32GiBV1_1] by simp

end
