(* ===== verification/StateTree.thy ===== *)
theory StateTree
  imports Lotus_Prelude "HOL-Library.AList"
begin

section \<open>The state tree: actors over a stack of snapshot layers\<close>

text \<open>
  Models \<open>src/chain/state/statetree.go\<close>. The tree reads actors through a stack of layers, the last
  of which is written; a snapshot pushes a layer, reverting replaces the last one by an empty one,
  clearing merges it into the one below. Each layer also caches resolved addresses, and an index
  remembers the highest layer whose cache may hold anything.

  A Go map is an association list with distinct keys, whose order is the order of one iteration.
  The HAMT behind \<open>root\<close>, the init actor's state and the block store are not part of the
  repository: they are the fields of \<open>tree_env\<close>, over an arbitrary type of HAMT roots. An index
  out of range is the error \<open>PanicIndex\<close>.
\<close>

record Actor =
  Code :: cid
  Head :: cid
  Nonce :: int
  Balance :: token

definition Actor_zero :: Actor where
  "Actor_zero = \<lparr>Code = '''', Head = '''', Nonce = 0, Balance = 0\<rparr>"

datatype st_error =
    ErrActorNotFound
  | ErrUndefAddress
  | ErrFlushWithSnapshots
  | ErrUnsupportedVersion
  | ErrOther string
  | PanicIndex

record streeOp =
  Act :: Actor
  Delete :: bool

record stateSnapLayer =
  actors :: "(address \<times> streeOp) list"
  resolveCache :: "(address \<times> address) list"

record stateSnaps =
  layers :: "stateSnapLayer list"
  lastMaybeNonEmptyResolveCache :: int

record 'h StateTree =
  root :: 'h
  tree_version :: nat
  info :: cid
  snaps :: stateSnaps

text \<open>
  What the tree calls outside the repository: the HAMT's \<open>Get\<close>, \<open>Put\<close>, \<open>Delete\<close> and \<open>ForEach\<close>, the
  address table of the init actor (\<open>init_.Load\<close> and \<open>ResolveAddress\<close>, \<open>MapAddressToNewID\<close> with the
  store of the new state), the creation of a tree and the storage of the root.
\<close>

record 'h tree_env =
  rootGet :: "'h \<Rightarrow> address \<Rightarrow> string + Actor option"
  rootPut :: "'h \<Rightarrow> address \<Rightarrow> Actor \<Rightarrow> string + 'h"
  rootDelete :: "'h \<Rightarrow> address \<Rightarrow> string + 'h"
  rootEntries :: "'h \<Rightarrow> (address \<times> Actor) list"
  rootFlush :: "'h \<Rightarrow> string + cid"
  storePutRoot :: "nat \<Rightarrow> cid \<Rightarrow> cid \<Rightarrow> string + cid"
  storePutInfo :: "string + cid"
  storeGetRoot :: "cid \<Rightarrow> string + nat \<times> cid \<times> cid"
  newTree :: "nat \<Rightarrow> string + 'h"
  loadTree :: "nat \<Rightarrow> cid \<Rightarrow> string + 'h"
  initResolve :: "Actor \<Rightarrow> address \<Rightarrow> string + address option"
  initMapNew :: "Actor \<Rightarrow> address \<Rightarrow> string + address \<times> cid"

subsection \<open>Snapshot layers\<close>

definition newStateSnapLayer :: stateSnapLayer where
  "newStateSnapLayer = \<lparr>actors = [], resolveCache = []\<rparr>"

definition addLayer :: "stateSnaps \<Rightarrow> stateSnaps" where
  "addLayer ss = ss\<lparr>layers := layers ss @ [newStateSnapLayer]\<rparr>"

definition newStateSnaps :: stateSnaps where
  "newStateSnaps = addLayer \<lparr>layers = [], lastMaybeNonEmptyResolveCache = 0\<rparr>"

text \<open>\<open>None\<close> is the panic of indexing an empty stack.\<close>

definition dropLayer :: "stateSnaps \<Rightarrow> stateSnaps option" where
  "dropLayer ss =
     (if layers ss = [] then None
      else
        let ss = ss\<lparr>layers := butlast (layers ss)\<rparr>
        in Some (if lastMaybeNonEmptyResolveCache ss = int (length (layers ss))
                 then ss\<lparr>lastMaybeNonEmptyResolveCache := int (length (layers ss)) - 1\<rparr>
                 else ss))"

fun put_all :: "('k \<times> 'v) list \<Rightarrow> ('k \<times> 'v) list \<Rightarrow> ('k \<times> 'v) list" where
  "put_all [] m = m"
| "put_all ((k, v) # kvs) m = put_all kvs (AList.update k v m)"

definition mergeLastLayer :: "stateSnaps \<Rightarrow> stateSnaps option" where
  "mergeLastLayer ss =
     (if length (layers ss) < 2 then None
      else
        let last = layers ss ! (length (layers ss) - 1);
            nextLast = layers ss ! (length (layers ss) - 2);
            nextLast = nextLast\<lparr>actors := put_all (actors last) (actors nextLast),
                                resolveCache := put_all (resolveCache last) (resolveCache nextLast)\<rparr>
        in dropLayer (ss\<lparr>layers := (layers ss)[length (layers ss) - 2 := nextLast]\<rparr>))"

text \<open>The loop runs from index \<open>i - 1\<close> down to 0, lowering the hint past empty caches.\<close>

fun resolveAddress_loop ::
  "stateSnapLayer list \<Rightarrow> address \<Rightarrow> nat \<Rightarrow> int \<Rightarrow> (address option \<times> int) option"
where
  "resolveAddress_loop ls addr 0 lm = Some (None, lm)"
| "resolveAddress_loop ls addr (Suc i) lm =
     (if i \<ge> length ls then None
      else if resolveCache (ls ! i) = []
      then resolveAddress_loop ls addr i (if lm = int i then int i - 1 else lm)
      else case map_of (resolveCache (ls ! i)) addr of
             Some resa \<Rightarrow> Some (Some resa, lm)
           | None \<Rightarrow> resolveAddress_loop ls addr i lm)"

definition resolveAddress :: "stateSnaps \<Rightarrow> address \<Rightarrow> (address option \<times> stateSnaps) option" where
  "resolveAddress ss addr =
     map_option (\<lambda>(r, lm). (r, ss\<lparr>lastMaybeNonEmptyResolveCache := lm\<rparr>))
       (resolveAddress_loop (layers ss) addr (nat (lastMaybeNonEmptyResolveCache ss + 1))
          (lastMaybeNonEmptyResolveCache ss))"

definition upd_last :: "(stateSnapLayer \<Rightarrow> stateSnapLayer) \<Rightarrow> stateSnaps \<Rightarrow> stateSnaps option" where
  "upd_last f ss =
     (if layers ss = [] then None
      else Some (ss\<lparr>layers := butlast (layers ss) @ [f (last (layers ss))]\<rparr>))"

definition cacheResolveAddress :: "stateSnaps \<Rightarrow> address \<Rightarrow> address \<Rightarrow> stateSnaps option" where
  "cacheResolveAddress ss addr resa =
     map_option (\<lambda>ss. ss\<lparr>lastMaybeNonEmptyResolveCache := int (length (layers ss)) - 1\<rparr>)
       (upd_last (\<lambda>l. l\<lparr>resolveCache := AList.update addr resa (resolveCache l)\<rparr>) ss)"

text \<open>The search through the layers, from the last to the first.\<close>

fun layer_lookup :: "stateSnapLayer list \<Rightarrow> address \<Rightarrow> streeOp option" where
  "layer_lookup [] addr = None"
| "layer_lookup (l # ls) addr =
     (case layer_lookup ls addr of Some oper \<Rightarrow> Some oper | None \<Rightarrow> map_of (actors l) addr)"

text \<open>
  \<open>getActor\<close> answers \<open>Inl\<close> for a deleted actor, \<open>Inr None\<close> where no layer knows the address.
\<close>

definition getActor :: "stateSnaps \<Rightarrow> address \<Rightarrow> st_error + Actor option" where
  "getActor ss addr =
     (case layer_lookup (layers ss) addr of
        None \<Rightarrow> Inr None
      | Some oper \<Rightarrow> if Delete oper then Inl ErrActorNotFound else Inr (Some (Act oper)))"

definition setActor :: "stateSnaps \<Rightarrow> address \<Rightarrow> Actor \<Rightarrow> stateSnaps option" where
  "setActor ss addr act =
     upd_last (\<lambda>l. l\<lparr>actors := AList.update addr \<lparr>Act = act, Delete = False\<rparr> (actors l)\<rparr>) ss"

definition deleteActor :: "stateSnaps \<Rightarrow> address \<Rightarrow> stateSnaps option" where
  "deleteActor ss addr =
     upd_last (\<lambda>l. l\<lparr>actors := AList.update addr \<lparr>Act = Actor_zero, Delete = True\<rparr> (actors l)\<rparr>) ss"

subsection \<open>Versions and creation\<close>

definition VersionForNetwork :: "nat \<Rightarrow> nat option" where
  "VersionForNetwork ver =
     (if ver \<in> {0, 1, 2, 3} then Some 0
      else if ver \<in> {4, 5, 6, 7, 8, 9} then Some 1
      else if ver \<in> {10, 11} then Some 2
      else if ver = 12 then Some 3
      else if ver \<in> {13, 14, 15, 16, 17} then Some 4
      else None)"

definition NewStateTree :: "'h tree_env \<Rightarrow> nat \<Rightarrow> st_error + 'h StateTree" where
  "NewStateTree env ver =
     (case (if ver = 0 then Inr '''' else if ver \<le> 4 then
              (case storePutInfo env of Inl e \<Rightarrow> Inl (ErrOther e) | Inr c \<Rightarrow> Inr c)
            else Inl ErrUnsupportedVersion) of
        Inl e \<Rightarrow> Inl e
      | Inr nfo \<Rightarrow>
          (case newTree env ver of
             Inl e \<Rightarrow> Inl (ErrOther e)
           | Inr h \<Rightarrow> Inr \<lparr>root = h, tree_version = ver, info = nfo, snaps = newStateSnaps\<rparr>))"

text \<open>
  A CID that does not decode as a version/actors/info tuple is taken as the actors root of a
  version 0 tree, with an undefined \<open>info\<close>.
\<close>

definition LoadStateTree :: "'h tree_env \<Rightarrow> cid \<Rightarrow> st_error + 'h StateTree" where
  "LoadStateTree env c =
     (case (case storeGetRoot env c of Inl e \<Rightarrow> (0, c, '''') | Inr r \<Rightarrow> r) of
        (ver, actors_root, nfo) \<Rightarrow>
          if 4 < ver then Inl ErrUnsupportedVersion
          else
            case loadTree env ver actors_root of
              Inl e \<Rightarrow> Inl (ErrOther e)
            | Inr h \<Rightarrow> Inr \<lparr>root = h, tree_version = ver, info = nfo, snaps = newStateSnaps\<rparr>)"

subsection \<open>Reading and writing actors\<close>

definition InitAddress :: address where
  "InitAddress = AddrID 1"

text \<open>A layer operation on a tree; a panic leaves the tree as it was.\<close>

definition on_snaps ::
  "(stateSnaps \<Rightarrow> stateSnaps option) \<Rightarrow> 'h StateTree \<Rightarrow> (st_error + unit) \<times> 'h StateTree"
where
  "on_snaps f st =
     (case f (snaps st) of
        None \<Rightarrow> (Inl PanicIndex, st)
      | Some ss \<Rightarrow> (Inr (), st\<lparr>snaps := ss\<rparr>))"

text \<open>The part of \<open>GetActor\<close> after the address is resolved.\<close>

definition GetActor_resolved ::
  "'h tree_env \<Rightarrow> 'h StateTree \<Rightarrow> address \<Rightarrow> (st_error + Actor) \<times> 'h StateTree"
where
  "GetActor_resolved env st addr =
     (case getActor (snaps st) addr of
        Inl e \<Rightarrow> (Inl e, st)
      | Inr (Some act) \<Rightarrow> (Inr act, st)
      | Inr None \<Rightarrow>
          (case rootGet env (root st) addr of
             Inl e \<Rightarrow> (Inl (ErrOther e), st)
           | Inr None \<Rightarrow> (Inl ErrActorNotFound, st)
           | Inr (Some act) \<Rightarrow>
               (case on_snaps (\<lambda>ss. setActor ss addr act) st of
                  (Inl e, st) \<Rightarrow> (Inl e, st)
                | (Inr _, st) \<Rightarrow> (Inr act, st))))"

text \<open>
  \<open>init_.Address\<close> is an ID address, so \<open>GetActor(init_.Address)\<close> resolves it to itself; this is
  \<open>GetActor_resolved\<close> at that address (\<open>GetActor_id\<close> below).
\<close>

definition lookupIDinternal ::
  "'h tree_env \<Rightarrow> 'h StateTree \<Rightarrow> address \<Rightarrow> (st_error + address) \<times> 'h StateTree"
where
  "lookupIDinternal env st addr =
     (case GetActor_resolved env st InitAddress of
        (Inl e, st) \<Rightarrow> (Inl e, st)
      | (Inr act, st) \<Rightarrow>
          (case initResolve env act addr of
             Inl e \<Rightarrow> (Inl (ErrOther e), st)
           | Inr None \<Rightarrow> (Inl ErrActorNotFound, st)
           | Inr (Some a) \<Rightarrow> (Inr a, st)))"

definition LookupID ::
  "'h tree_env \<Rightarrow> 'h StateTree \<Rightarrow> address \<Rightarrow> (st_error + address) \<times> 'h StateTree"
where
  "LookupID env st addr =
     (if is_id_addr addr then (Inr addr, st)
      else
        case resolveAddress (snaps st) addr of
          None \<Rightarrow> (Inl PanicIndex, st)
        | Some (Some resa, ss) \<Rightarrow> (Inr resa, st\<lparr>snaps := ss\<rparr>)
        | Some (None, ss) \<Rightarrow>
            (case lookupIDinternal env (st\<lparr>snaps := ss\<rparr>) addr of
               (Inl e, st) \<Rightarrow> (Inl e, st)
             | (Inr a, st) \<Rightarrow>
                 (case on_snaps (\<lambda>ss. cacheResolveAddress ss addr a) st of
                    (Inl e, st) \<Rightarrow> (Inl e, st)
                  | (Inr _, st) \<Rightarrow> (Inr a, st))))"

definition SetActor ::
  "'h tree_env \<Rightarrow> 'h StateTree \<Rightarrow> address \<Rightarrow> Actor \<Rightarrow> (st_error + unit) \<times> 'h StateTree"
where
  "SetActor env st addr act =
     (case LookupID env st addr of
        (Inl e, st) \<Rightarrow> (Inl e, st)
      | (Inr iaddr, st) \<Rightarrow> on_snaps (\<lambda>ss. setActor ss iaddr act) st)"

definition GetActor ::
  "'h tree_env \<Rightarrow> 'h StateTree \<Rightarrow> address \<Rightarrow> (st_error + Actor) \<times> 'h StateTree"
where
  "GetActor env st addr =
     (if addr = AddrUndef then (Inl ErrUndefAddress, st)
      else
        case LookupID env st addr of
          (Inl e, st) \<Rightarrow> (Inl e, st)
        | (Inr iaddr, st) \<Rightarrow> GetActor_resolved env st iaddr)"

definition DeleteActor ::
  "'h tree_env \<Rightarrow> 'h StateTree \<Rightarrow> address \<Rightarrow> (st_error + unit) \<times> 'h StateTree"
where
  "DeleteActor env st addr =
     (if addr = AddrUndef then (Inl ErrUndefAddress, st)
      else
        case LookupID env st addr of
          (Inl e, st) \<Rightarrow> (Inl e, st)
        | (Inr iaddr, st) \<Rightarrow>
            (case GetActor env st iaddr of
               (Inl e, st) \<Rightarrow> (Inl e, st)
             | (Inr _, st) \<Rightarrow> on_snaps (\<lambda>ss. deleteActor ss iaddr) st))"

text \<open>The mutation \<open>f\<close> works on the actor read; its error leaves the stored actor alone.\<close>

definition MutateActor ::
  "'h tree_env \<Rightarrow> 'h StateTree \<Rightarrow> address \<Rightarrow> (Actor \<Rightarrow> st_error + Actor) \<Rightarrow> (st_error + unit) \<times> 'h StateTree"
where
  "MutateActor env st addr f =
     (case GetActor env st addr of
        (Inl e, st) \<Rightarrow> (Inl e, st)
      | (Inr act, st) \<Rightarrow>
          (case f act of
             Inl e \<Rightarrow> (Inl e, st)
           | Inr act \<Rightarrow> SetActor env st addr act))"

definition RegisterNewAddress ::
  "'h tree_env \<Rightarrow> 'h StateTree \<Rightarrow> address \<Rightarrow> (st_error + address) \<times> 'h StateTree"
where
  "RegisterNewAddress env st addr =
     (case GetActor env st InitAddress of
        (Inl e, st) \<Rightarrow> (Inl e, st)
      | (Inr initact, st) \<Rightarrow>
          (case initMapNew env initact addr of
             Inl e \<Rightarrow> (Inl (ErrOther e), st)
           | Inr (oaddr, ncid) \<Rightarrow>
               (case SetActor env st InitAddress (initact\<lparr>Head := ncid\<rparr>) of
                  (Inl e, st) \<Rightarrow> (Inl e, st)
                | (Inr _, st) \<Rightarrow> (Inr oaddr, st))))"

subsection \<open>Snapshots and flushing\<close>

definition Snapshot :: "'h StateTree \<Rightarrow> 'h StateTree" where
  "Snapshot st = st\<lparr>snaps := addLayer (snaps st)\<rparr>"

definition ClearSnapshot :: "'h StateTree \<Rightarrow> 'h StateTree option" where
  "ClearSnapshot st = map_option (\<lambda>ss. st\<lparr>snaps := ss\<rparr>) (mergeLastLayer (snaps st))"

definition Revert :: "'h StateTree \<Rightarrow> 'h StateTree option" where
  "Revert st = map_option (\<lambda>ss. st\<lparr>snaps := addLayer ss\<rparr>) (dropLayer (snaps st))"

fun Flush_loop ::
  "'h tree_env \<Rightarrow> (address \<times> streeOp) list \<Rightarrow> 'h \<Rightarrow> string + 'h"
where
  "Flush_loop env [] h = Inr h"
| "Flush_loop env ((addr, sto) # ops) h =
     (case (if Delete sto then rootDelete env h addr else rootPut env h addr (Act sto)) of
        Inl e \<Rightarrow> Inl e
      | Inr h \<Rightarrow> Flush_loop env ops h)"

definition Flush :: "'h tree_env \<Rightarrow> 'h StateTree \<Rightarrow> st_error + cid \<times> 'h StateTree" where
  "Flush env st =
     (if length (layers (snaps st)) \<noteq> 1 then Inl ErrFlushWithSnapshots
      else
        case Flush_loop env (actors (layers (snaps st) ! 0)) (root st) of
          Inl e \<Rightarrow> Inl (ErrOther e)
        | Inr h \<Rightarrow>
            (case rootFlush env h of
               Inl e \<Rightarrow> Inl (ErrOther e)
             | Inr r \<Rightarrow>
                 if tree_version st = 0 then Inr (r, st\<lparr>root := h\<rparr>)
                 else (case storePutRoot env (tree_version st) r (info st) of
                         Inl e \<Rightarrow> Inl (ErrOther e)
                       | Inr c \<Rightarrow> Inr (c, st\<lparr>root := h\<rparr>))))"

subsection \<open>Iteration\<close>

text \<open>One layer of \<open>ForEach\<close>: unseen keys are marked, live ones handed to the callback.\<close>

fun ForEach_layer ::
  "(address \<Rightarrow> Actor \<Rightarrow> 's \<Rightarrow> 'e + 's) \<Rightarrow> (address \<times> streeOp) list \<Rightarrow> address list \<Rightarrow> 's \<Rightarrow> 'e + address list \<times> 's"
where
  "ForEach_layer f [] seen s = Inr (seen, s)"
| "ForEach_layer f ((addr, oper) # ops) seen s =
     (if addr \<in> set seen then ForEach_layer f ops seen s
      else if Delete oper then ForEach_layer f ops (addr # seen) s
      else case f addr (Act oper) s of
             Inl e \<Rightarrow> Inl e
           | Inr s \<Rightarrow> ForEach_layer f ops (addr # seen) s)"

text \<open>The layers, given from the last to the first.\<close>

fun ForEach_layers ::
  "(address \<Rightarrow> Actor \<Rightarrow> 's \<Rightarrow> 'e + 's) \<Rightarrow> stateSnapLayer list \<Rightarrow> address list \<Rightarrow> 's \<Rightarrow> 'e + address list \<times> 's"
where
  "ForEach_layers f [] seen s = Inr (seen, s)"
| "ForEach_layers f (l # ls) seen s =
     (case ForEach_layer f (actors l) seen s of
        Inl e \<Rightarrow> Inl e
      | Inr (seen, s) \<Rightarrow> ForEach_layers f ls seen s)"

fun ForEach_root ::
  "(address \<Rightarrow> Actor \<Rightarrow> 's \<Rightarrow> 'e + 's) \<Rightarrow> (address \<times> Actor) list \<Rightarrow> address list \<Rightarrow> 's \<Rightarrow> 'e + 's"
where
  "ForEach_root f [] seen s = Inr s"
| "ForEach_root f ((addr, act) # kvs) seen s =
     (if addr \<in> set seen then ForEach_root f kvs seen s
      else case f addr act s of
             Inl e \<Rightarrow> Inl e
           | Inr s \<Rightarrow> ForEach_root f kvs seen s)"

definition ForEach ::
  "'h tree_env \<Rightarrow> 'h StateTree \<Rightarrow> (address \<Rightarrow> Actor \<Rightarrow> 's \<Rightarrow> 'e + 's) \<Rightarrow> 's \<Rightarrow> 'e + 's"
where
  "ForEach env st f s =
     (case ForEach_layers f (rev (layers (snaps st))) [] s of
        Inl e \<Rightarrow> Inl e
      | Inr (seen, s) \<Rightarrow> ForEach_root f (rootEntries env (root st)) seen s)"

subsection \<open>What the tree means\<close>

text \<open>
  The actors one can read, as one partial function over ID addresses, and the cached resolution of
  an address, as a search through all the caches.
\<close>

definition op_actor :: "streeOp \<Rightarrow> Actor option" where
  "op_actor oper = (if Delete oper then None else Some (Act oper))"

definition layers_view ::
  "'h tree_env \<Rightarrow> 'h \<Rightarrow> (address \<Rightarrow> streeOp option) \<Rightarrow> address \<Rightarrow> Actor option"
where
  "layers_view env h look a =
     (case look a of
        Some oper \<Rightarrow> op_actor oper
      | None \<Rightarrow> (case rootGet env h a of Inl e \<Rightarrow> None | Inr x \<Rightarrow> x))"

definition view :: "'h tree_env \<Rightarrow> 'h StateTree \<Rightarrow> address \<Rightarrow> Actor option" where
  "view env st = layers_view env (root st) (layer_lookup (layers (snaps st)))"

lemma layers_view_set:
  "layers_view env h (look(a \<mapsto> oper)) = (layers_view env h look)(a := op_actor oper)"
  by (auto simp: fun_eq_iff layers_view_def)

fun cache_lookup :: "stateSnapLayer list \<Rightarrow> address \<Rightarrow> address option" where
  "cache_lookup [] a = None"
| "cache_lookup (l # ls) a =
     (case cache_lookup ls a of Some r \<Rightarrow> Some r | None \<Rightarrow> map_of (resolveCache l) a)"

definition known :: "'h StateTree \<Rightarrow> address \<Rightarrow> address \<Rightarrow> bool" where
  "known st a i \<longleftrightarrow> (if is_id_addr a then i = a else cache_lookup (layers (snaps st)) a = Some i)"

text \<open>
  The invariant of the layers: there is one, its maps have no double keys, and no cache above the
  hint holds anything.
\<close>

definition layer_ok :: "stateSnapLayer \<Rightarrow> bool" where
  "layer_ok l \<longleftrightarrow> distinct (map fst (actors l)) \<and> distinct (map fst (resolveCache l))"

definition hint_ok :: "stateSnapLayer list \<Rightarrow> int \<Rightarrow> bool" where
  "hint_ok ls lm \<longleftrightarrow> - 1 \<le> lm \<and> lm < int (length ls)
     \<and> (\<forall>l \<in> set (drop (nat (lm + 1)) ls). resolveCache l = [])"

definition snaps_ok :: "stateSnaps \<Rightarrow> bool" where
  "snaps_ok ss \<longleftrightarrow> layers ss \<noteq> [] \<and> (\<forall>l \<in> set (layers ss). layer_ok l)
     \<and> hint_ok (layers ss) (lastMaybeNonEmptyResolveCache ss)"

definition tree_ok :: "'h StateTree \<Rightarrow> bool" where
  "tree_ok st \<longleftrightarrow> snaps_ok (snaps st)"

abbreviation depth :: "'h StateTree \<Rightarrow> nat" where
  "depth st \<equiv> length (layers (snaps st))"

subsection \<open>Searching the layers\<close>

lemma layer_lookup_append:
  "layer_lookup (xs @ ys) a = (case layer_lookup ys a of Some oper \<Rightarrow> Some oper | None \<Rightarrow> layer_lookup xs a)"
  by (induction xs) (auto split: option.splits)

lemma cache_lookup_append:
  "cache_lookup (xs @ ys) a = (case cache_lookup ys a of Some r \<Rightarrow> Some r | None \<Rightarrow> cache_lookup xs a)"
  by (induction xs) (auto split: option.splits)

lemma cache_lookup_empty: "\<forall>l \<in> set ls. resolveCache l = [] \<Longrightarrow> cache_lookup ls a = None"
  by (induction ls) auto

lemma newLayer_simps [simp]:
  "actors newStateSnapLayer = []" "resolveCache newStateSnapLayer = []" "layer_ok newStateSnapLayer"
  by (simp_all add: newStateSnapLayer_def layer_ok_def)

lemma distinct_put_all: "distinct (map fst m) \<Longrightarrow> distinct (map fst (put_all kvs m))"
  by (induction kvs m rule: put_all.induct) (auto simp: distinct_update)

lemma map_of_put_all:
  "distinct (map fst kvs) \<Longrightarrow> map_of (put_all kvs m) = map_of m ++ map_of kvs"
proof (induction kvs m rule: put_all.induct)
  case (2 k v kvs m)
  then have "k \<notin> dom (map_of kvs)" by (simp add: dom_map_of_conv_image_fst)
  with 2 show ?case
    by (auto simp: update_conv' map_add_def fun_eq_iff domIff split: option.splits)
qed simp

lemma two_last:
  assumes "2 \<le> length ls"
  shows "\<exists>xs x y. ls = xs @ [x, y]"
proof (cases ls rule: rev_cases)
  case (snoc ys y)
  with assms show ?thesis by (cases ys rule: rev_cases) auto
qed (use assms in simp)

subsection \<open>The hint of the resolve caches\<close>

lemma resolve_loop_search:
  assumes "n \<le> length ls" and "- 1 \<le> lm" and "int n \<le> lm + 1"
    and "\<forall>l \<in> set (drop (nat (lm + 1)) ls). resolveCache l = []"
  shows "\<exists>lm'. resolveAddress_loop ls a n lm = Some (cache_lookup (take n ls) a, lm')
    \<and> - 1 \<le> lm' \<and> lm' \<le> lm \<and> (\<forall>l \<in> set (drop (nat (lm' + 1)) ls). resolveCache l = [])"
  using assms
proof (induction n arbitrary: lm)
  case 0
  then show ?case by auto
next
  case (Suc i)
  have i: "i < length ls" using Suc.prems by simp
  have t: "take (Suc i) ls = take i ls @ [ls ! i]" using i by (simp add: take_Suc_conv_app_nth)
  show ?case
  proof (cases "resolveCache (ls ! i) = []")
    case True
    have ct: "cache_lookup (take (Suc i) ls) a = cache_lookup (take i ls) a"
      using True by (simp add: t cache_lookup_append)
    let ?lm = "if lm = int i then int i - 1 else lm"
    have "\<forall>l \<in> set (drop (nat (?lm + 1)) ls). resolveCache l = []"
    proof (cases "lm = int i")
      case hit: True
      have "drop i ls = ls ! i # drop (Suc i) ls" using i by (simp add: Cons_nth_drop_Suc)
      then show ?thesis using hit True Suc.prems(4) by (simp add: nat_add_distrib)
    qed (use Suc.prems in simp)
    moreover have "i \<le> length ls" "- 1 \<le> ?lm" "int i \<le> ?lm + 1" "?lm \<le> lm"
      using Suc.prems by auto
    ultimately obtain lm' where
        "resolveAddress_loop ls a i ?lm = Some (cache_lookup (take i ls) a, lm')"
        "- 1 \<le> lm'" "lm' \<le> ?lm" "\<forall>l \<in> set (drop (nat (lm' + 1)) ls). resolveCache l = []"
      using Suc.IH [of ?lm] by blast
    then show ?thesis using True i ct \<open>?lm \<le> lm\<close> by (intro exI [of _ lm']) auto
  next
    case False
    then show ?thesis
    proof (cases "map_of (resolveCache (ls ! i)) a")
      case None
      obtain lm' where
          "resolveAddress_loop ls a i lm = Some (cache_lookup (take i ls) a, lm')"
          "- 1 \<le> lm'" "lm' \<le> lm" "\<forall>l \<in> set (drop (nat (lm' + 1)) ls). resolveCache l = []"
        using Suc.IH [of lm] Suc.prems by auto
      then show ?thesis using None False i by (intro exI [of _ lm']) (simp add: t cache_lookup_append)
    next
      case (Some r)
      then show ?thesis using False i Suc.prems by (simp add: t cache_lookup_append)
    qed
  qed
qed

lemma hint_prefix: "hint_ok ls lm \<Longrightarrow> cache_lookup (take (nat (lm + 1)) ls) a = cache_lookup ls a"
  using cache_lookup_append [of "take (nat (lm + 1)) ls" "drop (nat (lm + 1)) ls" a]
    cache_lookup_empty [of "drop (nat (lm + 1)) ls" a]
  by (simp add: hint_ok_def)

lemma resolveAddress_search:
  assumes "snaps_ok ss"
  obtains ss' where "resolveAddress ss a = Some (cache_lookup (layers ss) a, ss')"
    and "snaps_ok ss'" and "layers ss' = layers ss"
proof -
  let ?ls = "layers ss" and ?lm = "lastMaybeNonEmptyResolveCache ss"
  have h: "hint_ok ?ls ?lm" using assms by (simp add: snaps_ok_def)
  then obtain lm' where lm': "resolveAddress_loop ?ls a (nat (?lm + 1)) ?lm
        = Some (cache_lookup (take (nat (?lm + 1)) ?ls) a, lm')"
      "- 1 \<le> lm'" "lm' \<le> ?lm" "\<forall>l \<in> set (drop (nat (lm' + 1)) ?ls). resolveCache l = []"
    using resolve_loop_search [of "nat (?lm + 1)" ?ls ?lm a] by (auto simp: hint_ok_def)
  show thesis
  proof
    show "resolveAddress ss a
        = Some (cache_lookup ?ls a, ss\<lparr>lastMaybeNonEmptyResolveCache := lm'\<rparr>)"
      using lm'(1) by (simp add: resolveAddress_def hint_prefix [OF h])
    show "snaps_ok (ss\<lparr>lastMaybeNonEmptyResolveCache := lm'\<rparr>)"
      using assms lm' h by (auto simp: snaps_ok_def hint_ok_def)
  qed simp
qed

subsection \<open>Layer operations keep the invariant\<close>

lemma hint_ok_append_new: "hint_ok ls lm \<Longrightarrow> hint_ok (ls @ [newStateSnapLayer]) lm"
  by (auto simp: hint_ok_def)

lemma hint_ok_append_top: "hint_ok (ls @ [l]) (int (length ls))"
  by (simp add: hint_ok_def nat_add_distrib)

lemma hint_ok_same_caches:
  assumes "hint_ok (ls @ [l]) lm" and "resolveCache l' = resolveCache l"
  shows "hint_ok (ls @ [l']) lm"
  using assms by (cases "nat (lm + 1) - length ls") (auto simp: hint_ok_def)

lemma addLayer_ok: "snaps_ok ss \<or> layers ss = [] \<and> lastMaybeNonEmptyResolveCache ss \<in> {- 1, 0}
    \<Longrightarrow> snaps_ok (addLayer ss)"
  by (auto simp: snaps_ok_def addLayer_def hint_ok_append_new) (auto simp: hint_ok_def)

lemma hint_ok_butlast:
  assumes "hint_ok (ls @ [l]) lm"
  shows "hint_ok ls (if lm = int (length ls) then int (length ls) - 1 else lm)"
  using assms by (auto simp: hint_ok_def)

lemma hint_ok_last_empty:
  assumes "hint_ok (ls @ [l]) lm" and "lm \<noteq> int (length ls)"
  shows "resolveCache l = []"
proof -
  have "nat (lm + 1) \<le> length ls" using assms by (auto simp: hint_ok_def)
  then have "l \<in> set (drop (nat (lm + 1)) (ls @ [l]))" by simp
  then show ?thesis using assms(1) unfolding hint_ok_def by blast
qed

lemma dropLayer_ok:
  assumes "snaps_ok ss"
  obtains ss' where "dropLayer ss = Some ss'" and "layers ss' = butlast (layers ss)"
    and "hint_ok (layers ss') (lastMaybeNonEmptyResolveCache ss')"
    and "\<forall>l \<in> set (layers ss'). layer_ok l"
proof -
  obtain ls l where ls: "layers ss = ls @ [l]"
    using assms by (cases "layers ss" rule: rev_cases) (auto simp: snaps_ok_def)
  have h: "hint_ok (ls @ [l]) (lastMaybeNonEmptyResolveCache ss)"
    using assms ls by (simp add: snaps_ok_def)
  have d: "dropLayer ss = Some (ss\<lparr>layers := ls, lastMaybeNonEmptyResolveCache :=
      (if lastMaybeNonEmptyResolveCache ss = int (length ls) then int (length ls) - 1
       else lastMaybeNonEmptyResolveCache ss)\<rparr>)"
    using ls by (simp add: dropLayer_def Let_def)
  show thesis
    by (rule that [OF d]) (use assms ls hint_ok_butlast [OF h] in \<open>auto simp: snaps_ok_def\<close>)
qed

text \<open>Writing the last layer, seen from the stack it sits on.\<close>

lemma upd_last_append: "layers ss = ls @ [l] \<Longrightarrow> upd_last f ss = Some (ss\<lparr>layers := ls @ [f l]\<rparr>)"
  by (simp add: upd_last_def)

lemma last_layer:
  assumes "snaps_ok ss"
  obtains ls l where "layers ss = ls @ [l]"
  using assms by (cases "layers ss" rule: rev_cases) (auto simp: snaps_ok_def)

lemma mergeLastLayer_append:
  assumes "layers ss = ls @ [n, l]"
  shows "mergeLastLayer ss =
    Some (ss\<lparr>layers := ls @ [n\<lparr>actors := put_all (actors l) (actors n),
                               resolveCache := put_all (resolveCache l) (resolveCache n)\<rparr>],
             lastMaybeNonEmptyResolveCache :=
               (if lastMaybeNonEmptyResolveCache ss = int (length ls) + 1 then int (length ls)
                else lastMaybeNonEmptyResolveCache ss)\<rparr>)"
  using assms
  by (simp add: mergeLastLayer_def dropLayer_def Let_def nth_append list_update_append butlast_append)

lemma layer_lookup_snoc:
  "layer_lookup (ls @ [l]) a = (case map_of (actors l) a of Some oper \<Rightarrow> Some oper | None \<Rightarrow> layer_lookup ls a)"
  by (simp add: layer_lookup_append)

lemma cache_lookup_snoc:
  "cache_lookup (ls @ [l]) a = (case map_of (resolveCache l) a of Some r \<Rightarrow> Some r | None \<Rightarrow> cache_lookup ls a)"
  by (simp add: cache_lookup_append)

lemma map_of_update: "map_of (AList.update k v m) = (map_of m)(k \<mapsto> v)"
  by (simp add: update_conv')

lemmas snoc_simps = layer_lookup_snoc cache_lookup_snoc map_of_update upd_last_append

text \<open>
  The three writes of the last layer: the invariant holds after them, the stack below is as it was,
  and the searches change at the written key only.
\<close>

lemma setActor_step:
  assumes "snaps_ok ss"
  obtains ss' where "setActor ss a act = Some ss'" "snaps_ok ss'"
    and "length (layers ss') = length (layers ss)" "butlast (layers ss') = butlast (layers ss)"
    and "layer_lookup (layers ss') = (layer_lookup (layers ss))(a \<mapsto> \<lparr>Act = act, Delete = False\<rparr>)"
    and "cache_lookup (layers ss') = cache_lookup (layers ss)"
proof -
  obtain ls l where ls: "layers ss = ls @ [l]" using assms by (rule last_layer)
  let ?l = "l\<lparr>actors := AList.update a \<lparr>Act = act, Delete = False\<rparr> (actors l)\<rparr>"
  show thesis
  proof (rule that [of "ss\<lparr>layers := ls @ [?l]\<rparr>"])
    show "snaps_ok (ss\<lparr>layers := ls @ [?l]\<rparr>)"
      using assms ls hint_ok_same_caches [of ls l _ ?l]
      by (auto simp: snaps_ok_def layer_ok_def distinct_update)
  qed (auto simp: setActor_def ls snoc_simps fun_eq_iff)
qed

lemma deleteActor_step:
  assumes "snaps_ok ss"
  obtains ss' where "deleteActor ss a = Some ss'" "snaps_ok ss'"
    and "length (layers ss') = length (layers ss)" "butlast (layers ss') = butlast (layers ss)"
    and "layer_lookup (layers ss') = (layer_lookup (layers ss))(a \<mapsto> \<lparr>Act = Actor_zero, Delete = True\<rparr>)"
    and "cache_lookup (layers ss') = cache_lookup (layers ss)"
proof -
  obtain ls l where ls: "layers ss = ls @ [l]" using assms by (rule last_layer)
  let ?l = "l\<lparr>actors := AList.update a \<lparr>Act = Actor_zero, Delete = True\<rparr> (actors l)\<rparr>"
  show thesis
  proof (rule that [of "ss\<lparr>layers := ls @ [?l]\<rparr>"])
    show "snaps_ok (ss\<lparr>layers := ls @ [?l]\<rparr>)"
      using assms ls hint_ok_same_caches [of ls l _ ?l]
      by (auto simp: snaps_ok_def layer_ok_def distinct_update)
  qed (auto simp: deleteActor_def ls snoc_simps fun_eq_iff)
qed

lemma cacheResolve_step:
  assumes "snaps_ok ss"
  obtains ss' where "cacheResolveAddress ss a r = Some ss'" "snaps_ok ss'"
    and "length (layers ss') = length (layers ss)" "butlast (layers ss') = butlast (layers ss)"
    and "layer_lookup (layers ss') = layer_lookup (layers ss)"
    and "cache_lookup (layers ss') = (cache_lookup (layers ss))(a \<mapsto> r)"
proof -
  obtain ls l where ls: "layers ss = ls @ [l]" using assms by (rule last_layer)
  let ?l = "l\<lparr>resolveCache := AList.update a r (resolveCache l)\<rparr>"
  show thesis
  proof (rule that [of "ss\<lparr>layers := ls @ [?l], lastMaybeNonEmptyResolveCache := int (length ls)\<rparr>"])
    show "snaps_ok (ss\<lparr>layers := ls @ [?l], lastMaybeNonEmptyResolveCache := int (length ls)\<rparr>)"
      using assms ls hint_ok_append_top [of ls ?l]
      by (auto simp: snaps_ok_def layer_ok_def distinct_update)
  qed (auto simp: cacheResolveAddress_def ls snoc_simps fun_eq_iff)
qed

lemma mergeLastLayer_step:
  assumes "snaps_ok ss" and "2 \<le> length (layers ss)"
  obtains ss' where "mergeLastLayer ss = Some ss'" "snaps_ok ss'"
    and "length (layers ss') = length (layers ss) - 1"
    and "butlast (layers ss') = butlast (butlast (layers ss))"
    and "layer_lookup (layers ss') = layer_lookup (layers ss)"
    and "cache_lookup (layers ss') = cache_lookup (layers ss)"
proof -
  obtain ls n l where ls: "layers ss = ls @ [n, l]" using two_last [OF assms(2)] by blast
  let ?lm = "lastMaybeNonEmptyResolveCache ss"
  let ?n = "n\<lparr>actors := put_all (actors l) (actors n),
              resolveCache := put_all (resolveCache l) (resolveCache n)\<rparr>"
  let ?ss = "ss\<lparr>layers := ls @ [?n], lastMaybeNonEmptyResolveCache :=
       (if ?lm = int (length ls) + 1 then int (length ls) else ?lm)\<rparr>"
  have ok: "layer_ok n" "layer_ok l" "hint_ok (ls @ [n, l]) ?lm"
    using assms ls by (auto simp: snaps_ok_def)
  have l_empty: "resolveCache l = []" if "?lm \<noteq> int (length ls) + 1"
    using hint_ok_last_empty [of "ls @ [n]" l ?lm] ok(3) that by simp
  have "hint_ok (ls @ [?n]) (if ?lm = int (length ls) + 1 then int (length ls) else ?lm)"
  proof (cases "?lm = int (length ls) + 1")
    case True
    then show ?thesis using hint_ok_append_top [of ls ?n] by simp
  next
    case False
    then have "hint_ok (ls @ [n]) ?lm" using ok(3) hint_ok_butlast [of "ls @ [n]" l ?lm] by simp
    then show ?thesis using False l_empty hint_ok_same_caches [of ls n ?lm ?n] by simp
  qed
  then have "snaps_ok ?ss"
    using assms ls ok by (auto simp: snaps_ok_def layer_ok_def distinct_put_all)
  moreover have "layer_lookup (ls @ [?n]) a = layer_lookup (ls @ [n, l]) a" for a
    using ok by (auto simp: layer_lookup_append map_of_put_all layer_ok_def split: option.splits)
  moreover have "cache_lookup (ls @ [?n]) a = cache_lookup (ls @ [n, l]) a" for a
    using ok by (auto simp: cache_lookup_append map_of_put_all layer_ok_def split: option.splits)
  ultimately show thesis
    by (intro that [of ?ss]) (auto simp: mergeLastLayer_append [OF ls] ls butlast_append fun_eq_iff)
qed

subsection \<open>Tree operations\<close>

text \<open>
  \<open>below st st'\<close>: only the last layer may differ. \<open>reads\<close>: nothing one can read differs and no
  resolved address is forgotten.
\<close>

definition below :: "'h StateTree \<Rightarrow> 'h StateTree \<Rightarrow> bool" where
  "below st st' \<longleftrightarrow> root st' = root st \<and> tree_version st' = tree_version st \<and> info st' = info st
     \<and> depth st' = depth st \<and> butlast (layers (snaps st')) = butlast (layers (snaps st))"

definition knows_more :: "'h StateTree \<Rightarrow> 'h StateTree \<Rightarrow> bool" where
  "knows_more st st' \<longleftrightarrow> (\<forall>a i. known st a i \<longrightarrow> known st' a i)"

definition reads :: "'h tree_env \<Rightarrow> 'h StateTree \<Rightarrow> 'h StateTree \<Rightarrow> bool" where
  "reads env st st' \<longleftrightarrow> tree_ok st' \<and> below st st' \<and> view env st' = view env st \<and> knows_more st st'"

lemma below_refl [simp]: "below st st"
  by (simp add: below_def)

lemma below_trans: "below a b \<Longrightarrow> below b c \<Longrightarrow> below a c"
  by (simp add: below_def)

lemma knows_more_refl [simp]: "knows_more st st"
  by (simp add: knows_more_def)

lemma knows_more_trans: "knows_more a b \<Longrightarrow> knows_more b c \<Longrightarrow> knows_more a c"
  by (simp add: knows_more_def)

lemma knows_moreD: "knows_more st st' \<Longrightarrow> known st a i \<Longrightarrow> known st' a i"
  by (simp add: knows_more_def)

lemma reads_refl: "tree_ok st \<Longrightarrow> reads env st st"
  by (simp add: reads_def)

lemma reads_trans: "reads env a b \<Longrightarrow> reads env b c \<Longrightarrow> reads env a c"
  by (auto simp: reads_def intro: below_trans knows_more_trans)

lemma readsD [dest]:
  assumes "reads env st st'"
  shows "tree_ok st'" "below st st'" "view env st' = view env st" "knows_more st st'"
  using assms by (simp_all add: reads_def)

lemma GetActor_resolved_result:
  assumes "tree_ok st" and "GetActor_resolved env st a = (r, st')"
  shows "reads env st st' \<and> r \<noteq> Inl PanicIndex
    \<and> (\<forall>act. r = Inr act \<longrightarrow> view env st a = Some act)
    \<and> (r = Inl ErrActorNotFound \<longrightarrow> view env st a = None)"
proof (cases "layer_lookup (layers (snaps st)) a")
  case (Some oper)
  then show ?thesis
    using assms by (auto simp: GetActor_resolved_def getActor_def reads_refl view_def layers_view_def
        op_actor_def split: if_splits)
next
  case None
  then have ga: "getActor (snaps st) a = Inr None" by (simp add: getActor_def)
  show ?thesis
  proof (cases "rootGet env (root st) a")
    case (Inl e)
    then show ?thesis using assms None ga by (auto simp: GetActor_resolved_def reads_refl)
  next
    case (Inr found)
    show ?thesis
    proof (cases found)
      case none: None
      then show ?thesis using assms None ga Inr by (auto simp: GetActor_resolved_def reads_refl view_def layers_view_def)
    next
      case (Some act)
      obtain ss' where ss': "setActor (snaps st) a act = Some ss'" "snaps_ok ss'"
          "length (layers ss') = depth st" "butlast (layers ss') = butlast (layers (snaps st))"
          "layer_lookup (layers ss') = (layer_lookup (layers (snaps st)))(a \<mapsto> \<lparr>Act = act, Delete = False\<rparr>)"
          "cache_lookup (layers ss') = cache_lookup (layers (snaps st))"
        using setActor_step assms(1) unfolding tree_ok_def by blast
      then have r: "r = Inr act" "st' = st\<lparr>snaps := ss'\<rparr>"
        using assms(2) ga Inr Some by (simp_all add: GetActor_resolved_def on_snaps_def)
      have va: "view env st a = Some act" using None Inr Some by (simp add: view_def layers_view_def)
      then have "view env st' = view env st"
        using r ss'(5) by (simp add: view_def layers_view_set op_actor_def fun_upd_idem)
      then show ?thesis
        using r ss' va by (simp add: reads_def below_def tree_ok_def knows_more_def known_def)
    qed
  qed
qed

lemma lookupIDinternal_result:
  assumes "tree_ok st" and "lookupIDinternal env st a = (r, st')"
  shows "reads env st st' \<and> r \<noteq> Inl PanicIndex"
proof -
  obtain r1 st1 where g: "GetActor_resolved env st InitAddress = (r1, st1)" by fastforce
  note g' = GetActor_resolved_result [OF assms(1) g]
  show ?thesis
    using assms(2) g g' by (auto simp: lookupIDinternal_def split: sum.splits option.splits)
qed

lemma LookupID_result:
  assumes "tree_ok st" and "LookupID env st a = (r, st')"
  shows "reads env st st' \<and> r \<noteq> Inl PanicIndex \<and> (\<forall>i. r = Inr i \<longrightarrow> known st' a i)"
proof (cases "is_id_addr a")
  case True
  then show ?thesis using assms by (auto simp: LookupID_def reads_refl known_def)
next
  case False
  obtain ss where ss: "resolveAddress (snaps st) a = Some (cache_lookup (layers (snaps st)) a, ss)"
      "snaps_ok ss" "layers ss = layers (snaps st)"
    using resolveAddress_search assms(1) unfolding tree_ok_def by blast
  let ?st1 = "st\<lparr>snaps := ss\<rparr>"
  have r1: "reads env st ?st1"
    using ss by (simp add: reads_def below_def tree_ok_def knows_more_def known_def view_def)
  show ?thesis
  proof (cases "cache_lookup (layers (snaps st)) a")
    case (Some i)
    then show ?thesis using assms False ss r1 by (auto simp: LookupID_def known_def)
  next
    case None
    obtain r2 st2 where l: "lookupIDinternal env ?st1 a = (r2, st2)" by fastforce
    have ok2: "reads env st st2" "r2 \<noteq> Inl PanicIndex"
      using lookupIDinternal_result [OF _ l] r1 by (auto intro: reads_trans)
    show ?thesis
    proof (cases r2)
      case (Inl e)
      then show ?thesis using assms False ss None l ok2 by (auto simp: LookupID_def)
    next
      case (Inr i)
      obtain ss3 where ss3: "cacheResolveAddress (snaps st2) a i = Some ss3" "snaps_ok ss3"
          "length (layers ss3) = depth st2" "butlast (layers ss3) = butlast (layers (snaps st2))"
          "layer_lookup (layers ss3) = layer_lookup (layers (snaps st2))"
          "cache_lookup (layers ss3) = (cache_lookup (layers (snaps st2)))(a \<mapsto> i)"
        using cacheResolve_step ok2(1) unfolding reads_def tree_ok_def by blast
      have r: "r = Inr i" "st' = st2\<lparr>snaps := ss3\<rparr>"
        using assms(2) False ss None l Inr ss3(1) by (simp_all add: LookupID_def on_snaps_def)
      have "cache_lookup (layers ss) a = None" using None ss(3) by simp
      then have "knows_more st st'"
        using ok2(1) r ss3(6) None unfolding reads_def knows_more_def known_def by auto
      then show ?thesis
        using r ss3 ok2(1) False
        by (auto simp: reads_def below_def tree_ok_def known_def view_def)
    qed
  qed
qed

lemma LookupID_known:
  assumes "tree_ok st" and "known st a i"
  shows "\<exists>st'. LookupID env st a = (Inr i, st') \<and> reads env st st'"
proof (cases "is_id_addr a")
  case True
  then show ?thesis using assms by (simp add: LookupID_def known_def reads_refl)
next
  case False
  obtain ss where "resolveAddress (snaps st) a = Some (cache_lookup (layers (snaps st)) a, ss)"
    using resolveAddress_search assms(1) unfolding tree_ok_def by blast
  then have "LookupID env st a = (Inr i, st\<lparr>snaps := ss\<rparr>)"
    using assms(2) False by (simp add: LookupID_def known_def)
  then show ?thesis using LookupID_result [OF assms(1)] by blast
qed

lemma GetActor_result:
  assumes "tree_ok st" and "GetActor env st a = (r, st')"
  shows "reads env st st' \<and> r \<noteq> Inl PanicIndex
    \<and> (\<forall>act. r = Inr act \<longrightarrow> (\<exists>i. known st' a i \<and> view env st i = Some act))"
proof (cases "a = AddrUndef")
  case True
  then show ?thesis using assms by (auto simp: GetActor_def reads_refl)
next
  case False
  obtain r1 st1 where l: "LookupID env st a = (r1, st1)" by fastforce
  note l' = LookupID_result [OF assms(1) l]
  show ?thesis
  proof (cases r1)
    case (Inl e)
    then show ?thesis using assms(2) False l l' by (auto simp: GetActor_def)
  next
    case (Inr i)
    then have g: "GetActor_resolved env st1 i = (r, st')" using assms(2) False l by (simp add: GetActor_def)
    have "tree_ok st1" using l' by blast
    note g' = GetActor_resolved_result [OF this g]
    have "known st' a i" using l' g' Inr by (blast intro: knows_moreD)
    moreover have "view env st1 = view env st" using l' by blast
    ultimately show ?thesis using l' g' by (auto intro: reads_trans)
  qed
qed

lemma GetActor_known:
  assumes "tree_ok st" and "known st a i" and "a \<noteq> AddrUndef" and "view env st i = Some act"
    and "GetActor env st a = (r, st')"
  shows "(r = Inr act \<or> (\<exists>e. r = Inl (ErrOther e))) \<and> reads env st st'"
proof -
  obtain st1 where l: "LookupID env st a = (Inr i, st1)" "reads env st st1"
    using LookupID_known [OF assms(1,2)] by blast
  then have g: "GetActor_resolved env st1 i = (r, st')"
    using assms(3,5) by (simp add: GetActor_def)
  have v: "view env st1 i = Some act" using l(2) assms(4) by (metis readsD(3))
  have ok1: "tree_ok st1" using l(2) by blast
  have "r = Inr act \<or> (\<exists>e. r = Inl (ErrOther e))"
    using g v GetActor_resolved_result [OF ok1 g]
    by (auto simp: GetActor_resolved_def getActor_def on_snaps_def view_def layers_view_def op_actor_def
        split: option.splits sum.splits if_splits prod.splits)
  then show ?thesis using l(2) GetActor_resolved_result [OF ok1 g] by (blast intro: reads_trans)
qed

lemma SetActor_result:
  assumes "tree_ok st" and "known st a i"
  shows "\<exists>st'. SetActor env st a act = (Inr (), st') \<and> tree_ok st' \<and> below st st' \<and> knows_more st st'
    \<and> view env st' = (view env st)(i \<mapsto> act)"
proof -
  obtain st1 where l: "LookupID env st a = (Inr i, st1)" "reads env st st1"
    using LookupID_known [OF assms] by blast
  obtain ss' where ss': "setActor (snaps st1) i act = Some ss'" "snaps_ok ss'"
      "length (layers ss') = depth st1" "butlast (layers ss') = butlast (layers (snaps st1))"
      "layer_lookup (layers ss') = (layer_lookup (layers (snaps st1)))(i \<mapsto> \<lparr>Act = act, Delete = False\<rparr>)"
      "cache_lookup (layers ss') = cache_lookup (layers (snaps st1))"
    using setActor_step l(2) unfolding reads_def tree_ok_def by blast
  let ?st2 = "st1\<lparr>snaps := ss'\<rparr>"
  have "SetActor env st a act = (Inr (), ?st2)"
    using l ss' by (simp add: SetActor_def on_snaps_def)
  moreover have "view env ?st2 = (view env st1)(i \<mapsto> act)"
    using ss'(5) by (simp add: view_def layers_view_set op_actor_def)
  moreover have "knows_more st1 ?st2" using ss'(6) by (simp add: knows_more_def known_def)
  moreover have "below st1 ?st2" "tree_ok ?st2" using ss' by (simp_all add: below_def tree_ok_def)
  ultimately show ?thesis using l(2) by (auto intro: below_trans knows_more_trans)
qed

lemma DeleteActor_result:
  assumes "tree_ok st" and "DeleteActor env st a = (r, st')"
  shows "tree_ok st' \<and> below st st' \<and> knows_more st st' \<and> r \<noteq> Inl PanicIndex
    \<and> (\<forall>e. r = Inl e \<longrightarrow> view env st' = view env st)
    \<and> (r = Inr () \<longrightarrow> (\<exists>i. known st' a i \<and> view env st' = (view env st)(i := None)
          \<and> layer_lookup (layers (snaps st')) i = Some \<lparr>Act = Actor_zero, Delete = True\<rparr>))"
proof (cases "a = AddrUndef")
  case True
  then show ?thesis using assms by (simp add: DeleteActor_def) blast
next
  case False
  obtain r1 st1 where l: "LookupID env st a = (r1, st1)" by fastforce
  note l' = LookupID_result [OF assms(1) l]
  show ?thesis
  proof (cases r1)
    case (Inl e)
    then have "st' = st1" "r = Inl e \<or> r = Inl ErrActorNotFound"
      using assms(2) False l by (auto simp: DeleteActor_def split: if_splits)
    then show ?thesis using l' Inl by (simp add: reads_def) blast
  next
    case (Inr i)
    obtain r2 st2 where g: "GetActor env st1 i = (r2, st2)" by fastforce
    have "tree_ok st1" using l' by (simp add: reads_def)
    note g' = GetActor_result [OF this g]
    have rd: "reads env st st2" using l' g' reads_trans by blast
    show ?thesis
    proof (cases r2)
      case inl: (Inl e)
      then have "st' = st2" "r = Inl e"
        using assms(2) False l Inr g by (simp_all add: DeleteActor_def)
      then show ?thesis using rd inl g' by (simp add: reads_def)
    next
      case inr: (Inr act)
      obtain ss' where ss': "deleteActor (snaps st2) i = Some ss'" "snaps_ok ss'"
          "length (layers ss') = depth st2" "butlast (layers ss') = butlast (layers (snaps st2))"
          "layer_lookup (layers ss') = (layer_lookup (layers (snaps st2)))(i \<mapsto> \<lparr>Act = Actor_zero, Delete = True\<rparr>)"
          "cache_lookup (layers ss') = cache_lookup (layers (snaps st2))"
        using deleteActor_step rd unfolding reads_def tree_ok_def by blast
      have r: "r = Inr ()" "st' = st2\<lparr>snaps := ss'\<rparr>"
        using assms(2) False l Inr g inr ss'(1) by (simp_all add: DeleteActor_def on_snaps_def)
      have v: "view env st' = (view env st2)(i := None)"
        using r ss'(5) by (simp add: view_def layers_view_set op_actor_def)
      have k: "known st2 a i"
        using l' g' Inr by (simp add: reads_def knows_more_def)
      have more: "below st2 st'" "knows_more st2 st'" "tree_ok st'"
        using r ss' by (simp_all add: below_def knows_more_def known_def tree_ok_def)
      have "below st st'" "knows_more st st'" "known st' a i"
        using rd more k below_trans [of st st2 st'] knows_more_trans [of st st2 st']
        by (simp_all add: reads_def knows_moreD)
      moreover have "view env st' = (view env st)(i := None)" using rd v by (simp add: reads_def)
      moreover have "layer_lookup (layers (snaps st')) i = Some \<lparr>Act = Actor_zero, Delete = True\<rparr>"
        using r(2) ss'(5) by simp
      ultimately show ?thesis using r(1) more(3) by blast
    qed
  qed
qed

lemma RegisterNewAddress_result:
  assumes "tree_ok st" and "RegisterNewAddress env st a = (r, st')"
  shows "tree_ok st' \<and> below st st' \<and> knows_more st st' \<and> r \<noteq> Inl PanicIndex
    \<and> (view env st' = view env st
       \<or> (\<exists>act h. view env st InitAddress = Some act
            \<and> view env st' = (view env st)(InitAddress \<mapsto> act\<lparr>Head := h\<rparr>)))"
proof -
  obtain r1 st1 where g: "GetActor env st InitAddress = (r1, st1)" by fastforce
  note g' = GetActor_result [OF assms(1) g]
  show ?thesis
  proof (cases r1)
    case (Inl e)
    then have "st' = st1" "r = Inl e" using assms(2) g by (simp_all add: RegisterNewAddress_def)
    then show ?thesis using g' Inl by (simp add: reads_def)
  next
    case (Inr act)
    then have act: "view env st InitAddress = Some act"
      using g' by (simp add: known_def InitAddress_def)
    show ?thesis
    proof (cases "initMapNew env act a")
      case inl: (Inl e)
      then have "st' = st1" "r = Inl (ErrOther e)"
        using assms(2) g Inr by (simp_all add: RegisterNewAddress_def)
      then show ?thesis using g' by (simp add: reads_def)
    next
      case inr: (Inr oc)
      obtain oaddr ncid where oc: "oc = (oaddr, ncid)" by (cases oc)
      have ok1: "tree_ok st1" "known st1 InitAddress InitAddress"
        using g' by (simp_all add: known_def InitAddress_def reads_def)
      obtain st2 where s: "SetActor env st1 InitAddress (act\<lparr>Head := ncid\<rparr>) = (Inr (), st2)"
          "tree_ok st2" "below st1 st2" "knows_more st1 st2"
          "view env st2 = (view env st1)(InitAddress \<mapsto> act\<lparr>Head := ncid\<rparr>)"
        using SetActor_result [OF ok1] by blast
      then have "r = Inr oaddr" "st' = st2"
        using assms(2) g Inr inr oc by (simp_all add: RegisterNewAddress_def)
      moreover have "view env st2 = (view env st)(InitAddress \<mapsto> act\<lparr>Head := ncid\<rparr>)"
        using s(5) g' by (simp add: reads_def)
      moreover have "below st st2" "knows_more st st2"
        using s(3,4) g' below_trans [of st st1 st2] knows_more_trans [of st st1 st2]
        by (simp_all add: reads_def)
      ultimately show ?thesis using s(2) act by blast
    qed
  qed
qed

lemma tree_ok_new: "NewStateTree env ver = Inr st \<Longrightarrow> tree_ok st"
  by (auto simp: NewStateTree_def tree_ok_def newStateSnaps_def intro!: addLayer_ok
      split: sum.splits if_splits)

subsection \<open>Snapshots\<close>

lemma lookup_new_layer [simp]:
  "layer_lookup (ls @ [newStateSnapLayer]) = layer_lookup ls"
  "cache_lookup (ls @ [newStateSnapLayer]) = cache_lookup ls"
  by (simp_all add: fun_eq_iff layer_lookup_snoc cache_lookup_snoc)

lemma Snapshot_simps [simp]:
  "layers (snaps (Snapshot st)) = layers (snaps st) @ [newStateSnapLayer]"
  "root (Snapshot st) = root st" "tree_version (Snapshot st) = tree_version st"
  "info (Snapshot st) = info st"
  "tree_ok st \<Longrightarrow> tree_ok (Snapshot st)"
  "view env (Snapshot st) = view env st"
  "known (Snapshot st) a i = known st a i"
  by (simp_all add: Snapshot_def addLayer_def tree_ok_def addLayer_ok [unfolded addLayer_def]
      view_def known_def)

lemma Revert_result:
  assumes "tree_ok st"
  obtains st' where "Revert st = Some st'" and "tree_ok st'" and "root st' = root st"
    and "tree_version st' = tree_version st" and "info st' = info st"
    and "layers (snaps st') = butlast (layers (snaps st)) @ [newStateSnapLayer]"
proof -
  obtain ss' where d: "dropLayer (snaps st) = Some ss'" "layers ss' = butlast (layers (snaps st))"
      "hint_ok (layers ss') (lastMaybeNonEmptyResolveCache ss')" "\<forall>l \<in> set (layers ss'). layer_ok l"
    using dropLayer_ok assms unfolding tree_ok_def by blast
  have "snaps_ok (addLayer ss')"
    using d(3,4) by (auto simp: snaps_ok_def addLayer_def hint_ok_append_new)
  then show thesis
    using d(1,2) by (intro that [of "st\<lparr>snaps := addLayer ss'\<rparr>"])
      (simp_all add: Revert_def tree_ok_def addLayer_def)
qed

lemma ClearSnapshot_result:
  assumes "tree_ok st" and "2 \<le> depth st"
  obtains st' where "ClearSnapshot st = Some st'" and "tree_ok st'" and "root st' = root st"
    and "tree_version st' = tree_version st" and "info st' = info st"
    and "depth st' = depth st - 1" and "butlast (layers (snaps st')) = butlast (butlast (layers (snaps st)))"
    and "view env st' = view env st" and "\<And>a i. known st' a i = known st a i"
proof -
  obtain ss' where m: "mergeLastLayer (snaps st) = Some ss'" "snaps_ok ss'"
      "length (layers ss') = depth st - 1"
      "butlast (layers ss') = butlast (butlast (layers (snaps st)))"
      "layer_lookup (layers ss') = layer_lookup (layers (snaps st))"
      "cache_lookup (layers ss') = cache_lookup (layers (snaps st))"
    using mergeLastLayer_step assms unfolding tree_ok_def by blast
  show thesis
    by (rule that [of "st\<lparr>snaps := ss'\<rparr>"])
      (use m in \<open>simp_all add: ClearSnapshot_def tree_ok_def view_def known_def\<close>)
qed

lemma Revert_below_snapshot:
  assumes "tree_ok st" and "tree_ok st2" and "below (Snapshot st) st2"
  obtains st3 where "Revert st2 = Some st3" and "tree_ok st3" and "below (Snapshot st) st3"
    and "view env st3 = view env st" and "knows_more st st3"
proof -
  obtain st3 where r: "Revert st2 = Some st3" "tree_ok st3" "root st3 = root st2"
      "tree_version st3 = tree_version st2" "info st3 = info st2"
      "layers (snaps st3) = butlast (layers (snaps st2)) @ [newStateSnapLayer]"
    using Revert_result [OF assms(2)] by blast
  have b: "butlast (layers (snaps st2)) = layers (snaps st)" "root st2 = root st"
    using assms(3) by (simp_all add: below_def)
  show thesis
    by (rule that [OF r(1,2)])
      (use r b assms(3) in \<open>simp_all add: below_def view_def knows_more_def known_def\<close>)
qed

lemma ClearSnapshot_below_snapshot:
  assumes "tree_ok st" and "tree_ok st2" and "below (Snapshot st) st2"
  obtains st3 where "ClearSnapshot st2 = Some st3" and "tree_ok st3" and "below st st3"
    and "view env st3 = view env st2" and "knows_more st2 st3"
proof -
  have "layers (snaps st) \<noteq> []" using assms(1) by (simp add: tree_ok_def snaps_ok_def)
  then have "2 \<le> depth st2" using assms(3) by (cases "layers (snaps st)") (auto simp: below_def)
  then obtain st3 where c: "ClearSnapshot st2 = Some st3" "tree_ok st3" "root st3 = root st2"
      "tree_version st3 = tree_version st2" "info st3 = info st2" "depth st3 = depth st2 - 1"
      "butlast (layers (snaps st3)) = butlast (butlast (layers (snaps st2)))"
      "view env st3 = view env st2" "\<And>a i. known st3 a i = known st2 a i"
    using ClearSnapshot_result [OF assms(2), of env] by blast
  show thesis
    by (rule that [OF c(1,2)]) (use c assms(3) in \<open>simp_all add: below_def knows_more_def\<close>)
qed

subsection \<open>The tree as its users see it\<close>

text \<open>
  The contract the virtual machine relies on: what reading, writing and snapshots do to the actors
  one can read. An address is \<open>known\<close> once it has been resolved; from then on it names the same ID.
\<close>

locale actor_tree =
  fixes ok :: "'t \<Rightarrow> bool"
    and actors_of :: "'t \<Rightarrow> address \<Rightarrow> Actor option"
    and names :: "'t \<Rightarrow> address \<Rightarrow> address \<Rightarrow> bool"
    and kept :: "'t \<Rightarrow> 't \<Rightarrow> bool"
    and get :: "'t \<Rightarrow> address \<Rightarrow> (st_error + Actor) \<times> 't"
    and put :: "'t \<Rightarrow> address \<Rightarrow> Actor \<Rightarrow> (st_error + unit) \<times> 't"
    and push :: "'t \<Rightarrow> 't"
    and undo :: "'t \<Rightarrow> 't option"
    and commit :: "'t \<Rightarrow> 't option"
  assumes get_ok: "ok t \<Longrightarrow> get t a = (r, t') \<Longrightarrow>
      ok t' \<and> kept t t' \<and> actors_of t' = actors_of t \<and> (names t b i \<longrightarrow> names t' b i)"
    and get_some: "ok t \<Longrightarrow> get t a = (Inr act, t') \<Longrightarrow> \<exists>i. names t' a i \<and> actors_of t i = Some act"
    and put_ok: "ok t \<Longrightarrow> names t a i \<Longrightarrow>
      \<exists>t'. put t a act = (Inr (), t') \<and> ok t' \<and> kept t t' \<and> actors_of t' = (actors_of t)(i \<mapsto> act)
        \<and> (\<forall>b j. names t b j \<longrightarrow> names t' b j)"
    and names_fun: "names t a i \<Longrightarrow> names t a j \<Longrightarrow> i = j"
    and kept_refl: "kept t t"
    and kept_trans: "kept t u \<Longrightarrow> kept u v \<Longrightarrow> kept t v"
    and push_ok: "ok t \<Longrightarrow> ok (push t) \<and> actors_of (push t) = actors_of t \<and> (names t b i \<longrightarrow> names (push t) b i)"
    and undo_ok: "ok t \<Longrightarrow> ok u \<Longrightarrow> kept (push t) u \<Longrightarrow>
      \<exists>v. undo u = Some v \<and> ok v \<and> kept (push t) v \<and> actors_of v = actors_of t
        \<and> (\<forall>b i. names t b i \<longrightarrow> names v b i)"
    and commit_ok: "ok t \<Longrightarrow> ok u \<Longrightarrow> kept (push t) u \<Longrightarrow>
      \<exists>v. commit u = Some v \<and> ok v \<and> kept t v \<and> actors_of v = actors_of u
        \<and> (\<forall>b i. names u b i \<longrightarrow> names v b i)"
begin

text \<open>Read, change, write back under the same address.\<close>

lemma read_modify_write:
  assumes "ok t" and "get t a = (Inr act, t1)"
  shows "\<exists>i t2. put t1 a act' = (Inr (), t2) \<and> ok t2 \<and> kept t t2 \<and> names t2 a i
    \<and> actors_of t i = Some act \<and> actors_of t2 = (actors_of t)(i \<mapsto> act')
    \<and> (\<forall>b j. names t b j \<longrightarrow> names t2 b j)"
proof -
  obtain i where i: "names t1 a i" "actors_of t i = Some act" using get_some [OF assms] by blast
  have t1: "ok t1" "kept t t1" "actors_of t1 = actors_of t" "\<And>b j. names t b j \<Longrightarrow> names t1 b j"
    using get_ok [OF assms] by blast+
  obtain t2 where t2: "put t1 a act' = (Inr (), t2)" "ok t2" "kept t1 t2"
      "actors_of t2 = (actors_of t1)(i \<mapsto> act')" "\<forall>b j. names t1 b j \<longrightarrow> names t2 b j"
    using put_ok [OF t1(1) i(1)] by blast
  show ?thesis
    using t2 t1(3,4) i kept_trans [OF t1(2) t2(3)] by (intro exI [of _ i] exI [of _ t2]) simp
qed

text \<open>Work done above a snapshot leaves no trace once it is undone and the snapshot is closed.\<close>

lemma undone_work:
  assumes "ok t" and "ok u" and "kept (push t) u"
  shows "\<exists>v w. undo u = Some v \<and> commit v = Some w \<and> ok w \<and> kept t w \<and> actors_of w = actors_of t
    \<and> (\<forall>b i. names t b i \<longrightarrow> names w b i)"
proof -
  obtain v where v: "undo u = Some v" "ok v" "kept (push t) v" "actors_of v = actors_of t"
      "\<forall>b i. names t b i \<longrightarrow> names v b i"
    using undo_ok [OF assms] by blast
  obtain w where "commit v = Some w" "ok w" "kept t w" "actors_of w = actors_of v"
      "\<forall>b i. names v b i \<longrightarrow> names w b i"
    using commit_ok [OF assms(1) v(2,3)] by blast
  then show ?thesis using v by auto
qed

end

lemma known_fun: "known st a i \<Longrightarrow> known st a j \<Longrightarrow> i = j"
  by (auto simp: known_def split: if_splits)

interpretation tree: actor_tree tree_ok "view env" known below "GetActor env" "SetActor env"
    Snapshot Revert ClearSnapshot for env :: "'h tree_env"
proof (unfold_locales, goal_cases)
  case (1 t a r t' b i)
  then show ?case using GetActor_result [of t env a r t'] by (simp add: reads_def knows_more_def)
next
  case (2 t a act t')
  then show ?case using GetActor_result [of t env a "Inr act" t'] by simp
next
  case (3 t a i act)
  obtain t' where "SetActor env t a act = (Inr (), t')" "tree_ok t'" "below t t'" "knows_more t t'"
      "view env t' = (view env t)(i \<mapsto> act)"
    using SetActor_result [OF 3] by blast
  then show ?case by (simp add: knows_more_def)
next
  case (4 t a i j)
  then show ?case by (rule known_fun)
next
  case (6 t u v)
  then show ?case by (rule below_trans)
next
  case (8 t u)
  obtain v where "Revert u = Some v" "tree_ok v" "below (Snapshot t) v" "view env v = view env t"
      "knows_more t v"
    using Revert_below_snapshot [OF 8] by blast
  then show ?case by (simp add: knows_more_def)
next
  case (9 t u)
  obtain v where "ClearSnapshot u = Some v" "tree_ok v" "below t v" "view env v = view env u"
      "knows_more u v"
    using ClearSnapshot_below_snapshot [OF 9] by blast
  then show ?case by (simp add: knows_more_def)
qed simp_all

subsection \<open>Exact results of reads and writes\<close>

text \<open>What \<open>GetActor\<close> answers for a resolved address, error cases included.\<close>

definition read_of ::
  "'h tree_env \<Rightarrow> 'h \<Rightarrow> (address \<Rightarrow> streeOp option) \<Rightarrow> address \<Rightarrow> st_error + Actor"
where
  "read_of env h look i =
     (case look i of
        Some oper \<Rightarrow> (if Delete oper then Inl ErrActorNotFound else Inr (Act oper))
      | None \<Rightarrow> (case rootGet env h i of
                    Inl e \<Rightarrow> Inl (ErrOther e)
                  | Inr None \<Rightarrow> Inl ErrActorNotFound
                  | Inr (Some act) \<Rightarrow> Inr act))"

definition read_result :: "'h tree_env \<Rightarrow> 'h StateTree \<Rightarrow> address \<Rightarrow> st_error + Actor" where
  "read_result env st = read_of env (root st) (layer_lookup (layers (snaps st)))"

lemma read_of_set:
  "read_of env h (look(i \<mapsto> oper)) j =
     (if j = i then (if Delete oper then Inl ErrActorNotFound else Inr (Act oper))
      else read_of env h look j)"
  by (simp add: read_of_def)

lemma GetActor_resolved_value:
  assumes "tree_ok st"
  shows "fst (GetActor_resolved env st i) = read_result env st i"
proof -
  obtain ls l where "layers (snaps st) = ls @ [l]"
    using assms last_layer unfolding tree_ok_def snaps_ok_def by blast
  then show ?thesis
    by (auto simp: GetActor_resolved_def getActor_def read_result_def read_of_def on_snaps_def setActor_def
        upd_last_append split: option.splits sum.splits)
qed

lemma LookupID_known_layers:
  assumes "tree_ok st" and "known st a i"
  obtains ss where "LookupID env st a = (Inr i, st\<lparr>snaps := ss\<rparr>)" and "snaps_ok ss"
    and "layers ss = layers (snaps st)"
proof (cases "is_id_addr a")
  case True
  then show ?thesis
    using assms by (intro that [of "snaps st"]) (simp_all add: LookupID_def known_def tree_ok_def)
next
  case False
  obtain ss where "resolveAddress (snaps st) a = Some (cache_lookup (layers (snaps st)) a, ss)"
      "snaps_ok ss" "layers ss = layers (snaps st)"
    using resolveAddress_search assms(1) unfolding tree_ok_def by blast
  then show ?thesis
    using assms(2) False by (intro that [of ss]) (simp_all add: LookupID_def known_def)
qed

lemma GetActor_value:
  assumes "tree_ok st" and "known st a i" and "a \<noteq> AddrUndef"
  shows "fst (GetActor env st a) = read_result env st i"
proof -
  obtain ss where ss: "LookupID env st a = (Inr i, st\<lparr>snaps := ss\<rparr>)" "snaps_ok ss"
      "layers ss = layers (snaps st)"
    using LookupID_known_layers [OF assms(1,2)] by blast
  then have "fst (GetActor_resolved env (st\<lparr>snaps := ss\<rparr>) i) = read_result env (st\<lparr>snaps := ss\<rparr>) i"
    by (intro GetActor_resolved_value) (simp add: tree_ok_def)
  then show ?thesis using ss assms(3) by (simp add: GetActor_def read_result_def)
qed

lemma SetActor_layers:
  assumes "tree_ok st" and "known st a i"
  obtains ss where "SetActor env st a act = (Inr (), st\<lparr>snaps := ss\<rparr>)" and "snaps_ok ss"
    and "layer_lookup (layers ss) = (layer_lookup (layers (snaps st)))(i \<mapsto> \<lparr>Act = act, Delete = False\<rparr>)"
    and "cache_lookup (layers ss) = cache_lookup (layers (snaps st))"
proof -
  obtain ss where ss: "LookupID env st a = (Inr i, st\<lparr>snaps := ss\<rparr>)" "snaps_ok ss"
      "layers ss = layers (snaps st)"
    using LookupID_known_layers [OF assms] by blast
  obtain ss' where "setActor ss i act = Some ss'" "snaps_ok ss'"
      "layer_lookup (layers ss') = (layer_lookup (layers ss))(i \<mapsto> \<lparr>Act = act, Delete = False\<rparr>)"
      "cache_lookup (layers ss') = cache_lookup (layers ss)"
    using setActor_step [OF ss(2)] by blast
  then show ?thesis
    using ss by (intro that [of ss']) (simp_all add: SetActor_def on_snaps_def)
qed

lemma GetActor_id: "GetActor env st (AddrID n) = GetActor_resolved env st (AddrID n)"
  by (simp add: GetActor_def LookupID_def)

lemma DeleteActor_gone:
  assumes "tree_ok st" and "DeleteActor env st a = (Inr (), st')"
  shows "\<exists>i. known st' a i \<and> view env st' = (view env st)(i := None)
    \<and> read_result env st' i = Inl ErrActorNotFound \<and> tree_ok st'"
  using DeleteActor_result [OF assms] by (auto simp: read_result_def read_of_def)

lemma SetActor_below:
  assumes "tree_ok st" and "SetActor env st a act = (r, st')"
  shows "tree_ok st' \<and> below st st' \<and> r \<noteq> Inl PanicIndex"
proof -
  obtain r1 st1 where l: "LookupID env st a = (r1, st1)" by fastforce
  note l' = LookupID_result [OF assms(1) l]
  show ?thesis
  proof (cases r1)
    case (Inl e)
    then show ?thesis using assms(2) l l' by (auto simp: SetActor_def reads_def)
  next
    case (Inr i)
    obtain ss' where ss': "setActor (snaps st1) i act = Some ss'" "snaps_ok ss'"
        "length (layers ss') = depth st1" "butlast (layers ss') = butlast (layers (snaps st1))"
      using setActor_step l' unfolding reads_def tree_ok_def by blast
    then have "r = Inr ()" "st' = st1\<lparr>snaps := ss'\<rparr>"
      using assms(2) l Inr by (simp_all add: SetActor_def on_snaps_def)
    then show ?thesis using ss' l' by (simp add: reads_def below_def tree_ok_def)
  qed
qed

subsection \<open>Runs of operations\<close>

datatype tree_op =
    OLookup address | OGet address | OSet address Actor | ODelete address | ORegister address
  | OSnapshot | ORevert | OClear

text \<open>One call; \<open>None\<close> is a run-time panic.\<close>

fun tree_step :: "'h tree_env \<Rightarrow> tree_op \<Rightarrow> 'h StateTree \<Rightarrow> 'h StateTree option" where
  "tree_step env (OLookup a) st = Some (snd (LookupID env st a))"
| "tree_step env (OGet a) st = Some (snd (GetActor env st a))"
| "tree_step env (OSet a act) st = Some (snd (SetActor env st a act))"
| "tree_step env (ODelete a) st = Some (snd (DeleteActor env st a))"
| "tree_step env (ORegister a) st = Some (snd (RegisterNewAddress env st a))"
| "tree_step env OSnapshot st = Some (Snapshot st)"
| "tree_step env ORevert st = Revert st"
| "tree_step env OClear st = ClearSnapshot st"

text \<open>
  A sequence of calls that closes no snapshot it did not open: \<open>n\<close> is the number of layers
  below it, and closing the last one above them is refused.
\<close>

fun tree_run :: "'h tree_env \<Rightarrow> nat \<Rightarrow> tree_op list \<Rightarrow> 'h StateTree \<Rightarrow> 'h StateTree option" where
  "tree_run env n [] st = Some st"
| "tree_run env n (oper # ops) st =
     (if oper = OClear \<and> depth st \<le> n + 1 then None
      else case tree_step env oper st of
             None \<Rightarrow> None
           | Some st \<Rightarrow> tree_run env n ops st)"

definition above :: "nat \<Rightarrow> 'h StateTree \<Rightarrow> 'h StateTree \<Rightarrow> bool" where
  "above n st st' \<longleftrightarrow> tree_ok st' \<and> root st' = root st \<and> tree_version st' = tree_version st
     \<and> info st' = info st \<and> n < depth st' \<and> take n (layers (snaps st')) = take n (layers (snaps st))"

lemma take_butlast_eq: "n < length xs \<Longrightarrow> take n (butlast xs) = take n xs"
  by (simp add: butlast_conv_take)

lemma below_above: "tree_ok st' \<Longrightarrow> below st st' \<Longrightarrow> n < depth st \<Longrightarrow> above n st st'"
  unfolding above_def below_def by (metis take_butlast_eq)

lemma above_trans: "above n a b \<Longrightarrow> above n b c \<Longrightarrow> above n a c"
  by (simp add: above_def)

lemma tree_step_above:
  assumes "tree_ok st" and "n < depth st" and "oper = OClear \<longrightarrow> n + 1 < depth st"
    and "tree_step env oper st = Some st'"
  shows "above n st st'"
proof (cases oper)
  case (OLookup a)
  then show ?thesis
    using assms LookupID_result [OF assms(1), of env a] by (cases "LookupID env st a") (simp add: reads_def below_above)
next
  case (OGet a)
  then show ?thesis
    using assms GetActor_result [OF assms(1), of env a] by (cases "GetActor env st a") (simp add: reads_def below_above)
next
  case (OSet a act)
  then show ?thesis
    using assms SetActor_below [OF assms(1), of env a act] by (cases "SetActor env st a act") (simp add: below_above)
next
  case (ODelete a)
  then show ?thesis
    using assms DeleteActor_result [OF assms(1), of env a] by (cases "DeleteActor env st a") (simp add: below_above)
next
  case (ORegister a)
  then show ?thesis
    using assms RegisterNewAddress_result [OF assms(1), of env a]
    by (cases "RegisterNewAddress env st a") (simp add: below_above)
next
  case OSnapshot
  then have "st' = Snapshot st" using assms(4) by simp
  then show ?thesis using assms(1,2) by (simp add: above_def)
next
  case ORevert
  obtain st1 where "Revert st = Some st1" "tree_ok st1" "root st1 = root st"
      "tree_version st1 = tree_version st" "info st1 = info st"
      "layers (snaps st1) = butlast (layers (snaps st)) @ [newStateSnapLayer]"
    using Revert_result [OF assms(1)] by blast
  then show ?thesis using ORevert assms by (simp add: above_def take_butlast_eq)
next
  case OClear
  then have d: "n + 1 < depth st" "2 \<le> depth st" using assms(3) by simp_all
  obtain st1 where c: "ClearSnapshot st = Some st1" "tree_ok st1" "root st1 = root st"
      "tree_version st1 = tree_version st" "info st1 = info st" "depth st1 = depth st - 1"
      "butlast (layers (snaps st1)) = butlast (butlast (layers (snaps st)))"
    using ClearSnapshot_result [OF assms(1) d(2)] by blast
  have n: "n < depth st1" using c(6) d by linarith
  have "take n (layers (snaps st1)) = take n (butlast (layers (snaps st1)))"
    by (rule take_butlast_eq [OF n, symmetric])
  also have "\<dots> = take n (layers (snaps st))"
    using c(7) d by (simp add: take_butlast_eq)
  finally show ?thesis using c n OClear assms(4) by (simp add: above_def)
qed

lemma tree_run_above:
  "tree_ok st \<Longrightarrow> n < depth st \<Longrightarrow> tree_run env n ops st = Some st' \<Longrightarrow> above n st st'"
proof (induction ops arbitrary: st)
  case Nil
  then show ?case by (simp add: above_def)
next
  case (Cons oper ops)
  then obtain st1 where st1: "tree_step env oper st = Some st1" "tree_run env n ops st1 = Some st'"
      "oper = OClear \<longrightarrow> n + 1 < depth st"
    by (auto split: if_splits option.splits)
  have a: "above n st st1" using tree_step_above [OF Cons.prems(1,2) st1(3,1)] .
  then have "above n st1 st'" using Cons.IH [OF _ _ st1(2)] by (simp add: above_def)
  with a show ?case by (rule above_trans)
qed

lemma run_over_snapshot:
  assumes "tree_ok st" and "tree_run env (depth st) ops (Snapshot st) = Some st2"
    and "depth st2 = depth st + 1"
  shows "tree_ok st2 \<and> below (Snapshot st) st2"
proof -
  have "above (depth st) (Snapshot st) st2"
    using tree_run_above [OF _ _ assms(2)] assms(1) by simp
  then show ?thesis using assms(3) by (simp add: above_def below_def butlast_conv_take)
qed

subsection \<open>Resolved addresses are IDs\<close>

text \<open>The address table of the init actor maps to ID addresses; then so do the caches.\<close>

definition resolves_to_ids :: "'h tree_env \<Rightarrow> bool" where
  "resolves_to_ids env \<longleftrightarrow> (\<forall>act a i. initResolve env act a = Inr (Some i) \<longrightarrow> is_id_addr i)"

definition cache_ids :: "stateSnapLayer \<Rightarrow> address set" where
  "cache_ids l = snd ` set (resolveCache l)"

definition ids_ok :: "stateSnaps \<Rightarrow> bool" where
  "ids_ok ss \<longleftrightarrow> (\<forall>l \<in> set (layers ss). cache_ids l \<subseteq> Collect is_id_addr)"

lemma ids_ok_subset:
  "ids_ok ss \<Longrightarrow> (\<And>l. l \<in> set (layers ss') \<Longrightarrow> l \<in> set (layers ss) \<or> cache_ids l \<subseteq> Collect is_id_addr) \<Longrightarrow> ids_ok ss'"
  unfolding ids_ok_def by blast

lemma cache_ids_lookup: "cache_lookup ls a = Some i \<Longrightarrow> \<exists>l \<in> set ls. i \<in> cache_ids l"
  by (induction ls) (auto simp: cache_ids_def split: option.splits dest: map_of_SomeD intro: rev_image_eqI)

lemma ids_ok_known: "ids_ok (snaps st) \<Longrightarrow> known st a i \<Longrightarrow> is_id_addr i"
  unfolding ids_ok_def known_def using cache_ids_lookup [of "layers (snaps st)" a i]
  by (auto split: if_splits)

lemma ids_ok_upd_last:
  assumes "ids_ok ss" and "upd_last f ss = Some ss'"
    and "\<And>l. cache_ids l \<subseteq> Collect is_id_addr \<Longrightarrow> cache_ids (f l) \<subseteq> Collect is_id_addr"
  shows "ids_ok ss'"
proof (rule ids_ok_subset [OF assms(1)])
  fix l assume l: "l \<in> set (layers ss')"
  have ne: "layers ss \<noteq> []" "layers ss' = butlast (layers ss) @ [f (last (layers ss))]"
    using assms(2) by (auto simp: upd_last_def split: if_splits)
  have "cache_ids (last (layers ss)) \<subseteq> Collect is_id_addr"
    using assms(1) last_in_set [OF ne(1)] unfolding ids_ok_def by blast
  then show "l \<in> set (layers ss) \<or> cache_ids l \<subseteq> Collect is_id_addr"
    using l ne(2) assms(3) by (auto dest: in_set_butlastD)
qed

lemma set_AList_update: "snd ` set (AList.update k v m) \<subseteq> insert v (snd ` set m)"
  by (induction m) auto

lemma set_put_all: "snd ` set (put_all kvs m) \<subseteq> snd ` set kvs \<union> snd ` set m"
proof (induction kvs m rule: put_all.induct)
  case (2 k v kvs m)
  then show ?case using set_AList_update [of k v m] by auto
qed simp

lemma ids_ok_dropLayer: "ids_ok ss \<Longrightarrow> dropLayer ss = Some ss' \<Longrightarrow> ids_ok ss'"
  by (rule ids_ok_subset) (auto simp: dropLayer_def Let_def dest: in_set_butlastD split: if_splits)

lemma ids_ok_mergeLastLayer:
  assumes "ids_ok ss" and "mergeLastLayer ss = Some ss'"
  shows "ids_ok ss'"
proof -
  let ?n = "length (layers ss)"
  have n: "\<not> ?n < 2" using assms(2) by (simp add: mergeLastLayer_def split: if_splits)
  let ?l = "(layers ss ! (?n - 2))\<lparr>actors := put_all (actors (layers ss ! (?n - 1))) (actors (layers ss ! (?n - 2))),
      resolveCache := put_all (resolveCache (layers ss ! (?n - 1))) (resolveCache (layers ss ! (?n - 2)))\<rparr>"
  have "layers ss ! (?n - 1) \<in> set (layers ss)" "layers ss ! (?n - 2) \<in> set (layers ss)"
    using n by simp_all
  then have "cache_ids (layers ss ! (?n - 1)) \<union> cache_ids (layers ss ! (?n - 2)) \<subseteq> Collect is_id_addr"
    using assms(1) unfolding ids_ok_def by blast
  moreover have "cache_ids ?l \<subseteq> cache_ids (layers ss ! (?n - 1)) \<union> cache_ids (layers ss ! (?n - 2))"
    using set_put_all by (simp add: cache_ids_def)
  ultimately have "cache_ids ?l \<subseteq> Collect is_id_addr" by blast
  then have "ids_ok (ss\<lparr>layers := (layers ss)[?n - 2 := ?l]\<rparr>)"
    using set_update_subset_insert [of "layers ss" "?n - 2" ?l]
    by (intro ids_ok_subset [OF assms(1)]) auto
  then show ?thesis using assms(2) n ids_ok_dropLayer by (simp add: mergeLastLayer_def Let_def)
qed

lemma ids_ok_setActor: "ids_ok ss \<Longrightarrow> setActor ss a act = Some ss' \<Longrightarrow> ids_ok ss'"
  unfolding setActor_def by (erule (1) ids_ok_upd_last) (simp add: cache_ids_def)

lemma ids_ok_deleteActor: "ids_ok ss \<Longrightarrow> deleteActor ss a = Some ss' \<Longrightarrow> ids_ok ss'"
  unfolding deleteActor_def by (erule (1) ids_ok_upd_last) (simp add: cache_ids_def)

lemma ids_ok_addLayer: "ids_ok ss \<Longrightarrow> ids_ok (addLayer ss)"
  by (rule ids_ok_subset) (auto simp: addLayer_def cache_ids_def)

lemma ids_ok_resolveAddress: "ids_ok ss \<Longrightarrow> resolveAddress ss a = Some (r, ss') \<Longrightarrow> ids_ok ss'"
  by (rule ids_ok_subset) (auto simp: resolveAddress_def)

lemma ids_ok_cacheResolve:
  assumes "ids_ok ss" and "is_id_addr i" and "cacheResolveAddress ss a i = Some ss'"
  shows "ids_ok ss'"
proof -
  obtain ss1 where ss1: "upd_last (\<lambda>l. l\<lparr>resolveCache := AList.update a i (resolveCache l)\<rparr>) ss = Some ss1"
      "layers ss' = layers ss1"
    using assms(3) by (auto simp: cacheResolveAddress_def)
  have "ids_ok ss1"
  proof (rule ids_ok_upd_last [OF assms(1) ss1(1)])
    fix l assume "cache_ids l \<subseteq> Collect is_id_addr"
    then show "cache_ids (l\<lparr>resolveCache := AList.update a i (resolveCache l)\<rparr>) \<subseteq> Collect is_id_addr"
      using assms(2) set_AList_update [of a i "resolveCache l"]
      unfolding cache_ids_def by (simp del: image_subset_iff) blast
  qed
  then show ?thesis using ss1(2) by (simp add: ids_ok_def)
qed

text \<open>Every operation of the tree keeps the caches in order.\<close>

lemma resolveAddress_loop_ids:
  "resolveAddress_loop ls a n lm = Some (Some i, lm') \<Longrightarrow> \<exists>l \<in> set ls. i \<in> cache_ids l"
proof (induction n arbitrary: lm)
  case (Suc n)
  have n: "n < length ls" using Suc.prems by (simp split: if_splits)
  show ?case
  proof (cases "map_of (resolveCache (ls ! n)) a")
    case None
    then show ?thesis using Suc n by (auto split: if_splits)
  next
    case (Some j)
    then have "resolveCache (ls ! n) \<noteq> []" "j \<in> cache_ids (ls ! n)"
      by (auto simp: cache_ids_def dest: map_of_SomeD intro: rev_image_eqI)
    then show ?thesis using Suc.prems n Some by auto
  qed
qed simp

lemma resolveAddress_ids: "ids_ok ss \<Longrightarrow> resolveAddress ss a = Some (Some i, ss') \<Longrightarrow> is_id_addr i"
  unfolding ids_ok_def resolveAddress_def using resolveAddress_loop_ids by fastforce

lemma GetActor_resolved_ids:
  "ids_ok (snaps st) \<Longrightarrow> GetActor_resolved env st a = (r, st') \<Longrightarrow> ids_ok (snaps st')"
  by (auto simp: GetActor_resolved_def on_snaps_def dest: ids_ok_setActor
      split: sum.splits option.splits prod.splits)

lemma lookupIDinternal_ids:
  assumes "resolves_to_ids env" and "ids_ok (snaps st)" and "lookupIDinternal env st a = (r, st')"
  shows "ids_ok (snaps st') \<and> (\<forall>i. r = Inr i \<longrightarrow> is_id_addr i)"
  using assms GetActor_resolved_ids [OF assms(2), of env InitAddress]
  by (auto simp: lookupIDinternal_def resolves_to_ids_def split: sum.splits option.splits prod.splits)

lemma LookupID_ids:
  assumes "resolves_to_ids env" and "ids_ok (snaps st)" and "LookupID env st a = (r, st')"
  shows "ids_ok (snaps st') \<and> (\<forall>i. r = Inr i \<longrightarrow> is_id_addr i)"
proof (cases "is_id_addr a \<or> resolveAddress (snaps st) a = None")
  case True
  then show ?thesis using assms by (auto simp: LookupID_def split: if_splits)
next
  case False
  then obtain ra ss where ra: "resolveAddress (snaps st) a = Some (ra, ss)" by auto
  then have ss: "ids_ok ss" using assms(2) ids_ok_resolveAddress by blast
  show ?thesis
  proof (cases ra)
    case (Some i)
    then show ?thesis using False ra ss assms(2,3) resolveAddress_ids by (auto simp: LookupID_def)
  next
    case None
    obtain r1 st1 where l: "lookupIDinternal env (st\<lparr>snaps := ss\<rparr>) a = (r1, st1)" by fastforce
    have l': "ids_ok (snaps st1)" "\<And>i. r1 = Inr i \<Longrightarrow> is_id_addr i"
      using lookupIDinternal_ids [OF assms(1) _ l] ss by simp_all
    then show ?thesis
      using False ra None l assms(3) ids_ok_cacheResolve [OF l'(1)]
      by (auto simp: LookupID_def on_snaps_def split: sum.splits option.splits)
  qed
qed

lemma on_snaps_ids:
  "ids_ok (snaps st) \<Longrightarrow> on_snaps f st = (r, st') \<Longrightarrow> (\<And>ss ss'. ids_ok ss \<Longrightarrow> f ss = Some ss' \<Longrightarrow> ids_ok ss')
    \<Longrightarrow> ids_ok (snaps st')"
  by (auto simp: on_snaps_def split: option.splits)

lemma GetActor_ids:
  "resolves_to_ids env \<Longrightarrow> ids_ok (snaps st) \<Longrightarrow> GetActor env st a = (r, st') \<Longrightarrow> ids_ok (snaps st')"
  by (cases "LookupID env st a")
    (auto simp: GetActor_def dest: LookupID_ids GetActor_resolved_ids split: sum.splits if_splits)

lemma SetActor_ids:
  assumes "resolves_to_ids env" and "ids_ok (snaps st)" and "SetActor env st a act = (r, st')"
  shows "ids_ok (snaps st')"
proof -
  obtain r1 st1 where l: "LookupID env st a = (r1, st1)" by fastforce
  have st1: "ids_ok (snaps st1)" using LookupID_ids [OF assms(1,2) l] by simp
  then have "ids_ok (snaps st')" if "on_snaps (\<lambda>ss. setActor ss i act) st1 = (r, st')" for i
    using on_snaps_ids [OF st1 that] ids_ok_setActor by blast
  then show ?thesis using assms(3) l st1 by (auto simp: SetActor_def split: sum.splits)
qed

lemma DeleteActor_ids:
  assumes "resolves_to_ids env" and "ids_ok (snaps st)" and "DeleteActor env st a = (r, st')"
  shows "ids_ok (snaps st')"
proof -
  obtain r1 st1 where l: "LookupID env st a = (r1, st1)" by fastforce
  have st1: "ids_ok (snaps st1)" using LookupID_ids [OF assms(1,2) l] by simp
  then have "ids_ok (snaps st2)" if "GetActor env st1 i = (r2, st2)" for i r2 st2
    using GetActor_ids [OF assms(1) _ that] by simp
  moreover have "ids_ok (snaps st')" if "on_snaps (\<lambda>ss. deleteActor ss i) st2 = (r, st')" "ids_ok (snaps st2)" for i st2
    using on_snaps_ids [OF that(2,1)] ids_ok_deleteActor by blast
  ultimately show ?thesis
    using assms(2,3) l st1
    by (auto simp: DeleteActor_def split: if_splits sum.splits prod.splits)
qed

lemma RegisterNewAddress_ids:
  assumes "resolves_to_ids env" and "ids_ok (snaps st)" and "RegisterNewAddress env st a = (r, st')"
  shows "ids_ok (snaps st')"
proof -
  obtain r1 st1 where g: "GetActor env st InitAddress = (r1, st1)" by fastforce
  have st1: "ids_ok (snaps st1)" using GetActor_ids [OF assms(1,2) g] .
  then have "ids_ok (snaps st2)" if "SetActor env st1 InitAddress act = (r2, st2)" for act r2 st2
    using SetActor_ids [OF assms(1) _ that] by simp
  then show ?thesis
    using assms(3) g st1 by (auto simp: RegisterNewAddress_def split: sum.splits prod.splits)
qed

lemma snapshot_ids:
  "ids_ok (snaps st) \<Longrightarrow> ids_ok (snaps (Snapshot st))"
  "ids_ok (snaps st) \<Longrightarrow> Revert st = Some st' \<Longrightarrow> ids_ok (snaps st')"
  "ids_ok (snaps st) \<Longrightarrow> ClearSnapshot st = Some st' \<Longrightarrow> ids_ok (snaps st')"
  by (auto simp: Snapshot_def Revert_def ClearSnapshot_def intro!: ids_ok_addLayer
      dest: ids_ok_dropLayer ids_ok_mergeLastLayer)

subsection \<open>Flushing and iterating\<close>

text \<open>What the HAMT's documentation promises of a write that succeeds.\<close>

definition hamt_laws :: "'h tree_env \<Rightarrow> bool" where
  "hamt_laws env \<longleftrightarrow>
     (\<forall>h a act h'. rootPut env h a act = Inr h' \<longrightarrow> rootGet env h' = (rootGet env h)(a := Inr (Some act)))
   \<and> (\<forall>h a h'. rootDelete env h a = Inr h' \<longrightarrow> rootGet env h' = (rootGet env h)(a := Inr None))"

text \<open>What it promises of an iteration: every entry once.\<close>

definition hamt_iterates :: "'h tree_env \<Rightarrow> 'h \<Rightarrow> bool" where
  "hamt_iterates env h \<longleftrightarrow> distinct (map fst (rootEntries env h))
     \<and> rootGet env h = (\<lambda>a. Inr (map_of (rootEntries env h) a))"

lemma Flush_loop_result:
  assumes "hamt_laws env"
  shows "distinct (map fst ops) \<Longrightarrow> Flush_loop env ops h = Inr h' \<Longrightarrow>
    rootGet env h' a = (case map_of ops a of Some oper \<Rightarrow> Inr (op_actor oper) | None \<Rightarrow> rootGet env h a)"
proof (induction ops arbitrary: h)
  case (Cons ao ops)
  obtain b oper where ao: "ao = (b, oper)" by fastforce
  obtain h1 where h1: "(if Delete oper then rootDelete env h b else rootPut env h b (Act oper)) = Inr h1"
      "Flush_loop env ops h1 = Inr h'"
    using Cons.prems(2) ao by (auto split: sum.splits)
  have g: "rootGet env h1 = (rootGet env h)(b := Inr (op_actor oper))"
    using h1(1) assms by (auto simp: hamt_laws_def op_actor_def split: if_splits)
  have "map_of ops b = None" using Cons.prems(1) ao by (simp add: map_of_eq_None_iff)
  then show ?case using Cons.IH [OF _ h1(2)] Cons.prems(1) ao g by (auto split: option.splits)
qed simp

lemma Flush_result:
  assumes "tree_ok st" and "hamt_laws env" and "Flush env st = Inr (c, st')"
  shows "depth st = 1 \<and> layers (snaps st') = layers (snaps st)
    \<and> rootGet env (root st') a = (case layer_lookup (layers (snaps st)) a of
        Some oper \<Rightarrow> Inr (op_actor oper) | None \<Rightarrow> rootGet env (root st) a)"
proof -
  obtain l where l: "layers (snaps st) = [l]"
    using assms(3) by (auto simp: Flush_def length_Suc_conv split: if_splits)
  obtain h where h: "Flush_loop env (actors l) (root st) = Inr h" "st' = st\<lparr>root := h\<rparr>"
    using assms(3) l by (auto simp: Flush_def split: if_splits sum.splits)
  have "distinct (map fst (actors l))" using assms(1) l by (simp add: tree_ok_def snaps_ok_def layer_ok_def)
  then show ?thesis using Flush_loop_result [OF assms(2) _ h(1)] h(2) l by simp
qed

text \<open>The callback that records what it is given.\<close>

definition collect :: "address \<Rightarrow> Actor \<Rightarrow> (address \<times> Actor) list \<Rightarrow> unit + (address \<times> Actor) list" where
  "collect a act xs = Inr (xs @ [(a, act)])"

text \<open>What has been recorded when the layers with the lookup function \<open>look\<close> have been visited.\<close>

definition visited ::
  "(address \<Rightarrow> streeOp option) \<Rightarrow> address list \<Rightarrow> (address \<times> Actor) list \<Rightarrow> bool"
where
  "visited look seen xs \<longleftrightarrow> set seen = dom look \<and> distinct (map fst xs)
     \<and> (\<forall>a. map_of xs a = (case look a of Some oper \<Rightarrow> op_actor oper | None \<Rightarrow> None))"

lemma visited_new:
  assumes "visited look seen xs" and "a \<notin> set seen"
  shows "visited (look(a \<mapsto> oper)) (a # seen) (xs @ (case op_actor oper of Some act \<Rightarrow> [(a, act)] | None \<Rightarrow> []))"
proof -
  have a: "map_of xs a = None" using assms by (auto simp: visited_def domIff)
  then have "a \<notin> fst ` set xs" by (simp add: map_of_eq_None_iff)
  then show ?thesis using assms a by (auto simp: visited_def map_add_def split: option.splits)
qed

lemma ForEach_layer_visits:
  "visited look seen xs \<Longrightarrow> distinct (map fst ops) \<Longrightarrow>
    \<exists>seen' xs'. ForEach_layer collect ops seen xs = Inr (seen', xs')
      \<and> visited (map_of ops ++ look) seen' xs'"
proof (induction ops arbitrary: seen xs look)
  case (Cons ao ops)
  obtain a oper where ao: "ao = (a, oper)" by fastforce
  have n: "map_of ops a = None" using Cons.prems(2) ao by (simp add: map_of_eq_None_iff)
  show ?case
  proof (cases "a \<in> set seen")
    case True
    then obtain o' where "look a = Some o'" using Cons.prems(1) by (auto simp: visited_def)
    then have "map_of (ao # ops) ++ look = map_of ops ++ look"
      by (auto simp: ao fun_eq_iff map_add_def split: option.splits)
    moreover have "ForEach_layer collect (ao # ops) seen xs = ForEach_layer collect ops seen xs"
      using True ao by simp
    ultimately show ?thesis using Cons.IH [OF Cons.prems(1)] Cons.prems(2) by (simp del: map_of.simps)
  next
    case False
    then have "look a = None" using Cons.prems(1) by (auto simp: visited_def)
    then have m: "map_of (ao # ops) ++ look = map_of ops ++ look(a \<mapsto> oper)"
      using n by (auto simp: ao fun_eq_iff map_add_def split: option.splits)
    have step: "ForEach_layer collect (ao # ops) seen xs = ForEach_layer collect ops (a # seen)
        (xs @ (case op_actor oper of Some act \<Rightarrow> [(a, act)] | None \<Rightarrow> []))"
      using False ao by (simp add: collect_def op_actor_def)
    have "distinct (map fst ops)" using Cons.prems(2) by simp
    then show ?thesis
      using Cons.IH [OF visited_new [OF Cons.prems(1) False, of oper]] unfolding step m by blast
  qed
qed simp

lemma ForEach_layers_visit:
  "visited look seen xs \<Longrightarrow> \<forall>l \<in> set ls. layer_ok l \<Longrightarrow>
    \<exists>seen' xs'. ForEach_layers collect ls seen xs = Inr (seen', xs')
      \<and> visited (layer_lookup (rev ls) ++ look) seen' xs'"
proof (induction ls arbitrary: seen xs look)
  case (Cons l ls)
  obtain seen1 xs1 where l: "ForEach_layer collect (actors l) seen xs = Inr (seen1, xs1)"
      "visited (map_of (actors l) ++ look) seen1 xs1"
    using ForEach_layer_visits [OF Cons.prems(1), of "actors l"] Cons.prems(2) by (auto simp: layer_ok_def)
  have "layer_lookup (rev (l # ls)) = layer_lookup (rev ls) ++ map_of (actors l)"
    by (simp add: fun_eq_iff layer_lookup_snoc map_add_def)
  then show ?case using Cons.IH [OF l(2)] Cons.prems(2) l(1) by simp
next
  case Nil
  have "layer_lookup (rev []) ++ look = look" by (simp add: fun_eq_iff map_add_def split: option.splits)
  then show ?case using Nil.prems(1) by simp
qed

text \<open>The entries of the HAMT are visited as one more layer below the others.\<close>

definition live :: "Actor \<Rightarrow> streeOp" where
  "live act = \<lparr>Act = act, Delete = False\<rparr>"

lemma op_actor_live [simp]: "op_actor (live act) = Some act"
  by (simp add: op_actor_def live_def)

lemma ForEach_root_layer:
  "distinct (map fst kvs) \<Longrightarrow> \<forall>a \<in> fst ` set kvs. a \<in> set seen \<longleftrightarrow> a \<in> set seen' \<Longrightarrow>
    ForEach_root f kvs seen s =
      (case ForEach_layer f (map (\<lambda>(a, act). (a, live act)) kvs) seen' s of
         Inl e \<Rightarrow> Inl e | Inr (_, s) \<Rightarrow> Inr s)"
proof (induction kvs arbitrary: seen' s)
  case (Cons kv kvs)
  obtain a act where kv: "kv = (a, act)" by fastforce
  have "ForEach_root f kvs seen t =
      (case ForEach_layer f (map (\<lambda>(a, act). (a, live act)) kvs) (a # seen') t of
         Inl e \<Rightarrow> Inl e | Inr (_, s) \<Rightarrow> Inr s)" for t
    using Cons.prems kv by (intro Cons.IH) auto
  moreover have "ForEach_root f kvs seen t =
      (case ForEach_layer f (map (\<lambda>(a, act). (a, live act)) kvs) seen' t of
         Inl e \<Rightarrow> Inl e | Inr (_, s) \<Rightarrow> Inr s)" for t
    using Cons.prems kv by (intro Cons.IH) auto
  ultimately show ?case
    using Cons.prems(2) kv by (auto simp: live_def split: sum.splits)
qed simp

lemma map_of_live: "map_of (map (\<lambda>(a, act). (a, live act)) kvs) = map_option live \<circ> map_of kvs"
  by (induction kvs) (auto simp: fun_eq_iff)

lemma ForEach_visits:
  assumes "tree_ok st" and "hamt_iterates env (root st)"
  shows "\<exists>xs. ForEach env st collect [] = Inr xs \<and> distinct (map fst xs) \<and> map_of xs = view env st"
proof -
  let ?look = "layer_lookup (layers (snaps st))" and ?kvs = "rootEntries env (root st)"
  have "visited Map.empty [] []" by (simp add: visited_def)
  then obtain seen xs1 where l: "ForEach_layers collect (rev (layers (snaps st))) [] [] = Inr (seen, xs1)"
      "visited (?look ++ Map.empty) seen xs1"
    using ForEach_layers_visit [of Map.empty "[]" "[]" "rev (layers (snaps st))"] assms(1)
    by (auto simp: tree_ok_def snaps_ok_def)
  have d: "distinct (map fst (map (\<lambda>(a, act). (a, live act)) ?kvs))" "distinct (map fst ?kvs)"
    using assms(2) by (simp_all add: hamt_iterates_def comp_def case_prod_unfold)
  obtain seen' xs where x: "ForEach_layer collect (map (\<lambda>(a, act). (a, live act)) ?kvs) seen xs1 = Inr (seen', xs)"
      "visited ((map_option live \<circ> map_of ?kvs) ++ ?look) seen' xs"
    using ForEach_layer_visits [OF l(2) d(1)] by (auto simp: map_of_live)
  have "ForEach env st collect [] = Inr xs"
    using l(1) x(1) ForEach_root_layer [OF d(2), of seen seen collect xs1] by (simp add: ForEach_def)
  moreover have "map_of xs = view env st"
    using x(2) assms(2) by (auto simp: visited_def hamt_iterates_def fun_eq_iff view_def layers_view_def
        map_add_def comp_def split: option.splits)
  ultimately show ?thesis using x(2) by (simp add: visited_def)
qed

subsection \<open>An in-memory tree\<close>

text \<open>
  The environment with the HAMT as an association list and the address table of the init actor as
  a fixed list; the examples below run on it.
\<close>

definition mem_env :: "(address \<times> address) list \<Rightarrow> (address \<times> Actor) list tree_env" where
  "mem_env table =
     \<lparr>rootGet = (\<lambda>h a. Inr (map_of h a)),
      rootPut = (\<lambda>h a act. Inr (AList.update a act h)),
      rootDelete = (\<lambda>h a. if map_of h a = None then Inl ''key not found'' else Inr (AList.delete a h)),
      rootEntries = (\<lambda>h. h),
      rootFlush = (\<lambda>h. Inr ''root''),
      storePutRoot = (\<lambda>v r i. Inr (r @ i)),
      storePutInfo = Inr ''info'',
      storeGetRoot = (\<lambda>c. Inl ''block not found''),
      newTree = (\<lambda>v. Inr []),
      loadTree = (\<lambda>v c. Inl ''block not found''),
      initResolve = (\<lambda>act a. Inr (map_of table a)),
      initMapNew = (\<lambda>act a. Inr (AddrID 2000, ''head''))\<rparr>"

definition example_actor :: "int \<Rightarrow> Actor" where
  "example_actor b = \<lparr>Code = ''account'', Head = ''h'', Nonce = 0, Balance = b\<rparr>"

definition example_tree :: "(address \<times> Actor) list StateTree" where
  "example_tree = \<lparr>root = [(AddrID 1, example_actor 0), (AddrID 100, example_actor 7)],
     tree_version = 4, info = ''i'', snaps = newStateSnaps\<rparr>"

lemma mem_env_laws: "hamt_laws (mem_env table)"
  by (simp add: hamt_laws_def mem_env_def map_of_update delete_conv' fun_eq_iff)

subsection \<open>Properties of the tree\<close>

text \<open>
  C3. Reverting to a snapshot undoes everything. Take a snapshot, make any sequence of calls that
  opens and closes snapshots of its own in any nesting, then revert and clear: no step panics, and
  every actor reads as it did before the snapshot.
\<close>

theorem snapshot_revert_restores:
  assumes "tree_ok st" and "tree_run env (depth st) ops (Snapshot st) = Some st2"
    and "depth st2 = depth st + 1"
  shows "\<exists>st3 st4. Revert st2 = Some st3 \<and> ClearSnapshot st3 = Some st4 \<and> tree_ok st4
    \<and> depth st4 = depth st \<and> view env st4 = view env st"
proof -
  have "tree_ok st2" "below (Snapshot st) st2" using run_over_snapshot [OF assms] by simp_all
  from tree.undone_work [OF assms(1) this, of env] show ?thesis by (auto simp: below_def)
qed

definition example_ops :: "tree_op list" where
  "example_ops = [OSet (AddrID 100) (example_actor 1), OSnapshot, OSet (AddrBLS ''k'') (example_actor 2),
     OClear, ODelete (AddrID 100)]"

definition example_env :: "(address \<times> Actor) list tree_env" where
  "example_env = mem_env [(AddrBLS ''k'', AddrID 200), (AddrSecp ''s'', AddrID 100)]"

definition example_top :: "(address \<times> Actor) list StateTree" where
  "example_top = example_tree\<lparr>snaps := \<lparr>layers =
     [newStateSnapLayer,
      \<lparr>actors = [(AddrID 100, \<lparr>Act = Actor_zero, Delete = True\<rparr>), (AddrID 1, live (example_actor 0)),
                 (AddrID 200, live (example_actor 2))],
       resolveCache = [(AddrBLS ''k'', AddrID 200)]\<rparr>], lastMaybeNonEmptyResolveCache = 1\<rparr>\<rparr>"

lemma example_tree_ok: "tree_ok example_tree" "depth example_tree = 1"
  by (simp_all add: example_tree_def newStateSnaps_def addLayer_def tree_ok_def snaps_ok_def hint_ok_def)

lemma example_run: "tree_run example_env (Suc 0) example_ops (Snapshot example_tree) = Some example_top"
  by code_simp

lemma example_top_depth: "depth example_top = 2"
  by (simp add: example_top_def)

theorem snapshot_revert_restores_witness:
  "\<exists>st3 st4. Revert example_top = Some st3 \<and> ClearSnapshot st3 = Some st4 \<and> tree_ok st4
    \<and> depth st4 = 1 \<and> view example_env st4 = view example_env example_tree"
  using snapshot_revert_restores [of example_tree example_env example_ops example_top]
  by (simp add: example_tree_ok example_run example_top_depth)

text \<open>
  Clearing a snapshot keeps its effects. After the same kind of run, clearing instead of
  reverting never panics, every actor reads as it did before the clearing, and the layers below
  the merged one are those the run started from.
\<close>

theorem snapshot_clear_commits:
  assumes "tree_ok st" and "tree_run env (depth st) ops (Snapshot st) = Some st2"
    and "depth st2 = depth st + 1"
  shows "\<exists>st3. ClearSnapshot st2 = Some st3 \<and> tree_ok st3 \<and> view env st3 = view env st2
    \<and> root st3 = root st \<and> depth st3 = depth st
    \<and> butlast (layers (snaps st3)) = butlast (layers (snaps st))"
proof -
  have "tree_ok st2" "below (Snapshot st) st2" using run_over_snapshot [OF assms] by simp_all
  from tree.commit_ok [OF assms(1) this, of env] show ?thesis by (auto simp: below_def)
qed

theorem snapshot_clear_commits_witness:
  "\<exists>st3. ClearSnapshot example_top = Some st3 \<and> tree_ok st3 \<and> view example_env st3 = view example_env example_top
    \<and> root st3 = root example_tree \<and> depth st3 = 1
    \<and> butlast (layers (snaps st3)) = butlast (layers (snaps example_tree))"
  using snapshot_clear_commits [of example_tree example_env example_ops example_top]
  by (simp add: example_tree_ok example_run example_top_depth)

text \<open>
  The resolution cache may be searched from the hint. In every state that a fresh tree reaches
  by calls that do not close the base layer, \<open>resolveAddress\<close>, which starts at
  \<open>lastMaybeNonEmptyResolveCache\<close> and lowers it past empty caches, finds exactly what a search of
  all the layers from the top would find.
\<close>

theorem resolve_address_searches_all_layers:
  assumes "NewStateTree env ver = Inr st0" and "tree_run env 0 ops st0 = Some st"
  shows "\<exists>ss. resolveAddress (snaps st) a = Some (cache_lookup (layers (snaps st)) a, ss)
    \<and> layers ss = layers (snaps st)"
proof -
  have ok: "tree_ok st0" by (rule tree_ok_new [OF assms(1)])
  then have "0 < depth st0" by (simp add: tree_ok_def snaps_ok_def)
  then have "tree_ok st" using tree_run_above [OF ok _ assms(2)] by (simp add: above_def)
  then show ?thesis unfolding tree_ok_def by (blast elim: resolveAddress_search)
qed

definition example_cached :: "(address \<times> Actor) list StateTree" where
  "example_cached = \<lparr>root = [], tree_version = 4, info = ''info'',
     snaps = \<lparr>layers = [\<lparr>actors = [(AddrID 1, live (example_actor 0))], resolveCache = [(AddrBLS ''k'', AddrID 200)]\<rparr>,
                newStateSnapLayer], lastMaybeNonEmptyResolveCache = 0\<rparr>\<rparr>"

theorem resolve_address_searches_all_layers_witness:
  "\<exists>ss. resolveAddress (snaps example_cached) (AddrBLS ''k'') = Some (Some (AddrID 200), ss)
    \<and> layers ss = layers (snaps example_cached)"
proof -
  have new: "NewStateTree example_env 4 = Inr \<lparr>root = [], tree_version = 4, info = ''info'', snaps = newStateSnaps\<rparr>"
    by code_simp
  have run: "tree_run example_env 0 [OSet (AddrID 1) (example_actor 0), OLookup (AddrBLS ''k''), OSnapshot]
      \<lparr>root = [], tree_version = 4, info = ''info'', snaps = newStateSnaps\<rparr> = Some example_cached"
    by code_simp
  have "cache_lookup (layers (snaps example_cached)) (AddrBLS ''k'') = Some (AddrID 200)" by code_simp
  then show ?thesis using resolve_address_searches_all_layers [OF new run, of "AddrBLS ''k''"] by simp
qed

text \<open>
  A read after a write. When two addresses have been resolved, writing an actor under the one
  succeeds, and a read under the other gives the actor written if both name the same ID, and
  otherwise exactly what it gave before, its errors included.
\<close>

theorem get_after_set:
  assumes "tree_ok st" and "known st a i" and "known st b j" and "b \<noteq> AddrUndef"
  shows "fst (SetActor env st a act) = Inr ()
    \<and> fst (GetActor env (snd (SetActor env st a act)) b) =
        (if j = i then Inr act else fst (GetActor env st b))"
proof -
  obtain ss where ss: "SetActor env st a act = (Inr (), st\<lparr>snaps := ss\<rparr>)" "snaps_ok ss"
      "layer_lookup (layers ss) = (layer_lookup (layers (snaps st)))(i \<mapsto> \<lparr>Act = act, Delete = False\<rparr>)"
      "cache_lookup (layers ss) = cache_lookup (layers (snaps st))"
    using SetActor_layers [OF assms(1,2)] by blast
  have "tree_ok (st\<lparr>snaps := ss\<rparr>)" "known (st\<lparr>snaps := ss\<rparr>) b j"
    using ss assms(3) by (simp_all add: tree_ok_def known_def)
  then have "fst (GetActor env (st\<lparr>snaps := ss\<rparr>) b) = read_result env (st\<lparr>snaps := ss\<rparr>) j"
    using assms(4) by (intro GetActor_value)
  then show ?thesis
    using GetActor_value [OF assms(1,3,4)] ss(1,3) by (simp add: read_result_def read_of_set)
qed

theorem get_after_set_witness:
  "fst (GetActor example_env (snd (SetActor example_env example_top (AddrBLS ''k'') (example_actor 5))) (AddrID 200)) =
    Inr (example_actor 5)"
proof -
  have "tree_ok example_top" "known example_top (AddrBLS ''k'') (AddrID 200)"
      "known example_top (AddrID 200) (AddrID 200)"
    by code_simp+
  then show ?thesis using get_after_set [of example_top "AddrBLS ''k''" "AddrID 200" "AddrID 200" "AddrID 200"
      example_env "example_actor 5"] by simp
qed

text \<open>
  A deleted actor is gone and nothing else is. When \<open>DeleteActor\<close> succeeds, a read under the
  same address answers "actor not found", and every other ID reads as before; when it fails, every
  ID reads as before.
\<close>

theorem delete_removes_only_target:
  assumes "tree_ok st" and "DeleteActor env st a = (r, st')"
  shows "if r = Inr () then fst (GetActor env st' a) = Inl ErrActorNotFound
           \<and> (\<exists>i. known st' a i \<and> (\<forall>j. j \<noteq> i \<longrightarrow> view env st' j = view env st j))
         else view env st' = view env st"
proof (cases r)
  case (Inl e)
  then show ?thesis using DeleteActor_result [OF assms] by simp
next
  case (Inr u)
  have a: "a \<noteq> AddrUndef" using assms(2) Inr by (auto simp: DeleteActor_def)
  obtain i where i: "known st' a i" "view env st' = (view env st)(i := None)"
      "read_result env st' i = Inl ErrActorNotFound" "tree_ok st'"
    using DeleteActor_gone [OF assms(1), of env a st'] assms(2) Inr by auto
  then show ?thesis using Inr GetActor_value [OF i(4,1) a] by auto
qed

theorem delete_removes_only_target_witness:
  "fst (GetActor example_env (snd (DeleteActor example_env example_top (AddrBLS ''k''))) (AddrBLS ''k'')) =
     Inl ErrActorNotFound"
proof -
  have "tree_ok example_top" "fst (DeleteActor example_env example_top (AddrBLS ''k'')) = Inr ()"
    by code_simp+
  then show ?thesis
    using delete_removes_only_target [of example_top example_env "AddrBLS ''k''"]
    by (cases "DeleteActor example_env example_top (AddrBLS ''k'')") simp
qed

text \<open>
  Flushing persists what one reads. With a HAMT whose successful writes do what they say, a
  \<open>Flush\<close> that succeeds had no snapshot open, and the flushed HAMT alone, without the layers, holds
  exactly the actors that were readable; reading through the layers still gives the same.
\<close>

theorem flush_persists_view:
  assumes "tree_ok st" and "hamt_laws env" and "Flush env st = Inr (c, st')"
  shows "depth st = 1 \<and> layers_view env (root st') (\<lambda>_. None) = view env st \<and> view env st' = view env st"
proof -
  note f = Flush_result [OF assms]
  have "layers_view env (root st') (\<lambda>_. None) a = view env st a" for a
    using f [of a] by (auto simp: layers_view_def view_def split: option.splits)
  moreover have "view env st' a = view env st a" for a
    using f [of a] by (auto simp: layers_view_def view_def split: option.splits)
  ultimately show ?thesis using f by blast
qed

definition example_dirty :: "(address \<times> Actor) list StateTree" where
  "example_dirty = snd (SetActor example_env (snd (DeleteActor example_env example_tree (AddrID 100)))
     (AddrBLS ''k'') (example_actor 9))"

theorem flush_persists_view_witness:
  "\<exists>c st'. Flush example_env example_dirty = Inr (c, st')
    \<and> layers_view example_env (root st') (\<lambda>_. None) = view example_env example_dirty
    \<and> view example_env example_dirty (AddrID 200) = Some (example_actor 9)"
proof -
  have ok: "tree_ok example_dirty" by code_simp
  have r: "\<not> isl (Flush example_env example_dirty)" by code_simp
  then obtain c st' where f: "Flush example_env example_dirty = Inr (c, st')"
    by (cases "Flush example_env example_dirty") auto
  have "hamt_laws example_env" by (simp add: example_env_def mem_env_laws)
  moreover have "view example_env example_dirty (AddrID 200) = Some (example_actor 9)" by code_simp
  ultimately show ?thesis using flush_persists_view [OF ok _ f] f by blast
qed

text \<open>
  \<open>ForEach\<close> visits the live actors. Over a HAMT that iterates its entries, \<open>ForEach\<close> with a
  callback that records what it is given visits every readable actor, under its ID, with the value
  a read gives, and no ID twice: deleted actors and values shadowed by a later layer are skipped.
\<close>

theorem for_each_visits_view:
  assumes "tree_ok st" and "hamt_iterates env (root st)"
  shows "\<exists>xs. ForEach env st collect [] = Inr xs \<and> distinct (map fst xs) \<and> map_of xs = view env st"
  by (rule ForEach_visits [OF assms])

theorem for_each_visits_view_witness:
  "\<exists>xs. ForEach example_env example_dirty collect [] = Inr xs \<and> distinct (map fst xs)
    \<and> map_of xs = view example_env example_dirty"
proof -
  have "tree_ok example_dirty" by code_simp
  moreover have "root example_dirty = root example_tree" by code_simp
  then have "hamt_iterates example_env (root example_dirty)"
    by (simp add: hamt_iterates_def example_env_def mem_env_def example_tree_def)
  ultimately show ?thesis by (rule for_each_visits_view)
qed

text \<open>
  What the block store promises: a flushed HAMT loads again from its root, and a state root reads
  back as it was put. The root of a bare HAMT does not decode as a state root.
\<close>

definition store_laws :: "'h tree_env \<Rightarrow> bool" where
  "store_laws env \<longleftrightarrow>
     (\<forall>h r v. rootFlush env h = Inr r \<longrightarrow> loadTree env v r = Inr h \<and> isl (storeGetRoot env r))
   \<and> (\<forall>v r i c. storePutRoot env v r i = Inr c \<longrightarrow> storeGetRoot env c = Inr (v, r, i))"


definition example_store :: "(address \<times> Actor) list tree_env" where
  "example_store = example_env\<lparr>
     rootFlush := (\<lambda>h. if h = [(AddrID 1, example_actor 0), (AddrID 200, example_actor 9)] then Inr ''hamt'' else Inl ''full''),
     loadTree := (\<lambda>v c. if c = ''hamt'' then Inr [(AddrID 1, example_actor 0), (AddrID 200, example_actor 9)] else Inl ''none''),
     storePutRoot := (\<lambda>v r i. if (v, r, i) = (4, ''hamt'', ''i'') then Inr ''state'' else Inl ''full''),
     storeGetRoot := (\<lambda>c. if c = ''state'' then Inr (4, ''hamt'', ''i'') else Inl ''none'')\<rparr>"


end
