(* ===== verification/ChainMessage.thy ===== *)
theory ChainMessage
  imports Lotus_Prelude
begin

section \<open>Messages and actor errors\<close>

text \<open>
  Models \<open>src/chain/types/message.go\<close> (the message and its syntactic validation for inclusion in a
  block) and \<open>src/chain/actors/aerrors\<close> (the errors of actor code, fatal or with an exit code).
  A \<open>types.BigInt\<close> whose inner pointer may be nil is an optional integer. Error texts are left out;
  an actor error is its \<open>fatal\<close> flag and its exit code.
\<close>

record Message =
  Version :: int
  To :: address
  From :: address
  MsgNonce :: int
  Value :: "token option"
  GasLimit :: int
  GasFeeCap :: "token option"
  GasPremium :: "token option"
  Method :: method_num
  Params :: bytes

definition ZeroAddress :: address where
  "ZeroAddress = AddrBLS ''yaaaaaaaaaaaaaaaaaaaaaaaaaaaaaaaaaaaaaaaaaaaaaaaaaaaaaaaaaaaaaaaaaaaaaaaaaaaby2smx7a''"

definition FilBase :: int where
  "FilBase = 2000000000"

definition FilecoinPrecision :: int where
  "FilecoinPrecision = 1000000000000000000"

definition TotalFilecoinInt :: token where
  "TotalFilecoinInt = FilBase * FilecoinPrecision"

definition BlockGasLimit :: int where
  "BlockGasLimit = 10000000000"

datatype msg_error =
    ErrVersion | ErrToEmpty | ErrToZero | ErrFromEmpty
  | ErrValueNil | ErrValueNegative | ErrValueTooLarge
  | ErrFeeCapNil | ErrFeeCapNegative | ErrPremiumNil | ErrPremiumNegative | ErrPremiumAboveCap
  | ErrGasLimitAboveBlock | ErrGasLimitBelowMin

text \<open>A call on a nil big integer panics: the result is then \<open>None\<close>.\<close>

definition RequiredFunds :: "Message \<Rightarrow> token option" where
  "RequiredFunds m = map_option (\<lambda>cap. cap * wrapu64 (GasLimit m)) (GasFeeCap m)"

definition ValidForBlockInclusion :: "Message \<Rightarrow> int \<Rightarrow> nat \<Rightarrow> msg_error option" where
  "ValidForBlockInclusion m minGas version =
     (if Version m \<noteq> 0 then Some ErrVersion
      else if To m = AddrUndef then Some ErrToEmpty
      else if To m = ZeroAddress \<and> 7 \<le> version then Some ErrToZero
      else if From m = AddrUndef then Some ErrFromEmpty
      else
        case Value m of
          None \<Rightarrow> Some ErrValueNil
        | Some value \<Rightarrow>
            if value < 0 then Some ErrValueNegative
            else if TotalFilecoinInt < value then Some ErrValueTooLarge
            else
              case GasFeeCap m of
                None \<Rightarrow> Some ErrFeeCapNil
              | Some cap \<Rightarrow>
                  if cap < 0 then Some ErrFeeCapNegative
                  else
                    case GasPremium m of
                      None \<Rightarrow> Some ErrPremiumNil
                    | Some premium \<Rightarrow>
                        if premium < 0 then Some ErrPremiumNegative
                        else if cap < premium then Some ErrPremiumAboveCap
                        else if BlockGasLimit < GasLimit m then Some ErrGasLimitAboveBlock
                        else if GasLimit m < minGas then Some ErrGasLimitBelowMin
                        else None)"

lemma valid_for_block_inclusion_iff:
  "ValidForBlockInclusion m minGas version = None \<longleftrightarrow>
     Version m = 0 \<and> To m \<noteq> AddrUndef \<and> (To m = ZeroAddress \<longrightarrow> version < 7) \<and> From m \<noteq> AddrUndef
     \<and> (\<exists>v. Value m = Some v \<and> 0 \<le> v \<and> v \<le> TotalFilecoinInt)
     \<and> (\<exists>cap premium. GasFeeCap m = Some cap \<and> GasPremium m = Some premium
          \<and> 0 \<le> premium \<and> premium \<le> cap)
     \<and> minGas \<le> GasLimit m \<and> GasLimit m \<le> BlockGasLimit"
  by (auto simp: ValidForBlockInclusion_def split: option.splits if_splits)

subsection \<open>Actor errors\<close>

record actorError =
  fatal :: bool
  retCode :: int

definition IsFatal :: "actorError option \<Rightarrow> bool" where
  "IsFatal e = (case e of None \<Rightarrow> False | Some e \<Rightarrow> fatal e)"

definition RetCode :: "actorError option \<Rightarrow> int" where
  "RetCode e = (case e of None \<Rightarrow> 0 | Some e \<Rightarrow> retCode e)"

text \<open>\<open>New\<close>, \<open>Newf\<close> and \<open>NewfSkip\<close>: an error with exit code 0 is turned into a fatal one.\<close>

definition NewErr :: "int \<Rightarrow> actorError" where
  "NewErr code = (if code = 0 then \<lparr>fatal = True, retCode = 0\<rparr> else \<lparr>fatal = False, retCode = code\<rparr>)"

definition FatalErr :: actorError where
  "FatalErr = \<lparr>fatal = True, retCode = 0\<rparr>"

definition Wrap :: "actorError option \<Rightarrow> actorError option" where
  "Wrap err = (case err of None \<Rightarrow> None
     | Some e \<Rightarrow> Some \<lparr>fatal = IsFatal (Some e), retCode = RetCode (Some e)\<rparr>)"

text \<open>A Go error that may or may not be an actor error.\<close>

datatype go_error = GoActorError actorError | GoSerializationError | GoError

definition Absorb :: "go_error option \<Rightarrow> int \<Rightarrow> actorError option" where
  "Absorb err code =
     (case err of
        None \<Rightarrow> None
      | Some (GoActorError a) \<Rightarrow>
          if fatal a then Some \<lparr>fatal = True, retCode = 0\<rparr>
          else if code = 0 then Some \<lparr>fatal = True, retCode = 0\<rparr>
          else Some \<lparr>fatal = False, retCode = code\<rparr>
      | Some _ \<Rightarrow>
          if code = 0 then Some \<lparr>fatal = True, retCode = 0\<rparr>
          else Some \<lparr>fatal = False, retCode = code\<rparr>)"

definition Escalate :: "go_error option \<Rightarrow> actorError option" where
  "Escalate err = (case err of None \<Rightarrow> None | Some _ \<Rightarrow> Some \<lparr>fatal = True, retCode = 0\<rparr>)"

definition HandleExternalError :: "go_error option \<Rightarrow> actorError option" where
  "HandleExternalError err =
     (case err of
        None \<Rightarrow> None
      | Some (GoActorError a) \<Rightarrow> Some \<lparr>fatal = IsFatal (Some a), retCode = RetCode (Some a)\<rparr>
      | Some GoSerializationError \<Rightarrow> Some \<lparr>fatal = False, retCode = 253\<rparr>
      | Some GoError \<Rightarrow> Some \<lparr>fatal = False, retCode = 219\<rparr>)"

text \<open>The invariant of actor errors: exactly the fatal ones have exit code 0.\<close>

definition aerr_ok :: "actorError \<Rightarrow> bool" where
  "aerr_ok e \<longleftrightarrow> (fatal e \<longleftrightarrow> retCode e = 0)"

definition aerrs_ok :: "actorError option \<Rightarrow> bool" where
  "aerrs_ok e \<longleftrightarrow> (\<forall>a. e = Some a \<longrightarrow> aerr_ok a)"

definition go_errs_ok :: "go_error option \<Rightarrow> bool" where
  "go_errs_ok err = (case err of Some (GoActorError a) \<Rightarrow> aerr_ok a | _ \<Rightarrow> True)"

lemma aerr_ok_intros [simp]:
  "aerr_ok (NewErr code)" "aerr_ok FatalErr" "aerrs_ok None" "aerrs_ok (Some e) = aerr_ok e"
  "aerrs_ok (Escalate err)" "aerrs_ok err' \<Longrightarrow> aerrs_ok (Wrap err')" "aerrs_ok (Absorb err code)"
  by (auto simp: aerr_ok_def aerrs_ok_def NewErr_def FatalErr_def Escalate_def Wrap_def Absorb_def
      IsFatal_def RetCode_def split: option.splits go_error.splits)

text \<open>An actor error that is not fatal has a nonzero exit code, so a failing message is reverted.\<close>

lemma nonfatal_code: "aerrs_ok e \<Longrightarrow> \<not> IsFatal e \<Longrightarrow> e \<noteq> None \<Longrightarrow> RetCode e \<noteq> 0"
  by (auto simp: aerrs_ok_def aerr_ok_def IsFatal_def RetCode_def split: option.splits)

lemma RetCode_None [simp]: "RetCode None = 0"
  by (simp add: RetCode_def)

lemma RetCode_nonzero: "RetCode e \<noteq> 0 \<Longrightarrow> e \<noteq> None"
  by (cases e) auto

text \<open>
  Fatal errors are the errors without an exit code. Every constructor of the package, applied to
  errors that have the property, gives an error that is fatal exactly when its exit code is 0, so
  that testing the exit code after ruling out fatal errors is testing for an error.
\<close>

theorem aerrors_fatal_iff_no_code:
  assumes "aerrs_ok inner" and "go_errs_ok err"
    and "e \<in> {Some (NewErr code), Some FatalErr, Wrap inner, Absorb err code, Escalate err, HandleExternalError err}"
  shows "aerrs_ok e \<and> (\<not> IsFatal e \<longrightarrow> (RetCode e = 0 \<longleftrightarrow> e = None))"
proof -
  have "aerrs_ok e"
    using assms by (auto simp: go_errs_ok_def HandleExternalError_def aerrs_ok_def aerr_ok_def Wrap_def Absorb_def
        Escalate_def NewErr_def FatalErr_def IsFatal_def RetCode_def
        split: option.splits go_error.splits if_splits)
  then show ?thesis using nonfatal_code [of e] by (cases e) auto
qed

theorem aerrors_fatal_iff_no_code_witness:
  "aerrs_ok (Wrap (Some (NewErr 7))) \<and> \<not> IsFatal (Wrap (Some (NewErr 7)))
    \<and> RetCode (Wrap (Some (NewErr 7))) = 7"
  using aerrors_fatal_iff_no_code [of "Some (NewErr 7)" None "Wrap (Some (NewErr 7))" 7]
  by (simp add: Wrap_def NewErr_def IsFatal_def RetCode_def go_errs_ok_def aerr_ok_def)

end
