(* ===== verification/VM_Runtime.thy ===== *)
theory VM_Runtime
  imports StateTree Gas ChainMessage
begin

section \<open>The legacy VM: runtime, actor calls and nested sends\<close>

text \<open>
  Models the execution of a message by \<open>LegacyVM\<close>: \<open>src/chain/vm/vm.go\<close> (\<open>makeRuntime\<close>, \<open>send\<close>,
  \<open>transfer\<close>, the gas holder, \<open>Invoke\<close>), \<open>src/chain/vm/runtime.go\<close> (the runtime given to actors: gas
  metering, nested sends, creation and deletion of actors, state transactions, caller validation),
  \<open>src/chain/vm/mkactor.go\<close>, \<open>src/chain/vm/invoker.go\<close> (dispatch to a registered method) and the
  priced system calls of \<open>src/chain/vm/gas.go\<close>.

  The code of the built-in actors is not part of the repository. It is a parameter: a registered
  method is a \<open>prog\<close>, the tree of the calls it makes on its runtime, each call followed by a
  function of its result. \<open>exec\<close> runs such a program over the model of the runtime.

  A computation takes a state to a result and a state; its result is a value or a panic. \<open>Abortf\<close>
  and a failing \<open>chargeGas\<close> panic with an actor error, everything else Go panics with is
  \<open>PanicOther\<close>. \<open>NoFuel\<close> marks the exhaustion of the bound on the nesting of sends, which no
  handler recovers. Logs, metrics, spans and execution traces are left out.
\<close>

subsection \<open>Computations that may panic\<close>

datatype panic = PanicErr actorError | PanicOther | NoFuel

type_synonym ('a, 's) cmd = "'s \<Rightarrow> (panic + 'a) \<times> 's"

definition ret :: "'a \<Rightarrow> ('a, 's) cmd" where
  "ret x s = (Inr x, s)"

definition throw :: "panic \<Rightarrow> ('a, 's) cmd" where
  "throw p s = (Inl p, s)"

definition bnd :: "('a, 's) cmd \<Rightarrow> ('a \<Rightarrow> ('b, 's) cmd) \<Rightarrow> ('b, 's) cmd" where
  "bnd m f s = (case m s of (Inl p, s) \<Rightarrow> (Inl p, s) | (Inr x, s) \<Rightarrow> f x s)"

text \<open>A deferred call runs after a return and after a panic.\<close>

definition afterwards :: "('a, 's) cmd \<Rightarrow> ('s \<Rightarrow> 's) \<Rightarrow> ('a, 's) cmd" where
  "afterwards m f s = (case m s of (r, s) \<Rightarrow> (r, f s))"

subsection \<open>State\<close>

record 'h World =
  cstate :: "'h StateTree"
  blocks :: "(cid \<times> bytes) list"

text \<open>
  The runtime of one call. The message it shows to the actor is a caller, a receiver and a value;
  up to network version 3 the addresses are not checked to be IDs (\<open>rtLegacyMsg\<close>). The price list and
  the height are those of the VM.
\<close>

record Runtime =
  rtCaller :: address
  rtReceiver :: address
  rtValue :: "token option"
  rtLegacyMsg :: bool
  gasAvailable :: int
  gasUsed :: int
  origin :: address
  originNonce :: int
  rtDepth :: nat
  numActorsCreated :: int
  allowInternal :: bool
  callerValidated :: bool

type_synonym 'h rts = "Runtime \<times> 'h World"

subsection \<open>Actor programs\<close>

text \<open>What a method returns to the invoker: bytes, a value that fails to marshal, or a value of no known type.\<close>

datatype ret_val = RVBytes bytes | RVUnmarshalable | RVUnknownType

datatype syscall =
    SVerifySignature SigType nat
  | SHashBlake2b nat
  | SComputeUnsealedSectorCID
  | SVerifySeal
  | SVerifyPoSt "RegisteredPoStProof list" nat
  | SVerifyConsensusFault
  | SBatchVerifySeals "nat list"
  | SVerifyAggregateSeals RegisteredSealProof nat
  | SVerifyReplicaUpdate

datatype prog =
    PReturn ret_val
  | PAbort int
  | PCrash
  | PChargeGas string int int prog
  | PSyscall syscall bytes "string + bytes \<Rightarrow> prog"
  | PValidateAny prog
  | PValidateIs "address list" prog
  | PValidateType "cid list" prog
  | PCaller "address \<Rightarrow> prog"
  | PReceiver "address \<Rightarrow> prog"
  | PValueReceived "token option \<Rightarrow> prog"
  | PCurrentBalance "token \<Rightarrow> prog"
  | PGetActorCodeCID address "cid option \<Rightarrow> prog"
  | PResolveAddress address "address option \<Rightarrow> prog"
  | PNewActorAddress "address \<Rightarrow> prog"
  | PCreateActor cid address prog
  | PDeleteActor address prog
  | PSend address method_num token bytes "int \<Rightarrow> bytes \<Rightarrow> prog"
  | PStoreGet cid "bytes option \<Rightarrow> prog"
  | PStorePut bytes "cid \<Rightarrow> prog"
  | PStateCreate bytes prog
  | PStateReadonly "bytes option \<Rightarrow> prog"
  | PTransactionBegin "cid \<Rightarrow> bytes option \<Rightarrow> prog"
  | PTransactionEnd cid bytes prog
  | PRandomnessFromTickets nat epoch bytes "bytes \<Rightarrow> prog"
  | PRandomnessFromBeacon nat epoch bytes "bytes \<Rightarrow> prog"
  | PTotalFilCircSupply "token \<Rightarrow> prog"

text \<open>
  A registered actor: the predicate on the network version, and for each exported method the decoder
  of its parameters, which fails or gives the program to run.
\<close>

record actorInfo =
  predicate :: "nat \<Rightarrow> bool"
  methods :: "method_num \<Rightarrow> (bytes \<Rightarrow> prog option) option"

text \<open>
  The fields of \<open>LegacyVM\<close> that a message does not change, and what the VM calls outside the
  repository: the registry of actors, the code CIDs of the built-in actors, the hash of a block and
  of a new actor's address, the state of account actors, randomness, circulating supply and the
  unpriced system calls.
\<close>

record 'h vm_env =
  tree :: "'h tree_env"
  networkVersion :: nat
  blockHeight :: epoch
  baseFee :: token
  UpgradeCalicoHeight :: epoch
  UpgradeClausHeight :: epoch
  areg :: "cid \<Rightarrow> actorInfo option"
  IsAccountActor :: "cid \<Rightarrow> bool"
  IsStorageMinerActor :: "cid \<Rightarrow> bool"
  AccountActorCodeID :: "nat \<Rightarrow> cid"
  actorsVersionForNetwork :: "nat \<Rightarrow> nat option"
  upgradedCode :: "nat \<Rightarrow> cid \<Rightarrow> cid option"
  EmptyObjectCid :: cid
  addressParams :: "address \<Rightarrow> bytes"
  accountPubkey :: "Actor \<Rightarrow> address option"
  NewActorAddr :: "address \<Rightarrow> int \<Rightarrow> int \<Rightarrow> string + address"
  blockCid :: "bytes \<Rightarrow> cid"
  underSyscall :: "syscall \<Rightarrow> bytes \<Rightarrow> string + bytes"
  sectorSizeName :: "RegisteredPoStProof \<Rightarrow> string option"
  chainRandomness :: "nat \<Rightarrow> epoch \<Rightarrow> bytes \<Rightarrow> string + bytes"
  beaconRandomness :: "nat \<Rightarrow> epoch \<Rightarrow> bytes \<Rightarrow> string + bytes"
  circSupplyCalc :: "epoch \<Rightarrow> 'h StateTree \<Rightarrow> string + token"
  baseCircSupply :: token

definition vm_pricelist :: "'h vm_env \<Rightarrow> pricelistV0" where
  "vm_pricelist env = the (PricelistByEpoch (Prices (UpgradeCalicoHeight env)) (blockHeight env))"

definition SystemActorAddr :: address where
  "SystemActorAddr = AddrID 0"

definition RewardAddress :: address where
  "RewardAddress = AddrID 2"

definition BurntFundsActorAddr :: address where
  "BurntFundsActorAddr = AddrID 99"

definition MethodConstructor :: method_num where
  "MethodConstructor = 1"

definition MethodSubmitWindowedPoSt :: method_num where
  "MethodSubmitWindowedPoSt = 5"

definition MaxCallDepth :: nat where
  "MaxCallDepth = 4096"

definition gasOnActorExec :: GasCharge where
  "gasOnActorExec = newGasCharge ''OnActorExec'' 0 0"

subsection \<open>Exit codes\<close>

definition SysErrSenderInvalid :: int where "SysErrSenderInvalid = 1"
definition SysErrSenderStateInvalid :: int where "SysErrSenderStateInvalid = 2"
definition SysErrInvalidMethod :: int where "SysErrInvalidMethod = 3"
definition SysErrIllegalInstruction :: int where "SysErrIllegalInstruction = 4"
definition SysErrInvalidReceiver :: int where "SysErrInvalidReceiver = 5"
definition SysErrInsufficientFunds :: int where "SysErrInsufficientFunds = 6"
definition SysErrOutOfGas :: int where "SysErrOutOfGas = 7"
definition SysErrForbidden :: int where "SysErrForbidden = 8"
definition SysErrorIllegalActor :: int where "SysErrorIllegalActor = 9"
definition SysErrorIllegalArgument :: int where "SysErrorIllegalArgument = 10"
definition ErrIllegalArgument :: int where "ErrIllegalArgument = 16"
definition ErrIllegalState :: int where "ErrIllegalState = 20"
definition ErrSerialization :: int where "ErrSerialization = 21"

lemmas exit_codes = SysErrSenderInvalid_def SysErrSenderStateInvalid_def SysErrInvalidMethod_def
  SysErrIllegalInstruction_def SysErrInvalidReceiver_def SysErrInsufficientFunds_def
  SysErrOutOfGas_def SysErrForbidden_def SysErrorIllegalActor_def SysErrorIllegalArgument_def
  ErrIllegalArgument_def ErrIllegalState_def ErrSerialization_def

subsection \<open>Access to the state tree\<close>

text \<open>A tree operation; an index out of range in it is a Go panic.\<close>

definition on_tree ::
  "('h StateTree \<Rightarrow> (st_error + 'a) \<times> 'h StateTree) \<Rightarrow> (st_error + 'a, 'h World) cmd"
where
  "on_tree f w =
     (case f (cstate w) of
        (Inl PanicIndex, st) \<Rightarrow> (Inl PanicOther, w\<lparr>cstate := st\<rparr>)
      | (r, st) \<Rightarrow> (Inr r, w\<lparr>cstate := st\<rparr>))"

definition rt_world :: "('a, 'h World) cmd \<Rightarrow> ('a, 'h rts) cmd" where
  "rt_world m = (\<lambda>(rt, w). case m w of (r, w) \<Rightarrow> (r, (rt, w)))"

definition rt_tree ::
  "('h StateTree \<Rightarrow> (st_error + 'a) \<times> 'h StateTree) \<Rightarrow> (st_error + 'a, 'h rts) cmd"
where
  "rt_tree f = rt_world (on_tree f)"

definition get_rt :: "(Runtime \<Rightarrow> 'a) \<Rightarrow> ('a, 'h rts) cmd" where
  "get_rt f = (\<lambda>(rt, w). (Inr (f rt), (rt, w)))"

definition upd_rt :: "(Runtime \<Rightarrow> Runtime) \<Rightarrow> (unit, 'h rts) cmd" where
  "upd_rt f = (\<lambda>(rt, w). (Inr (), (f rt, w)))"

definition Abortf :: "int \<Rightarrow> ('a, 's) cmd" where
  "Abortf code = throw (PanicErr (NewErr code))"

text \<open>A tree operation whose every error is fatal for the caller.\<close>

definition or_fatal ::
  "(st_error + 'a, 's) cmd \<Rightarrow> ('a \<Rightarrow> (actorError option, 's) cmd) \<Rightarrow> (actorError option, 's) cmd"
where
  "or_fatal m k = bnd m (\<lambda>r. case r of Inl e \<Rightarrow> ret (Some FatalErr) | Inr x \<Rightarrow> k x)"

subsection \<open>Funds\<close>

definition deductFunds :: "Actor \<Rightarrow> token \<Rightarrow> Actor option" where
  "deductFunds act amt = (if Balance act < amt then None else Some (act\<lparr>Balance := Balance act - amt\<rparr>))"

definition depositFunds :: "Actor \<Rightarrow> token \<Rightarrow> Actor" where
  "depositFunds act amt = act\<lparr>Balance := Balance act + amt\<rparr>"

text \<open>The part of \<open>transfer\<close> after both branches: read the receiver, move the amount, write both.\<close>

definition transfer_move ::
  "'h vm_env \<Rightarrow> address \<Rightarrow> Actor \<Rightarrow> address \<Rightarrow> token \<Rightarrow> (actorError option, 'h World) cmd"
where
  "transfer_move env fromID f toID amt =
     or_fatal (on_tree (\<lambda>st. GetActor (tree env) st toID)) (\<lambda>t.
       case deductFunds f amt of
         None \<Rightarrow> ret (Some (NewErr SysErrInsufficientFunds))
       | Some f \<Rightarrow>
           or_fatal (on_tree (\<lambda>st. SetActor (tree env) st fromID f)) (\<lambda>_.
           or_fatal (on_tree (\<lambda>st. SetActor (tree env) st toID (depositFunds t amt))) (\<lambda>_.
             ret None)))"

definition transfer ::
  "'h vm_env \<Rightarrow> address \<Rightarrow> address \<Rightarrow> token \<Rightarrow> nat \<Rightarrow> (actorError option, 'h World) cmd"
where
  "transfer env from to amt nv =
     (if 15 \<le> nv then
        if amt < 0 then ret (Some (NewErr SysErrForbidden))
        else
          or_fatal (on_tree (\<lambda>st. LookupID (tree env) st from)) (\<lambda>fromID.
          or_fatal (on_tree (\<lambda>st. GetActor (tree env) st fromID)) (\<lambda>f.
            if Balance f < amt then ret (Some (NewErr SysErrInsufficientFunds))
            else if from = to then ret None
            else
              or_fatal (on_tree (\<lambda>st. LookupID (tree env) st to)) (\<lambda>toID.
                if fromID = toID then ret None else transfer_move env fromID f toID amt)))
      else
        if from = to then ret None
        else
          or_fatal (on_tree (\<lambda>st. LookupID (tree env) st from)) (\<lambda>fromID.
          or_fatal (on_tree (\<lambda>st. LookupID (tree env) st to)) (\<lambda>toID.
            if fromID = toID then ret None
            else if amt < 0 then ret (Some (NewErr SysErrForbidden))
            else
              or_fatal (on_tree (\<lambda>st. GetActor (tree env) st fromID)) (\<lambda>f.
                transfer_move env fromID f toID amt))))"

subsection \<open>Gas metering\<close>

definition chargeGasInternal :: "GasCharge \<Rightarrow> (actorError option, 'h rts) cmd" where
  "chargeGasInternal gas = (\<lambda>(rt, w).
     let toUse = Total gas in
     if sub64 (gasAvailable rt) toUse < gasUsed rt
     then (Inr (Some (NewErr SysErrOutOfGas)), (rt\<lparr>gasUsed := gasAvailable rt\<rparr>, w))
     else (Inr None, (rt\<lparr>gasUsed := add64 (gasUsed rt) toUse\<rparr>, w)))"

definition chargeGasSafe :: "GasCharge \<Rightarrow> (actorError option, 'h rts) cmd" where
  "chargeGasSafe gas = chargeGasInternal gas"

definition chargeGas :: "GasCharge \<Rightarrow> (unit, 'h rts) cmd" where
  "chargeGas gas = bnd (chargeGasInternal gas) (\<lambda>err. case err of
     None \<Rightarrow> ret () | Some e \<Rightarrow> throw (PanicErr e))"

definition ChargeGas :: "string \<Rightarrow> int \<Rightarrow> int \<Rightarrow> (unit, 'h rts) cmd" where
  "ChargeGas name compute virtual = chargeGas (WithVirtual (newGasCharge name compute 0) virtual 0)"

text \<open>
  The priced system calls. A signature type without a price is an error before anything is charged;
  the batch verification of seals charges nothing, since the actors charge for it themselves.
\<close>

fun syscall_charge :: "'h vm_env \<Rightarrow> syscall \<Rightarrow> string + GasCharge" where
  "syscall_charge env (SVerifySignature sigType n) = OnVerifySignature (vm_pricelist env) sigType (int n)"
| "syscall_charge env (SHashBlake2b n) = Inr (OnHashing (vm_pricelist env) (int n))"
| "syscall_charge env SComputeUnsealedSectorCID = Inr (OnComputeUnsealedSectorCid (vm_pricelist env))"
| "syscall_charge env SVerifySeal = Inr (OnVerifySeal (vm_pricelist env))"
| "syscall_charge env (SVerifyPoSt proofs n) =
     Inr (OnVerifyPost (sectorSizeName env) (vm_pricelist env) proofs (int n))"
| "syscall_charge env SVerifyConsensusFault = Inr (OnVerifyConsensusFault (vm_pricelist env))"
| "syscall_charge env (SBatchVerifySeals ns) =
     (let count = foldl (\<lambda>c n. add64 c (int n)) 0 ns
      in Inr (WithVirtual (WithExtra (newGasCharge ''BatchVerifySeals'' 0 0) (ExtraInt count))
           (add64 (mul64 15075005 count) 899741502) 0))"
| "syscall_charge env (SVerifyAggregateSeals proofType n) =
     Inr (OnVerifyAggregateSeals (vm_pricelist env) proofType (int n))"
| "syscall_charge env SVerifyReplicaUpdate = Inr (OnVerifyReplicaUpdate (vm_pricelist env))"

text \<open>The charge after the call is deferred; its panic would replace the result.\<close>

definition pricedSyscall :: "'h vm_env \<Rightarrow> syscall \<Rightarrow> bytes \<Rightarrow> (string + bytes, 'h rts) cmd" where
  "pricedSyscall env sc args =
     (case syscall_charge env sc of
        Inl e \<Rightarrow> ret (Inl e)
      | Inr c \<Rightarrow>
          bnd (chargeGas c) (\<lambda>_.
          bnd (chargeGas gasOnActorExec) (\<lambda>_. ret (underSyscall env sc args))))"

subsection \<open>The runtime's calls\<close>

definition Caller :: "(address, 'h rts) cmd" where
  "Caller = bnd (get_rt (\<lambda>rt. rt)) (\<lambda>rt.
     if \<not> rtLegacyMsg rt \<and> \<not> is_id_addr (rtCaller rt) then throw PanicOther else ret (rtCaller rt))"

definition Receiver :: "(address, 'h rts) cmd" where
  "Receiver = bnd (get_rt (\<lambda>rt. rt)) (\<lambda>rt.
     if \<not> rtLegacyMsg rt \<and> rtReceiver rt \<noteq> AddrUndef \<and> \<not> is_id_addr (rtReceiver rt)
     then throw PanicOther else ret (rtReceiver rt))"

definition ResolveAddress :: "'h vm_env \<Rightarrow> address \<Rightarrow> (address option, 'h rts) cmd" where
  "ResolveAddress env addr =
     bnd (rt_tree (\<lambda>st. LookupID (tree env) st addr)) (\<lambda>r. case r of
       Inr a \<Rightarrow> ret (Some a)
     | Inl e \<Rightarrow> if e = ErrActorNotFound then ret None else throw (PanicErr FatalErr))"

definition GetActorCodeCID :: "'h vm_env \<Rightarrow> address \<Rightarrow> (cid option, 'h rts) cmd" where
  "GetActorCodeCID env addr =
     bnd (rt_tree (\<lambda>st. GetActor (tree env) st addr)) (\<lambda>r. case r of
       Inr act \<Rightarrow> ret (Some (Code act))
     | Inl e \<Rightarrow> if e = ErrActorNotFound then ret None else throw (PanicErr FatalErr))"

definition abortIfAlreadyValidated :: "(unit, 'h rts) cmd" where
  "abortIfAlreadyValidated =
     bnd (get_rt callerValidated) (\<lambda>v.
       if v then Abortf SysErrorIllegalActor
       else upd_rt (\<lambda>rt. rt\<lparr>callerValidated := True\<rparr>))"

definition ValidateImmediateCallerAcceptAny :: "(unit, 'h rts) cmd" where
  "ValidateImmediateCallerAcceptAny = abortIfAlreadyValidated"

definition ValidateImmediateCallerIs :: "address list \<Rightarrow> (unit, 'h rts) cmd" where
  "ValidateImmediateCallerIs as =
     bnd abortIfAlreadyValidated (\<lambda>_.
     bnd Caller (\<lambda>imm. if imm \<in> set as then ret () else Abortf SysErrForbidden))"

text \<open>From network version 16 on, the code of the network's actors version is accepted for a type too.\<close>

fun callerType_loop :: "'h vm_env \<Rightarrow> cid \<Rightarrow> cid list \<Rightarrow> (unit, 'h rts) cmd" where
  "callerType_loop env callerCid [] = Abortf SysErrForbidden"
| "callerType_loop env callerCid (t # ts) =
     (if t = callerCid then ret ()
      else if 16 \<le> networkVersion env then
        (case actorsVersionForNetwork env (networkVersion env) of
           None \<Rightarrow> throw (PanicErr FatalErr)
         | Some av \<Rightarrow>
             if upgradedCode env av t = Some callerCid then ret ()
             else callerType_loop env callerCid ts)
      else callerType_loop env callerCid ts)"

definition ValidateImmediateCallerType :: "'h vm_env \<Rightarrow> cid list \<Rightarrow> (unit, 'h rts) cmd" where
  "ValidateImmediateCallerType env ts =
     bnd abortIfAlreadyValidated (\<lambda>_.
     bnd Caller (\<lambda>imm.
     bnd (GetActorCodeCID env imm) (\<lambda>code. case code of
       None \<Rightarrow> throw (PanicErr FatalErr)
     | Some callerCid \<Rightarrow> callerType_loop env callerCid ts)))"

text \<open>
  \<open>GetBalance\<close> compares the error with \<open>ErrActorNotFound\<close> itself, so a failed resolution of an
  address that is not an ID, which wraps it, is escalated.
\<close>

definition GetBalance :: "'h vm_env \<Rightarrow> address \<Rightarrow> (actorError + token, 'h rts) cmd" where
  "GetBalance env a =
     bnd (rt_tree (\<lambda>st. GetActor (tree env) st a)) (\<lambda>r. case r of
       Inr act \<Rightarrow> ret (Inr (Balance act))
     | Inl e \<Rightarrow> if e = ErrActorNotFound \<and> is_id_addr a then ret (Inr 0) else ret (Inl FatalErr))"

definition CurrentBalance :: "'h vm_env \<Rightarrow> (token, 'h rts) cmd" where
  "CurrentBalance env =
     bnd Receiver (\<lambda>a.
     bnd (GetBalance env a) (\<lambda>r. case r of Inr b \<Rightarrow> ret b | Inl e \<Rightarrow> Abortf (retCode e)))"

definition ResolveToKeyAddr :: "'h vm_env \<Rightarrow> address \<Rightarrow> (address option, 'h World) cmd" where
  "ResolveToKeyAddr env addr =
     (case addr of
        AddrBLS k \<Rightarrow> ret (Some addr)
      | AddrSecp k \<Rightarrow> ret (Some addr)
      | _ \<Rightarrow>
          bnd (on_tree (\<lambda>st. GetActor (tree env) st addr)) (\<lambda>r. case r of
            Inl e \<Rightarrow> ret None
          | Inr act \<Rightarrow> ret (accountPubkey env act)))"

definition NewActorAddress :: "'h vm_env \<Rightarrow> (address, 'h rts) cmd" where
  "NewActorAddress env =
     bnd (get_rt (\<lambda>rt. rt)) (\<lambda>rt.
     bnd (rt_world (ResolveToKeyAddr env (origin rt))) (\<lambda>oa.
       case NewActorAddr env (case oa of None \<Rightarrow> AddrUndef | Some a \<Rightarrow> a) (originNonce rt) (numActorsCreated rt) of
         Inl e \<Rightarrow> throw (PanicErr FatalErr)
       | Inr addr \<Rightarrow>
           bnd (upd_rt (\<lambda>rt. rt\<lparr>numActorsCreated := wrapu64 (numActorsCreated rt + 1)\<rparr>)) (\<lambda>_. ret addr)))"

subsection \<open>Creation and deletion of actors\<close>

definition Create :: "'h vm_env \<Rightarrow> cid \<Rightarrow> actorError + Actor" where
  "Create env codeCid =
     (case areg env codeCid of
        None \<Rightarrow> Inl (NewErr SysErrorIllegalArgument)
      | Some act \<Rightarrow>
          if \<not> predicate act (networkVersion env) then Inl (NewErr SysErrorIllegalArgument)
          else Inr \<lparr>Code = codeCid, Head = EmptyObjectCid env, Nonce = 0, Balance = 0\<rparr>)"

definition CreateActor :: "'h vm_env \<Rightarrow> cid \<Rightarrow> address \<Rightarrow> (unit, 'h rts) cmd" where
  "CreateActor env codeID addr =
     (if addr = AddrUndef \<and> 7 \<le> networkVersion env then Abortf SysErrorIllegalArgument
      else
        case Create env codeID of
          Inl aerr \<Rightarrow> Abortf (retCode aerr)
        | Inr act \<Rightarrow>
            bnd (rt_tree (\<lambda>st. GetActor (tree env) st addr)) (\<lambda>r. case r of
              Inr _ \<Rightarrow> Abortf SysErrorIllegalArgument
            | Inl _ \<Rightarrow>
                bnd (chargeGas (OnCreateActor (vm_pricelist env))) (\<lambda>_.
                bnd (rt_tree (\<lambda>st. SetActor (tree env) st addr act)) (\<lambda>r. case r of
                  Inl e \<Rightarrow> throw (PanicErr FatalErr)
                | Inr _ \<Rightarrow> bnd (chargeGasSafe gasOnActorExec) (\<lambda>_. ret ())))))"

text \<open>
  The transfer of a deleted actor's balance to the beneficiary, after the checks that the beneficiary
  exists and is another actor, which start with network version 7.
\<close>

definition DeleteActor_pay :: "'h vm_env \<Rightarrow> address \<Rightarrow> token \<Rightarrow> (unit, 'h rts) cmd" where
  "DeleteActor_pay env beneficiary balance =
     bnd (if 7 \<le> networkVersion env then
            bnd (ResolveAddress env beneficiary) (\<lambda>b. case b of
              None \<Rightarrow> Abortf SysErrorIllegalArgument
            | Some beneficiaryId \<Rightarrow>
                bnd Receiver (\<lambda>self.
                  if beneficiaryId = self then Abortf SysErrorIllegalArgument else ret ()))
          else ret ()) (\<lambda>_.
     bnd Receiver (\<lambda>self.
     bnd (rt_world (transfer env self beneficiary balance (networkVersion env))) (\<lambda>err. case err of
       Some _ \<Rightarrow> throw (PanicErr FatalErr)
     | None \<Rightarrow> ret ())))"

definition rtDeleteActor :: "'h vm_env \<Rightarrow> address \<Rightarrow> (unit, 'h rts) cmd" where
  "rtDeleteActor env beneficiary =
     bnd (chargeGas (OnDeleteActor (vm_pricelist env))) (\<lambda>_.
     bnd Receiver (\<lambda>self.
     bnd (rt_tree (\<lambda>st. GetActor (tree env) st self)) (\<lambda>r. case r of
       Inl e \<Rightarrow> if e = ErrActorNotFound then Abortf SysErrorIllegalActor else throw (PanicErr FatalErr)
     | Inr act \<Rightarrow>
         bnd (if Balance act \<noteq> 0 then DeleteActor_pay env beneficiary (Balance act) else ret ()) (\<lambda>_.
         bnd (rt_tree (\<lambda>st. DeleteActor (tree env) st self)) (\<lambda>r. case r of
           Inl e \<Rightarrow> throw (PanicErr FatalErr)
         | Inr _ \<Rightarrow> bnd (chargeGasSafe gasOnActorExec) (\<lambda>_. ret ()))))))"

subsection \<open>Block store and actor state\<close>

text \<open>A block that is not in the store makes \<open>StoreGet\<close> return false; nothing more is charged then.\<close>

definition get_block :: "cid \<Rightarrow> (bytes option, 'h rts) cmd" where
  "get_block c = (\<lambda>(rt, w). (Inr (map_of (blocks w) c), (rt, w)))"

definition put_block :: "cid \<Rightarrow> bytes \<Rightarrow> (unit, 'h rts) cmd" where
  "put_block c b = (\<lambda>(rt, w). (Inr (), (rt, w\<lparr>blocks := AList.update c b (blocks w)\<rparr>)))"

definition StoreGet :: "'h vm_env \<Rightarrow> cid \<Rightarrow> (bytes option, 'h rts) cmd" where
  "StoreGet env c =
     bnd (chargeGas (OnIpldGet (vm_pricelist env))) (\<lambda>_.
     bnd (get_block c) (\<lambda>blk. case blk of
       None \<Rightarrow> ret None
     | Some b \<Rightarrow>
         bnd (chargeGas (WithExtra (newGasCharge ''OnIpldGetEnd'' 0 0) (ExtraInt (int (length b))))) (\<lambda>_.
         bnd (chargeGas gasOnActorExec) (\<lambda>_. ret (Some b)))))"

definition StorePut :: "'h vm_env \<Rightarrow> bytes \<Rightarrow> (cid, 'h rts) cmd" where
  "StorePut env b =
     bnd (chargeGas (OnIpldPut (vm_pricelist env) (int (length b)))) (\<lambda>_.
     bnd (put_block (blockCid env b) b) (\<lambda>_.
     bnd (chargeGas gasOnActorExec) (\<lambda>_. ret (blockCid env b))))"

definition stateCommit :: "'h vm_env \<Rightarrow> cid \<Rightarrow> cid \<Rightarrow> (actorError option, 'h rts) cmd" where
  "stateCommit env oldh newh =
     bnd Receiver (\<lambda>self.
     or_fatal (rt_tree (\<lambda>st. GetActor (tree env) st self)) (\<lambda>act.
       if Head act \<noteq> oldh then ret (Some FatalErr)
       else
         or_fatal (rt_tree (\<lambda>st. SetActor (tree env) st self (act\<lparr>Head := newh\<rparr>))) (\<lambda>_. ret None)))"

text \<open>A failed commit panics with a plain error, not with the actor error it wraps.\<close>

definition commit_or_crash :: "'h vm_env \<Rightarrow> cid \<Rightarrow> bytes \<Rightarrow> (unit, 'h rts) cmd" where
  "commit_or_crash env oldh b =
     bnd (StorePut env b) (\<lambda>c.
     bnd (stateCommit env oldh c) (\<lambda>err. case err of None \<Rightarrow> ret () | Some _ \<Rightarrow> throw PanicOther))"

definition StateCreate :: "'h vm_env \<Rightarrow> bytes \<Rightarrow> (unit, 'h rts) cmd" where
  "StateCreate env b = commit_or_crash env (EmptyObjectCid env) b"

definition StateReadonly :: "'h vm_env \<Rightarrow> (bytes option, 'h rts) cmd" where
  "StateReadonly env =
     bnd Receiver (\<lambda>self.
     bnd (rt_tree (\<lambda>st. GetActor (tree env) st self)) (\<lambda>r. case r of
       Inl e \<Rightarrow> Abortf SysErrorIllegalArgument
     | Inr act \<Rightarrow> StoreGet env (Head act)))"

text \<open>\<open>StateTransaction\<close> up to the call of its argument, and from there to its end.\<close>

definition StateTransaction_begin :: "'h vm_env \<Rightarrow> (cid \<times> bytes option, 'h rts) cmd" where
  "StateTransaction_begin env =
     bnd Receiver (\<lambda>self.
     bnd (rt_tree (\<lambda>st. GetActor (tree env) st self)) (\<lambda>r. case r of
       Inl e \<Rightarrow> Abortf SysErrorIllegalActor
     | Inr act \<Rightarrow>
         bnd (StoreGet env (Head act)) (\<lambda>b.
         bnd (upd_rt (\<lambda>rt. rt\<lparr>allowInternal := False\<rparr>)) (\<lambda>_. ret (Head act, b)))))"

definition StateTransaction_end :: "'h vm_env \<Rightarrow> cid \<Rightarrow> bytes \<Rightarrow> (unit, 'h rts) cmd" where
  "StateTransaction_end env baseState b =
     bnd (upd_rt (\<lambda>rt. rt\<lparr>allowInternal := True\<rparr>)) (\<lambda>_. commit_or_crash env baseState b)"

definition GetCircSupply :: "'h vm_env \<Rightarrow> 'h World \<Rightarrow> string + token" where
  "GetCircSupply env w =
     (if networkVersion env \<le> 14 then circSupplyCalc env (blockHeight env) (cstate w)
      else Inr (baseCircSupply env))"

definition TotalFilCircSupply :: "'h vm_env \<Rightarrow> (token, 'h rts) cmd" where
  "TotalFilCircSupply env = (\<lambda>(rt, w).
     case GetCircSupply env w of
       Inl e \<Rightarrow> Abortf ErrIllegalState (rt, w)
     | Inr cs \<Rightarrow> (Inr cs, (rt, w)))"

definition randomness :: "string + bytes \<Rightarrow> (bytes, 'h rts) cmd" where
  "randomness r = (case r of Inl e \<Rightarrow> throw (PanicErr FatalErr) | Inr b \<Rightarrow> ret b)"

subsection \<open>Sends and execution\<close>

text \<open>
  \<open>send\<close> calls itself through the actor it invokes. Its definition is over an arbitrary callee \<open>callee\<close>
  for the nested sends, and the recursion is tied at the end. A callee takes the message, the
  runtime of the caller, an initial charge and the world; it gives the result with the runtime of
  the call, the caller's runtime, whose gas has been updated, and the world.
\<close>

type_synonym 'h sender =
  "Message \<Rightarrow> Runtime option \<Rightarrow> GasCharge option \<Rightarrow> 'h World \<Rightarrow>
    (panic + bytes \<times> actorError option \<times> Runtime) \<times> Runtime option \<times> 'h World"

definition newRuntime :: "'h vm_env \<Rightarrow> Message \<Rightarrow> Runtime option \<Rightarrow> Runtime" where
  "newRuntime env msg parent =
     (let rt = \<lparr>rtCaller = From msg, rtReceiver = To msg, rtValue = Value msg,
                rtLegacyMsg = (networkVersion env \<le> 3), gasAvailable = GasLimit msg, gasUsed = 0,
                origin = From msg, originNonce = MsgNonce msg, rtDepth = 0, numActorsCreated = 0,
                allowInternal = True, callerValidated = False\<rparr>
      in case parent of
           None \<Rightarrow> rt
         | Some p \<Rightarrow> rt\<lparr>gasUsed := gasUsed p, origin := origin p, originNonce := originNonce p,
             numActorsCreated := numActorsCreated p, rtDepth := rtDepth p + 1\<rparr>)"

definition makeRuntime ::
  "'h vm_env \<Rightarrow> Message \<Rightarrow> Runtime option \<Rightarrow> 'h World \<Rightarrow> (panic + Runtime) \<times> 'h World"
where
  "makeRuntime env msg parent w =
     (if (case parent of None \<Rightarrow> False | Some p \<Rightarrow> \<not> allowInternal p \<and> 7 \<le> networkVersion env)
      then (Inl (PanicErr (NewErr SysErrForbidden)), w)
      else if MaxCallDepth < rtDepth (newRuntime env msg parent) \<and> 6 \<le> networkVersion env
      then (Inl (PanicErr (NewErr SysErrForbidden)), w)
      else
        case ResolveAddress env (From msg) (newRuntime env msg parent, w) of
          (Inl p, (rt, w)) \<Rightarrow> (Inl p, w)
        | (Inr None, (rt, w)) \<Rightarrow> (Inl (PanicErr (NewErr SysErrInvalidReceiver)), w)
        | (Inr (Some resF), (rt, w)) \<Rightarrow>
            if networkVersion env \<le> 3 then (Inr (rt\<lparr>rtCaller := resF\<rparr>), w)
            else
              case ResolveAddress env (To msg) (rt, w) of
                (Inl p, (rt, w)) \<Rightarrow> (Inl p, w)
              | (Inr resT, (rt, w)) \<Rightarrow>
                  (Inr (rt\<lparr>rtCaller := resF,
                           rtReceiver := (case resT of None \<Rightarrow> AddrUndef | Some a \<Rightarrow> a)\<rparr>), w))"

text \<open>The deferred \<open>ClearSnapshot\<close>.\<close>

definition clear_after :: "(panic + 'a) \<times> 'r \<times> 'h World \<Rightarrow> (panic + 'a) \<times> 'r \<times> 'h World" where
  "clear_after = (\<lambda>(r, rt, w).
     case ClearSnapshot (cstate w) of
       None \<Rightarrow> (Inl PanicOther, (rt, w))
     | Some st \<Rightarrow> (r, (rt, w\<lparr>cstate := st\<rparr>)))"

definition internalSend ::
  "'h sender \<Rightarrow> address \<Rightarrow> address \<Rightarrow> method_num \<Rightarrow> token \<Rightarrow> bytes \<Rightarrow> (bytes \<times> actorError option, 'h rts) cmd"
where
  "internalSend callee from to method value params = (\<lambda>(rt, w).
     let msg = \<lparr>Version = 0, To = to, From = from, MsgNonce = 0, Value = Some value,
                GasLimit = gasAvailable rt, GasFeeCap = None, GasPremium = None,
                Method = method, Params = params\<rparr>
     in
     case callee msg (Some rt) None (w\<lparr>cstate := Snapshot (cstate w)\<rparr>) of
       (r, parent, w) \<Rightarrow>
         let rt = (case parent of None \<Rightarrow> rt | Some p \<Rightarrow> p) in
         clear_after
           (case r of
              Inl p \<Rightarrow> (Inl p, (rt, w))
            | Inr (rval, errSend, subrt) \<Rightarrow>
                (case (if errSend \<noteq> None then Revert (cstate w) else Some (cstate w)) of
                   None \<Rightarrow> (Inl PanicOther, (rt, w))
                 | Some st \<Rightarrow>
                     (Inr (rval, errSend),
                      (rt\<lparr>numActorsCreated := numActorsCreated subrt\<rparr>, w\<lparr>cstate := st\<rparr>)))))"

text \<open>\<open>Send\<close> of the runtime: the exit code and, when it is 0, the bytes returned.\<close>

definition Send ::
  "'h sender \<Rightarrow> address \<Rightarrow> method_num \<Rightarrow> token \<Rightarrow> bytes \<Rightarrow> (int \<times> bytes, 'h rts) cmd"
where
  "Send callee to method value params =
     bnd (get_rt allowInternal) (\<lambda>allowed.
     if \<not> allowed then Abortf SysErrorIllegalActor
     else
       bnd Receiver (\<lambda>self.
       bnd (internalSend callee self to method value params) (\<lambda>(rval, err). case err of
         Some e \<Rightarrow> if fatal e then throw (PanicErr e) else ret (retCode e, [])
       | None \<Rightarrow> bnd (chargeGasSafe gasOnActorExec) (\<lambda>_. ret (0, rval)))))"

primrec exec :: "'h vm_env \<Rightarrow> 'h sender \<Rightarrow> prog \<Rightarrow> (ret_val, 'h rts) cmd" where
  "exec env callee (PReturn rv) = ret rv"
| "exec env callee (PAbort code) = Abortf code"
| "exec env callee PCrash = throw PanicOther"
| "exec env callee (PChargeGas name compute virtual k) =
     bnd (ChargeGas name compute virtual) (\<lambda>_. exec env callee k)"
| "exec env callee (PSyscall sc args k) = bnd (pricedSyscall env sc args) (\<lambda>r. exec env callee (k r))"
| "exec env callee (PValidateAny k) = bnd ValidateImmediateCallerAcceptAny (\<lambda>_. exec env callee k)"
| "exec env callee (PValidateIs as k) = bnd (ValidateImmediateCallerIs as) (\<lambda>_. exec env callee k)"
| "exec env callee (PValidateType ts k) = bnd (ValidateImmediateCallerType env ts) (\<lambda>_. exec env callee k)"
| "exec env callee (PCaller k) = bnd Caller (\<lambda>a. exec env callee (k a))"
| "exec env callee (PReceiver k) = bnd Receiver (\<lambda>a. exec env callee (k a))"
| "exec env callee (PValueReceived k) = bnd (get_rt rtValue) (\<lambda>v. exec env callee (k v))"
| "exec env callee (PCurrentBalance k) = bnd (CurrentBalance env) (\<lambda>b. exec env callee (k b))"
| "exec env callee (PGetActorCodeCID a k) = bnd (GetActorCodeCID env a) (\<lambda>c. exec env callee (k c))"
| "exec env callee (PResolveAddress a k) = bnd (ResolveAddress env a) (\<lambda>r. exec env callee (k r))"
| "exec env callee (PNewActorAddress k) = bnd (NewActorAddress env) (\<lambda>a. exec env callee (k a))"
| "exec env callee (PCreateActor code a k) = bnd (CreateActor env code a) (\<lambda>_. exec env callee k)"
| "exec env callee (PDeleteActor b k) = bnd (rtDeleteActor env b) (\<lambda>_. exec env callee k)"
| "exec env callee (PSend to method value params k) =
     bnd (Send callee to method value params) (\<lambda>r. exec env callee (k (fst r) (snd r)))"
| "exec env callee (PStoreGet c k) = bnd (StoreGet env c) (\<lambda>b. exec env callee (k b))"
| "exec env callee (PStorePut b k) = bnd (StorePut env b) (\<lambda>c. exec env callee (k c))"
| "exec env callee (PStateCreate b k) = bnd (StateCreate env b) (\<lambda>_. exec env callee k)"
| "exec env callee (PStateReadonly k) = bnd (StateReadonly env) (\<lambda>b. exec env callee (k b))"
| "exec env callee (PTransactionBegin k) =
     bnd (StateTransaction_begin env) (\<lambda>r. exec env callee (k (fst r) (snd r)))"
| "exec env callee (PTransactionEnd base b k) =
     bnd (StateTransaction_end env base b) (\<lambda>_. exec env callee k)"
| "exec env callee (PRandomnessFromTickets tag ep entropy k) =
     bnd (randomness (chainRandomness env tag ep entropy)) (\<lambda>b. exec env callee (k b))"
| "exec env callee (PRandomnessFromBeacon tag ep entropy k) =
     bnd (randomness (beaconRandomness env tag ep entropy)) (\<lambda>b. exec env callee (k b))"
| "exec env callee (PTotalFilCircSupply k) = bnd (TotalFilCircSupply env) (\<lambda>b. exec env callee (k b))"

definition shimCall ::
  "'h vm_env \<Rightarrow> (ret_val, 'h rts) cmd \<Rightarrow> (bytes \<times> actorError option, 'h rts) cmd"
where
  "shimCall env f s =
     (case f s of
        (Inl (PanicErr e), s) \<Rightarrow> (Inr ([], Some e), s)
      | (Inl PanicOther, s) \<Rightarrow>
          (Inr ([], Some (NewErr (if networkVersion env \<le> 3 then 1 else SysErrIllegalInstruction))), s)
      | (Inl NoFuel, s) \<Rightarrow> (Inl NoFuel, s)
      | (Inr rval, (rt, w)) \<Rightarrow>
          if \<not> callerValidated rt then (Inr ([], Some (NewErr SysErrorIllegalActor)), (rt, w))
          else
            (Inr (case rval of
                    RVBytes b \<Rightarrow> (b, None)
                  | RVUnmarshalable \<Rightarrow> ([], Absorb (Some GoError) 2)
                  | RVUnknownType \<Rightarrow> ([], Some (NewErr 3))), (rt, w)))"

definition Invoke ::
  "'h vm_env \<Rightarrow> 'h sender \<Rightarrow> Actor \<Rightarrow> method_num \<Rightarrow> bytes \<Rightarrow> (bytes \<times> actorError option, 'h rts) cmd"
where
  "Invoke env callee act method params =
     (case areg env (Code act) of
        None \<Rightarrow> ret ([], Some (NewErr SysErrorIllegalActor))
      | Some ai \<Rightarrow>
          if \<not> predicate ai (networkVersion env) then ret ([], Some (NewErr SysErrorIllegalActor))
          else
            case methods ai method of
              None \<Rightarrow> ret ([], Some (NewErr SysErrInvalidMethod))
            | Some decode \<Rightarrow>
                (case decode params of
                   None \<Rightarrow>
                     ret ([], Absorb (Some GoError) (if networkVersion env < 7 then 1 else ErrSerialization))
                 | Some p \<Rightarrow> shimCall env (exec env callee p)))"

definition newAccountActor :: "'h vm_env \<Rightarrow> nat \<Rightarrow> (Actor, 's) cmd" where
  "newAccountActor env ver =
     (if ver \<in> {0, 2, 3, 4, 5, 6, 7}
      then ret \<lparr>Code = AccountActorCodeID env ver, Head = EmptyObjectCid env, Nonce = 0, Balance = 0\<rparr>
      else throw PanicOther)"

definition makeAccountActor :: "'h vm_env \<Rightarrow> nat \<Rightarrow> address \<Rightarrow> (actorError + Actor, 's) cmd" where
  "makeAccountActor env ver addr =
     (case addr of
        AddrBLS k \<Rightarrow> bnd (newAccountActor env ver) (\<lambda>act. ret (Inr act))
      | AddrSecp k \<Rightarrow> bnd (newAccountActor env ver) (\<lambda>act. ret (Inr act))
      | _ \<Rightarrow> ret (Inl (NewErr SysErrInvalidReceiver)))"

text \<open>\<open>TryCreateAccountActor\<close> from the point where the actor is built.\<close>

definition TryCreate_construct ::
  "'h vm_env \<Rightarrow> 'h sender \<Rightarrow> address \<Rightarrow> address \<Rightarrow> Actor \<Rightarrow> (actorError + Actor \<times> address, 'h rts) cmd"
where
  "TryCreate_construct env callee addr addrID act =
     bnd (rt_tree (\<lambda>st. SetActor (tree env) st addrID act)) (\<lambda>r. case r of
       Inl e \<Rightarrow> ret (Inl FatalErr)
     | Inr _ \<Rightarrow>
         bnd (internalSend callee SystemActorAddr addrID MethodConstructor 0 (addressParams env addr)) (\<lambda>(rval, aerr).
           case Wrap aerr of
             Some e \<Rightarrow> ret (Inl e)
           | None \<Rightarrow>
               bnd (rt_tree (\<lambda>st. GetActor (tree env) st addrID)) (\<lambda>r. case r of
                 Inl e \<Rightarrow> ret (Inl FatalErr)
               | Inr act \<Rightarrow> ret (Inr (act, addrID)))))"

definition TryCreateAccountActor ::
  "'h vm_env \<Rightarrow> 'h sender \<Rightarrow> address \<Rightarrow> (actorError + Actor \<times> address, 'h rts) cmd"
where
  "TryCreateAccountActor env callee addr =
     bnd (chargeGasSafe (OnCreateActor (vm_pricelist env))) (\<lambda>err. case err of
       Some e \<Rightarrow> ret (Inl e)
     | None \<Rightarrow>
         if addr = ZeroAddress \<and> 10 \<le> networkVersion env then ret (Inl (NewErr ErrIllegalArgument))
         else
           bnd (rt_tree (\<lambda>st. RegisterNewAddress (tree env) st addr)) (\<lambda>r. case r of
             Inl e \<Rightarrow> ret (Inl FatalErr)
           | Inr addrID \<Rightarrow>
               (case actorsVersionForNetwork env (networkVersion env) of
                  None \<Rightarrow> ret (Inl FatalErr)
                | Some av \<Rightarrow>
                    bnd (makeAccountActor env av addr) (\<lambda>r. case r of
                      Inl aerr \<Rightarrow> ret (Inl aerr)
                    | Inr act \<Rightarrow> TryCreate_construct env callee addr addrID act))))"

text \<open>\<open>send\<close> after the receiving actor has been found: charge, transfer, invoke.\<close>

definition send_run ::
  "'h vm_env \<Rightarrow> 'h sender \<Rightarrow> Message \<Rightarrow> Actor \<Rightarrow> (bytes \<times> actorError option, 'h rts) cmd"
where
  "send_run env callee msg toActor =
     (case Value msg of
        None \<Rightarrow> throw PanicOther
      | Some value \<Rightarrow>
          bnd (chargeGasSafe (OnMethodInvocation (vm_pricelist env) value (Method msg))) (\<lambda>aerr.
          if aerr \<noteq> None then ret ([], Wrap aerr)
          else
            afterwards
              (bnd (if value \<noteq> 0
                    then rt_world (transfer env (From msg) (To msg) value (networkVersion env))
                    else ret None) (\<lambda>err.
               if err \<noteq> None then ret ([], Wrap err)
               else if Method msg \<noteq> 0 then
                 bnd (chargeGasSafe gasOnActorExec) (\<lambda>_. Invoke env callee toActor (Method msg) (Params msg))
               else ret ([], None)))
              (\<lambda>s. snd (chargeGasSafe (newGasCharge ''OnMethodInvocationDone'' 0 0) s))))"

text \<open>The message shown to the actor once its account has been created.\<close>

definition set_receiver :: "'h vm_env \<Rightarrow> address \<Rightarrow> (unit, 'h rts) cmd" where
  "set_receiver env aid =
     (if networkVersion env \<le> 3 then ret ()
      else bnd Caller (\<lambda>c. upd_rt (\<lambda>rt. rt\<lparr>rtCaller := c, rtReceiver := aid\<rparr>)))"

definition send_body ::
  "'h vm_env \<Rightarrow> 'h sender \<Rightarrow> Message \<Rightarrow> GasCharge option \<Rightarrow> (bytes \<times> actorError option, 'h rts) cmd"
where
  "send_body env callee msg gasCharge =
     bnd (case gasCharge of None \<Rightarrow> ret None | Some g \<Rightarrow> chargeGasSafe g) (\<lambda>err.
     if err \<noteq> None then ret ([], Wrap err)
     else
       bnd (chargeGasSafe (newGasCharge ''OnGetActor'' 0 0)) (\<lambda>_.
       bnd (rt_tree (\<lambda>st. GetActor (tree env) st (To msg))) (\<lambda>r. case r of
         Inr toActor \<Rightarrow> send_run env callee msg toActor
       | Inl e \<Rightarrow>
           if e = ErrActorNotFound then
             bnd (TryCreateAccountActor env callee (To msg)) (\<lambda>r. case r of
               Inl aerr \<Rightarrow> ret ([], Wrap (Some aerr))
             | Inr (a, aid) \<Rightarrow>
                 bnd (set_receiver env aid) (\<lambda>_. send_run env callee msg a))
           else ret ([], Some FatalErr))))"

definition send_with :: "'h vm_env \<Rightarrow> 'h sender \<Rightarrow> 'h sender" where
  "send_with env callee msg parent gasCharge w =
     (case makeRuntime env msg parent w of
        (Inl p, w) \<Rightarrow> (Inl p, parent, w)
      | (Inr rt, w) \<Rightarrow>
          (case send_body env callee msg gasCharge (rt, w) of
             (r, (rt, w)) \<Rightarrow>
               ((case r of Inl p \<Rightarrow> Inl p | Inr (rval, err) \<Rightarrow> Inr (rval, err, rt)),
                map_option (\<lambda>p. p\<lparr>gasUsed := gasUsed rt\<rparr>) parent, w)))"

text \<open>The recursion, with a bound on the nesting.\<close>

primrec send :: "'h vm_env \<Rightarrow> nat \<Rightarrow> 'h sender" where
  "send env 0 = (\<lambda>msg parent gasCharge w. (Inl NoFuel, parent, w))"
| "send env (Suc n) = send_with env (send env n)"

end
