(* ===== verification/VM_Safety.thy ===== *)
theory VM_Safety
  imports VM_Runtime
begin

section \<open>What running a message does to balances, snapshots and gas\<close>

text \<open>
  The lemmas about the runtime of \<open>VM_Runtime\<close>: a small logic for computations that may panic, the
  invariant that no balance is negative and no call mints funds, and the bound on the gas used. They
  are proved for one call under the assumption that its nested calls satisfy them, in the locale of
  that contract, and then for \<open>send\<close> by induction on the nesting.
\<close>

subsection \<open>Balances\<close>

text \<open>The total of all balances, and what it means for them to be in order.\<close>

definition bal :: "(address \<Rightarrow> Actor option) \<Rightarrow> address \<Rightarrow> token" where
  "bal m i = (case m i of None \<Rightarrow> 0 | Some act \<Rightarrow> Balance act)"

definition total_funds :: "(address \<Rightarrow> Actor option) \<Rightarrow> token" where
  "total_funds m = (\<Sum>i\<in>dom m. bal m i)"

definition funds_ok :: "(address \<Rightarrow> Actor option) \<Rightarrow> bool" where
  "funds_ok m \<longleftrightarrow> finite (dom m) \<and> (\<forall>i. 0 \<le> bal m i)"

lemma total_funds_upd:
  assumes "finite (dom m)"
  shows "total_funds (m(i := x)) = total_funds m - bal m i + (case x of None \<Rightarrow> 0 | Some act \<Rightarrow> Balance act)"
proof -
  have s: "total_funds n = (\<Sum>j\<in>insert i (dom m). bal n j)" if "dom n \<subseteq> insert i (dom m)" for n
    unfolding total_funds_def using assms that
    by (intro sum.mono_neutral_left) (auto simp: bal_def domIff)
  have "total_funds (m(i := x)) = (\<Sum>j\<in>insert i (dom m). bal (m(i := x)) j)"
    by (rule s) (auto split: if_splits)
  also have "\<dots> = (\<Sum>j\<in>insert i (dom m). ((bal m)(i := bal (m(i := x)) i)) j)"
    by (rule sum.cong) (auto simp: bal_def)
  also have "\<dots> = (\<Sum>j\<in>insert i (dom m). bal m j) - bal m i + bal (m(i := x)) i"
    using assms by (intro sum_upd) auto
  also have "(\<Sum>j\<in>insert i (dom m). bal m j) = total_funds m" by (rule s [symmetric]) auto
  also have "bal (m(i := x)) i = (case x of None \<Rightarrow> 0 | Some act \<Rightarrow> Balance act)" by (simp add: bal_def)
  finally show ?thesis .
qed

lemma funds_ok_upd:
  "funds_ok m \<Longrightarrow> 0 \<le> (case x of None \<Rightarrow> 0 | Some act \<Rightarrow> Balance act) \<Longrightarrow> funds_ok (m(i := x))"
  by (auto simp: funds_ok_def bal_def split: option.splits)

lemma total_funds_set [simp]:
  "funds_ok m \<Longrightarrow> total_funds (m(i \<mapsto> act)) = total_funds m - bal m i + Balance act"
  "funds_ok m \<Longrightarrow> total_funds (m(i := None)) = total_funds m - bal m i"
  by (simp_all add: total_funds_upd funds_ok_def)

lemma funds_ok_set [simp]:
  "funds_ok m \<Longrightarrow> 0 \<le> Balance act \<Longrightarrow> funds_ok (m(i \<mapsto> act))"
  "funds_ok m \<Longrightarrow> funds_ok (m(i := None))"
  by (simp_all add: funds_ok_upd)

lemma bal_nonneg [simp]: "funds_ok m \<Longrightarrow> 0 \<le> bal m i"
  by (simp add: funds_ok_def)

lemma bal_some [simp]: "m i = Some act \<Longrightarrow> bal m i = Balance act"
  by (simp add: bal_def)

lemma balance_nonneg: "funds_ok m \<Longrightarrow> m i = Some act \<Longrightarrow> 0 \<le> Balance act"
  using bal_nonneg [of m i] by simp

subsection \<open>A logic for computations that may panic\<close>

text \<open>
  What a computation does to the state, whatever it returns: it keeps an invariant and moves along a
  preorder. A panic carries an error that is fatal exactly when it has no exit code; a value
  satisfies a given predicate.
\<close>

definition panic_ok :: "panic \<Rightarrow> bool" where
  "panic_ok p \<longleftrightarrow> (\<forall>e. p = PanicErr e \<longrightarrow> aerr_ok e)"

lemma panic_ok_simps [simp]:
  "panic_ok (PanicErr e) = aerr_ok e" "panic_ok PanicOther" "panic_ok NoFuel"
  by (simp_all add: panic_ok_def)

definition valid ::
  "('s \<Rightarrow> bool) \<Rightarrow> ('s \<Rightarrow> 's \<Rightarrow> bool) \<Rightarrow> ('s \<Rightarrow> panic \<Rightarrow> bool) \<Rightarrow> ('a \<Rightarrow> bool) \<Rightarrow> ('a, 's) cmd \<Rightarrow> bool"
where
  "valid I R F Q m \<longleftrightarrow> (\<forall>s. I s \<longrightarrow> I (snd (m s)) \<and> R s (snd (m s))
     \<and> (case fst (m s) of Inl p \<Rightarrow> F s p | Inr x \<Rightarrow> Q x))"

lemma validI:
  "(\<And>s r s'. I s \<Longrightarrow> m s = (r, s') \<Longrightarrow> I s' \<and> R s s' \<and> (case r of Inl p \<Rightarrow> F s p | Inr x \<Rightarrow> Q x))
    \<Longrightarrow> valid I R F Q m"
  unfolding valid_def by (metis prod.collapse)

lemma validD:
  assumes "valid I R F Q m" and "I s" and "m s = (r, s')"
  shows "I s'" and "R s s'" and "case r of Inl p \<Rightarrow> F s p | Inr x \<Rightarrow> Q x"
  using assms unfolding valid_def by (metis fst_conv snd_conv)+

lemma valid_if: "(b \<Longrightarrow> valid I R F Q m) \<Longrightarrow> (\<not> b \<Longrightarrow> valid I R F Q n) \<Longrightarrow> valid I R F Q (if b then m else n)"
  by simp

locale step_logic =
  fixes I :: "'s \<Rightarrow> bool" and R :: "'s \<Rightarrow> 's \<Rightarrow> bool" and F :: "'s \<Rightarrow> panic \<Rightarrow> bool"
  assumes step_refl: "I s \<Longrightarrow> R s s"
    and step_trans: "R s t \<Longrightarrow> R t u \<Longrightarrow> R s u"
    and panic_back: "R s t \<Longrightarrow> F t p \<Longrightarrow> F s p"
    and panic_own: "panic_ok p \<Longrightarrow> p \<noteq> NoFuel \<Longrightarrow> F s p"
begin

lemma valid_ret: "Q x \<Longrightarrow> valid I R F Q (ret x)"
  by (simp add: valid_def ret_def step_refl)

lemma valid_throw: "panic_ok p \<Longrightarrow> p \<noteq> NoFuel \<Longrightarrow> valid I R F Q (throw p)"
  by (simp add: valid_def throw_def step_refl panic_own)

lemma valid_Abortf: "valid I R F Q (Abortf code)"
  by (simp add: Abortf_def valid_throw)

lemma valid_bnd:
  assumes "valid I R F P m" and "\<And>x. P x \<Longrightarrow> valid I R F Q (f x)"
  shows "valid I R F Q (bnd m f)"
proof (rule validI)
  fix s r s'
  assume s: "I s" and b: "bnd m f s = (r, s')"
  obtain r1 s1 where m: "m s = (r1, s1)" by fastforce
  note m' = validD [OF assms(1) s m]
  show "I s' \<and> R s s' \<and> (case r of Inl p \<Rightarrow> F s p | Inr x \<Rightarrow> Q x)"
  proof (cases r1)
    case (Inl p)
    then show ?thesis using b m m' by (simp add: bnd_def) auto
  next
    case (Inr x)
    then have f: "f x s1 = (r, s')" and "P x" using b m m' by (simp_all add: bnd_def)
    note f' = validD [OF assms(2) m'(1) f, OF \<open>P x\<close>]
    then show ?thesis
      using step_trans [OF m'(2)] panic_back [OF m'(2)] by (cases r) auto
  qed
qed

lemma valid_or_fatal:
  assumes "valid I R F (\<lambda>_. True) m" and "\<And>x. valid I R F aerrs_ok (k x)"
  shows "valid I R F aerrs_ok (or_fatal m k)"
  unfolding or_fatal_def
  by (rule valid_bnd [OF assms(1)]) (auto simp: valid_ret assms(2) split: sum.splits)

lemma valid_afterwards:
  assumes "valid I R F Q m" and "\<And>s. I s \<Longrightarrow> I (f s) \<and> R s (f s)"
  shows "valid I R F Q (afterwards m f)"
proof (rule validI)
  fix s r s'
  assume s: "I s" and b: "afterwards m f s = (r, s')"
  obtain s1 where m: "m s = (r, s1)" "s' = f s1"
    using b by (auto simp: afterwards_def split: prod.splits)
  show "I s' \<and> R s s' \<and> (case r of Inl p \<Rightarrow> F s p | Inr x \<Rightarrow> Q x)"
    using validD [OF assms(1) s m(1)] assms(2) [of s1] m(2) step_trans by blast
qed

end

subsection \<open>The world: snapshots and funds\<close>

definition vview :: "'h vm_env \<Rightarrow> 'h World \<Rightarrow> address \<Rightarrow> Actor option" where
  "vview env w = view (tree env) (cstate w)"

definition world_ok :: "'h vm_env \<Rightarrow> 'h World \<Rightarrow> bool" where
  "world_ok env w \<longleftrightarrow> resolves_to_ids (tree env) \<and> tree_ok (cstate w) \<and> ids_ok (snaps (cstate w))
     \<and> funds_ok (vview env w)"

text \<open>
  A step of the world: the layers below the current one are left alone, resolved addresses stay
  resolved, and the total of the balances does not grow.
\<close>

definition wstep :: "'h vm_env \<Rightarrow> 'h World \<Rightarrow> 'h World \<Rightarrow> bool" where
  "wstep env w w' \<longleftrightarrow> below (cstate w) (cstate w') \<and> knows_more (cstate w) (cstate w')
     \<and> total_funds (vview env w') \<le> total_funds (vview env w)"

lemma wstep_refl: "wstep env w w"
  by (simp add: wstep_def)

lemma wstep_trans: "wstep env u v \<Longrightarrow> wstep env v w \<Longrightarrow> wstep env u w"
  unfolding wstep_def using below_trans knows_more_trans by (metis order_trans)

definition wpanic :: "'h World \<Rightarrow> panic \<Rightarrow> bool" where
  "wpanic w p \<longleftrightarrow> panic_ok p \<and> p \<noteq> NoFuel"

interpretation wl: step_logic "world_ok env" "wstep env" wpanic for env :: "'h vm_env"
  by unfold_locales (auto intro: wstep_refl wstep_trans simp: wpanic_def)

abbreviation wvalid :: "'h vm_env \<Rightarrow> ('a \<Rightarrow> bool) \<Rightarrow> ('a, 'h World) cmd \<Rightarrow> bool" where
  "wvalid env \<equiv> valid (world_ok env) (wstep env) wpanic"

text \<open>A tree operation that reads only, and one whose effect on what one reads is known.\<close>

lemma valid_tree_read:
  assumes "\<And>st r st'. tree_ok st \<Longrightarrow> f st = (r, st') \<Longrightarrow> reads (tree env) st st'"
    and "\<And>st r st'. resolves_to_ids (tree env) \<Longrightarrow> ids_ok (snaps st) \<Longrightarrow> f st = (r, st') \<Longrightarrow> ids_ok (snaps st')"
  shows "wvalid env (\<lambda>_. True) (on_tree f)"
proof (rule validI)
  fix w r w'
  assume w: "world_ok env w" and o: "on_tree f w = (r, w')"
  obtain r1 st1 where f: "f (cstate w) = (r1, st1)" by fastforce
  have "reads (tree env) (cstate w) st1" "ids_ok (snaps st1)"
    using assms(1) [OF _ f] assms(2) [OF _ _ f] w by (simp_all add: world_ok_def)
  then have "world_ok env w' \<and> wstep env w w'" if "w' = w\<lparr>cstate := st1\<rparr>"
    using w that by (simp add: reads_def world_ok_def wstep_def vview_def)
  moreover have "w' = w\<lparr>cstate := st1\<rparr>" "case r of Inl p \<Rightarrow> wpanic w p | Inr x \<Rightarrow> True"
    using o f by (auto simp: on_tree_def wpanic_def split: sum.splits st_error.splits)
  ultimately show "world_ok env w' \<and> wstep env w w' \<and> (case r of Inl p \<Rightarrow> wpanic w p | Inr x \<Rightarrow> True)"
    by simp
qed

lemma valid_LookupID: "wvalid env (\<lambda>_. True) (on_tree (\<lambda>st. LookupID (tree env) st a))"
  by (rule valid_tree_read) (auto simp: LookupID_result dest: LookupID_ids)

lemma valid_GetActor: "wvalid env (\<lambda>_. True) (on_tree (\<lambda>st. GetActor (tree env) st a))"
  by (rule valid_tree_read) (auto simp: GetActor_result dest: GetActor_ids)

lemma on_tree_simps:
  "f (cstate w) = (Inr x, st) \<Longrightarrow> on_tree f w = (Inr (Inr x), w\<lparr>cstate := st\<rparr>)"
  "f (cstate w) = (Inl e, st) \<Longrightarrow> e \<noteq> PanicIndex \<Longrightarrow> on_tree f w = (Inr (Inl e), w\<lparr>cstate := st\<rparr>)"
  by (simp_all add: on_tree_def split: st_error.splits)

text \<open>A tree operation that may write: the actors afterwards are in order and their total did not grow.\<close>

lemma valid_tree_write:
  assumes "\<And>st r st'. tree_ok st \<Longrightarrow> funds_ok (view (tree env) st) \<Longrightarrow> f st = (r, st') \<Longrightarrow>
    tree_ok st' \<and> below st st' \<and> knows_more st st' \<and> funds_ok (view (tree env) st')
      \<and> total_funds (view (tree env) st') \<le> total_funds (view (tree env) st)"
    and "\<And>st r st'. resolves_to_ids (tree env) \<Longrightarrow> ids_ok (snaps st) \<Longrightarrow> f st = (r, st') \<Longrightarrow> ids_ok (snaps st')"
  shows "wvalid env (\<lambda>_. True) (on_tree f)"
proof (rule validI)
  fix w r w'
  assume w: "world_ok env w" and o: "on_tree f w = (r, w')"
  obtain r1 st1 where f: "f (cstate w) = (r1, st1)" by fastforce
  have "tree_ok st1 \<and> below (cstate w) st1 \<and> knows_more (cstate w) st1 \<and> funds_ok (view (tree env) st1)
      \<and> total_funds (view (tree env) st1) \<le> total_funds (view (tree env) (cstate w))"
    using assms(1) [OF _ _ f] w by (simp add: world_ok_def vview_def)
  moreover have "ids_ok (snaps st1)" using assms(2) [OF _ _ f] w by (simp add: world_ok_def)
  ultimately have "world_ok env w' \<and> wstep env w w'" if "w' = w\<lparr>cstate := st1\<rparr>"
    using w that by (simp add: world_ok_def wstep_def vview_def)
  moreover have "w' = w\<lparr>cstate := st1\<rparr>" "case r of Inl p \<Rightarrow> wpanic w p | Inr x \<Rightarrow> True"
    using o f by (auto simp: on_tree_def wpanic_def split: sum.splits st_error.splits)
  ultimately show "world_ok env w' \<and> wstep env w w' \<and> (case r of Inl p \<Rightarrow> wpanic w p | Inr x \<Rightarrow> True)"
    by simp
qed

text \<open>\<open>SetActor\<close> in general: either the address does not resolve and nothing readable changes, or it does.\<close>

lemma SetActor_effect:
  assumes "tree_ok st" and "SetActor env st a act = (r, st')"
  shows "tree_ok st' \<and> below st st' \<and> knows_more st st'
    \<and> (view env st' = view env st \<or> (\<exists>i. known st' a i \<and> view env st' = (view env st)(i \<mapsto> act)))"
proof -
  obtain r1 st1 where l: "LookupID env st a = (r1, st1)" by fastforce
  note l' = LookupID_result [OF assms(1) l]
  show ?thesis
  proof (cases r1)
    case (Inl e)
    then show ?thesis using assms(2) l l' by (auto simp: SetActor_def reads_def)
  next
    case (Inr i)
    then have k: "known st1 a i" "tree_ok st1" using l' by (simp_all add: reads_def)
    obtain ss' where ss': "setActor (snaps st1) i act = Some ss'" "snaps_ok ss'"
        "length (layers ss') = depth st1" "butlast (layers ss') = butlast (layers (snaps st1))"
        "layer_lookup (layers ss') = (layer_lookup (layers (snaps st1)))(i \<mapsto> \<lparr>Act = act, Delete = False\<rparr>)"
        "cache_lookup (layers ss') = cache_lookup (layers (snaps st1))"
      using setActor_step k(2) unfolding tree_ok_def by blast
    then have s: "st' = st1\<lparr>snaps := ss'\<rparr>" using assms(2) l Inr by (simp add: SetActor_def on_snaps_def)
    have "view env st' = (view env st1)(i \<mapsto> act)"
      using s ss'(5) by (simp add: view_def layers_view_set op_actor_def)
    moreover have "known st' a i" "knows_more st1 st'" "below st1 st'" "tree_ok st'"
      using s ss' k by (simp_all add: known_def knows_more_def below_def tree_ok_def)
    ultimately show ?thesis
      using l' below_trans [of st st1 st'] knows_more_trans [of st st1 st'] by (auto simp: reads_def)
  qed
qed

lemma valid_SetActor_zero:
  assumes "Balance act = 0"
  shows "wvalid env (\<lambda>_. True) (on_tree (\<lambda>st. SetActor (tree env) st a act))"
proof (rule valid_tree_write)
  fix st st' :: "'a StateTree" and r
  assume st: "tree_ok st" "funds_ok (view (tree env) st)" "SetActor (tree env) st a act = (r, st')"
  show "tree_ok st' \<and> below st st' \<and> knows_more st st' \<and> funds_ok (view (tree env) st')
      \<and> total_funds (view (tree env) st') \<le> total_funds (view (tree env) st)"
    using SetActor_effect [OF st(1,3)] st(2) assms by auto
qed (rule SetActor_ids)

lemma valid_DeleteActor: "wvalid env (\<lambda>_. True) (on_tree (\<lambda>st. DeleteActor (tree env) st a))"
proof (rule valid_tree_write)
  fix st st' :: "'a StateTree" and r
  assume st: "tree_ok st" "funds_ok (view (tree env) st)" "DeleteActor (tree env) st a = (r, st')"
  have "view (tree env) st' = view (tree env) st \<or> (\<exists>i. view (tree env) st' = (view (tree env) st)(i := None))"
    using DeleteActor_result [OF st(1,3)] by (cases r) auto
  then show "tree_ok st' \<and> below st st' \<and> knows_more st st' \<and> funds_ok (view (tree env) st')
      \<and> total_funds (view (tree env) st') \<le> total_funds (view (tree env) st)"
    using DeleteActor_result [OF st(1,3)] st(2) by auto
qed (rule DeleteActor_ids)

lemma valid_RegisterNewAddress:
  "wvalid env (\<lambda>_. True) (on_tree (\<lambda>st. RegisterNewAddress (tree env) st a))"
proof (rule valid_tree_write)
  fix st st' :: "'a StateTree" and r
  assume st: "tree_ok st" "funds_ok (view (tree env) st)" "RegisterNewAddress (tree env) st a = (r, st')"
  show "tree_ok st' \<and> below st st' \<and> knows_more st st' \<and> funds_ok (view (tree env) st')
      \<and> total_funds (view (tree env) st') \<le> total_funds (view (tree env) st)"
    using RegisterNewAddress_result [OF st(1,3)] st(2) balance_nonneg [OF st(2)] by auto
qed (rule RegisterNewAddress_ids)

subsection \<open>Transfers\<close>

text \<open>A step that reads only.\<close>

definition wreads :: "'h vm_env \<Rightarrow> 'h World \<Rightarrow> 'h World \<Rightarrow> bool" where
  "wreads env w w' \<longleftrightarrow> world_ok env w' \<and> below (cstate w) (cstate w') \<and> knows_more (cstate w) (cstate w')
     \<and> vview env w' = vview env w"

lemma wreads_refl: "world_ok env w \<Longrightarrow> wreads env w w"
  by (simp add: wreads_def)

lemma wreads_trans: "wreads env u v \<Longrightarrow> wreads env v w \<Longrightarrow> wreads env u w"
  unfolding wreads_def using below_trans knows_more_trans by metis

lemma wreads_step: "wreads env w w' \<Longrightarrow> world_ok env w' \<and> wstep env w w' \<and> vview env w' = vview env w"
  by (simp add: wreads_def wstep_def)

lemma wreads_known: "wreads env w w' \<Longrightarrow> known (cstate w) a i \<Longrightarrow> known (cstate w') a i"
  by (simp add: wreads_def knows_more_def)

lemma world_ok_known: "world_ok env w \<Longrightarrow> known (cstate w) a i \<Longrightarrow> is_id_addr i"
  by (auto simp: world_ok_def intro: ids_ok_known)

lemma known_id: "is_id_addr i \<Longrightarrow> known st i j \<longleftrightarrow> j = i"
  by (auto simp: known_def)

text \<open>What holds of the result of a computation started in a state.\<close>

definition post :: "('a, 's) cmd \<Rightarrow> 's \<Rightarrow> (panic + 'a \<Rightarrow> 's \<Rightarrow> bool) \<Rightarrow> bool" where
  "post m s P \<longleftrightarrow> P (fst (m s)) (snd (m s))"

lemma postI: "(\<And>r s'. m s = (r, s') \<Longrightarrow> P r s') \<Longrightarrow> post m s P"
  by (cases "m s") (simp add: post_def)

lemma postD: "post m s P \<Longrightarrow> m s = (r, s') \<Longrightarrow> P r s'"
  by (simp add: post_def)

lemma post_mono: "post m s P \<Longrightarrow> (\<And>r s'. P r s' \<Longrightarrow> Q r s') \<Longrightarrow> post m s Q"
  by (simp add: post_def)

lemma post_ret [simp]: "post (ret x) s P \<longleftrightarrow> P (Inr x) s"
  by (simp add: post_def ret_def)

lemma post_bnd:
  "post m s (\<lambda>r s1. case r of Inl p \<Rightarrow> P (Inl p) s1 | Inr x \<Rightarrow> post (f x) s1 P) \<Longrightarrow> post (bnd m f) s P"
  by (cases "m s") (auto simp: post_def bnd_def split: sum.splits)

lemma post_or_fatal:
  assumes "post m s (\<lambda>r s1. \<exists>x. r = Inr x \<and> (case x of Inl e \<Rightarrow> P (Inr (Some FatalErr)) s1 | Inr y \<Rightarrow> post (k y) s1 P))"
  shows "post (or_fatal m k) s P"
proof -
  obtain x s1 where m: "m s = (Inr x, s1)" "case x of Inl e \<Rightarrow> P (Inr (Some FatalErr)) s1 | Inr y \<Rightarrow> post (k y) s1 P"
    using assms by (cases "m s") (auto simp: post_def)
  then show ?thesis by (cases x) (auto simp: or_fatal_def post_def bnd_def ret_def)
qed

lemma post_LookupID:
  assumes "world_ok env w"
  shows "post (on_tree (\<lambda>st. LookupID (tree env) st a)) w (\<lambda>r w'. \<exists>x. r = Inr x \<and> wreads env w w'
    \<and> (\<forall>i. x = Inr i \<longrightarrow> known (cstate w') a i \<and> is_id_addr i))"
proof -
  obtain r st where l: "LookupID (tree env) (cstate w) a = (r, st)" by fastforce
  have ok: "tree_ok (cstate w)" "resolves_to_ids (tree env)" "ids_ok (snaps (cstate w))"
    using assms by (simp_all add: world_ok_def)
  have "on_tree (\<lambda>st. LookupID (tree env) st a) w = (Inr r, w\<lparr>cstate := st\<rparr>)"
    using LookupID_result [OF ok(1) l] l by (cases r) (simp_all add: on_tree_simps)
  then show ?thesis
    using LookupID_result [OF ok(1) l] LookupID_ids [OF ok(2,3) l] assms
    by (simp add: post_def wreads_def reads_def world_ok_def vview_def)
qed

lemma post_GetActor:
  assumes "world_ok env w"
  shows "post (on_tree (\<lambda>st. GetActor (tree env) st a)) w (\<lambda>r w'. \<exists>x. r = Inr x \<and> wreads env w w'
    \<and> (\<forall>act. x = Inr act \<longrightarrow> (\<exists>i. known (cstate w') a i \<and> vview env w i = Some act)))"
proof -
  obtain r st where l: "GetActor (tree env) (cstate w) a = (r, st)" by fastforce
  have ok: "tree_ok (cstate w)" "resolves_to_ids (tree env)" "ids_ok (snaps (cstate w))"
    using assms by (simp_all add: world_ok_def)
  have "on_tree (\<lambda>st. GetActor (tree env) st a) w = (Inr r, w\<lparr>cstate := st\<rparr>)"
    using GetActor_result [OF ok(1) l] l by (cases r) (simp_all add: on_tree_simps)
  then show ?thesis
    using GetActor_result [OF ok(1) l] GetActor_ids [OF ok(2,3) l] assms
    by (simp add: post_def wreads_def reads_def world_ok_def vview_def)
qed

lemma post_SetActor:
  assumes "world_ok env w" and "known (cstate w) a i"
  shows "post (on_tree (\<lambda>st. SetActor (tree env) st a act)) w (\<lambda>r w'. r = Inr (Inr ())
    \<and> tree_ok (cstate w') \<and> ids_ok (snaps (cstate w')) \<and> below (cstate w) (cstate w')
    \<and> knows_more (cstate w) (cstate w') \<and> vview env w' = (vview env w)(i \<mapsto> act))"
proof -
  have ok: "tree_ok (cstate w)" "resolves_to_ids (tree env)" "ids_ok (snaps (cstate w))"
    using assms by (simp_all add: world_ok_def)
  obtain st where st: "SetActor (tree env) (cstate w) a act = (Inr (), st)" "tree_ok st" "below (cstate w) st"
      "knows_more (cstate w) st" "view (tree env) st = (view (tree env) (cstate w))(i \<mapsto> act)"
    using SetActor_result [OF ok(1) assms(2)] by blast
  then show ?thesis using SetActor_ids [OF ok(2,3) st(1)]
    by (simp add: post_def on_tree_simps vview_def)
qed

text \<open>What a transfer does when it succeeds: nothing for one and the same actor, else it moves the amount.\<close>

definition moved :: "'h vm_env \<Rightarrow> 'h World \<Rightarrow> address \<Rightarrow> address \<Rightarrow> token \<Rightarrow> 'h World \<Rightarrow> bool" where
  "moved env w i j amt w' \<longleftrightarrow> (\<exists>f t. vview env w i = Some f \<and> vview env w j = Some t \<and> 0 \<le> amt \<and> amt \<le> Balance f
     \<and> vview env w' = (vview env w)(i \<mapsto> f\<lparr>Balance := Balance f - amt\<rparr>, j \<mapsto> t\<lparr>Balance := Balance t + amt\<rparr>))"

definition transfer_post ::
  "'h vm_env \<Rightarrow> address \<Rightarrow> address \<Rightarrow> token \<Rightarrow> 'h World \<Rightarrow> panic + actorError option \<Rightarrow> 'h World \<Rightarrow> bool"
where
  "transfer_post env from to amt w r w' \<longleftrightarrow> world_ok env w' \<and> wstep env w w'
     \<and> total_funds (vview env w') = total_funds (vview env w)
     \<and> (case r of
          Inl p \<Rightarrow> False
        | Inr (Some e) \<Rightarrow> aerr_ok e \<and> vview env w' = vview env w
        | Inr None \<Rightarrow> from = to \<and> vview env w' = vview env w
            \<or> (\<exists>i j. known (cstate w') from i \<and> known (cstate w') to j
                 \<and> (if i = j then vview env w' = vview env w else moved env w i j amt w')))"

lemma transfer_post_err: "wreads env w w' \<Longrightarrow> aerr_ok e \<Longrightarrow> transfer_post env from to amt w (Inr (Some e)) w'"
  using wreads_step by (fastforce simp: transfer_post_def)

lemma total_moved:
  assumes "funds_ok m" and "i \<noteq> j" and "m i = Some f" and "m j = Some t"
  shows "total_funds (m(i \<mapsto> f\<lparr>Balance := Balance f - amt\<rparr>, j \<mapsto> t\<lparr>Balance := Balance t + amt\<rparr>)) = total_funds m"
  using assms by (simp add: total_funds_upd funds_ok_def bal_def)

text \<open>The two writes of a transfer.\<close>

lemma post_two_writes:
  assumes "world_ok env w" and "is_id_addr i" and "is_id_addr j" and "i \<noteq> j"
    and "vview env w i = Some f" and "vview env w j = Some t" and "0 \<le> amt" and "amt \<le> Balance f"
  shows "post (or_fatal (on_tree (\<lambda>st. SetActor (tree env) st i (f\<lparr>Balance := Balance f - amt\<rparr>)))
      (\<lambda>_. or_fatal (on_tree (\<lambda>st. SetActor (tree env) st j (depositFunds t amt))) (\<lambda>_. ret None))) w
    (\<lambda>r w'. r = Inr None \<and> world_ok env w' \<and> wstep env w w'
      \<and> total_funds (vview env w') = total_funds (vview env w) \<and> moved env w i j amt w')"
proof (rule post_or_fatal, rule post_mono [OF post_SetActor [OF assms(1), of i i]], goal_cases)
  case 1
  show ?case using assms(2) by (simp add: known_id)
next
  case (2 r2 w2)
  then have ok2: "world_ok env w2" using assms(1,8) by (simp add: world_ok_def)
  have "post (or_fatal (on_tree (\<lambda>st. SetActor (tree env) st j (depositFunds t amt))) (\<lambda>_. ret None)) w2
    (\<lambda>r w'. r = Inr None \<and> world_ok env w' \<and> wstep env w w'
      \<and> total_funds (vview env w') = total_funds (vview env w) \<and> moved env w i j amt w')"
  proof (rule post_or_fatal, rule post_mono [OF post_SetActor [OF ok2, of j j]], goal_cases)
    case 1
    show ?case using assms(3) by (simp add: known_id)
  next
    case (2 r3 w3)
    have v3: "vview env w3 = (vview env w)(i \<mapsto> f\<lparr>Balance := Balance f - amt\<rparr>, j \<mapsto> t\<lparr>Balance := Balance t + amt\<rparr>)"
      using 2 \<open>r2 = Inr (Inr ()) \<and> _\<close> by (simp add: depositFunds_def)
    have "0 \<le> Balance t" using assms(1,6) balance_nonneg by (fastforce simp: world_ok_def)
    then have "world_ok env w3" using 2 ok2 assms(7) by (simp add: world_ok_def depositFunds_def)
    moreover have tot: "total_funds (vview env w3) = total_funds (vview env w)"
      unfolding v3 using assms(1,4,5,6) by (intro total_moved) (simp_all add: world_ok_def)
    moreover have "wstep env w w3"
      using 2 \<open>r2 = Inr (Inr ()) \<and> _\<close> tot below_trans knows_more_trans unfolding wstep_def
      by (metis order_refl)
    moreover have "moved env w i j amt w3" using v3 assms(5,6,7,8) by (auto simp: moved_def)
    ultimately show ?case using 2 by simp
  qed
  then show ?case using 2 by simp
qed

lemma post_transfer_move:
  assumes "wreads env w0 w" and "fromID \<noteq> toID" and "vview env w fromID = Some f"
    and "known (cstate w) from fromID" and "known (cstate w) to toID" and "0 \<le> amt"
  shows "post (transfer_move env fromID f toID amt) w (\<lambda>r w'. transfer_post env from to amt w0 r w'
    \<and> (r = Inr None \<longrightarrow> known (cstate w') from fromID))"
  unfolding transfer_move_def
proof (rule post_or_fatal, rule post_mono [OF post_GetActor], goal_cases)
  case 1
  show ?case using assms(1) by (simp add: wreads_def)
next
  case (2 r w1)
  then obtain x where x: "r = Inr x" "wreads env w w1"
      "\<forall>act. x = Inr act \<longrightarrow> (\<exists>i. known (cstate w1) toID i \<and> vview env w i = Some act)" by blast
  have ok: "world_ok env w" "world_ok env w1" using assms(1) x(2) by (simp_all add: wreads_def)
  have ids: "is_id_addr fromID" "is_id_addr toID" using ok(1) assms(4,5) world_ok_known by blast+
  have w01: "wreads env w0 w1" using assms(1) x(2) by (rule wreads_trans)
  have v: "vview env w = vview env w1" "vview env w1 = vview env w0" using x(2) w01 by (simp_all add: wreads_def)
  show ?case
  proof (cases "\<exists>t. x = Inr t \<and> amt \<le> Balance f")
    case False
    then show ?thesis using x(1) w01
      by (auto simp: deductFunds_def transfer_post_err split: sum.splits)
  next
    case True
    then obtain t where t: "x = Inr t" "vview env w toID = Some t" "amt \<le> Balance f"
      using x(3) ids by (auto simp: known_id)
    let ?body = "or_fatal (on_tree (\<lambda>st. SetActor (tree env) st fromID (f\<lparr>Balance := Balance f - amt\<rparr>)))
        (\<lambda>_. or_fatal (on_tree (\<lambda>st. SetActor (tree env) st toID (depositFunds t amt))) (\<lambda>_. ret None))"
    have "post ?body w1 (\<lambda>r w'. transfer_post env from to amt w0 r w' \<and> (r = Inr None \<longrightarrow> known (cstate w') from fromID))"
    proof (rule post_mono [OF post_two_writes [OF ok(2) ids assms(2) _ _ assms(6) t(3)]], goal_cases)
      case (3 r' w')
      then have "known (cstate w') from fromID" "known (cstate w') to toID"
        using assms(4,5) x(2) by (auto simp: wreads_def wstep_def knows_more_def)
      moreover have "wstep env w0 w'" using wreads_step [OF w01] 3 wstep_trans by blast
      ultimately show ?case using 3 v assms(2) by (auto simp: transfer_post_def moved_def)
    qed (use t assms(3) v in simp_all)
    then show ?thesis using x(1) t(1,3) by (simp add: deductFunds_def)
  qed
qed

lemma transfer_post_same:
  "wreads env w w' \<Longrightarrow> from = to \<or> (\<exists>i. known (cstate w') from i \<and> known (cstate w') to i)
    \<Longrightarrow> transfer_post env from to amt w (Inr None) w'"
  using wreads_step by (fastforce simp: transfer_post_def)

text \<open>Reads in front of a continuation.\<close>

lemma post_lookup_then:
  assumes "wreads env w0 w" and "\<And>w'. wreads env w0 w' \<Longrightarrow> P (Inr (Some FatalErr)) w'"
    and "\<And>i w'. wreads env w w' \<Longrightarrow> known (cstate w') a i \<Longrightarrow> is_id_addr i \<Longrightarrow> post (k i) w' P"
  shows "post (or_fatal (on_tree (\<lambda>st. LookupID (tree env) st a)) k) w P"
proof (rule post_or_fatal, rule post_mono [OF post_LookupID])
  show "world_ok env w" using assms(1) by (simp add: wreads_def)
next
  fix r w'
  assume "\<exists>x. r = Inr x \<and> wreads env w w' \<and> (\<forall>i. x = Inr i \<longrightarrow> known (cstate w') a i \<and> is_id_addr i)"
  then show "\<exists>x. r = Inr x \<and> (case x of Inl e \<Rightarrow> P (Inr (Some FatalErr)) w' | Inr y \<Rightarrow> post (k y) w' P)"
    using assms(2,3) wreads_trans [OF assms(1)] by (auto split: sum.splits)
qed

lemma post_get_then:
  assumes "wreads env w0 w" and "is_id_addr i" and "\<And>w'. wreads env w0 w' \<Longrightarrow> P (Inr (Some FatalErr)) w'"
    and "\<And>act w'. wreads env w w' \<Longrightarrow> vview env w i = Some act \<Longrightarrow> post (k act) w' P"
  shows "post (or_fatal (on_tree (\<lambda>st. GetActor (tree env) st i)) k) w P"
proof (rule post_or_fatal, rule post_mono [OF post_GetActor])
  show "world_ok env w" using assms(1) by (simp add: wreads_def)
next
  fix r w'
  assume "\<exists>x. r = Inr x \<and> wreads env w w' \<and> (\<forall>act. x = Inr act \<longrightarrow> (\<exists>j. known (cstate w') i j \<and> vview env w j = Some act))"
  then show "\<exists>x. r = Inr x \<and> (case x of Inl e \<Rightarrow> P (Inr (Some FatalErr)) w' | Inr y \<Rightarrow> post (k y) w' P)"
    using assms(3,4) wreads_trans [OF assms(1)] assms(2) by (auto simp: known_id split: sum.splits)
qed

lemma post_transfer_v15:
  assumes "world_ok env w" and "15 \<le> nv"
  shows "post (transfer env from to amt nv) w (\<lambda>r w'. transfer_post env from to amt w r w'
    \<and> (r = Inr None \<longrightarrow> 0 \<le> amt \<and> (\<exists>i f. known (cstate w') from i \<and> vview env w i = Some f \<and> amt \<le> Balance f)))"
    (is "post _ w ?P")
proof (cases "amt < 0")
  case True
  then show ?thesis using assms by (simp add: transfer_def transfer_post_err wreads_refl)
next
  case False
  have e: "?P (Inr (Some FatalErr)) w'" if "wreads env w w'" for w' using that by (simp add: transfer_post_err)
  have "post (or_fatal (on_tree (\<lambda>st. LookupID (tree env) st from)) (\<lambda>fromID.
          or_fatal (on_tree (\<lambda>st. GetActor (tree env) st fromID)) (\<lambda>f.
            if Balance f < amt then ret (Some (NewErr SysErrInsufficientFunds))
            else if from = to then ret None
            else or_fatal (on_tree (\<lambda>st. LookupID (tree env) st to)) (\<lambda>toID.
                if fromID = toID then ret None else transfer_move env fromID f toID amt)))) w ?P"
  proof (rule post_lookup_then [OF wreads_refl [OF assms(1)]], goal_cases)
    case (2 fromID w1)
    show ?case
    proof (rule post_get_then [OF 2(1,3)], goal_cases)
      case (2 f w2)
      note w2 = wreads_trans [OF \<open>wreads env w w1\<close> 2(1)]
      have k: "known (cstate w2) from fromID" using \<open>known (cstate w1) from fromID\<close> wreads_known [OF 2(1)] by blast
      have f: "vview env w fromID = Some f" "vview env w2 fromID = Some f"
        using 2 w2 by (simp_all add: wreads_def)
      show ?case
      proof (cases "Balance f < amt \<or> from = to")
        case True
        then show ?thesis
          using w2 k f False by (auto simp: transfer_post_err transfer_post_same)
      next
        case neq: False
        have "post (or_fatal (on_tree (\<lambda>st. LookupID (tree env) st to)) (\<lambda>toID.
                if fromID = toID then ret None else transfer_move env fromID f toID amt)) w2 ?P"
        proof (rule post_lookup_then [OF w2], goal_cases)
          case (2 toID w3)
          note w3 = wreads_trans [OF w2 2(1)]
          have k3: "known (cstate w3) from fromID" using k wreads_known [OF 2(1)] by blast
          have f3: "vview env w3 fromID = Some f" using f 2(1) by (simp add: wreads_def)
          show ?case
          proof (cases "fromID = toID")
            case True
            then show ?thesis using w3 k3 2 f neq False by (auto intro!: transfer_post_same)
          next
            case ids: False
            have "post (transfer_move env fromID f toID amt) w3 ?P"
              by (rule post_mono [OF post_transfer_move [OF w3 ids f3 k3 2(2)]]) (use neq False f in auto)
            then show ?thesis using ids by simp
          qed
        qed (rule e)
        then show ?thesis using neq by simp
      qed
    qed (rule e)
  qed (rule e)
  then show ?thesis using False assms(2) by (simp add: transfer_def)
qed

lemma post_transfer_old:
  assumes "world_ok env w" and "\<not> 15 \<le> nv"
  shows "post (transfer env from to amt nv) w (transfer_post env from to amt w)"
    (is "post _ w ?P")
proof (cases "from = to")
  case True
  then show ?thesis using assms by (simp add: transfer_def transfer_post_same wreads_refl)
next
  case False
  have e: "?P (Inr (Some FatalErr)) w'" if "wreads env w w'" for w' using that by (simp add: transfer_post_err)
  have "post (or_fatal (on_tree (\<lambda>st. LookupID (tree env) st from)) (\<lambda>fromID.
          or_fatal (on_tree (\<lambda>st. LookupID (tree env) st to)) (\<lambda>toID.
            if fromID = toID then ret None
            else if amt < 0 then ret (Some (NewErr SysErrForbidden))
            else or_fatal (on_tree (\<lambda>st. GetActor (tree env) st fromID)) (\<lambda>f.
                transfer_move env fromID f toID amt)))) w ?P"
  proof (rule post_lookup_then [OF wreads_refl [OF assms(1)]], goal_cases)
    case (2 fromID w1)
    note w1 = 2
    show ?case
    proof (rule post_lookup_then [OF w1(1)], goal_cases)
      case (2 toID w2)
      note w2 = wreads_trans [OF w1(1) 2(1)]
      have k: "known (cstate w2) from fromID" using w1(2) wreads_known [OF 2(1)] by blast
      show ?case
      proof (cases "fromID = toID \<or> amt < 0")
        case True
        then show ?thesis
          using w2 k 2 by (auto simp: transfer_post_err intro!: transfer_post_same)
      next
        case neq: False
        have "post (or_fatal (on_tree (\<lambda>st. GetActor (tree env) st fromID)) (\<lambda>f. transfer_move env fromID f toID amt)) w2 ?P"
        proof (rule post_get_then [OF w2 w1(3)], goal_cases)
          case (2 f w3)
          have "known (cstate w3) from fromID" "known (cstate w3) to toID"
            using k \<open>known (cstate w2) to toID\<close> wreads_known [OF 2(1)] by blast+
          moreover have "vview env w3 fromID = Some f" using 2 by (simp add: wreads_def)
          ultimately show ?case
            using neq by (intro post_mono [OF post_transfer_move [OF wreads_trans [OF w2 2(1)]]]) auto
        qed (rule e)
        then show ?thesis using neq by simp
      qed
    qed (rule e)
  qed (rule e)
  then show ?thesis using False assms(2) by (simp add: transfer_def)
qed

lemma post_transfer:
  assumes "world_ok env w"
  shows "post (transfer env from to amt nv) w (transfer_post env from to amt w)"
  by (cases "15 \<le> nv") (auto intro: post_mono [OF post_transfer_v15] post_transfer_old assms)

subsection \<open>Price lists charge nothing negative\<close>

lemma vm_pricelist_cases: "vm_pricelist env = prices_genesis \<or> vm_pricelist env = prices_calico"
  by (auto simp: vm_pricelist_def PricelistByEpoch_def Prices_def)

lemma nonneg_charges [simp]:
  "0 \<le> Total gasOnActorExec" "0 \<le> Total (newGasCharge name 0 0)"
  "0 \<le> Total (WithExtra (newGasCharge name 0 0) x)"
  "0 \<le> Total (OnCreateActor (vm_pricelist env))" "0 \<le> Total (OnIpldGet (vm_pricelist env))"
  "0 \<le> Total (OnMethodInvocation (vm_pricelist env) value m)"
  using vm_pricelist_cases [of env]
  by (auto simp: gasOnActorExec_def newGasCharge_def Total_def WithExtra_def OnCreateActor_def OnIpldGet_def
      WithVirtual_def OnMethodInvocation_def prices_genesis_def prices_calico_def add64_def mul64_def wrap64_def)

text \<open>
  Programs none of whose calls has a negative price. The one negative price of the VM's own is the
  refund for a deleted actor.
\<close>

primrec nonneg_prog :: "'h vm_env \<Rightarrow> prog \<Rightarrow> bool" where
  "nonneg_prog env (PReturn rv) = True"
| "nonneg_prog env (PAbort code) = True"
| "nonneg_prog env PCrash = True"
| "nonneg_prog env (PChargeGas name compute virtual k) =
     (0 \<le> Total (WithVirtual (newGasCharge name compute 0) virtual 0) \<and> nonneg_prog env k)"
| "nonneg_prog env (PSyscall sc args k) =
     ((\<forall>c. syscall_charge env sc = Inr c \<longrightarrow> 0 \<le> Total c) \<and> (\<forall>r. nonneg_prog env (k r)))"
| "nonneg_prog env (PValidateAny k) = nonneg_prog env k"
| "nonneg_prog env (PValidateIs as k) = nonneg_prog env k"
| "nonneg_prog env (PValidateType ts k) = nonneg_prog env k"
| "nonneg_prog env (PCaller k) = (\<forall>a. nonneg_prog env (k a))"
| "nonneg_prog env (PReceiver k) = (\<forall>a. nonneg_prog env (k a))"
| "nonneg_prog env (PValueReceived k) = (\<forall>v. nonneg_prog env (k v))"
| "nonneg_prog env (PCurrentBalance k) = (\<forall>b. nonneg_prog env (k b))"
| "nonneg_prog env (PGetActorCodeCID a k) = (\<forall>c. nonneg_prog env (k c))"
| "nonneg_prog env (PResolveAddress a k) = (\<forall>r. nonneg_prog env (k r))"
| "nonneg_prog env (PNewActorAddress k) = (\<forall>a. nonneg_prog env (k a))"
| "nonneg_prog env (PCreateActor code a k) = nonneg_prog env k"
| "nonneg_prog env (PDeleteActor b k) = False"
| "nonneg_prog env (PSend to method value params k) = (\<forall>code r. nonneg_prog env (k code r))"
| "nonneg_prog env (PStoreGet c k) = (\<forall>b. nonneg_prog env (k b))"
| "nonneg_prog env (PStorePut b k) =
     (0 \<le> Total (OnIpldPut (vm_pricelist env) (int (length b))) \<and> (\<forall>c. nonneg_prog env (k c)))"
| "nonneg_prog env (PStateCreate b k) =
     (0 \<le> Total (OnIpldPut (vm_pricelist env) (int (length b))) \<and> nonneg_prog env k)"
| "nonneg_prog env (PStateReadonly k) = (\<forall>b. nonneg_prog env (k b))"
| "nonneg_prog env (PTransactionBegin k) = (\<forall>h b. nonneg_prog env (k h b))"
| "nonneg_prog env (PTransactionEnd base b k) =
     (0 \<le> Total (OnIpldPut (vm_pricelist env) (int (length b))) \<and> nonneg_prog env k)"
| "nonneg_prog env (PRandomnessFromTickets tag ep entropy k) = (\<forall>b. nonneg_prog env (k b))"
| "nonneg_prog env (PRandomnessFromBeacon tag ep entropy k) = (\<forall>b. nonneg_prog env (k b))"
| "nonneg_prog env (PTotalFilCircSupply k) = (\<forall>b. nonneg_prog env (k b))"

definition nonneg_actors :: "'h vm_env \<Rightarrow> bool" where
  "nonneg_actors env \<longleftrightarrow> (\<forall>code ai m decode params p. areg env code = Some ai \<longrightarrow> methods ai m = Some decode
     \<longrightarrow> decode params = Some p \<longrightarrow> nonneg_prog env p)"

subsection \<open>Steps of a runtime\<close>

definition gas_in :: "Runtime \<Rightarrow> bool" where
  "gas_in rt \<longleftrightarrow> 0 \<le> gasUsed rt \<and> gasUsed rt \<le> gasAvailable rt \<and> in64 (gasAvailable rt)"

definition rts_ok :: "'h vm_env \<Rightarrow> 'h rts \<Rightarrow> bool" where
  "rts_ok env s \<longleftrightarrow> world_ok env (snd s) \<and> (6 \<le> networkVersion env \<longrightarrow> rtDepth (fst s) \<le> MaxCallDepth)"

text \<open>
  When the callee has \<open>k\<close> levels of nesting left, a computation at depth \<open>d\<close> runs out of them only
  if \<open>d + k\<close> does not exceed the maximal depth, or before that limit existed.
\<close>

definition rpanic :: "'h vm_env \<Rightarrow> nat \<Rightarrow> 'h rts \<Rightarrow> panic \<Rightarrow> bool" where
  "rpanic env k s p \<longleftrightarrow> panic_ok p
     \<and> (p = NoFuel \<longrightarrow> networkVersion env < 6 \<or> rtDepth (fst s) + k \<le> MaxCallDepth)"

text \<open>
  A step of a runtime: a step of the world that leaves the gas limit and the depth alone and, where
  no actor is paid gas, keeps the gas used between 0 and the limit.
\<close>

definition rstep :: "'h vm_env \<Rightarrow> 'h rts \<Rightarrow> 'h rts \<Rightarrow> bool" where
  "rstep env s s' \<longleftrightarrow> wstep env (snd s) (snd s') \<and> gasAvailable (fst s') = gasAvailable (fst s)
     \<and> rtDepth (fst s') = rtDepth (fst s) \<and> (nonneg_actors env \<and> gas_in (fst s) \<longrightarrow> gas_in (fst s'))"

lemma rstep_trans: "rstep env s t \<Longrightarrow> rstep env t u \<Longrightarrow> rstep env s u"
  unfolding rstep_def using wstep_trans by metis

interpretation rl: step_logic "rts_ok env" "rstep env" "rpanic env k" for env :: "'h vm_env" and k
proof unfold_locales
  fix s t :: "'h rts" and p
  assume "rstep env s t" "rpanic env k t p"
  then show "rpanic env k s p" by (simp add: rpanic_def rstep_def)
qed (simp add: rstep_def wstep_refl, rule rstep_trans, auto simp: rpanic_def)

abbreviation rvalid :: "'h vm_env \<Rightarrow> nat \<Rightarrow> ('a \<Rightarrow> bool) \<Rightarrow> ('a, 'h rts) cmd \<Rightarrow> bool" where
  "rvalid env k \<equiv> valid (rts_ok env) (rstep env) (rpanic env k)"

lemma valid_rt_world:
  assumes "wvalid env Q m"
  shows "rvalid env k Q (rt_world m)"
proof (rule validI)
  fix s r s'
  assume s: "rts_ok env s" "rt_world m s = (r, s')"
  obtain rt w where "s = (rt, w)" by fastforce
  moreover obtain r1 w1 where m: "m w = (r1, w1)" by fastforce
  ultimately have "s = (rt, w)" "r = r1" "s' = (rt, w1)" "world_ok env w"
    using s by (simp_all add: rt_world_def rts_ok_def)
  then show "rts_ok env s' \<and> rstep env s s' \<and> (case r of Inl p \<Rightarrow> rpanic env k s p | Inr x \<Rightarrow> Q x)"
    using validD [OF assms _ m] s by (auto simp: rts_ok_def rstep_def rpanic_def wpanic_def split: sum.splits)
qed

lemma valid_get_rt: "rvalid env k (\<lambda>_. True) (get_rt f)"
  by (auto simp: valid_def get_rt_def rl.step_refl)

lemma valid_upd_rt:
  assumes "\<And>rt. gasUsed (f rt) = gasUsed rt" "\<And>rt. gasAvailable (f rt) = gasAvailable rt"
    "\<And>rt. rtDepth (f rt) = rtDepth rt"
  shows "rvalid env k (\<lambda>_. True) (upd_rt f)"
  using assms by (auto simp: valid_def upd_rt_def rts_ok_def rstep_def gas_in_def wstep_refl)

lemma gas_in_charge:
  assumes "gas_in rt" and "0 \<le> Total g" and "\<not> sub64 (gasAvailable rt) (Total g) < gasUsed rt"
  shows "add64 (gasUsed rt) (Total g) = gasUsed rt + Total g \<and> gasUsed rt + Total g \<le> gasAvailable rt
    \<and> 0 \<le> gasUsed rt + Total g"
proof -
  have t: "in64 (Total g)" by (simp add: Total_def add64_def)
  have "in64 (gasAvailable rt - Total g)" using assms(1,2) t by (auto simp: gas_in_def in64_def)
  then have le: "gasUsed rt + Total g \<le> gasAvailable rt" using assms(3) by (simp add: i64_simps)
  then have "in64 (gasUsed rt + Total g)" using assms(1,2) by (auto simp: gas_in_def in64_def)
  then show ?thesis using le assms(1,2) by (simp add: i64_simps gas_in_def)
qed

lemma valid_chargeGasInternal:
  assumes "nonneg_actors env \<Longrightarrow> 0 \<le> Total g"
  shows "rvalid env k aerrs_ok (chargeGasInternal g)"
proof (rule validI)
  fix s r s'
  assume s: "rts_ok env s" "chargeGasInternal g s = (r, s')"
  obtain rt w where rt: "s = (rt, w)" by fastforce
  show "rts_ok env s' \<and> rstep env s s' \<and> (case r of Inl p \<Rightarrow> rpanic env k s p | Inr x \<Rightarrow> aerrs_ok x)"
  proof (cases "sub64 (gasAvailable rt) (Total g) < gasUsed rt")
    case True
    then have "r = Inr (Some (NewErr SysErrOutOfGas))" "s' = (rt\<lparr>gasUsed := gasAvailable rt\<rparr>, w)"
      using s rt by (simp_all add: chargeGasInternal_def)
    then show ?thesis using s rt by (auto simp: rts_ok_def rstep_def wstep_refl gas_in_def)
  next
    case False
    then have "r = Inr None" "s' = (rt\<lparr>gasUsed := add64 (gasUsed rt) (Total g)\<rparr>, w)"
      using s rt by (simp_all add: chargeGasInternal_def)
    then show ?thesis using s rt gas_in_charge [OF _ assms False]
      by (auto simp: rts_ok_def rstep_def wstep_refl gas_in_def)
  qed
qed

lemma valid_chargeGasSafe:
  "(nonneg_actors env \<Longrightarrow> 0 \<le> Total g) \<Longrightarrow> rvalid env k aerrs_ok (chargeGasSafe g)"
  unfolding chargeGasSafe_def by (rule valid_chargeGasInternal)

lemma valid_chargeGas:
  "(nonneg_actors env \<Longrightarrow> 0 \<le> Total g) \<Longrightarrow> rvalid env k (\<lambda>_. True) (chargeGas g)"
  unfolding chargeGas_def
  by (rule rl.valid_bnd, erule valid_chargeGasInternal) (auto split: option.splits intro: rl.valid_ret rl.valid_throw)

lemmas valid_basic = rl.valid_ret rl.valid_throw rl.valid_Abortf valid_get_rt valid_upd_rt

lemma valid_rt_tree_read:
  "rvalid env k (\<lambda>_. True) (rt_tree (\<lambda>st. LookupID (tree env) st a))"
  "rvalid env k (\<lambda>_. True) (rt_tree (\<lambda>st. GetActor (tree env) st a))"
  "rvalid env k (\<lambda>_. True) (rt_tree (\<lambda>st. DeleteActor (tree env) st a))"
  "rvalid env k (\<lambda>_. True) (rt_tree (\<lambda>st. RegisterNewAddress (tree env) st a))"
  "Balance act = 0 \<Longrightarrow> rvalid env k (\<lambda>_. True) (rt_tree (\<lambda>st. SetActor (tree env) st a act))"
  unfolding rt_tree_def
  by (simp_all add: valid_rt_world valid_LookupID valid_GetActor valid_DeleteActor
      valid_RegisterNewAddress valid_SetActor_zero)

lemma valid_rt_transfer:
  "rvalid env k aerrs_ok (rt_world (transfer env from to amt nv))"
proof (rule valid_rt_world, rule validI)
  fix w r w'
  assume "world_ok env w" "transfer env from to amt nv w = (r, w')"
  then have "transfer_post env from to amt w r w'" using postD [OF post_transfer] by metis
  then show "world_ok env w' \<and> wstep env w w' \<and> (case r of Inl p \<Rightarrow> wpanic w p | Inr x \<Rightarrow> aerrs_ok x)"
    by (auto simp: transfer_post_def split: sum.splits option.splits)
qed

subsection \<open>The runtime's calls\<close>

lemma rvalid_then: "rvalid env k (\<lambda>_. True) m \<Longrightarrow> (\<And>x. rvalid env k Q (f x)) \<Longrightarrow> rvalid env k Q (bnd m f)"
  by (rule rl.valid_bnd)

lemma rvalid_Caller: "rvalid env k (\<lambda>_. True) Caller"
  unfolding Caller_def by (rule rvalid_then) (auto intro: valid_basic)

lemma rvalid_Receiver: "rvalid env k (\<lambda>_. True) Receiver"
  unfolding Receiver_def by (rule rvalid_then) (auto intro: valid_basic)

lemma rvalid_ResolveAddress: "rvalid env k (\<lambda>_. True) (ResolveAddress env a)"
  unfolding ResolveAddress_def
  by (rule rvalid_then [OF valid_rt_tree_read(1)]) (auto intro: valid_basic split: sum.splits)

lemma rvalid_GetActorCodeCID: "rvalid env k (\<lambda>_. True) (GetActorCodeCID env a)"
  unfolding GetActorCodeCID_def
  by (rule rvalid_then [OF valid_rt_tree_read(2)]) (auto intro: valid_basic split: sum.splits)

lemma rvalid_abortIfAlreadyValidated: "rvalid env k (\<lambda>_. True) abortIfAlreadyValidated"
  unfolding abortIfAlreadyValidated_def by (rule rvalid_then) (auto intro: valid_basic)

lemma rvalid_callerType_loop: "rvalid env k (\<lambda>_. True) (callerType_loop env c ts)"
  by (induction ts) (auto intro: valid_basic split: option.splits)

lemma rvalid_validation:
  "rvalid env k (\<lambda>_. True) ValidateImmediateCallerAcceptAny"
  "rvalid env k (\<lambda>_. True) (ValidateImmediateCallerIs as)"
  "rvalid env k (\<lambda>_. True) (ValidateImmediateCallerType env ts)"
  unfolding ValidateImmediateCallerAcceptAny_def ValidateImmediateCallerIs_def ValidateImmediateCallerType_def
  by (auto intro!: rvalid_then rvalid_abortIfAlreadyValidated rvalid_Caller rvalid_GetActorCodeCID
      rvalid_callerType_loop rl.valid_ret rl.valid_throw rl.valid_Abortf split: option.splits)

lemma rvalid_CurrentBalance: "rvalid env k (\<lambda>_. True) (CurrentBalance env)"
  unfolding CurrentBalance_def GetBalance_def
  by (auto intro!: rvalid_then rvalid_Receiver valid_rt_tree_read(2) rl.valid_ret rl.valid_Abortf
      split: sum.splits)

lemma rvalid_ResolveToKeyAddr: "rvalid env k (\<lambda>_. True) (rt_world (ResolveToKeyAddr env a))"
  by (rule valid_rt_world)
    (auto simp: ResolveToKeyAddr_def intro!: wl.valid_ret wl.valid_bnd [OF valid_GetActor]
      split: address.splits sum.splits)

lemma rvalid_NewActorAddress: "rvalid env k (\<lambda>_. True) (NewActorAddress env)"
  unfolding NewActorAddress_def
  by (auto intro!: rvalid_then valid_get_rt rvalid_ResolveToKeyAddr valid_upd_rt rl.valid_ret rl.valid_throw
      split: sum.splits)

lemma Create_zero: "Create env code = Inr act \<Longrightarrow> Balance act = 0"
  by (auto simp: Create_def split: option.splits if_splits)

lemma rvalid_charge_exec: "rvalid env k (\<lambda>_. True) (bnd (chargeGasSafe gasOnActorExec) (\<lambda>_. ret x))"
  by (rule rl.valid_bnd [OF valid_chargeGasSafe]) (auto intro: rl.valid_ret)

lemma rvalid_CreateActor: "rvalid env k (\<lambda>_. True) (CreateActor env code a)"
  unfolding CreateActor_def
  by (auto intro!: rl.valid_Abortf rl.valid_throw rvalid_then valid_rt_tree_read valid_chargeGas
      rvalid_charge_exec Create_zero split: sum.splits)

lemma rvalid_DeleteActor_pay: "rvalid env k (\<lambda>_. True) (DeleteActor_pay env b amt)"
  unfolding DeleteActor_pay_def
  by (auto intro!: rvalid_then rvalid_ResolveAddress rvalid_Receiver rl.valid_Abortf rl.valid_ret rl.valid_throw
      rl.valid_bnd [OF valid_rt_transfer] split: option.splits)

lemma rvalid_rtDeleteActor: "\<not> nonneg_actors env \<Longrightarrow> rvalid env k (\<lambda>_. True) (rtDeleteActor env b)"
  unfolding rtDeleteActor_def
  by (auto intro!: rvalid_then valid_chargeGas rvalid_Receiver valid_rt_tree_read rl.valid_Abortf rl.valid_throw
      rvalid_DeleteActor_pay rl.valid_ret rvalid_charge_exec split: sum.splits)

lemma rvalid_blocks: "rvalid env k (\<lambda>_. True) (get_block c)" "rvalid env k (\<lambda>_. True) (put_block c b)"
  by (auto simp: valid_def get_block_def put_block_def rts_ok_def world_ok_def vview_def rstep_def wstep_def)

lemma rvalid_StoreGet: "rvalid env k (\<lambda>_. True) (StoreGet env c)"
  unfolding StoreGet_def
  by (auto intro!: rvalid_then valid_chargeGas rvalid_blocks rl.valid_ret split: option.splits)

lemma rvalid_StorePut:
  "(nonneg_actors env \<Longrightarrow> 0 \<le> Total (OnIpldPut (vm_pricelist env) (int (length b)))) \<Longrightarrow>
    rvalid env k (\<lambda>_. True) (StorePut env b)"
  unfolding StorePut_def by (intro rvalid_then valid_chargeGas rvalid_blocks rl.valid_ret) auto

lemma valid_post: "(\<And>s. I s \<Longrightarrow> post m s (\<lambda>r s'. I s' \<and> R s s' \<and> (case r of Inl p \<Rightarrow> F s p | Inr x \<Rightarrow> Q x)))
    \<Longrightarrow> valid I R F Q m"
  by (simp add: valid_def post_def)

text \<open>The write of a new head into the actor just read.\<close>

lemma valid_commit_head:
  "wvalid env aerrs_ok
    (or_fatal (on_tree (\<lambda>st. GetActor (tree env) st a)) (\<lambda>act.
       if Head act \<noteq> oldh then ret (Some FatalErr)
       else or_fatal (on_tree (\<lambda>st. SetActor (tree env) st a (act\<lparr>Head := newh\<rparr>))) (\<lambda>_. ret None)))"
proof (rule valid_post, rule post_or_fatal, rule post_mono, erule post_GetActor, elim exE conjE)
  fix w r w1 x
  assume w: "world_ok env w" and r: "r = Inr x" and rd: "wreads env w w1"
    and x: "\<forall>act. x = Inr act \<longrightarrow> (\<exists>i. known (cstate w1) a i \<and> vview env w i = Some act)"
  let ?P = "\<lambda>r w'. world_ok env w' \<and> wstep env w w' \<and> (case r of Inl p \<Rightarrow> wpanic w p | Inr x \<Rightarrow> aerrs_ok x)"
  have ok1: "world_ok env w1" "wstep env w w1" "vview env w1 = vview env w"
    using wreads_step [OF rd] by simp_all
  have "post (or_fatal (on_tree (\<lambda>st. SetActor (tree env) st a (act\<lparr>Head := newh\<rparr>))) (\<lambda>_. ret None)) w1 ?P"
    if act: "x = Inr act" for act
  proof -
    obtain i where i: "known (cstate w1) a i" "vview env w i = Some act" using x act by blast
    show ?thesis
    proof (rule post_or_fatal, rule post_mono [OF post_SetActor [OF ok1(1) i(1)]], goal_cases)
      case (1 r2 w2)
      have "0 \<le> Balance act" using i(2) w balance_nonneg by (fastforce simp: world_ok_def)
      then have "world_ok env w2" "total_funds (vview env w2) = total_funds (vview env w)"
        using 1 ok1 i(2) by (simp_all add: world_ok_def)
      then show ?case
        using 1 ok1 wstep_trans [OF ok1(2), of w2] by (simp add: wstep_def)
    qed
  qed
  then show "\<exists>x. r = Inr x \<and> (case x of Inl e \<Rightarrow> ?P (Inr (Some FatalErr)) w1
      | Inr act \<Rightarrow> post (if Head act \<noteq> oldh then ret (Some FatalErr)
          else or_fatal (on_tree (\<lambda>st. SetActor (tree env) st a (act\<lparr>Head := newh\<rparr>))) (\<lambda>_. ret None)) w1 ?P)"
    using r ok1 by (auto split: sum.splits)
qed

lemma rt_world_bnd: "rt_world (bnd m f) = bnd (rt_world m) (\<lambda>x. rt_world (f x))"
  by (auto simp: fun_eq_iff rt_world_def bnd_def split: prod.splits sum.splits)

lemma rt_world_ret: "rt_world (ret x) = ret x"
  by (auto simp: fun_eq_iff rt_world_def ret_def)

lemma rt_world_or_fatal: "rt_world (or_fatal m k) = or_fatal (rt_world m) (\<lambda>x. rt_world (k x))"
  unfolding or_fatal_def rt_world_bnd by (rule arg_cong [where f = "bnd _"]) (auto simp: rt_world_ret split: sum.splits)

lemma rvalid_stateCommit: "rvalid env k aerrs_ok (stateCommit env oldh newh)"
proof -
  have "rvalid env k aerrs_ok (or_fatal (rt_tree (\<lambda>st. GetActor (tree env) st a)) (\<lambda>act.
       if Head act \<noteq> oldh then ret (Some FatalErr)
       else or_fatal (rt_tree (\<lambda>st. SetActor (tree env) st a (act\<lparr>Head := newh\<rparr>))) (\<lambda>_. ret None)))" for a
    using valid_rt_world [OF valid_commit_head, of env k a oldh newh]
    by (simp add: rt_world_or_fatal rt_tree_def if_distrib [of rt_world] rt_world_ret cong: if_cong)
  then show ?thesis unfolding stateCommit_def by (rule rvalid_then [OF rvalid_Receiver])
qed

lemma rvalid_commit_or_crash:
  "(nonneg_actors env \<Longrightarrow> 0 \<le> Total (OnIpldPut (vm_pricelist env) (int (length b)))) \<Longrightarrow>
    rvalid env k (\<lambda>_. True) (commit_or_crash env oldh b)"
  unfolding commit_or_crash_def
  by (rule rvalid_then [OF rvalid_StorePut], simp, rule rl.valid_bnd [OF rvalid_stateCommit])
    (auto intro: rl.valid_ret rl.valid_throw split: option.splits)

lemma rvalid_StateReadonly: "rvalid env k (\<lambda>_. True) (StateReadonly env)"
  unfolding StateReadonly_def
  by (auto intro!: rvalid_then rvalid_Receiver valid_rt_tree_read(2) rl.valid_Abortf rvalid_StoreGet split: sum.splits)

lemma rvalid_StateTransaction_begin: "rvalid env k (\<lambda>_. True) (StateTransaction_begin env)"
  unfolding StateTransaction_begin_def
  by (auto intro!: rvalid_then rvalid_Receiver valid_rt_tree_read(2) rl.valid_Abortf rvalid_StoreGet valid_upd_rt
      rl.valid_ret split: sum.splits)

lemma rvalid_StateTransaction_end:
  "(nonneg_actors env \<Longrightarrow> 0 \<le> Total (OnIpldPut (vm_pricelist env) (int (length b)))) \<Longrightarrow>
    rvalid env k (\<lambda>_. True) (StateTransaction_end env base b)"
  unfolding StateTransaction_end_def by (intro rvalid_then valid_upd_rt rvalid_commit_or_crash) auto

lemma rvalid_TotalFilCircSupply: "rvalid env k (\<lambda>_. True) (TotalFilCircSupply env)"
  by (auto simp: valid_def TotalFilCircSupply_def Abortf_def throw_def rl.step_refl rpanic_def split: sum.splits)

lemma rvalid_randomness: "rvalid env k (\<lambda>_. True) (randomness r)"
  by (auto simp: randomness_def intro: rl.valid_ret rl.valid_throw split: sum.splits)

lemma rvalid_pricedSyscall:
  "(nonneg_actors env \<Longrightarrow> \<forall>c. syscall_charge env sc = Inr c \<longrightarrow> 0 \<le> Total c) \<Longrightarrow>
    rvalid env k (\<lambda>_. True) (pricedSyscall env sc args)"
  unfolding pricedSyscall_def
  by (auto intro!: rvalid_then valid_chargeGas rl.valid_ret split: sum.splits)

subsection \<open>The contract of a nested send\<close>

text \<open>The gas of the runtime that \<open>makeRuntime\<close> builds is in order when this holds of its arguments.\<close>

definition gas_start :: "Message \<Rightarrow> Runtime option \<Rightarrow> bool" where
  "gas_start msg parent = (case parent of
     None \<Rightarrow> 0 \<le> GasLimit msg \<and> in64 (GasLimit msg)
   | Some p \<Rightarrow> gas_in p \<and> GasLimit msg = gasAvailable p)"

text \<open>The depth of that runtime.\<close>

definition call_depth :: "Runtime option \<Rightarrow> nat" where
  "call_depth parent = (case parent of None \<Rightarrow> 0 | Some p \<Rightarrow> rtDepth p + 1)"

definition call_pre :: "'h vm_env \<Rightarrow> Runtime option \<Rightarrow> GasCharge option \<Rightarrow> 'h World \<Rightarrow> bool" where
  "call_pre env parent gasCharge w \<longleftrightarrow> world_ok env w
     \<and> (6 \<le> networkVersion env \<longrightarrow> call_depth parent \<le> MaxCallDepth + 1)
     \<and> (nonneg_actors env \<longrightarrow> (\<forall>g. gasCharge = Some g \<longrightarrow> 0 \<le> Total g))"

definition call_post ::
  "'h vm_env \<Rightarrow> nat \<Rightarrow> Message \<Rightarrow> Runtime option \<Rightarrow> 'h World \<Rightarrow>
    (panic + bytes \<times> actorError option \<times> Runtime) \<times> Runtime option \<times> 'h World \<Rightarrow> bool"
where
  "call_post env k msg parent w = (\<lambda>(r, parent', w').
     world_ok env w' \<and> wstep env w w' \<and> (parent = None \<longrightarrow> parent' = None)
   \<and> (\<forall>p. parent = Some p \<longrightarrow> (\<exists>p'. parent' = Some p' \<and> gasAvailable p' = gasAvailable p \<and> rtDepth p' = rtDepth p
          \<and> (nonneg_actors env \<and> gas_start msg parent \<longrightarrow> gas_in p')))
   \<and> (case r of
        Inl p \<Rightarrow> panic_ok p
          \<and> (p = NoFuel \<longrightarrow> networkVersion env < 6 \<or> call_depth parent + k \<le> MaxCallDepth + 1)
      | Inr (rval, err, rt) \<Rightarrow> aerrs_ok err
          \<and> (nonneg_actors env \<and> gas_start msg parent \<longrightarrow> gas_in rt \<and> gasAvailable rt = GasLimit msg)))"

locale nested_calls =
  fixes env :: "'h vm_env" and callee :: "'h sender" and k :: nat
  assumes callee_ok: "call_pre env parent gasCharge w \<Longrightarrow>
    call_post env k msg parent w (callee msg parent gasCharge w)"
begin

text \<open>A nested send between its snapshot and the end: the layers are balanced, and nothing is minted.\<close>

lemma clear_after_ok:
  assumes "world_ok env w" and "world_ok env w2" and "below (Snapshot (cstate w)) (cstate w2)"
    and "knows_more (cstate w) (cstate w2)" and "total_funds (vview env w2) \<le> total_funds (vview env w)"
    and "clear_after (r, rt, w2) = (r', s')"
  shows "r' = r \<and> fst s' = rt \<and> world_ok env (snd s') \<and> wstep env w (snd s')"
proof -
  have t: "tree_ok (cstate w)" "tree_ok (cstate w2)" "ids_ok (snaps (cstate w2))"
    using assms(1,2) by (simp_all add: world_ok_def)
  obtain st where st: "ClearSnapshot (cstate w2) = Some st" "tree_ok st" "below (cstate w) st"
      "view (tree env) st = view (tree env) (cstate w2)" "knows_more (cstate w2) st"
    using ClearSnapshot_below_snapshot [OF t(1,2) assms(3)] by blast
  have "s' = (rt, w2\<lparr>cstate := st\<rparr>)" "r' = r"
    using assms(6) st(1) by (simp_all add: clear_after_def)
  moreover have "knows_more (cstate w) st" using assms(4) st(5) by (rule knows_more_trans)
  ultimately show ?thesis
    using assms(2,5) st snapshot_ids(3) [OF t(3) st(1)] by (simp add: world_ok_def wstep_def vview_def)
qed

lemma revert_ok:
  assumes "world_ok env w" and "world_ok env w2" and "below (Snapshot (cstate w)) (cstate w2)"
  shows "\<exists>st. Revert (cstate w2) = Some st \<and> world_ok env (w2\<lparr>cstate := st\<rparr>)
    \<and> below (Snapshot (cstate w)) st \<and> knows_more (cstate w) st
    \<and> vview env (w2\<lparr>cstate := st\<rparr>) = vview env w"
proof -
  have t: "tree_ok (cstate w)" "tree_ok (cstate w2)" "ids_ok (snaps (cstate w2))"
    using assms(1,2) by (simp_all add: world_ok_def)
  obtain st where "Revert (cstate w2) = Some st" "tree_ok st" "below (Snapshot (cstate w)) st"
      "view (tree env) st = view (tree env) (cstate w)" "knows_more (cstate w) st"
    using Revert_below_snapshot [OF t(1,2) assms(3)] by blast
  then show ?thesis
    using assms(1) snapshot_ids(2) [OF t(3)] by (auto simp: world_ok_def vview_def)
qed

lemma rvalid_internalSend:
  "rvalid env k (\<lambda>(_, err). aerrs_ok err) (internalSend callee from to method value params)"
proof (rule validI)
  fix s r s'
  assume s: "rts_ok env s" "internalSend callee from to method value params s = (r, s')"
  obtain rt w where rt: "s = (rt, w)" by fastforce
  let ?msg = "\<lparr>Version = 0, To = to, From = from, MsgNonce = 0, Value = Some value, GasLimit = gasAvailable rt,
      GasFeeCap = None, GasPremium = None, Method = method, Params = params\<rparr>"
  let ?w = "w\<lparr>cstate := Snapshot (cstate w)\<rparr>"
  have w: "world_ok env w" using s rt by (simp add: rts_ok_def)
  then have sw: "world_ok env ?w" "vview env ?w = vview env w"
    using snapshot_ids(1) [of "cstate w"] by (simp_all add: world_ok_def vview_def)
  obtain r1 parent w1 where c: "callee ?msg (Some rt) None ?w = (r1, parent, w1)" by (metis prod_cases3)
  have "call_pre env (Some rt) None ?w" using sw(1) s(1) rt by (simp add: call_pre_def call_depth_def rts_ok_def)
  then have cp: "call_post env k ?msg (Some rt) ?w (r1, parent, w1)"
    using callee_ok [of "Some rt" None ?w ?msg] c by simp
  obtain p where p: "parent = Some p" "gasAvailable p = gasAvailable rt" "rtDepth p = rtDepth rt"
      "nonneg_actors env \<and> gas_in rt \<longrightarrow> gas_in p"
    using cp by (auto simp: call_post_def gas_start_def)
  have ok1: "world_ok env w1" "below (Snapshot (cstate w)) (cstate w1)" "knows_more (cstate w) (cstate w1)"
      "total_funds (vview env w1) \<le> total_funds (vview env w)"
    using cp sw(2) by (auto simp: call_post_def wstep_def knows_more_def)
  have fin: "rts_ok env s' \<and> rstep env s s'" if "fst s' = p\<lparr>numActorsCreated := n\<rparr> \<or> fst s' = p"
      "world_ok env (snd s')" "wstep env w (snd s')" for n
    using that p rt s(1) by (auto simp: rts_ok_def rstep_def gas_in_def)
  show "rts_ok env s' \<and> rstep env s s' \<and> (case r of Inl p \<Rightarrow> rpanic env k s p | Inr x \<Rightarrow> case x of (_, err) \<Rightarrow> aerrs_ok err)"
  proof (cases r1)
    case (Inl q)
    then have "clear_after (Inl q :: panic + bytes \<times> actorError option, p, w1) = (r, s')"
      using s(2) rt c p(1) by (simp add: internalSend_def)
    from clear_after_ok [OF w ok1 this]
    have c: "r = Inl q" "fst s' = p" "world_ok env (snd s')" "wstep env w (snd s')" by simp_all
    have "rpanic env k s q" using cp Inl rt by (simp add: call_post_def rpanic_def call_depth_def)
    then show ?thesis using fin c by simp
  next
    case (Inr x)
    obtain rval err subrt where x: "x = (rval, err, subrt)" by (cases x)
    have err: "aerrs_ok err" using cp Inr x by (simp add: call_post_def)
    obtain st where st: "(if err \<noteq> None then Revert (cstate w1) else Some (cstate w1)) = Some st"
        "world_ok env (w1\<lparr>cstate := st\<rparr>)" "below (Snapshot (cstate w)) st" "knows_more (cstate w) st"
        "total_funds (vview env (w1\<lparr>cstate := st\<rparr>)) \<le> total_funds (vview env w)"
      using revert_ok [OF w ok1(1,2)] ok1 by (cases "err = None") auto
    have cl: "clear_after (Inr (rval, err) :: panic + bytes \<times> actorError option,
        p\<lparr>numActorsCreated := numActorsCreated subrt\<rparr>, w1\<lparr>cstate := st\<rparr>) = (r, s')"
      using s(2) rt c p(1) Inr x st(1) by (simp add: internalSend_def)
    have "r = Inr (rval, err)" "fst s' = p\<lparr>numActorsCreated := numActorsCreated subrt\<rparr>"
        "world_ok env (snd s')" "wstep env w (snd s')"
      using clear_after_ok [OF w st(2) _ _ st(5) cl] st(3,4) by simp_all
    then show ?thesis using fin [of "numActorsCreated subrt"] err by simp
  qed
qed

lemma rvalid_Send: "rvalid env k (\<lambda>_. True) (Send callee to method value params)"
  unfolding Send_def
  by (auto intro!: rvalid_then valid_get_rt rl.valid_Abortf rvalid_Receiver rl.valid_bnd [OF rvalid_internalSend]
      rl.valid_throw rl.valid_ret rvalid_charge_exec split: option.splits)

lemma rvalid_exec:
  "(nonneg_actors env \<longrightarrow> nonneg_prog env p) \<Longrightarrow> rvalid env k (\<lambda>_. True) (exec env callee p)"
proof (induction p)
  case (PDeleteActor b p)
  then show ?case by (auto intro!: rvalid_then rvalid_rtDeleteActor)
qed (auto intro!: rvalid_then rl.valid_ret rl.valid_Abortf rl.valid_throw valid_chargeGas rvalid_pricedSyscall
    rvalid_validation rvalid_Caller rvalid_Receiver valid_get_rt rvalid_CurrentBalance rvalid_GetActorCodeCID
    rvalid_ResolveAddress rvalid_NewActorAddress rvalid_CreateActor rvalid_Send rvalid_StoreGet rvalid_StorePut
    rvalid_commit_or_crash rvalid_StateReadonly rvalid_StateTransaction_begin rvalid_StateTransaction_end
    rvalid_randomness rvalid_TotalFilCircSupply simp: ChargeGas_def StateCreate_def)

abbreviation err_ok :: "bytes \<times> actorError option \<Rightarrow> bool" where
  "err_ok \<equiv> (\<lambda>(_, err). aerrs_ok err)"

lemma rvalid_shimCall:
  assumes "rvalid env k (\<lambda>_. True) f"
  shows "rvalid env k err_ok (shimCall env f)"
proof (rule validI)
  fix s r s'
  assume s: "rts_ok env s" "shimCall env f s = (r, s')"
  obtain r1 s1 where f: "f s = (r1, s1)" by (cases "f s")
  note f' = validD [OF assms s(1) f]
  have "s' = s1" "case r of Inl p \<Rightarrow> rpanic env k s p | Inr x \<Rightarrow> err_ok x"
    using s(2) f f'(3) by (auto simp: shimCall_def rpanic_def split: sum.splits panic.splits if_splits ret_val.splits prod.splits)
  then show "rts_ok env s' \<and> rstep env s s' \<and> (case r of Inl p \<Rightarrow> rpanic env k s p | Inr x \<Rightarrow> err_ok x)"
    using f' by simp
qed

lemma rvalid_Invoke: "rvalid env k err_ok (Invoke env callee act method params)"
proof -
  have "rvalid env k err_ok (shimCall env (exec env callee p))"
    if "areg env code = Some ai" "methods ai m = Some decode" "decode params = Some p" for code ai m decode p
    using that by (intro rvalid_shimCall rvalid_exec) (auto simp: nonneg_actors_def)
  then show ?thesis
    unfolding Invoke_def by (auto intro!: rl.valid_ret split: option.splits)
qed

lemma rvalid_makeAccountActor:
  "rvalid env k (\<lambda>r. (\<forall>e. r = Inl e \<longrightarrow> aerr_ok e) \<and> (\<forall>act. r = Inr act \<longrightarrow> Balance act = 0)) (makeAccountActor env' av a)"
  unfolding makeAccountActor_def newAccountActor_def
  by (auto intro!: rl.valid_ret rl.valid_throw rl.valid_bnd [where P = "\<lambda>act. Balance act = 0"] split: address.splits)

definition try_ok :: "actorError + Actor \<times> address \<Rightarrow> bool" where
  "try_ok r \<longleftrightarrow> (\<forall>e. r = Inl e \<longrightarrow> aerr_ok e)"

lemma Wrap_ok: "aerrs_ok err \<Longrightarrow> Wrap err = Some e \<Longrightarrow> aerr_ok e"
  using aerr_ok_intros(6) [of err] by simp

lemma rvalid_TryCreate_construct:
  assumes "Balance act = 0"
  shows "rvalid env k try_ok (TryCreate_construct env callee a i act)"
proof -
  have "rvalid env k try_ok (case (rval, aerr) of (rval, aerr) \<Rightarrow> case Wrap aerr of
      Some e \<Rightarrow> ret (Inl e)
    | None \<Rightarrow> bnd (rt_tree (\<lambda>st. GetActor (tree env) st i)) (\<lambda>r. case r of
        Inl e \<Rightarrow> ret (Inl FatalErr) | Inr act \<Rightarrow> ret (Inr (act, i))))" if "aerrs_ok aerr" for rval :: bytes and aerr
    using that by (auto intro!: rl.valid_ret rvalid_then [OF valid_rt_tree_read(2)] Wrap_ok simp: try_ok_def
        split: sum.splits option.splits)
  then show ?thesis
    unfolding TryCreate_construct_def using assms
    by (auto intro!: rvalid_then [OF valid_rt_tree_read(5)] rl.valid_ret rl.valid_bnd [OF rvalid_internalSend]
        simp: try_ok_def split: sum.splits)
qed

lemma rvalid_TryCreateAccountActor: "rvalid env k try_ok (TryCreateAccountActor env callee a)"
  unfolding TryCreateAccountActor_def
  by (rule rl.valid_bnd [OF valid_chargeGasSafe])
    (auto intro!: rl.valid_ret rvalid_then valid_rt_tree_read rl.valid_bnd [OF rvalid_makeAccountActor]
      rvalid_TryCreate_construct simp: try_ok_def split: option.splits sum.splits)

lemma charge_zero_step: "rts_ok env s \<Longrightarrow> rts_ok env (snd (chargeGasSafe (newGasCharge name 0 0) s))
    \<and> rstep env s (snd (chargeGasSafe (newGasCharge name 0 0) s))"
  using valid_chargeGasSafe [of env "newGasCharge name 0 0"] unfolding valid_def by (cases s) simp

lemma rvalid_send_run: "rvalid env k err_ok (send_run env callee msg act)"
proof -
  have t: "rvalid env k aerrs_ok (if v \<noteq> 0 then rt_world (transfer env a b v nv) else ret None)" for v a b nv
    by (auto intro: valid_rt_transfer rl.valid_ret)
  have i: "rvalid env k err_ok (bnd (chargeGasSafe gasOnActorExec) (\<lambda>_. Invoke env callee act mt ps))" for mt ps
    by (rule rl.valid_bnd [OF valid_chargeGasSafe]) (auto intro: rvalid_Invoke)
  have m: "rvalid env k err_ok (bnd (if v \<noteq> 0 then rt_world (transfer env a b v nv) else ret None) (\<lambda>err.
      if err \<noteq> None then ret ([], Wrap err)
      else if Method msg \<noteq> 0 then
        bnd (chargeGasSafe gasOnActorExec) (\<lambda>_. Invoke env callee act (Method msg) (Params msg))
      else ret ([], None)))" for v a b nv
    by (rule rl.valid_bnd [OF t]) (auto intro!: rl.valid_ret i)
  show ?thesis
  proof (cases "Value msg")
    case None
    then show ?thesis by (simp add: send_run_def rl.valid_throw)
  next
    case (Some v)
    show ?thesis
      unfolding send_run_def Some option.case
      by (intro rl.valid_bnd [OF valid_chargeGasSafe] valid_if rl.valid_ret rl.valid_afterwards m)
        (simp_all add: charge_zero_step)
  qed
qed

lemma rvalid_set_receiver: "rvalid env k (\<lambda>_. True) (set_receiver env a)"
  unfolding set_receiver_def by (auto intro!: rl.valid_ret rvalid_then rvalid_Caller valid_upd_rt)

lemma rvalid_send_body:
  assumes "\<And>g. nonneg_actors env \<Longrightarrow> gasCharge = Some g \<Longrightarrow> 0 \<le> Total g"
  shows "rvalid env k err_ok (send_body env callee msg gasCharge)"
proof -
  have g: "rvalid env k aerrs_ok (case gasCharge of None \<Rightarrow> ret None | Some g \<Rightarrow> chargeGasSafe g)"
    using assms by (auto intro!: rl.valid_ret valid_chargeGasSafe split: option.splits)
  have "rvalid env k err_ok (bnd (TryCreateAccountActor env callee a) (\<lambda>r. case r of
      Inl aerr \<Rightarrow> ret ([], Wrap (Some aerr))
    | Inr (a, aid) \<Rightarrow> bnd (set_receiver env aid) (\<lambda>_. send_run env callee msg a)))" for a
    by (rule rl.valid_bnd [OF rvalid_TryCreateAccountActor])
      (auto intro!: rl.valid_ret rvalid_then rvalid_set_receiver rvalid_send_run simp: try_ok_def split: sum.splits)
  then have "rvalid env k err_ok (bnd (rt_tree (\<lambda>st. GetActor (tree env) st (To msg))) (\<lambda>r. case r of
      Inr toActor \<Rightarrow> send_run env callee msg toActor
    | Inl e \<Rightarrow> if e = ErrActorNotFound then
        bnd (TryCreateAccountActor env callee (To msg)) (\<lambda>r. case r of
          Inl aerr \<Rightarrow> ret ([], Wrap (Some aerr))
        | Inr (a, aid) \<Rightarrow> bnd (set_receiver env aid) (\<lambda>_. send_run env callee msg a))
        else ret ([], Some FatalErr)))"
    by (intro rvalid_then [OF valid_rt_tree_read(2)]) (auto intro!: rl.valid_ret rvalid_send_run split: sum.splits)
  then show ?thesis
    unfolding send_body_def
    by (intro rl.valid_bnd [OF g]) (auto intro!: rl.valid_ret rl.valid_bnd [OF valid_chargeGasSafe])
qed

end

subsection \<open>The runtime of a call\<close>

lemma ResolveAddress_step:
  assumes "world_ok env w" and "ResolveAddress env a (rt, w) = (r, s')"
  shows "fst s' = rt \<and> world_ok env (snd s') \<and> wstep env w (snd s')
    \<and> (case r of Inl p \<Rightarrow> panic_ok p \<and> p \<noteq> NoFuel | Inr _ \<Rightarrow> True)"
proof -
  have "post (on_tree (\<lambda>st. LookupID (tree env) st a)) w (\<lambda>r w'. \<exists>x. r = Inr x \<and> world_ok env w' \<and> wstep env w w')"
    by (rule post_mono [OF post_LookupID [OF assms(1)]]) (use wreads_step in blast)
  then obtain x w1 where "on_tree (\<lambda>st. LookupID (tree env) st a) w = (Inr x, w1)" "world_ok env w1" "wstep env w w1"
    by (auto simp: post_def) (metis prod.collapse)
  then show ?thesis
    using assms(2) by (auto simp: ResolveAddress_def bnd_def rt_tree_def rt_world_def ret_def throw_def
        split: sum.splits if_splits)
qed

lemma newRuntime_simps [simp]:
  "gasAvailable (newRuntime env msg parent) = GasLimit msg"
  "gasUsed (newRuntime env msg parent) = (case parent of None \<Rightarrow> 0 | Some p \<Rightarrow> gasUsed p)"
  "rtDepth (newRuntime env msg parent) = call_depth parent"
  by (simp_all add: newRuntime_def call_depth_def Let_def split: option.splits)

lemma makeRuntime_ok:
  assumes "world_ok env w" and "makeRuntime env msg parent w = (r, w')"
  shows "world_ok env w' \<and> wstep env w w'
    \<and> (case r of Inl p \<Rightarrow> panic_ok p \<and> p \<noteq> NoFuel
        | Inr rt \<Rightarrow> gasAvailable rt = GasLimit msg
            \<and> gasUsed rt = (case parent of None \<Rightarrow> 0 | Some p \<Rightarrow> gasUsed p)
            \<and> rtDepth rt = call_depth parent
            \<and> (6 \<le> networkVersion env \<longrightarrow> rtDepth rt \<le> MaxCallDepth))"
proof -
  let ?rt = "newRuntime env msg parent"
  obtain r1 w1 where r1: "ResolveAddress env (From msg) (?rt, w) = (r1, (?rt, w1))" "world_ok env w1" "wstep env w w1"
      "case r1 of Inl p \<Rightarrow> panic_ok p \<and> p \<noteq> NoFuel | Inr _ \<Rightarrow> True"
    using ResolveAddress_step [OF assms(1)] by (metis prod.collapse)
  obtain r2 w2 where r2: "ResolveAddress env (To msg) (?rt, w1) = (r2, (?rt, w2))" "world_ok env w2" "wstep env w w2"
      "case r2 of Inl p \<Rightarrow> panic_ok p \<and> p \<noteq> NoFuel | Inr _ \<Rightarrow> True"
    using ResolveAddress_step [OF r1(2)] wstep_trans [OF r1(3)] by (metis prod.collapse)
  show ?thesis
    using assms r1 r2 unfolding makeRuntime_def
    by (auto simp: wstep_refl split: if_splits sum.splits option.splits)
qed

subsection \<open>Sends\<close>

lemma gas_start_in:
  assumes "gas_start msg parent" and "gasAvailable rt = GasLimit msg"
    and "gasUsed rt = (case parent of None \<Rightarrow> 0 | Some p \<Rightarrow> gasUsed p)"
  shows "gas_in rt"
  using assms by (cases parent) (auto simp: gas_start_def gas_in_def)

context nested_calls
begin

lemma send_with_post:
  assumes "call_pre env parent gasCharge w"
  shows "call_post env (Suc k) msg parent w (send_with env callee msg parent gasCharge w)"
proof -
  have pre: "world_ok env w" "\<And>g. nonneg_actors env \<Longrightarrow> gasCharge = Some g \<Longrightarrow> 0 \<le> Total g"
    using assms by (auto simp: call_pre_def)
  obtain r1 w1 where m: "makeRuntime env msg parent w = (r1, w1)" by (cases "makeRuntime env msg parent w")
  note m' = makeRuntime_ok [OF pre(1) m]
  show ?thesis
  proof (cases r1)
    case (Inl p)
    then show ?thesis
      using m m' by (auto simp: send_with_def call_post_def gas_start_def)
  next
    case (Inr rt)
    obtain r2 rt2 w2 where b: "send_body env callee msg gasCharge (rt, w1) = (r2, (rt2, w2))" by (metis prod_cases3)
    have "rts_ok env (rt, w1)" using m' Inr by (auto simp: rts_ok_def)
    note v = validD [OF rvalid_send_body [OF pre(2)] this b]
    have gas: "nonneg_actors env \<and> gas_start msg parent \<longrightarrow> gas_in rt2 \<and> gasAvailable rt2 = GasLimit msg"
      using v(2) m' Inr gas_start_in by (auto simp: rstep_def)
    have "gas_in (p\<lparr>gasUsed := gasUsed rt2\<rparr>)" if "nonneg_actors env" "gas_start msg parent" "parent = Some p" for p
      using that gas by (auto simp: gas_start_def gas_in_def)
    moreover have "wstep env w w2" using v(2) m' wstep_trans by (fastforce simp: rstep_def)
    ultimately show ?thesis
      using m Inr b v m' gas
      by (auto simp: send_with_def call_post_def rts_ok_def rpanic_def split: sum.splits)
  qed
qed

lemma send_with_nested: "nested_calls env (send_with env callee) (Suc k)"
  by unfold_locales (rule send_with_post)

end

lemma send_nested: "nested_calls env (send env k) k"
proof (induction k)
  case 0
  show ?case
    by unfold_locales (auto simp: call_pre_def call_post_def wstep_refl gas_start_def)
next
  case (Suc k)
  then show ?case using nested_calls.send_with_nested by simp
qed

interpretation sends: nested_calls env "send env k" k for env :: "'h vm_env" and k
  by (rule send_nested)

end
