(* ===== verification/VM_Apply.thy ===== *)
theory VM_Apply
  imports VM_Safety
begin

section \<open>Applying messages\<close>

text \<open>
  Models the entry points of \<open>LegacyVM\<close> in \<open>src/chain/vm/vm.go\<close>: \<open>ApplyMessage\<close> with its checks, the
  gas holder, the snapshot around \<open>send\<close>, the settlement of the gas, and \<open>ApplyImplicitMessage\<close>.
  The lemmas say what a message does to the actors as a whole: what a rejected and a failing message
  leave behind, that no message mints funds, and that the gas of a valid message always adds up.
\<close>

subsection \<open>Receipts and errors\<close>

record ApplyRet =
  ExitCode :: int
  Return :: bytes
  GasUsed :: int
  ActorErr :: "actorError option"
  GasCosts :: "GasOutputs option"

datatype check_error = NoGasLimit | NegativeGasLimit | FeeCapNotSet | PremiumNotSet | ValueNotSet

text \<open>The errors that \<open>ApplyMessage\<close> returns instead of a receipt.\<close>

datatype apply_error =
    ErrCheck check_error
  | ErrLookupFrom st_error
  | ErrWithdrawGas st_error
  | ErrNonce st_error
  | ErrFatalSend
  | ErrReturnWithError
  | ErrShouldBurn st_error
  | ErrBurnBaseFee st_error
  | ErrMinerReward st_error
  | ErrBurnOverestimation st_error
  | ErrRefundGas st_error
  | ErrGasMath

definition checkMessage :: "Message \<Rightarrow> check_error option" where
  "checkMessage msg =
     (if GasLimit msg = 0 then Some NoGasLimit
      else if GasLimit msg < 0 then Some NegativeGasLimit
      else if GasFeeCap msg = None then Some FeeCapNotSet
      else if GasPremium msg = None then Some PremiumNotSet
      else if Value msg = None then Some ValueNotSet
      else None)"

subsection \<open>The nonce and the gas holder\<close>

definition incrementNonce :: "'h vm_env \<Rightarrow> address \<Rightarrow> (st_error + unit, 'h World) cmd" where
  "incrementNonce env addr =
     on_tree (\<lambda>st. MutateActor (tree env) st addr (\<lambda>a. Inr (a\<lparr>Nonce := wrapu64 (Nonce a + 1)\<rparr>)))"

text \<open>The gas holder is an actor of which only the balance matters; it is returned updated.\<close>

definition transferToGasHolder ::
  "'h vm_env \<Rightarrow> address \<Rightarrow> token \<Rightarrow> token \<Rightarrow> (st_error + token, 'h World) cmd"
where
  "transferToGasHolder env addr gasHolder amt =
     (if amt < 0 then ret (Inl (ErrOther ''attempted to transfer negative value to gas holder''))
      else
        bnd (on_tree (\<lambda>st. MutateActor (tree env) st addr (\<lambda>a.
               case deductFunds a amt of None \<Rightarrow> Inl (ErrOther ''not enough funds'') | Some a \<Rightarrow> Inr a)))
          (\<lambda>r. ret (map_sum id (\<lambda>_. gasHolder + amt) r)))"

definition transferFromGasHolder ::
  "'h vm_env \<Rightarrow> address \<Rightarrow> token \<Rightarrow> token \<Rightarrow> (st_error + token, 'h World) cmd"
where
  "transferFromGasHolder env addr gasHolder amt =
     (if amt < 0 then ret (Inl (ErrOther ''attempted to transfer negative value from gas holder''))
      else if amt = 0 then ret (Inr gasHolder)
      else
        bnd (on_tree (\<lambda>st. MutateActor (tree env) st addr (\<lambda>a.
               if gasHolder < amt then Inl (ErrOther ''not enough funds'') else Inr (depositFunds a amt))))
          (\<lambda>r. ret (map_sum id (\<lambda>_. gasHolder - amt) r)))"

definition ShouldBurn :: "'h vm_env \<Rightarrow> Message \<Rightarrow> int \<Rightarrow> (st_error + bool, 'h World) cmd" where
  "ShouldBurn env msg errcode =
     (if networkVersion env \<le> 12 then
        if UpgradeClausHeight env < blockHeight env \<and> errcode = 0 \<and> Method msg = MethodSubmitWindowedPoSt then
          bnd (on_tree (\<lambda>st. GetActor (tree env) st (To msg))) (\<lambda>r. case r of
            Inl e \<Rightarrow> if e \<noteq> ErrActorNotFound then ret (Inl e) else ret (Inr True)
          | Inr toActor \<Rightarrow> if IsStorageMinerActor env (Code toActor) then ret (Inr False) else ret (Inr True))
        else ret (Inr True)
      else ret (Inr True))"

subsection \<open>Applying a message\<close>

text \<open>A step whose error ends \<open>ApplyMessage\<close>.\<close>

definition or_return ::
  "('e + 'a, 's) cmd \<Rightarrow> ('e \<Rightarrow> apply_error) \<Rightarrow> ('a \<Rightarrow> (apply_error + 'b, 's) cmd) \<Rightarrow> (apply_error + 'b, 's) cmd"
where
  "or_return m err k = bnd m (\<lambda>r. case r of Inl e \<Rightarrow> ret (Inl (err e)) | Inr x \<Rightarrow> k x)"

text \<open>The settlement of the gas, after the message has run and its failure has been reverted.\<close>

definition ApplyMessage_settle ::
  "'h vm_env \<Rightarrow> Message \<Rightarrow> token \<Rightarrow> token \<Rightarrow> token \<Rightarrow> bytes \<Rightarrow> actorError option \<Rightarrow> int \<Rightarrow>
    (apply_error + ApplyRet, 'h World) cmd"
where
  "ApplyMessage_settle env msg feeCap premium gasHolder rval actorErr rtGasUsed =
     (let errcode = RetCode actorErr;
          gasUsed = (if rtGasUsed < 0 then 0 else rtGasUsed)
      in
      or_return (ShouldBurn env msg errcode) ErrShouldBurn (\<lambda>burn.
      let gasOutputs = ComputeGasOutputs gasUsed (GasLimit msg) (baseFee env) feeCap premium burn in
      or_return (transferFromGasHolder env BurntFundsActorAddr gasHolder (BaseFeeBurn gasOutputs)) ErrBurnBaseFee (\<lambda>gasHolder.
      or_return (transferFromGasHolder env RewardAddress gasHolder (MinerTip gasOutputs)) ErrMinerReward (\<lambda>gasHolder.
      or_return (transferFromGasHolder env BurntFundsActorAddr gasHolder (OverEstimationBurn gasOutputs)) ErrBurnOverestimation (\<lambda>gasHolder.
      or_return (transferFromGasHolder env (From msg) gasHolder (Refund gasOutputs)) ErrRefundGas (\<lambda>gasHolder.
      if gasHolder \<noteq> 0 then ret (Inl ErrGasMath)
      else
        ret (Inr \<lparr>ExitCode = errcode, Return = rval, GasUsed = gasUsed, ActorErr = actorErr,
                   GasCosts = Some gasOutputs\<rparr>)))))))"

text \<open>The charge for the bytes a message returns; a message that cannot pay for them fails.\<close>

definition charge_return ::
  "'h vm_env \<Rightarrow> bytes \<Rightarrow> actorError option \<Rightarrow> (bytes \<times> actorError option, 'h rts) cmd"
where
  "charge_return env rval actorErr =
     (if rval \<noteq> [] then
        bnd (chargeGasSafe (OnChainReturnValue (vm_pricelist env) (int (length rval)))) (\<lambda>err.
          ret (if err \<noteq> None then [] else rval, err))
      else ret (rval, actorErr))"

text \<open>The run of the message, above the snapshot.\<close>

definition ApplyMessage_exec ::
  "'h vm_env \<Rightarrow> nat \<Rightarrow> Message \<Rightarrow> token \<Rightarrow> token \<Rightarrow> token \<Rightarrow> GasCharge \<Rightarrow> (apply_error + ApplyRet, 'h World) cmd"
where
  "ApplyMessage_exec env fuel msg feeCap premium gasHolder msgGas w =
     (case send env fuel msg None (Some msgGas) w of
        (Inl p, _, w) \<Rightarrow> (Inl p, w)
      | (Inr (rval, actorErr, rt), _, w) \<Rightarrow>
          if IsFatal actorErr then (Inr (Inl ErrFatalSend), w)
          else if actorErr \<noteq> None \<and> rval \<noteq> [] then (Inr (Inl ErrReturnWithError), w)
          else
            (case charge_return env rval actorErr (rt, w) of
               (Inl p, (rt, w)) \<Rightarrow> (Inl p, w)
             | (Inr (rval, actorErr), (rt, w)) \<Rightarrow>
                 (case (if RetCode actorErr \<noteq> 0 then Revert (cstate w) else Some (cstate w)) of
                    None \<Rightarrow> (Inl PanicOther, w)
                  | Some st \<Rightarrow>
                      ApplyMessage_settle env msg feeCap premium gasHolder rval actorErr (gasUsed rt)
                        (w\<lparr>cstate := st\<rparr>))))"

text \<open>The deferred \<open>ClearSnapshot\<close>, after a return and after a panic.\<close>

definition with_snapshot :: "('a, 'h World) cmd \<Rightarrow> ('a, 'h World) cmd" where
  "with_snapshot m w =
     (case m (w\<lparr>cstate := Snapshot (cstate w)\<rparr>) of
        (r, w) \<Rightarrow>
          (case ClearSnapshot (cstate w) of
             None \<Rightarrow> (Inl PanicOther, w)
           | Some st \<Rightarrow> (r, w\<lparr>cstate := st\<rparr>)))"

text \<open>The receipt of a message that is not executed: nothing but a penalty for the miner.\<close>

definition rejected :: "int \<Rightarrow> token \<Rightarrow> ApplyRet" where
  "rejected code penalty =
     \<lparr>ExitCode = code, Return = [], GasUsed = 0, ActorErr = Some (NewErr code),
      GasCosts = Some (ZeroGasOutputs\<lparr>MinerPenalty := penalty\<rparr>)\<rparr>"

text \<open>From the withdrawal of the gas on, for a message that passed the checks.\<close>

definition ApplyMessage_run ::
  "'h vm_env \<Rightarrow> nat \<Rightarrow> Message \<Rightarrow> token \<Rightarrow> token \<Rightarrow> token \<Rightarrow> GasCharge \<Rightarrow> (apply_error + ApplyRet, 'h World) cmd"
where
  "ApplyMessage_run env fuel msg feeCap premium gascost msgGas =
     or_return (transferToGasHolder env (From msg) 0 gascost) ErrWithdrawGas (\<lambda>gasHolder.
     or_return (incrementNonce env (From msg)) ErrNonce (\<lambda>_.
       with_snapshot (ApplyMessage_exec env fuel msg feeCap premium gasHolder msgGas)))"

definition ApplyMessage ::
  "'h vm_env \<Rightarrow> nat \<Rightarrow> Message \<Rightarrow> int \<Rightarrow> (apply_error + ApplyRet, 'h World) cmd"
where
  "ApplyMessage env fuel msg chainLength =
     (case (checkMessage msg, GasFeeCap msg, GasPremium msg) of
        (None, Some feeCap, Some premium) \<Rightarrow>
          let msgGas = OnChainMessage (vm_pricelist env) chainLength;
              msgGasCost = Total msgGas;
              minerPenaltyAmount = baseFee env * GasLimit msg
          in
          if GasLimit msg < msgGasCost then ret (Inr (rejected SysErrOutOfGas (baseFee env * msgGasCost)))
          else
            bnd (on_tree (\<lambda>st. GetActor (tree env) st (From msg))) (\<lambda>r. case r of
              Inl e \<Rightarrow>
                if e = ErrActorNotFound then ret (Inr (rejected SysErrSenderInvalid minerPenaltyAmount))
                else ret (Inl (ErrLookupFrom e))
            | Inr fromActor \<Rightarrow>
                if \<not> IsAccountActor env (Code fromActor)
                then ret (Inr (rejected SysErrSenderInvalid minerPenaltyAmount))
                else if MsgNonce msg \<noteq> Nonce fromActor
                then ret (Inr (rejected SysErrSenderStateInvalid minerPenaltyAmount))
                else
                  let gascost = wrapu64 (GasLimit msg) * feeCap in
                  if Balance fromActor < gascost
                  then ret (Inr (rejected SysErrSenderStateInvalid minerPenaltyAmount))
                  else ApplyMessage_run env fuel msg feeCap premium gascost msgGas)
      | (Some e, _, _) \<Rightarrow> ret (Inl (ErrCheck e))
      | _ \<Rightarrow> throw PanicOther)"

text \<open>
  A message of the system itself: no nonce, no gas, and no snapshot. The receipt comes with the error
  of the actor, if any.
\<close>

definition ApplyImplicitMessage ::
  "'h vm_env \<Rightarrow> nat \<Rightarrow> Message \<Rightarrow> (ApplyRet \<times> actorError option, 'h World) cmd"
where
  "ApplyImplicitMessage env fuel msg w =
     (case send env fuel msg None None w of
        (Inl p, _, w) \<Rightarrow> (Inl p, w)
      | (Inr (rval, actorErr, rt), _, w) \<Rightarrow>
          (Inr (\<lparr>ExitCode = RetCode actorErr, Return = rval, GasUsed = 0, ActorErr = actorErr, GasCosts = None\<rparr>,
                actorErr), w))"

subsection \<open>Writes to one actor\<close>

text \<open>A step that changes one actor.\<close>

definition wrote :: "'h vm_env \<Rightarrow> 'h World \<Rightarrow> address \<Rightarrow> Actor \<Rightarrow> 'h World \<Rightarrow> bool" where
  "wrote env w i act w' \<longleftrightarrow> tree_ok (cstate w') \<and> ids_ok (snaps (cstate w')) \<and> below (cstate w) (cstate w')
     \<and> knows_more (cstate w) (cstate w') \<and> vview env w' = (vview env w)(i \<mapsto> act)"

lemma wrote_ok: "world_ok env w \<Longrightarrow> wrote env w i act w' \<Longrightarrow> 0 \<le> Balance act \<Longrightarrow> world_ok env w'"
  by (simp add: world_ok_def wrote_def)

lemma MutateActor_cases:
  assumes w: "world_ok env w" and f: "\<And>act. f act \<noteq> Inl PanicIndex"
  obtains e w' where "on_tree (\<lambda>st. MutateActor (tree env) st a f) w = (Inr (Inl e), w')" and "wreads env w w'"
  | i act act' w' where "on_tree (\<lambda>st. MutateActor (tree env) st a f) w = (Inr (Inr ()), w')"
      and "known (cstate w') a i" and "vview env w i = Some act" and "f act = Inr act'" and "wrote env w i act' w'"
proof -
  have ok: "tree_ok (cstate w)" "resolves_to_ids (tree env)" "ids_ok (snaps (cstate w))"
    using w by (simp_all add: world_ok_def)
  obtain r st where g: "GetActor (tree env) (cstate w) a = (r, st)" by fastforce
  note g' = GetActor_result [OF ok(1) g] GetActor_ids [OF ok(2,3) g]
  have rd: "wreads env w (w\<lparr>cstate := st\<rparr>)"
    using w g' by (simp add: wreads_def reads_def world_ok_def vview_def)
  show ?thesis
  proof (cases r)
    case (Inl e)
    then have "MutateActor (tree env) (cstate w) a f = (Inl e, st)" "e \<noteq> PanicIndex"
      using g g' by (simp_all add: MutateActor_def)
    then show ?thesis using rd by (intro that(1)) (simp_all add: on_tree_simps)
  next
    case (Inr act)
    show ?thesis
    proof (cases "f act")
      case inl: (Inl e)
      then have "MutateActor (tree env) (cstate w) a f = (Inl e, st)" "e \<noteq> PanicIndex"
        using g Inr f [of act] by (auto simp: MutateActor_def)
      then show ?thesis using rd by (intro that(1)) (simp_all add: on_tree_simps)
    next
      case inr: (Inr act')
      obtain i st2 where s: "SetActor (tree env) st a act' = (Inr (), st2)" "tree_ok st2" "below (cstate w) st2"
          "known st2 a i" "vview env w i = Some act" "view (tree env) st2 = (vview env w)(i \<mapsto> act')"
          "knows_more (cstate w) st2"
        using tree.read_modify_write [OF ok(1) g [unfolded Inr], of act'] unfolding vview_def knows_more_def by blast
      have "MutateActor (tree env) (cstate w) a f = (Inr (), st2)"
        using g Inr inr s(1) by (simp add: MutateActor_def)
      moreover have "wrote env w i act' (w\<lparr>cstate := st2\<rparr>)"
        using s SetActor_ids [OF ok(2) g'(2) s(1)] by (simp add: wrote_def vview_def)
      ultimately show ?thesis using s(4,5) inr by (intro that(2)) (auto simp: on_tree_simps)
    qed
  qed
qed

text \<open>The deposit of an amount, and the withdrawal of the gas with the step of the nonce.\<close>

definition credit :: "address \<Rightarrow> token \<Rightarrow> (address \<Rightarrow> Actor option) \<Rightarrow> address \<Rightarrow> Actor option" where
  "credit i amt m = m(i := map_option (\<lambda>a. a\<lparr>Balance := Balance a + amt\<rparr>) (m i))"

lemma credit_zero [simp]: "credit i 0 m = m"
  by (auto simp: credit_def fun_eq_iff option.map_ident)

lemma credit_some: "m i = Some act \<Longrightarrow> credit i amt m = m(i \<mapsto> depositFunds act amt)"
  by (simp add: credit_def depositFunds_def)

definition charged :: "token \<Rightarrow> Actor \<Rightarrow> Actor" where
  "charged gascost act = act\<lparr>Balance := Balance act - gascost, Nonce := wrapu64 (Nonce act + 1)\<rparr>"

text \<open>A step of the gas holder: the world stays in order and so do the layers below.\<close>

definition gstep :: "'h vm_env \<Rightarrow> 'h World \<Rightarrow> 'h World \<Rightarrow> bool" where
  "gstep env w w' \<longleftrightarrow> world_ok env w' \<and> below (cstate w) (cstate w') \<and> knows_more (cstate w) (cstate w')"

lemma gstep_refl: "world_ok env w \<Longrightarrow> gstep env w w"
  by (simp add: gstep_def)

lemma gstep_trans: "gstep env u v \<Longrightarrow> gstep env v w \<Longrightarrow> gstep env u w"
  unfolding gstep_def using below_trans knows_more_trans by metis

lemma wreads_gstep: "wreads env w w' \<Longrightarrow> gstep env w w'"
  by (simp add: wreads_def gstep_def)

lemma wrote_gstep: "world_ok env w \<Longrightarrow> wrote env w i act w' \<Longrightarrow> 0 \<le> Balance act \<Longrightarrow> gstep env w w'"
  using wrote_ok by (simp add: gstep_def wrote_def)

lemma transferToGasHolder_result:
  assumes "world_ok env w"
  obtains e w' where "transferToGasHolder env a gh amt w = (Inr (Inl e), w')" and "gstep env w w'"
  | i act w' where "transferToGasHolder env a gh amt w = (Inr (Inr (gh + amt)), w')" and "gstep env w w'"
      and "known (cstate w') a i" and "vview env w i = Some act" and "0 \<le> amt" and "amt \<le> Balance act"
      and "vview env w' = (vview env w)(i \<mapsto> act\<lparr>Balance := Balance act - amt\<rparr>)"
proof (cases "amt < 0")
  case True
  then show ?thesis using assms by (intro that(1)) (auto simp: transferToGasHolder_def ret_def gstep_refl)
next
  case False
  let ?f = "\<lambda>act. case deductFunds act amt of None \<Rightarrow> Inl (ErrOther ''not enough funds'') | Some a \<Rightarrow> Inr a"
  have "?f act \<noteq> Inl PanicIndex" for act by (simp split: option.splits)
  then show ?thesis
  proof (rule MutateActor_cases [OF assms])
    fix e w'
    assume "on_tree (\<lambda>st. MutateActor (tree env) st a ?f) w = (Inr (Inl e), w')" "wreads env w w'"
    then show ?thesis
      using False by (intro that(1)) (simp add: transferToGasHolder_def bnd_def ret_def, rule wreads_gstep)
  next
    fix i act act' w'
    assume m: "on_tree (\<lambda>st. MutateActor (tree env) st a ?f) w = (Inr (Inr ()), w')" "known (cstate w') a i"
        "vview env w i = Some act" "?f act = Inr act'" "wrote env w i act' w'"
    then have "amt \<le> Balance act" "act' = act\<lparr>Balance := Balance act - amt\<rparr>"
      by (auto simp: deductFunds_def split: if_splits)
    then show ?thesis
      using False m wrote_gstep [OF assms m(5)]
      by (intro that(2)) (auto simp: transferToGasHolder_def bnd_def ret_def wrote_def)
  qed
qed

lemma transferFromGasHolder_result:
  assumes w: "world_ok env w" and k: "known (cstate w) a i"
  obtains e w' where "transferFromGasHolder env a gh amt w = (Inr (Inl e), w')" and "gstep env w w'"
  | w' where "transferFromGasHolder env a gh amt w = (Inr (Inr (gh - amt)), w')" and "gstep env w w'"
      and "0 \<le> amt" and "vview env w' = credit i amt (vview env w)"
      and "total_funds (vview env w') = total_funds (vview env w) + amt"
proof (cases "0 < amt")
  case False
  then show ?thesis
    using w by (cases "amt = 0") (auto intro: that simp: transferFromGasHolder_def ret_def gstep_refl)
next
  case True
  let ?f = "\<lambda>act. if gh < amt then Inl (ErrOther ''not enough funds'') else Inr (depositFunds act amt)"
  have "?f act \<noteq> Inl PanicIndex" for act by simp
  then show ?thesis
  proof (rule MutateActor_cases [OF w])
    fix e w'
    assume "on_tree (\<lambda>st. MutateActor (tree env) st a ?f) w = (Inr (Inl e), w')" "wreads env w w'"
    then show ?thesis
      using True by (intro that(1)) (simp add: transferFromGasHolder_def bnd_def ret_def, rule wreads_gstep)
  next
    fix j act act' w'
    assume m: "on_tree (\<lambda>st. MutateActor (tree env) st a ?f) w = (Inr (Inr ()), w')" "known (cstate w') a j"
        "vview env w j = Some act" "?f act = Inr act'" "wrote env w j act' w'"
    have "known (cstate w') a i" using m(5) k by (simp add: wrote_def knows_more_def)
    then have [simp]: "j = i" using m(2) known_fun by blast
    have act': "act' = depositFunds act amt" using m(4) by (simp split: if_splits)
    have f: "funds_ok (vview env w)" using w by (simp add: world_ok_def)
    have "0 \<le> Balance act'" using balance_nonneg [OF f m(3)] True act' by (simp add: depositFunds_def)
    then have "gstep env w w'" by (rule wrote_gstep [OF w m(5)])
    moreover have "total_funds (vview env w') = total_funds (vview env w) + amt"
      using f m(3,5) act' by (simp add: wrote_def depositFunds_def)
    moreover have "transferFromGasHolder env a gh amt w = (Inr (Inr (gh - amt)), w')"
      using True m(1) by (simp add: transferFromGasHolder_def bnd_def ret_def)
    ultimately show ?thesis using m(3,5) act' True by (intro that(2)) (auto simp: credit_some wrote_def)
  qed
qed

lemma incrementNonce_result:
  assumes w: "world_ok env w" and k: "known (cstate w) a i"
  obtains e w' where "incrementNonce env a w = (Inr (Inl e), w')" and "gstep env w w'"
  | act w' where "incrementNonce env a w = (Inr (Inr ()), w')" and "gstep env w w'" and "vview env w i = Some act"
      and "vview env w' = (vview env w)(i \<mapsto> act\<lparr>Nonce := wrapu64 (Nonce act + 1)\<rparr>)"
proof (rule MutateActor_cases [OF w])
  fix e w'
  assume "on_tree (\<lambda>st. MutateActor (tree env) st a (\<lambda>a. Inr (a\<lparr>Nonce := wrapu64 (Nonce a + 1)\<rparr>))) w = (Inr (Inl e), w')"
    "wreads env w w'"
  then show ?thesis by (intro that(1)) (simp add: incrementNonce_def, rule wreads_gstep)
next
  fix j act act' w'
  assume m: "on_tree (\<lambda>st. MutateActor (tree env) st a (\<lambda>a. Inr (a\<lparr>Nonce := wrapu64 (Nonce a + 1)\<rparr>))) w = (Inr (Inr ()), w')"
      "known (cstate w') a j" "vview env w j = Some act" "Inr (act\<lparr>Nonce := wrapu64 (Nonce act + 1)\<rparr>) = Inr act'"
      "wrote env w j act' w'"
  have "known (cstate w') a i" using m(5) k by (simp add: wrote_def knows_more_def)
  then have [simp]: "j = i" using m(2) known_fun by blast
  have "funds_ok (vview env w)" using w by (simp add: world_ok_def)
  then have "gstep env w w'" using wrote_gstep [OF w m(5)] balance_nonneg m(3,4) by fastforce
  then show ?thesis using m by (intro that(2)) (auto simp: incrementNonce_def wrote_def)
qed simp

subsection \<open>Settling the gas\<close>

definition outcome :: "('a, 's) cmd \<Rightarrow> 's \<Rightarrow> ('a \<Rightarrow> 's \<Rightarrow> bool) \<Rightarrow> bool" where
  "outcome m w P \<longleftrightarrow> (\<exists>x w'. m w = (Inr x, w') \<and> P x w')"

lemma outcome_ret [simp]: "outcome (ret x) w P = P x w"
  by (simp add: outcome_def ret_def)

lemma outcome_or_return:
  "m w = (Inr (Inl e), w') \<Longrightarrow> P (Inl (err e)) w' \<Longrightarrow> outcome (or_return m err k) w P"
  "m w = (Inr (Inr x), w') \<Longrightarrow> outcome (k x) w' P \<Longrightarrow> outcome (or_return m err k) w P"
  by (simp_all add: outcome_def or_return_def bnd_def ret_def)

lemma outcome_pay:
  assumes w: "world_ok env w" and k: "known (cstate w) a i"
    and fail: "\<And>e w'. gstep env w w' \<Longrightarrow> P (Inl (err e)) w'"
    and pay: "\<And>w'. gstep env w w' \<Longrightarrow> 0 \<le> amt \<Longrightarrow> vview env w' = credit i amt (vview env w) \<Longrightarrow>
      total_funds (vview env w') = total_funds (vview env w) + amt \<Longrightarrow> outcome (next (gh - amt)) w' P"
  shows "outcome (or_return (transferFromGasHolder env a gh amt) err next) w P"
proof (rule transferFromGasHolder_result [OF w k, of gh amt])
  fix e w'
  assume "transferFromGasHolder env a gh amt w = (Inr (Inl e), w')" "gstep env w w'"
  then show ?thesis by (intro outcome_or_return(1)) (simp, rule fail)
next
  fix w'
  assume "transferFromGasHolder env a gh amt w = (Inr (Inr (gh - amt)), w')" "gstep env w w'" "0 \<le> amt"
    "vview env w' = credit i amt (vview env w)" "total_funds (vview env w') = total_funds (vview env w) + amt"
  then show ?thesis by (intro outcome_or_return(2)) (simp, rule pay)
qed

lemma ShouldBurn_result:
  assumes "world_ok env w"
  obtains e w' where "ShouldBurn env msg errcode w = (Inr (Inl e), w')" and "wreads env w w'"
  | b w' where "ShouldBurn env msg errcode w = (Inr (Inr b), w')" and "wreads env w w'"
proof -
  obtain x w1 where g: "on_tree (\<lambda>st. GetActor (tree env) st (To msg)) w = (Inr x, w1)" "wreads env w w1"
    using post_GetActor [OF assms, of "To msg"] unfolding post_def by (metis prod.collapse)
  have "wreads env w w" using assms by (rule wreads_refl)
  moreover have "(\<exists>e. ShouldBurn env msg errcode w = (Inr (Inl e), w1)) \<or> (\<exists>b. ShouldBurn env msg errcode w = (Inr (Inr b), w1))
      \<or> ShouldBurn env msg errcode w = (Inr (Inr True), w)"
    using g(1) by (auto simp: ShouldBurn_def bnd_def ret_def split: sum.splits if_splits)
  ultimately show ?thesis using g(2) that by blast
qed

text \<open>The deposits of the settlement, in the order in which they are made.\<close>

definition settled :: "address \<Rightarrow> GasOutputs \<Rightarrow> (address \<Rightarrow> Actor option) \<Rightarrow> address \<Rightarrow> Actor option" where
  "settled i out m =
     credit i (Refund out) (credit BurntFundsActorAddr (OverEstimationBurn out)
       (credit RewardAddress (MinerTip out) (credit BurntFundsActorAddr (BaseFeeBurn out) m)))"

definition paid :: "GasOutputs \<Rightarrow> token" where
  "paid out = BaseFeeBurn out + MinerTip out + OverEstimationBurn out + Refund out"

definition settle_post ::
  "'h vm_env \<Rightarrow> 'h World \<Rightarrow> address \<Rightarrow> (bool \<Rightarrow> GasOutputs) \<Rightarrow> token \<Rightarrow> (GasOutputs \<Rightarrow> ApplyRet) \<Rightarrow>
    apply_error + ApplyRet \<Rightarrow> 'h World \<Rightarrow> bool"
where
  "settle_post env w i outs gasHolder receipt x w' \<longleftrightarrow> gstep env w w'
     \<and> (case x of
          Inl e \<Rightarrow> e = ErrGasMath \<longrightarrow> (\<exists>burn. paid (outs burn) \<noteq> gasHolder)
        | Inr r \<Rightarrow> \<exists>burn. r = receipt (outs burn) \<and> vview env w' = settled i (outs burn) (vview env w)
            \<and> total_funds (vview env w') = total_funds (vview env w) + gasHolder)"

lemma gstep_ok: "gstep env w w' \<Longrightarrow> world_ok env w'"
  by (simp add: gstep_def)

lemma gstep_known: "gstep env w w' \<Longrightarrow> known (cstate w) a i \<Longrightarrow> known (cstate w') a i"
  by (simp add: gstep_def knows_more_def)

lemma known_system [simp]:
  "known st BurntFundsActorAddr BurntFundsActorAddr" "known st RewardAddress RewardAddress"
  by (simp_all add: known_def BurntFundsActorAddr_def RewardAddress_def)

lemma max_gas: "(if g < 0 then 0 else g) = max 0 (g :: int)"
  by simp

lemma settle_result:
  assumes w: "world_ok env w" and k: "known (cstate w) (From msg) i"
  shows "outcome (ApplyMessage_settle env msg feeCap premium gasHolder rval actorErr used) w
    (settle_post env w i (\<lambda>burn. ComputeGasOutputs (max 0 used) (GasLimit msg) (baseFee env) feeCap premium burn) gasHolder
      (\<lambda>out. \<lparr>ExitCode = RetCode actorErr, Return = rval, GasUsed = max 0 used, ActorErr = actorErr, GasCosts = Some out\<rparr>))"
    (is "outcome _ _ ?P")
proof -
  have fail: "?P (Inl e) w'" if "gstep env w w'" "e \<noteq> ErrGasMath" for e w'
    using that by (simp add: settle_post_def)
  let ?out = "\<lambda>burn. ComputeGasOutputs (max 0 used) (GasLimit msg) (baseFee env) feeCap premium burn"
  have pay: "outcome
      (or_return (transferFromGasHolder env BurntFundsActorAddr gasHolder (BaseFeeBurn (?out b))) ErrBurnBaseFee (\<lambda>gasHolder.
      or_return (transferFromGasHolder env RewardAddress gasHolder (MinerTip (?out b))) ErrMinerReward (\<lambda>gasHolder.
      or_return (transferFromGasHolder env BurntFundsActorAddr gasHolder (OverEstimationBurn (?out b))) ErrBurnOverestimation (\<lambda>gasHolder.
      or_return (transferFromGasHolder env (From msg) gasHolder (Refund (?out b))) ErrRefundGas (\<lambda>gasHolder.
      if gasHolder \<noteq> 0 then ret (Inl ErrGasMath)
      else ret (Inr \<lparr>ExitCode = RetCode actorErr, Return = rval, GasUsed = max 0 used, ActorErr = actorErr,
                   GasCosts = Some (?out b)\<rparr>)))))) w1 ?P"
    if r: "wreads env w w1" for b w1
    apply (rule outcome_pay [OF gstep_ok [OF wreads_gstep [OF r]] known_system(1)])
     apply (rule fail [OF gstep_trans [OF wreads_gstep [OF r]]], assumption, simp)
    subgoal premises s1 for w2
      supply g1 = gstep_trans [OF wreads_gstep [OF r] s1(1)]
      apply (rule outcome_pay [OF gstep_ok [OF g1] known_system(2)])
       apply (rule fail [OF gstep_trans [OF g1]], assumption, simp)
      subgoal premises s2 for w3
        supply g2 = gstep_trans [OF g1 s2(1)]
        apply (rule outcome_pay [OF gstep_ok [OF g2] known_system(1)])
         apply (rule fail [OF gstep_trans [OF g2]], assumption, simp)
        subgoal premises s3 for w4
          supply g3 = gstep_trans [OF g2 s3(1)]
          apply (rule outcome_pay [OF gstep_ok [OF g3] gstep_known [OF g3 k]])
           apply (rule fail [OF gstep_trans [OF g3]], assumption, simp)
          subgoal premises s4 for w5
          proof -
            have v: "vview env w1 = vview env w" using r by (simp add: wreads_def)
            have "vview env w5 = settled i (?out b) (vview env w)"
              using s1(3) s2(3) s3(3) s4(3) v by (simp add: settled_def)
            moreover have "total_funds (vview env w5) = total_funds (vview env w) + paid (?out b)"
              using s1(4) s2(4) s3(4) s4(4) v unfolding paid_def by presburger
            moreover have "paid (?out b) = gasHolder \<longleftrightarrow> gasHolder - BaseFeeBurn (?out b) - MinerTip (?out b)
                - OverEstimationBurn (?out b) - Refund (?out b) = 0"
              unfolding paid_def by presburger
            ultimately show ?thesis
              using gstep_trans [OF g3 s4(1)] by (cases "paid (?out b) = gasHolder") (auto simp: settle_post_def)
          qed
          done
        done
      done
    done
  show ?thesis
  proof (rule ShouldBurn_result [OF w])
    fix e w1
    assume b: "ShouldBurn env msg (RetCode actorErr) w = (Inr (Inl e), w1)" "wreads env w w1"
    have "?P (Inl (ErrShouldBurn e)) w1" by (rule fail [OF wreads_gstep [OF b(2)]]) simp
    then show ?thesis
      unfolding ApplyMessage_settle_def Let_def by (rule outcome_or_return(1) [where m = "ShouldBurn env msg (RetCode actorErr)" and w = w, OF b(1)])
  next
    fix b w1
    assume b: "ShouldBurn env msg (RetCode actorErr) w = (Inr (Inr b), w1)" "wreads env w w1"
    show ?thesis
      unfolding ApplyMessage_settle_def Let_def max_gas by (rule outcome_or_return(2) [where m = "ShouldBurn env msg (RetCode actorErr)" and w = w, OF b(1) pay [OF b(2)]])
  qed
qed

subsection \<open>Running a message\<close>

lemma sub64_overflow:
  assumes "0 \<le> a" and "in64 a" and "in64 t"
  shows "in64 (a - t) \<or> sub64 a t < 0"
proof (cases "a - t < 2 ^ 63")
  case True
  then show ?thesis using assms by (simp add: in64_def)
next
  case False
  then have "(a - t - 2 ^ 63) mod 2 ^ 64 = a - t - 2 ^ 63"
    using assms by (intro mod_pos_pos_trivial) (auto simp: in64_def)
  moreover have "(a - t + 2 ^ 63) mod 2 ^ 64 = (a - t - 2 ^ 63) mod 2 ^ 64"
    using mod_add_self2 [of "a - t - 2 ^ 63" "2 ^ 64"] by (simp add: algebra_simps)
  ultimately show ?thesis using assms by (simp add: sub64_def wrap64_def in64_def)
qed

lemma charge_return_result:
  assumes "aerrs_ok err" and "\<not> IsFatal err" and "err \<noteq> None \<longrightarrow> rval = []"
  obtains rval' err' rt' where "charge_return env rval err (rt, w) = (Inr (rval', err'), (rt', w))"
    and "aerrs_ok err'" and "\<not> IsFatal err'" and "err' \<noteq> None \<longrightarrow> rval' = []"
    and "gas_in rt \<Longrightarrow> gasUsed rt' \<le> gasAvailable rt"
proof (cases "rval = []")
  case True
  then show ?thesis using assms by (intro that) (auto simp: charge_return_def ret_def gas_in_def)
next
  case False
  let ?t = "Total (OnChainReturnValue (vm_pricelist env) (int (length rval)))"
  have t: "in64 ?t" by (simp add: Total_def add64_def)
  show ?thesis
  proof (cases "sub64 (gasAvailable rt) ?t < gasUsed rt")
    case c: True
    then show ?thesis
      using False by (intro that)
        (auto simp: charge_return_def bnd_def ret_def chargeGasSafe_def chargeGasInternal_def Let_def
          NewErr_def IsFatal_def exit_codes aerr_ok_def)
  next
    case c: False
    have "add64 (gasUsed rt) ?t \<le> gasAvailable rt" if g: "gas_in rt"
    proof -
      have "in64 (gasAvailable rt - ?t) \<or> sub64 (gasAvailable rt) ?t < 0"
        using g t by (intro sub64_overflow) (auto simp: gas_in_def in64_def)
      then have "in64 (gasAvailable rt - ?t)" using c g by (auto simp: gas_in_def)
      then have le: "gasUsed rt + ?t \<le> gasAvailable rt" using c by (simp add: i64_simps)
      then have "in64 (gasUsed rt + ?t)" using g t by (auto simp: gas_in_def in64_def)
      then show ?thesis using le by (simp add: i64_simps)
    qed
    then show ?thesis
      using False c assms by (intro that)
        (auto simp: charge_return_def bnd_def ret_def chargeGasSafe_def chargeGasInternal_def Let_def IsFatal_def)
  qed
qed

text \<open>
  What a message does from its snapshot on, in terms of the actors: \<open>m\<close> before, \<open>m'\<close> after. A
  receipt comes with the settlement of what the run left, which is nothing when the run failed.
\<close>

definition run_gas_ok :: "'h vm_env \<Rightarrow> Message \<Rightarrow> int \<Rightarrow> bool" where
  "run_gas_ok env msg used \<longleftrightarrow> 0 \<le> used \<and> (nonneg_actors env \<and> gas_start msg None \<longrightarrow> used \<le> GasLimit msg)"

definition run_spec ::
  "'h vm_env \<Rightarrow> nat \<Rightarrow> Message \<Rightarrow> token \<Rightarrow> token \<Rightarrow> token \<Rightarrow> address \<Rightarrow> (address \<Rightarrow> Actor option) \<Rightarrow>
    panic + (apply_error + ApplyRet) \<Rightarrow> (address \<Rightarrow> Actor option) \<Rightarrow> bool"
where
  "run_spec env k msg feeCap premium gasHolder i m r m' =
     (case r of
        Inl p \<Rightarrow> panic_ok p \<and> (p = NoFuel \<longrightarrow> networkVersion env < 6 \<or> k \<le> MaxCallDepth + 1)
      | Inr (Inl e) \<Rightarrow> e = ErrGasMath \<longrightarrow> (\<exists>used burn. run_gas_ok env msg used
          \<and> paid (ComputeGasOutputs used (GasLimit msg) (baseFee env) feeCap premium burn) \<noteq> gasHolder)
      | Inr (Inr a) \<Rightarrow> \<exists>burn x out. out = ComputeGasOutputs (GasUsed a) (GasLimit msg) (baseFee env) feeCap premium burn
          \<and> GasCosts a = Some out \<and> run_gas_ok env msg (GasUsed a)
          \<and> aerrs_ok (ActorErr a) \<and> \<not> IsFatal (ActorErr a) \<and> ExitCode a = RetCode (ActorErr a)
          \<and> total_funds x \<le> total_funds m \<and> (ExitCode a \<noteq> 0 \<longrightarrow> x = m \<and> Return a = [])
          \<and> m' = settled i out x \<and> total_funds m' = total_funds x + gasHolder)"

text \<open>The worlds above a snapshot.\<close>

definition above_snapshot :: "'h vm_env \<Rightarrow> 'h World \<Rightarrow> 'h World \<Rightarrow> bool" where
  "above_snapshot env w w' \<longleftrightarrow> world_ok env w' \<and> below (Snapshot (cstate w)) (cstate w') \<and> knows_more (cstate w) (cstate w')"

lemma above_snapshot_start:
  assumes "world_ok env w"
  shows "world_ok env (w\<lparr>cstate := Snapshot (cstate w)\<rparr>)" "vview env (w\<lparr>cstate := Snapshot (cstate w)\<rparr>) = vview env w"
    "knows_more (cstate w) (Snapshot (cstate w))"
  using assms snapshot_ids(1) [of "cstate w"]
  by (auto simp: world_ok_def vview_def knows_more_def dest: tree.push_ok)

lemma above_snapshot_gstep: "above_snapshot env w w1 \<Longrightarrow> gstep env w1 w' \<Longrightarrow> above_snapshot env w w'"
  unfolding above_snapshot_def gstep_def using below_trans knows_more_trans by metis

lemma with_snapshot_post:
  assumes w: "world_ok env w"
    and m: "post m (w\<lparr>cstate := Snapshot (cstate w)\<rparr>) (\<lambda>r w'. above_snapshot env w w' \<and> P r (vview env w'))"
  shows "post (with_snapshot m) w (\<lambda>r w'. gstep env w w' \<and> P r (vview env w'))"
proof -
  obtain r w2 where r: "m (w\<lparr>cstate := Snapshot (cstate w)\<rparr>) = (r, w2)" "above_snapshot env w w2" "P r (vview env w2)"
    using m unfolding post_def by (metis prod.collapse)
  have t: "tree_ok (cstate w)" "tree_ok (cstate w2)" "below (Snapshot (cstate w)) (cstate w2)"
      "ids_ok (snaps (cstate w2))" "world_ok env w2" "knows_more (cstate w) (cstate w2)"
    using w r(2) by (simp_all add: above_snapshot_def world_ok_def)
  obtain st where st: "ClearSnapshot (cstate w2) = Some st" "tree_ok st" "below (cstate w) st"
      "view (tree env) st = view (tree env) (cstate w2)" "knows_more (cstate w2) st"
    using ClearSnapshot_below_snapshot [OF t(1,2,3)] by blast
  have "gstep env w (w2\<lparr>cstate := st\<rparr>)"
    using t(5) st snapshot_ids(3) [OF t(4) st(1)] knows_more_trans [OF t(6) st(5)]
    by (simp add: gstep_def world_ok_def vview_def)
  moreover have "vview env (w2\<lparr>cstate := st\<rparr>) = vview env w2" using st(4) by (simp add: vview_def)
  ultimately show ?thesis using r st(1) by (simp add: post_def with_snapshot_def)
qed


text \<open>What the settlement adds to a run that left the actors \<open>vview env w2\<close>.\<close>

lemma settle_run:
  assumes a: "above_snapshot env w w2" and k: "known (cstate w) (From msg) i"
    and e: "aerrs_ok err" "\<not> IsFatal err" "err \<noteq> None \<longrightarrow> rval = []"
    and g: "nonneg_actors env \<and> gas_start msg None \<longrightarrow> used \<le> GasLimit msg"
    and v: "total_funds (vview env w2) \<le> total_funds (vview env w)" "RetCode err \<noteq> 0 \<longrightarrow> vview env w2 = vview env w"
  shows "post (ApplyMessage_settle env msg feeCap premium gasHolder rval err used) w2
    (\<lambda>r w'. above_snapshot env w w' \<and> run_spec env fuel msg feeCap premium gasHolder i (vview env w) r (vview env w'))"
proof -
  let ?outs = "ComputeGasOutputs (max 0 used) (GasLimit msg) (baseFee env) feeCap premium"
  have w2: "world_ok env w2" "known (cstate w2) (From msg) i"
    using a k by (simp_all add: above_snapshot_def knows_more_def)
  have gas: "run_gas_ok env msg (max 0 used)" using g by (auto simp: run_gas_ok_def gas_start_def)
  obtain x w' where x: "ApplyMessage_settle env msg feeCap premium gasHolder rval err used w2 = (Inr x, w')"
      "settle_post env w2 i ?outs gasHolder (\<lambda>out. \<lparr>ExitCode = RetCode err, Return = rval, GasUsed = max 0 used,
         ActorErr = err, GasCosts = Some out\<rparr>) x w'"
    using settle_result [OF w2] unfolding outcome_def by blast
  have "above_snapshot env w w'" using above_snapshot_gstep [OF a] x(2) by (simp add: settle_post_def)
  moreover have "run_spec env fuel msg feeCap premium gasHolder i (vview env w) (Inr x) (vview env w')"
  proof (cases x)
    case (Inl er)
    then show ?thesis using x(2) gas by (auto simp: run_spec_def settle_post_def)
  next
    case (Inr r)
    then obtain burn where b: "r = \<lparr>ExitCode = RetCode err, Return = rval, GasUsed = max 0 used, ActorErr = err,
          GasCosts = Some (?outs burn)\<rparr>" "vview env w' = settled i (?outs burn) (vview env w2)"
        "total_funds (vview env w') = total_funds (vview env w2) + gasHolder"
      using x(2) by (auto simp: settle_post_def)
    show ?thesis unfolding run_spec_def Inr sum.case
      by (intro exI [of _ burn] exI [of _ "vview env w2"] exI [of _ "?outs burn"])
        (use b e v gas in \<open>auto dest: RetCode_nonzero\<close>)
  qed
  ultimately show ?thesis using x(1) by (simp add: post_def)
qed

lemma exec_result:
  assumes w: "world_ok env w" and k: "known (cstate w) (From msg) i"
    and g: "nonneg_actors env \<Longrightarrow> 0 \<le> Total msgGas"
  shows "post (ApplyMessage_exec env fuel msg feeCap premium gasHolder msgGas) (w\<lparr>cstate := Snapshot (cstate w)\<rparr>)
    (\<lambda>r w'. above_snapshot env w w' \<and> run_spec env fuel msg feeCap premium gasHolder i (vview env w) r (vview env w'))"
    (is "post _ ?w ?Q")
proof -
  note s = above_snapshot_start [OF w]
  have "call_pre env None (Some msgGas) ?w" using s(1) g by (simp add: call_pre_def call_depth_def)
  note c = sends.callee_ok [OF this, of fuel msg]
  obtain r p1 w1 where sd: "send env fuel msg None (Some msgGas) ?w = (r, p1, w1)" by (metis prod_cases3)
  have a: "above_snapshot env w w1" "total_funds (vview env w1) \<le> total_funds (vview env w)"
    using c s sd knows_more_trans [OF s(3)] by (auto simp: call_post_def above_snapshot_def wstep_def)
  show ?thesis
  proof (cases r)
    case (Inl p)
    then show ?thesis using sd a c by (simp add: post_def ApplyMessage_exec_def run_spec_def call_post_def call_depth_def)
  next
    case (Inr t)
    then obtain rval err rt where t: "r = Inr (rval, err, rt)" by (metis prod_cases3)
    then have rt: "aerrs_ok err" "nonneg_actors env \<and> gas_start msg None \<longrightarrow> gas_in rt \<and> gasAvailable rt = GasLimit msg"
      using c sd by (auto simp: call_post_def)
    show ?thesis
    proof (cases "IsFatal err \<or> err \<noteq> None \<and> rval \<noteq> []")
      case True
      then show ?thesis using sd t a by (auto simp: post_def ApplyMessage_exec_def run_spec_def)
    next
      case False
      then obtain rval' err' rt' where cr: "charge_return env rval err (rt, w1) = (Inr (rval', err'), (rt', w1))"
          "aerrs_ok err'" "\<not> IsFatal err'" "err' \<noteq> None \<longrightarrow> rval' = []" "gas_in rt \<longrightarrow> gasUsed rt' \<le> gasAvailable rt"
        using charge_return_result [OF rt(1)] by metis
      have b: "world_ok env w1" "below (Snapshot (cstate w)) (cstate w1)" using a(1) by (simp_all add: above_snapshot_def)
      obtain st where st: "(if RetCode err' \<noteq> 0 then Revert (cstate w1) else Some (cstate w1)) = Some st"
          "above_snapshot env w (w1\<lparr>cstate := st\<rparr>)"
          "total_funds (vview env (w1\<lparr>cstate := st\<rparr>)) \<le> total_funds (vview env w)"
          "RetCode err' \<noteq> 0 \<longrightarrow> vview env (w1\<lparr>cstate := st\<rparr>) = vview env w"
        using sends.revert_ok [OF w b] a by (cases "RetCode err' = 0") (auto simp: above_snapshot_def)
      have "post (ApplyMessage_settle env msg feeCap premium gasHolder rval' err' (gasUsed rt')) (w1\<lparr>cstate := st\<rparr>) ?Q"
        by (rule settle_run [OF st(2) k cr(2,3,4) _ st(3,4)]) (use rt(2) cr(5) in auto)
      moreover have "ApplyMessage_exec env fuel msg feeCap premium gasHolder msgGas ?w
          = ApplyMessage_settle env msg feeCap premium gasHolder rval' err' (gasUsed rt') (w1\<lparr>cstate := st\<rparr>)"
        using sd t False cr(1) st(1) by (auto simp: ApplyMessage_exec_def)
      ultimately show ?thesis by (simp add: post_def)
    qed
  qed
qed


text \<open>The run together with the withdrawal of the gas, from the actors \<open>m\<close> before the message.\<close>

definition executed ::
  "'h vm_env \<Rightarrow> Message \<Rightarrow> address \<Rightarrow> (address \<Rightarrow> Actor option) \<Rightarrow> ApplyRet \<Rightarrow> (address \<Rightarrow> Actor option) \<Rightarrow> bool"
where
  "executed env msg i m a m' \<longleftrightarrow> (\<exists>feeCap premium gascost act burn x out.
     GasFeeCap msg = Some feeCap \<and> GasPremium msg = Some premium \<and> gascost = wrapu64 (GasLimit msg) * feeCap
   \<and> m i = Some act \<and> IsAccountActor env (Code act) \<and> Nonce act = MsgNonce msg
   \<and> 0 \<le> gascost \<and> gascost \<le> Balance act
   \<and> out = ComputeGasOutputs (GasUsed a) (GasLimit msg) (baseFee env) feeCap premium burn
   \<and> GasCosts a = Some out \<and> run_gas_ok env msg (GasUsed a)
   \<and> aerrs_ok (ActorErr a) \<and> \<not> IsFatal (ActorErr a) \<and> ExitCode a = RetCode (ActorErr a)
   \<and> total_funds x \<le> total_funds m - gascost
   \<and> (ExitCode a \<noteq> 0 \<longrightarrow> x = m(i \<mapsto> charged gascost act) \<and> Return a = [])
   \<and> m' = settled i out x \<and> total_funds m' = total_funds x + gascost)"

definition apply_spec ::
  "'h vm_env \<Rightarrow> nat \<Rightarrow> Message \<Rightarrow> 'h World \<Rightarrow> panic + (apply_error + ApplyRet) \<Rightarrow> 'h World \<Rightarrow> bool"
where
  "apply_spec env k msg w r w' =
     (case r of
        Inl p \<Rightarrow> panic_ok p \<and> (p = NoFuel \<longrightarrow> networkVersion env < 6 \<or> k \<le> MaxCallDepth + 1)
      | Inr (Inl e) \<Rightarrow> e = ErrGasMath \<longrightarrow> (\<exists>feeCap premium used burn. GasFeeCap msg = Some feeCap
          \<and> GasPremium msg = Some premium \<and> run_gas_ok env msg used
          \<and> paid (ComputeGasOutputs used (GasLimit msg) (baseFee env) feeCap premium burn) \<noteq> wrapu64 (GasLimit msg) * feeCap)
      | Inr (Inr a) \<Rightarrow>
          (\<exists>code penalty. code \<noteq> 0 \<and> a = rejected code penalty \<and> vview env w' = vview env w)
        \<or> (\<exists>i. known (cstate w') (From msg) i \<and> executed env msg i (vview env w) a (vview env w')))"

lemma run_result:
  assumes w: "world_ok env w" and k: "known (cstate w) (From msg) i" "vview env w i = Some act"
    and act: "IsAccountActor env (Code act)" "Nonce act = MsgNonce msg"
    and g: "nonneg_actors env \<Longrightarrow> 0 \<le> Total msgGas"
    and fees: "GasFeeCap msg = Some feeCap" "GasPremium msg = Some premium"
  defines "gascost \<equiv> wrapu64 (GasLimit msg) * feeCap"
  shows "post (ApplyMessage_run env fuel msg feeCap premium gascost msgGas) w
    (\<lambda>r w'. gstep env w w' \<and> apply_spec env fuel msg w r w')"
    (is "post _ _ ?Q")
proof (rule transferToGasHolder_result [OF w, of "From msg" 0 gascost])
  fix e w1
  assume "transferToGasHolder env (From msg) 0 gascost w = (Inr (Inl e), w1)" "gstep env w w1"
  then show ?thesis
    by (simp add: post_def ApplyMessage_run_def or_return_def bnd_def ret_def apply_spec_def)
next
  fix j act1 w1
  assume t: "transferToGasHolder env (From msg) 0 gascost w = (Inr (Inr (0 + gascost)), w1)" "gstep env w w1"
    "known (cstate w1) (From msg) j" "vview env w j = Some act1" "0 \<le> gascost" "gascost \<le> Balance act1"
    "vview env w1 = (vview env w)(j \<mapsto> act1\<lparr>Balance := Balance act1 - gascost\<rparr>)"
  have [simp]: "j = i" using t(3) gstep_known [OF t(2) k(1)] known_fun by blast
  have [simp]: "act1 = act" using t(4) k(2) by simp
  have k1: "known (cstate w1) (From msg) i" using t(3) by simp
  show ?thesis
  proof (rule incrementNonce_result [OF gstep_ok [OF t(2)] k1])
    fix e w2
    assume "incrementNonce env (From msg) w1 = (Inr (Inl e), w2)" "gstep env w1 w2"
    then show ?thesis using t(1) gstep_trans [OF t(2)]
      by (simp add: post_def ApplyMessage_run_def or_return_def bnd_def ret_def apply_spec_def)
  next
    fix act2 w2
    assume n: "incrementNonce env (From msg) w1 = (Inr (Inr ()), w2)" "gstep env w1 w2" "vview env w1 i = Some act2"
      "vview env w2 = (vview env w1)(i \<mapsto> act2\<lparr>Nonce := wrapu64 (Nonce act2 + 1)\<rparr>)"
    note g2 = gstep_trans [OF t(2) n(2)]
    have v2: "vview env w2 = (vview env w)(i \<mapsto> charged gascost act)"
      using n(3,4) t(7) by (auto simp: charged_def)
    have f: "funds_ok (vview env w)" using w by (simp add: world_ok_def)
    have tot: "total_funds (vview env w2) = total_funds (vview env w) - gascost"
      using f k(2) by (simp add: v2 charged_def)
    have "post (with_snapshot (ApplyMessage_exec env fuel msg feeCap premium gascost msgGas)) w2
      (\<lambda>r w'. gstep env w2 w' \<and> run_spec env fuel msg feeCap premium gascost i (vview env w2) r (vview env w'))"
      by (rule with_snapshot_post [OF gstep_ok [OF g2] exec_result [OF gstep_ok [OF g2] gstep_known [OF g2 k(1)] g]])
    then have "post (with_snapshot (ApplyMessage_exec env fuel msg feeCap premium gascost msgGas)) w2 ?Q"
    proof (rule post_mono)
      fix r w'
      assume r: "gstep env w2 w' \<and> run_spec env fuel msg feeCap premium gascost i (vview env w2) r (vview env w')"
      have "apply_spec env fuel msg w r w'"
      proof (cases "\<exists>a. r = Inr (Inr a)")
        case False
        then show ?thesis
          using r fees by (auto simp: apply_spec_def run_spec_def gascost_def split: sum.splits)
      next
        case True
        then obtain a where a: "r = Inr (Inr a)" by blast
        then have "executed env msg i (vview env w) a (vview env w')"
          using r fees k(2) act t(5,6) tot v2 unfolding executed_def run_spec_def a sum.case gascost_def
          by auto
        moreover have "known (cstate w') (From msg) i"
          using gstep_known [OF gstep_trans [OF g2] k(1)] r by blast
        ultimately show ?thesis by (auto simp: apply_spec_def a)
      qed
      then show "gstep env w w' \<and> apply_spec env fuel msg w r w'"
        using r gstep_trans [OF g2] by blast
    qed
    then show ?thesis
      using t(1) n(1) by (simp add: post_def ApplyMessage_run_def or_return_def bnd_def)
  qed
qed


lemma rejected_spec: "wreads env w w' \<Longrightarrow> code \<noteq> 0 \<Longrightarrow>
  apply_spec env fuel msg w (Inr (Inr (rejected code penalty))) w'"
  by (auto simp: apply_spec_def wreads_gstep wreads_def)

lemma apply_spec_reads: "wreads env w w1 \<Longrightarrow> apply_spec env fuel msg w1 r w' \<Longrightarrow> apply_spec env fuel msg w r w'"
  by (simp add: apply_spec_def wreads_def cong: sum.case_cong)

lemma reject_codes [simp]: "SysErrOutOfGas \<noteq> 0" "SysErrSenderInvalid \<noteq> 0" "SysErrSenderStateInvalid \<noteq> 0"
  by (simp_all add: exit_codes)

lemma ApplyMessage_result:
  assumes w: "world_ok env w"
    and g: "nonneg_actors env \<Longrightarrow> 0 \<le> Total (OnChainMessage (vm_pricelist env) chainLength)"
  shows "post (ApplyMessage env fuel msg chainLength) w
    (\<lambda>r w'. gstep env w w' \<and> apply_spec env fuel msg w r w')"
    (is "post _ _ ?Q")
proof (cases "checkMessage msg")
  case (Some e)
  then show ?thesis using w by (simp add: ApplyMessage_def gstep_refl apply_spec_def)
next
  case None
  then obtain feeCap premium where fees: "GasFeeCap msg = Some feeCap" "GasPremium msg = Some premium"
    by (auto simp: checkMessage_def split: if_splits)
  let ?msgGas = "OnChainMessage (vm_pricelist env) chainLength"
  show ?thesis
  proof (cases "GasLimit msg < Total ?msgGas")
    case True
    then show ?thesis
      using None fees rejected_spec [OF wreads_refl [OF w]] gstep_refl [OF w]
      by (simp add: ApplyMessage_def Let_def)
  next
    case False
    obtain x w1 where x: "on_tree (\<lambda>st. GetActor (tree env) st (From msg)) w = (Inr x, w1)" "wreads env w w1"
        "\<And>act. x = Inr act \<Longrightarrow> \<exists>i. known (cstate w1) (From msg) i \<and> vview env w i = Some act"
      using post_GetActor [OF w, of "From msg"] unfolding post_def by (metis prod.collapse)
    note rj = rejected_spec [OF x(2)]
    have go: "post (ApplyMessage_run env fuel msg feeCap premium (wrapu64 (GasLimit msg) * feeCap) ?msgGas) w1 ?Q"
      if act: "x = Inr act" "IsAccountActor env (Code act)" "Nonce act = MsgNonce msg" for act
    proof -
      obtain i where i: "known (cstate w1) (From msg) i" "vview env w1 i = Some act"
        using x(2) x(3) [OF act(1)] by (auto simp: wreads_def)
      have w1: "world_ok env w1" using x(2) by (simp add: wreads_def)
      show ?thesis
        by (rule post_mono [OF run_result [OF w1 i act(2,3) g fees]])
          (auto intro: gstep_trans [OF wreads_gstep [OF x(2)]] apply_spec_reads [OF x(2)])
    qed
    show ?thesis
    proof (cases x)
      case (Inl e)
      then show ?thesis using None fees False x(1) rj wreads_gstep [OF x(2)]
        by (simp add: ApplyMessage_def Let_def post_def bnd_def ret_def) (simp add: apply_spec_def)
    next
      case (Inr act)
      then show ?thesis using None fees False x(1) rj wreads_gstep [OF x(2)] go [OF Inr]
        by (simp add: ApplyMessage_def Let_def post_def bnd_def ret_def)
    qed
  qed
qed


subsection \<open>Properties of message application\<close>

text \<open>
  Messages are far smaller than this bound (a block limits them to a few megabytes); below it the
  price of putting one on chain is not negative.
\<close>

definition msg_size_ok :: "int \<Rightarrow> bool" where
  "msg_size_ok n \<longleftrightarrow> 0 \<le> n \<and> n < 2 ^ 32"

lemma on_chain_nonneg:
  assumes "msg_size_ok n"
  shows "0 \<le> Total (OnChainMessage (vm_pricelist env) n)"
proof -
  have n: "0 \<le> n" "n < 4294967296" using assms by (simp_all add: msg_size_ok_def)
  have in64: "in64 n" "in64 (36 + n)" "in64 (1300 * (36 + n))" "in64 (38863 + 1300 * (36 + n))" "in64 (1000 * (36 + n))"
      "in64 (38863 + 1000 * (36 + n))"
    using n by (auto simp: in64_def)
  show ?thesis
    using vm_pricelist_cases [of env] n in64
    by (auto simp: OnChainMessage_def Total_def newGasCharge_def prices_genesis_def prices_calico_def i64_simps
        mult.commute [of _ 1300] mult.commute [of _ 1000])
qed

text \<open>A network with one contract, the actor 101; its method 2 sends 10 to actor 100 and then aborts.\<close>

definition example_prog :: prog where
  "example_prog = PValidateAny (PSend (AddrID 100) 0 10 [] (\<lambda>code b. PAbort 33))"

definition example_vm :: "nat \<Rightarrow> (address \<times> Actor) list vm_env" where
  "example_vm nv =
     \<lparr>tree = example_env, networkVersion = nv, blockHeight = 300000, baseFee = 10,
      UpgradeCalicoHeight = 265200, UpgradeClausHeight = 343200,
      areg = (\<lambda>c. if c = ''app'' then Some \<lparr>predicate = (\<lambda>_. True),
        methods = (\<lambda>m. if m = 2 then Some (\<lambda>b. Some example_prog)
          else if m = 3 then Some (\<lambda>b. Some (PValidateAny (PReturn (RVBytes [1, 2]))))
          else if m = 4 then Some (\<lambda>b. Some (PReturn (RVBytes [1, 2]))) else None)\<rparr> else None),
      IsAccountActor = (\<lambda>c. c = ''account''), IsStorageMinerActor = (\<lambda>c. False),
      AccountActorCodeID = (\<lambda>v. ''account''), actorsVersionForNetwork = (\<lambda>v. Some 7),
      upgradedCode = (\<lambda>v c. None), EmptyObjectCid = ''empty'', addressParams = (\<lambda>a. []),
      accountPubkey = (\<lambda>a. None), NewActorAddr = (\<lambda>a n c. Inl ''unused''), blockCid = (\<lambda>b. ''block''),
      underSyscall = (\<lambda>s b. Inl ''unused''), sectorSizeName = (\<lambda>p. None),
      chainRandomness = (\<lambda>t e b. Inl ''unused''), beaconRandomness = (\<lambda>t e b. Inl ''unused''),
      circSupplyCalc = (\<lambda>e st. Inl ''unused''), baseCircSupply = 0\<rparr>"

definition example_world :: "(address \<times> Actor) list World" where
  "example_world =
     \<lparr>cstate = \<lparr>root = [(AddrID 1, example_actor 0), (AddrID 2, example_actor 0), (AddrID 99, example_actor 0),
         (AddrID 100, example_actor 2000000000), (AddrID 101, (example_actor 50)\<lparr>Code := ''app''\<rparr>)],
       tree_version = 4, info = ''i'', snaps = newStateSnaps\<rparr>, blocks = []\<rparr>"

definition example_msg :: "int \<Rightarrow> method_num \<Rightarrow> Message" where
  "example_msg n m =
     \<lparr>Version = 0, To = AddrID 101, From = AddrID 100, MsgNonce = n, Value = Some 5, GasLimit = 10000000,
      GasFeeCap = Some 100, GasPremium = Some 20, Method = m, Params = []\<rparr>"


lemma example_view:
  "vview (example_vm nv) example_world = map_of (root (cstate example_world))"
  by (simp add: vview_def view_def example_vm_def example_world_def example_env_def mem_env_def newStateSnaps_def
      addLayer_def layers_view_def fun_eq_iff)

lemma example_world_ok: "world_ok (example_vm nv) example_world"
proof -
  have "funds_ok (vview (example_vm nv) example_world)"
    unfolding example_view
    by (auto simp: funds_ok_def finite_dom_map_of bal_def example_world_def example_actor_def)
  then show ?thesis
    by (auto simp: world_ok_def example_vm_def example_world_def example_env_def mem_env_def resolves_to_ids_def
        newStateSnaps_def addLayer_def tree_ok_def snaps_ok_def hint_ok_def ids_ok_def cache_ids_def split: if_splits)
qed

lemma example_size: "msg_size_ok 200"
  by (simp add: msg_size_ok_def)

text \<open>
  C1. Applying a message never creates funds. Whatever actors, methods and nested sends a message
  runs into, if \<open>ApplyMessage\<close> returns a receipt then the sum of all balances has not grown, no
  balance is negative, and the stack of snapshots is back where it was, with the layers below
  untouched.
\<close>

theorem apply_message_never_mints:
  assumes "world_ok env w" and "msg_size_ok chainLength"
    and "ApplyMessage env fuel msg chainLength w = (Inr (Inr receipt), w')"
  shows "total_funds (vview env w') \<le> total_funds (vview env w) \<and> funds_ok (vview env w')
    \<and> below (cstate w) (cstate w')"
proof -
  have p: "gstep env w w' \<and> apply_spec env fuel msg w (Inr (Inr receipt)) w'"
    using postD [OF ApplyMessage_result [OF assms(1) on_chain_nonneg [OF assms(2)]] assms(3)] .
  then have "total_funds (vview env w') \<le> total_funds (vview env w)"
    by (auto simp: apply_spec_def executed_def)
  then show ?thesis using p by (simp add: gstep_def world_ok_def)
qed

definition returns_code :: "(apply_error + ApplyRet, 's) cmd \<Rightarrow> 's \<Rightarrow> int \<Rightarrow> bool" where
  "returns_code m w code = (case m w of (Inr (Inr a), _) \<Rightarrow> ExitCode a = code | _ \<Rightarrow> False)"

lemma returns_codeD: "returns_code m w code \<Longrightarrow> \<exists>a w'. m w = (Inr (Inr a), w') \<and> ExitCode a = code"
  by (auto simp: returns_code_def split: prod.splits sum.splits)

lemma example_runs:
  "returns_code (ApplyMessage (example_vm 15) 4 (example_msg 0 2) 200) example_world 33"
  "returns_code (ApplyMessage (example_vm 15) 4 (example_msg 0 3) 200) example_world 0"
  "returns_code (ApplyMessage (example_vm 15) 4 (example_msg 7 3) 200) example_world 2"
  by code_simp+

theorem apply_message_never_mints_witness:
  "\<exists>receipt w'. ApplyMessage (example_vm 15) 4 (example_msg 0 3) 200 example_world = (Inr (Inr receipt), w')
    \<and> ExitCode receipt = 0 \<and> total_funds (vview (example_vm 15) w') \<le> total_funds (vview (example_vm 15) example_world)"
  using apply_message_never_mints [OF example_world_ok example_size] returns_codeD [OF example_runs(2)] by blast

text \<open>
  C2. A failing message leaves no trace but the price of its gas. If the receipt has a nonzero exit
  code, then either the message was rejected before it ran and every actor reads as before, or the
  actors are those before the message, with the sender's nonce one higher and its gas withdrawn,
  after exactly the four deposits of the settlement: base-fee burn, miner tip, overestimation burn
  and refund. No transfer, creation, deletion or state change of the run survives, and the failing
  message returns nothing.
\<close>

theorem failed_message_only_pays_gas:
  assumes "world_ok env w" and "msg_size_ok chainLength"
    and "ApplyMessage env fuel msg chainLength w = (Inr (Inr receipt), w')" and "ExitCode receipt \<noteq> 0"
  shows "Return receipt = [] \<and>
    (GasUsed receipt = 0 \<and> vview env w' = vview env w
     \<or> (\<exists>i act out feeCap. known (cstate w') (From msg) i \<and> vview env w i = Some act \<and> GasCosts receipt = Some out
          \<and> GasFeeCap msg = Some feeCap \<and> Nonce act = MsgNonce msg
          \<and> vview env w' = settled i out ((vview env w)(i \<mapsto> charged (wrapu64 (GasLimit msg) * feeCap) act))))"
proof -
  have "apply_spec env fuel msg w (Inr (Inr receipt)) w'"
    using postD [OF ApplyMessage_result [OF assms(1) on_chain_nonneg [OF assms(2)]] assms(3)] by blast
  then consider code penalty where "receipt = rejected code penalty" "vview env w' = vview env w"
    | i where "known (cstate w') (From msg) i" "executed env msg i (vview env w) receipt (vview env w')"
    by (auto simp: apply_spec_def)
  then show ?thesis
  proof cases
    case 1
    then show ?thesis by (simp add: rejected_def)
  next
    case 2
    then show ?thesis using assms(4) unfolding executed_def by blast
  qed
qed

theorem failed_message_only_pays_gas_witness:
  "\<exists>receipt w'. ApplyMessage (example_vm 15) 4 (example_msg 0 2) 200 example_world = (Inr (Inr receipt), w')
    \<and> ExitCode receipt = 33 \<and> Return receipt = []"
  using failed_message_only_pays_gas [OF example_world_ok example_size] returns_codeD [OF example_runs(1)] by fastforce


text \<open>The gas of a message that is valid for inclusion in a block is in the range of the settlement's arithmetic.\<close>

lemma valid_message_gas:
  assumes "ValidForBlockInclusion msg minGas version = None" and "0 \<le> minGas" and "0 \<le> baseFee env"
    and "nonneg_actors env" and "run_gas_ok env msg used"
    and "GasFeeCap msg = Some feeCap" and "GasPremium msg = Some premium"
  shows "gas_ok used (GasLimit msg) \<and> fees_ok (baseFee env) feeCap premium
    \<and> used \<le> GasLimit msg \<and> wrapu64 (GasLimit msg) = GasLimit msg"
proof -
  have v: "0 \<le> GasLimit msg" "GasLimit msg \<le> 10000000000" "0 \<le> premium" "premium \<le> feeCap"
    using assms(1,2,6,7) by (auto simp: valid_for_block_inclusion_iff BlockGasLimit_def)
  then have "gas_start msg None" by (simp add: gas_start_def in64_def)
  then have "0 \<le> used" "used \<le> GasLimit msg" using assms(4,5) by (simp_all add: run_gas_ok_def)
  then show ?thesis using v assms(3) by (simp add: gas_ok_def gasOveruseNum_def fees_ok_def wrapu64_def)
qed


lemma example_nonneg: "nonneg_actors (example_vm nv)"
  by (auto simp: nonneg_actors_def example_vm_def example_prog_def split: if_splits)

lemma example_valid: "ValidForBlockInclusion (example_msg n m) 1000 15 = None"
  by (simp add: ValidForBlockInclusion_def example_msg_def ZeroAddress_def TotalFilecoinInt_def FilBase_def
      FilecoinPrecision_def BlockGasLimit_def)

lemma example_gas:
  "case fst (ApplyMessage (example_vm 15) 4 (example_msg 0 3) 200 example_world) of
     Inr (Inr a) \<Rightarrow> GasUsed a \<noteq> 0 \<and> GasCosts a \<noteq> None | _ \<Rightarrow> False"
  by code_simp


text \<open>
  C8. Nested sends end. From network version 6 on, where the depth of calls is limited, the bound
  \<open>MaxCallDepth + 2\<close> on the nesting is enough: applying a message then never runs out of it, however
  its actors call one another.
\<close>

theorem call_depth_bounded:
  assumes "world_ok env w" and "msg_size_ok chainLength" and "6 \<le> networkVersion env"
    and "MaxCallDepth + 2 \<le> fuel"
  shows "fst (ApplyMessage env fuel msg chainLength w) \<noteq> Inl NoFuel"
proof
  assume "fst (ApplyMessage env fuel msg chainLength w) = Inl NoFuel"
  then have "ApplyMessage env fuel msg chainLength w = (Inl NoFuel, snd (ApplyMessage env fuel msg chainLength w))"
    by (metis prod.collapse)
  from postD [OF ApplyMessage_result [OF assms(1) on_chain_nonneg [OF assms(2)]] this]
  show False using assms(3,4) by (simp add: apply_spec_def)
qed

theorem call_depth_bounded_witness:
  "fst (ApplyMessage (example_vm 15) (MaxCallDepth + 2) (example_msg 0 2) 200 example_world) \<noteq> Inl NoFuel"
  by (rule call_depth_bounded [OF example_world_ok example_size]) (simp_all add: example_vm_def)


text \<open>
  C32. A message that cannot be paid for or is out of order is rejected untouched. When the sender
  exists but is not an account, has another nonce, or holds less than the message's gas may cost,
  the message is not run: every actor reads as before, no gas is used, the exit code says why, and
  the miner who included it is penalised with the base fee for the whole gas limit.
\<close>

theorem bad_sender_rejected:
  assumes "world_ok env w" and "checkMessage msg = None"
    and "Total (OnChainMessage (vm_pricelist env) chainLength) \<le> GasLimit msg"
    and "on_tree (\<lambda>st. GetActor (tree env) st (From msg)) w = (Inr (Inr act), w1)"
    and "GasFeeCap msg = Some feeCap"
    and "\<not> IsAccountActor env (Code act) \<or> Nonce act \<noteq> MsgNonce msg \<or> Balance act < GasLimit msg * feeCap"
    and "in64 (GasLimit msg)"
  shows "\<exists>receipt w'. ApplyMessage env fuel msg chainLength w = (Inr (Inr receipt), w')
    \<and> vview env w' = vview env w \<and> GasUsed receipt = 0 \<and> Return receipt = []
    \<and> ExitCode receipt = (if \<not> IsAccountActor env (Code act) then SysErrSenderInvalid else SysErrSenderStateInvalid)
    \<and> GasCosts receipt = Some (ZeroGasOutputs\<lparr>MinerPenalty := baseFee env * GasLimit msg\<rparr>)"
proof -
  have gl: "0 < GasLimit msg" "GasLimit msg < 2 ^ 63" and p: "\<exists>premium. GasPremium msg = Some premium"
    using assms(2,7) by (auto simp: checkMessage_def in64_def split: if_splits)
  then have wr: "wrapu64 (GasLimit msg) = GasLimit msg" by (simp add: wrapu64_def)
  have v: "vview env w1 = vview env w"
    using postD [OF post_GetActor [OF assms(1)] assms(4)] by (auto simp: wreads_def)
  show ?thesis
    using assms(2-6) p v wr
    by (auto simp: ApplyMessage_def Let_def bnd_def ret_def rejected_def split: if_splits)
qed

theorem bad_sender_rejected_witness:
  "\<exists>receipt w'. ApplyMessage (example_vm 15) 4 (example_msg 7 3) 200 example_world = (Inr (Inr receipt), w')
    \<and> vview (example_vm 15) w' = vview (example_vm 15) example_world \<and> ExitCode receipt = 2
    \<and> GasCosts receipt = Some (ZeroGasOutputs\<lparr>MinerPenalty := 100000000\<rparr>)"
proof -
  have c: "checkMessage (example_msg 7 3) = None" "GasFeeCap (example_msg 7 3) = Some 100" "in64 (GasLimit (example_msg 7 3))"
    by (simp_all add: checkMessage_def example_msg_def in64_def)
  have g: "Total (OnChainMessage (vm_pricelist (example_vm 15)) 200) \<le> GasLimit (example_msg 7 3)" by code_simp
  have a: "on_tree (\<lambda>st. GetActor (tree (example_vm 15)) st (From (example_msg 7 3))) example_world
      = (Inr (Inr (example_actor 2000000000)),
         snd (on_tree (\<lambda>st. GetActor (tree (example_vm 15)) st (From (example_msg 7 3))) example_world))"
    by code_simp
  have "IsAccountActor (example_vm 15) (Code (example_actor 2000000000))"
    "Nonce (example_actor 2000000000) \<noteq> MsgNonce (example_msg 7 3)" "baseFee (example_vm 15) = 10" "GasLimit (example_msg 7 3) = 10000000"
    by (simp_all add: example_vm_def example_actor_def example_msg_def)
  then show ?thesis
    using bad_sender_rejected [OF example_world_ok c(1) g a c(2) _ c(3), of 4] by (simp add: exit_codes) blast
qed

text \<open>
  C6. A transfer moves exactly its amount or nothing. It never panics and keeps the sum of all
  balances. If it succeeds, sender and receiver are the same actor and nothing changes, or the
  amount, which is not negative and covered by the sender's balance, has moved from one to the
  other and no other actor has changed. If it fails, every actor reads as before.
\<close>

theorem transfer_exact:
  assumes "world_ok env w" and "transfer env from to amt nv w = (r, w')"
  shows "funds_ok (vview env w') \<and> total_funds (vview env w') = total_funds (vview env w)
    \<and> (case r of
         Inl p \<Rightarrow> False
       | Inr (Some e) \<Rightarrow> vview env w' = vview env w
       | Inr None \<Rightarrow> from = to \<and> vview env w' = vview env w
           \<or> (\<exists>i j. known (cstate w') from i \<and> known (cstate w') to j
                \<and> (if i = j then vview env w' = vview env w else moved env w i j amt w')))"
proof -
  have "transfer_post env from to amt w r w'" using postD [OF post_transfer [OF assms(1)] assms(2)] .
  then show ?thesis
    by (cases r) (simp_all add: transfer_post_def world_ok_def split: option.splits split del: if_split)
qed

theorem transfer_exact_witness:
  "\<exists>w'. transfer (example_vm 15) (AddrSecp ''s'') (AddrID 101) 30 15 example_world = (Inr None, w')
    \<and> (\<exists>i j. known (cstate w') (AddrSecp ''s'') i \<and> known (cstate w') (AddrID 101) j
         \<and> (if i = j then vview (example_vm 15) w' = vview (example_vm 15) example_world
            else moved (example_vm 15) example_world i j 30 w'))"
proof -
  have "fst (transfer (example_vm 15) (AddrSecp ''s'') (AddrID 101) 30 15 example_world) = Inr None" by code_simp
  then obtain w' where t: "transfer (example_vm 15) (AddrSecp ''s'') (AddrID 101) 30 15 example_world = (Inr None, w')"
    by (metis prod.collapse)
  then show ?thesis using transfer_exact [OF example_world_ok t] by (auto split: option.splits)
qed


text \<open>
  C7. A failing nested send is undone. When the send that an actor makes returns an error, every
  actor reads as it did before the send, whatever the callee and the sends it made itself had done,
  and the caller's snapshot stack and gas limit are unchanged.
\<close>

theorem failed_nested_send_restores:
  assumes "rts_ok env (rt, w)"
    and "internalSend (send env k) from to method value params (rt, w) = (Inr (rval, Some e), (rt', w'))"
  shows "vview env w' = vview env w \<and> below (cstate w) (cstate w') \<and> gasAvailable rt' = gasAvailable rt"
proof -
  let ?msg = "\<lparr>Version = 0, To = to, From = from, MsgNonce = 0, Value = Some value, GasLimit = gasAvailable rt,
      GasFeeCap = None, GasPremium = None, Method = method, Params = params\<rparr>"
  let ?w = "w\<lparr>cstate := Snapshot (cstate w)\<rparr>"
  have w: "world_ok env w" using assms(1) by (simp add: rts_ok_def)
  note s = above_snapshot_start [OF w]
  have "call_pre env (Some rt) None ?w"
    using assms(1) s(1) by (simp add: call_pre_def call_depth_def rts_ok_def)
  note c = sends.callee_ok [OF this, of k ?msg]
  obtain r1 p1 w1 where sd: "send env k ?msg (Some rt) None ?w = (r1, p1, w1)" by (metis prod_cases3)
  obtain p where p: "p1 = Some p" "gasAvailable p = gasAvailable rt" using c sd by (auto simp: call_post_def)
  have a: "world_ok env w1" "below (Snapshot (cstate w)) (cstate w1)" using c sd by (auto simp: call_post_def wstep_def)
  obtain st where st: "Revert (cstate w1) = Some st" "world_ok env (w1\<lparr>cstate := st\<rparr>)" "below (Snapshot (cstate w)) st"
      "vview env (w1\<lparr>cstate := st\<rparr>) = vview env w"
    using sends.revert_ok [OF w a] by blast
  have t: "tree_ok (cstate w)" "tree_ok st" using w st(2) by (simp_all add: world_ok_def)
  obtain st' where st': "ClearSnapshot st = Some st'" "below (cstate w) st'" "view (tree env) st' = view (tree env) st"
    using ClearSnapshot_below_snapshot [OF t st(3)] by blast
  have "ClearSnapshot (cstate w1) \<noteq> None"
    using ClearSnapshot_below_snapshot [OF t(1) _ a(2)] a(1) by (metis option.simps(3) world_ok_def)
  then obtain subrt where "r1 = Inr (rval, Some e, subrt)"
    using assms(2) sd p(1) st(1) st'(1)
    by (auto simp: internalSend_def Let_def clear_after_def split: sum.splits option.splits if_splits)
  then have "rt' = p\<lparr>numActorsCreated := numActorsCreated subrt\<rparr>" "w' = w1\<lparr>cstate := st'\<rparr>"
    using assms(2) sd p(1) st(1) st'(1) by (simp_all add: internalSend_def clear_after_def)
  then show ?thesis using st(4) st' p(2) by (simp add: vview_def)
qed

definition example_rt :: "int \<Rightarrow> int \<Rightarrow> Runtime" where
  "example_rt used limit =
     \<lparr>rtCaller = AddrID 100, rtReceiver = AddrID 101, rtValue = Some 0, rtLegacyMsg = False, gasAvailable = limit,
      gasUsed = used, origin = AddrID 100, originNonce = 0, rtDepth = 0, numActorsCreated = 0, allowInternal = True,
      callerValidated = False\<rparr>"

lemma fst_eq: "fst p = x \<Longrightarrow> \<exists>y z. p = (x, (y, z))"
  by (cases p) auto

lemma example_nested:
  "fst (internalSend (send (example_vm 15) 3) (AddrID 100) (AddrID 101) 2 5 [] (example_rt 0 10000000, example_world))
    = Inr ([], Some (NewErr 33))"
  by code_simp

theorem failed_nested_send_restores_witness:
  "\<exists>rval e rt' w'. internalSend (send (example_vm 15) 3) (AddrID 100) (AddrID 101) 2 5 []
      (example_rt 0 10000000, example_world) = (Inr (rval, Some e), (rt', w'))
    \<and> retCode e = 33 \<and> vview (example_vm 15) w' = vview (example_vm 15) example_world"
proof -
  obtain rval e rt' w' where n: "internalSend (send (example_vm 15) 3) (AddrID 100) (AddrID 101) 2 5 []
      (example_rt 0 10000000, example_world) = (Inr (rval, Some e), (rt', w'))" "retCode e = 33"
    using fst_eq [OF example_nested] by (auto simp: NewErr_def)
  have "rts_ok (example_vm 15) (example_rt 0 10000000, example_world)"
    by (simp add: rts_ok_def example_world_ok example_rt_def)
  then show ?thesis using failed_nested_send_restores [OF _ n(1)] n by blast
qed

text \<open>
  An actor method that succeeds has validated its caller. Whatever the method does, \<open>Invoke\<close>
  gives a result without an error only if one of the caller checks was made during the call.
\<close>

theorem invoke_requires_validation:
  assumes "Invoke env callee act method params (rt, w) = (Inr (rval, None), (rt', w'))"
  shows "callerValidated rt'"
  using assms
  by (auto simp: Invoke_def shimCall_def ret_def Absorb_def
      split: option.splits if_splits prod.splits sum.splits panic.splits ret_val.splits)

lemma example_invoke:
  "fst (Invoke (example_vm 15) (send (example_vm 15) 1) ((example_actor 50)\<lparr>Code := ''app''\<rparr>) 3 []
     (example_rt 0 10000000, example_world)) = Inr ([1, 2], None)"
  "fst (Invoke (example_vm 15) (send (example_vm 15) 1) ((example_actor 50)\<lparr>Code := ''app''\<rparr>) 4 []
     (example_rt 0 10000000, example_world)) = Inr ([], Some (NewErr SysErrorIllegalActor))"
  by code_simp+

theorem invoke_requires_validation_witness:
  "\<exists>rt' w'. Invoke (example_vm 15) (send (example_vm 15) 1) ((example_actor 50)\<lparr>Code := ''app''\<rparr>) 3 []
     (example_rt 0 10000000, example_world) = (Inr ([1, 2], None), (rt', w')) \<and> callerValidated rt'"
proof -
  obtain rt' w' where "Invoke (example_vm 15) (send (example_vm 15) 1) ((example_actor 50)\<lparr>Code := ''app''\<rparr>) 3 []
     (example_rt 0 10000000, example_world) = (Inr ([1, 2], None), (rt', w'))"
    using fst_eq [OF example_invoke(1)] by blast
  then show ?thesis using invoke_requires_validation by blast
qed

text \<open>
  Gas metering is exact and never runs past the limit. A charge that is not negative, on a
  runtime whose use is within its limit, is either added in full, or fails with out-of-gas exactly
  when use and charge together exceed the limit, and then the whole limit counts as used.
\<close>

theorem charge_gas_exact:
  assumes "gas_in rt" and "0 \<le> Total gas"
  shows "chargeGasInternal gas (rt, w) =
    (if gasUsed rt + Total gas \<le> gasAvailable rt
     then (Inr None, (rt\<lparr>gasUsed := gasUsed rt + Total gas\<rparr>, w))
     else (Inr (Some (NewErr SysErrOutOfGas)), (rt\<lparr>gasUsed := gasAvailable rt\<rparr>, w)))"
proof -
  have "in64 (Total gas)" by (simp add: Total_def add64_def)
  then have "in64 (gasAvailable rt - Total gas)" using assms by (auto simp: gas_in_def in64_def)
  then have "sub64 (gasAvailable rt) (Total gas) < gasUsed rt \<longleftrightarrow> \<not> gasUsed rt + Total gas \<le> gasAvailable rt"
    by (auto simp: i64_simps)
  then show ?thesis
    using gas_in_charge [OF assms] by (simp add: chargeGasInternal_def Let_def)
qed

theorem charge_gas_exact_witness:
  "chargeGasInternal (newGasCharge ''x'' 5 2) (example_rt 90 100, example_world)
      = (Inr None, (example_rt 97 100, example_world))
   \<and> chargeGasInternal (newGasCharge ''x'' 5 6) (example_rt 90 100, example_world)
      = (Inr (Some (NewErr SysErrOutOfGas)), (example_rt 100 100, example_world))"
proof -
  have "gas_in (example_rt 90 100)" by (simp add: gas_in_def example_rt_def in64_def)
  moreover have "Total (newGasCharge ''x'' 5 2) = 7" "Total (newGasCharge ''x'' 5 6) = 11"
    by (simp_all add: Total_def newGasCharge_def i64_simps in64_def)
  ultimately show ?thesis
    using charge_gas_exact [of "example_rt 90 100" "newGasCharge ''x'' 5 2" example_world]
      charge_gas_exact [of "example_rt 90 100" "newGasCharge ''x'' 5 6" example_world]
    by (simp add: example_rt_def)
qed


text \<open>
  The comment at the comparison in \<open>chargeGasInternal\<close> calls it overflow safe. That holds for charges
  that are not negative. A negative charge on top of a very negative use wraps around and leaves a
  use far beyond the limit, without an error.
\<close>

lemma charge_gas_wraps:
  "chargeGasInternal (newGasCharge ''refund'' (- 2) 0) (example_rt (- (2 ^ 63) + 1) 100, example_world)
     = (Inr None, (example_rt (2 ^ 63 - 1) 100, example_world))"
  by code_simp

text \<open>
  From network version 15 on, a transfer succeeds only if its amount is not negative and the
  sender holds it, also when sender and receiver are the same actor; before, a transfer to oneself
  succeeded whatever its amount.
\<close>

theorem transfer_to_self_needs_balance:
  assumes "world_ok env w"
  shows "transfer env a a amt 14 w = (Inr None, w)
    \<and> (\<forall>w'. transfer env a b amt 15 w = (Inr None, w') \<longrightarrow>
         0 \<le> amt \<and> (\<exists>i f. known (cstate w') a i \<and> vview env w i = Some f \<and> amt \<le> Balance f))"
  using postD [OF post_transfer_v15 [OF assms, of 15 a b amt]] by (auto simp: transfer_def ret_def)

lemma example_self_transfer:
  "fst (transfer (example_vm 15) (AddrID 101) (AddrID 101) 51 15 example_world) = Inr (Some (NewErr SysErrInsufficientFunds))"
  by code_simp

theorem transfer_to_self_needs_balance_witness:
  "transfer (example_vm 15) (AddrID 101) (AddrID 101) 51 14 example_world = (Inr None, example_world)
    \<and> fst (transfer (example_vm 15) (AddrID 101) (AddrID 101) 51 15 example_world) = Inr (Some (NewErr SysErrInsufficientFunds))"
  using transfer_to_self_needs_balance [OF example_world_ok, of 15 "AddrID 101" 51] example_self_transfer by blast

text \<open>
  A message of the system is free and does not mint either: an implicit message reports no gas
  used, reports an exit code other than 0 exactly for an error that is not fatal, leaves no balance
  negative, and does not let the sum of all balances grow. There is no snapshot around it.
\<close>

theorem implicit_message_free:
  assumes "world_ok env w" and "ApplyImplicitMessage env fuel msg w = (Inr (receipt, err), w')"
  shows "GasUsed receipt = 0 \<and> ActorErr receipt = err \<and> (ExitCode receipt = 0 \<longleftrightarrow> err = None \<or> IsFatal err)
    \<and> funds_ok (vview env w') \<and> total_funds (vview env w') \<le> total_funds (vview env w) \<and> below (cstate w) (cstate w')"
proof -
  have "call_pre env None None w" using assms(1) by (simp add: call_pre_def call_depth_def)
  note c = sends.callee_ok [OF this, of fuel msg]
  obtain r p1 w1 where sd: "send env fuel msg None None w = (r, p1, w1)" by (metis prod_cases3)
  then obtain rval rt where r: "r = Inr (rval, err, rt)" "w' = w1"
      "receipt = \<lparr>ExitCode = RetCode err, Return = rval, GasUsed = 0, ActorErr = err, GasCosts = None\<rparr>"
    using assms(2) by (auto simp: ApplyImplicitMessage_def split: sum.splits)
  have "aerrs_ok err" "world_ok env w'" "wstep env w w'" using c sd r by (auto simp: call_post_def)
  moreover have "RetCode err = 0 \<longleftrightarrow> err = None \<or> IsFatal err"
    using \<open>aerrs_ok err\<close> by (cases err) (auto simp: aerr_ok_def IsFatal_def RetCode_def)
  ultimately show ?thesis using r(3) by (simp add: world_ok_def wstep_def)
qed

lemma example_implicit:
  "fst (ApplyImplicitMessage (example_vm 15) 4 (example_msg 0 3) example_world)
    = Inr (\<lparr>ExitCode = 0, Return = [1, 2], GasUsed = 0, ActorErr = None, GasCosts = None\<rparr>, None)"
  by code_simp

theorem implicit_message_free_witness:
  "\<exists>w'. ApplyImplicitMessage (example_vm 15) 4 (example_msg 0 3) example_world
      = (Inr (\<lparr>ExitCode = 0, Return = [1, 2], GasUsed = 0, ActorErr = None, GasCosts = None\<rparr>, None), w')
    \<and> total_funds (vview (example_vm 15) w') \<le> total_funds (vview (example_vm 15) example_world)"
proof -
  obtain w' where "ApplyImplicitMessage (example_vm 15) 4 (example_msg 0 3) example_world
      = (Inr (\<lparr>ExitCode = 0, Return = [1, 2], GasUsed = 0, ActorErr = None, GasCosts = None\<rparr>, None), w')"
    using example_implicit by (metis prod.collapse)
  then show ?thesis using implicit_message_free [OF example_world_ok] by blast
qed


end
