(* ===== verification/SealingState.thy ===== *)
theory SealingState
  imports Lotus_Prelude "HOL-Library.AList"
begin

section \<open>Sealing: sector states, sector records, statistics\<close>

text \<open>
  Models \<open>src/storage/pipeline/sector_state.go\<close> (the states of a sector and their grouping),
  \<open>src/storage/pipeline/types.go\<close> (the record kept for a sector and the functions on its pieces) and
  \<open>src/storage/pipeline/stats.go\<close> (the counters that throttle the intake of deals).

  A \<open>SectorState\<close> is a string, as in Go: a state can be forced from outside to any string, so the
  named constants are not all the values there are. A pointer that may be nil is an option.
\<close>

subsection \<open>Sector states\<close>

type_synonym SectorState = string

abbreviation (input) UndefinedSectorState :: SectorState where "UndefinedSectorState \<equiv> []"

abbreviation (input) Empty :: SectorState where "Empty \<equiv> ''Empty''"
abbreviation (input) WaitDeals :: SectorState where "WaitDeals \<equiv> ''WaitDeals''"
abbreviation (input) AddPiece :: SectorState where "AddPiece \<equiv> ''AddPiece''"
abbreviation (input) Packing :: SectorState where "Packing \<equiv> ''Packing''"
abbreviation (input) GetTicket :: SectorState where "GetTicket \<equiv> ''GetTicket''"
abbreviation (input) PreCommit1 :: SectorState where "PreCommit1 \<equiv> ''PreCommit1''"
abbreviation (input) PreCommit2 :: SectorState where "PreCommit2 \<equiv> ''PreCommit2''"
abbreviation (input) PreCommitting :: SectorState where "PreCommitting \<equiv> ''PreCommitting''"
abbreviation (input) PreCommitWait :: SectorState where "PreCommitWait \<equiv> ''PreCommitWait''"
abbreviation (input) SubmitPreCommitBatch :: SectorState where "SubmitPreCommitBatch \<equiv> ''SubmitPreCommitBatch''"
abbreviation (input) PreCommitBatchWait :: SectorState where "PreCommitBatchWait \<equiv> ''PreCommitBatchWait''"
abbreviation (input) WaitSeed :: SectorState where "WaitSeed \<equiv> ''WaitSeed''"
abbreviation (input) Committing :: SectorState where "Committing \<equiv> ''Committing''"
abbreviation (input) CommitFinalize :: SectorState where "CommitFinalize \<equiv> ''CommitFinalize''"
abbreviation (input) CommitFinalizeFailed :: SectorState where "CommitFinalizeFailed \<equiv> ''CommitFinalizeFailed''"
abbreviation (input) SubmitCommit :: SectorState where "SubmitCommit \<equiv> ''SubmitCommit''"
abbreviation (input) CommitWait :: SectorState where "CommitWait \<equiv> ''CommitWait''"
abbreviation (input) SubmitCommitAggregate :: SectorState where "SubmitCommitAggregate \<equiv> ''SubmitCommitAggregate''"
abbreviation (input) CommitAggregateWait :: SectorState where "CommitAggregateWait \<equiv> ''CommitAggregateWait''"
abbreviation (input) FinalizeSector :: SectorState where "FinalizeSector \<equiv> ''FinalizeSector''"
abbreviation (input) Proving :: SectorState where "Proving \<equiv> ''Proving''"
abbreviation (input) Available :: SectorState where "Available \<equiv> ''Available''"
abbreviation (input) SnapDealsWaitDeals :: SectorState where "SnapDealsWaitDeals \<equiv> ''SnapDealsWaitDeals''"
abbreviation (input) SnapDealsAddPiece :: SectorState where "SnapDealsAddPiece \<equiv> ''SnapDealsAddPiece''"
abbreviation (input) SnapDealsPacking :: SectorState where "SnapDealsPacking \<equiv> ''SnapDealsPacking''"
abbreviation (input) UpdateReplica :: SectorState where "UpdateReplica \<equiv> ''UpdateReplica''"
abbreviation (input) ProveReplicaUpdate :: SectorState where "ProveReplicaUpdate \<equiv> ''ProveReplicaUpdate''"
abbreviation (input) SubmitReplicaUpdate :: SectorState where "SubmitReplicaUpdate \<equiv> ''SubmitReplicaUpdate''"
abbreviation (input) ReplicaUpdateWait :: SectorState where "ReplicaUpdateWait \<equiv> ''ReplicaUpdateWait''"
abbreviation (input) FinalizeReplicaUpdate :: SectorState where "FinalizeReplicaUpdate \<equiv> ''FinalizeReplicaUpdate''"
abbreviation (input) UpdateActivating :: SectorState where "UpdateActivating \<equiv> ''UpdateActivating''"
abbreviation (input) ReleaseSectorKey :: SectorState where "ReleaseSectorKey \<equiv> ''ReleaseSectorKey''"
abbreviation (input) ReceiveSector :: SectorState where "ReceiveSector \<equiv> ''ReceiveSector''"
abbreviation (input) FailedUnrecoverable :: SectorState where "FailedUnrecoverable \<equiv> ''FailedUnrecoverable''"
abbreviation (input) AddPieceFailed :: SectorState where "AddPieceFailed \<equiv> ''AddPieceFailed''"
abbreviation (input) SealPreCommit1Failed :: SectorState where "SealPreCommit1Failed \<equiv> ''SealPreCommit1Failed''"
abbreviation (input) SealPreCommit2Failed :: SectorState where "SealPreCommit2Failed \<equiv> ''SealPreCommit2Failed''"
abbreviation (input) PreCommitFailed :: SectorState where "PreCommitFailed \<equiv> ''PreCommitFailed''"
abbreviation (input) ComputeProofFailed :: SectorState where "ComputeProofFailed \<equiv> ''ComputeProofFailed''"
abbreviation (input) RemoteCommitFailed :: SectorState where "RemoteCommitFailed \<equiv> ''RemoteCommitFailed''"
abbreviation (input) CommitFailed :: SectorState where "CommitFailed \<equiv> ''CommitFailed''"
abbreviation (input) PackingFailed :: SectorState where "PackingFailed \<equiv> ''PackingFailed''"
abbreviation (input) FinalizeFailed :: SectorState where "FinalizeFailed \<equiv> ''FinalizeFailed''"
abbreviation (input) DealsExpired :: SectorState where "DealsExpired \<equiv> ''DealsExpired''"
abbreviation (input) RecoverDealIDs :: SectorState where "RecoverDealIDs \<equiv> ''RecoverDealIDs''"
abbreviation (input) SnapDealsAddPieceFailed :: SectorState where "SnapDealsAddPieceFailed \<equiv> ''SnapDealsAddPieceFailed''"
abbreviation (input) SnapDealsDealsExpired :: SectorState where "SnapDealsDealsExpired \<equiv> ''SnapDealsDealsExpired''"
abbreviation (input) SnapDealsRecoverDealIDs :: SectorState where "SnapDealsRecoverDealIDs \<equiv> ''SnapDealsRecoverDealIDs''"
abbreviation (input) AbortUpgrade :: SectorState where "AbortUpgrade \<equiv> ''AbortUpgrade''"
abbreviation (input) ReplicaUpdateFailed :: SectorState where "ReplicaUpdateFailed \<equiv> ''ReplicaUpdateFailed''"
abbreviation (input) ReleaseSectorKeyFailed :: SectorState where "ReleaseSectorKeyFailed \<equiv> ''ReleaseSectorKeyFailed''"
abbreviation (input) FinalizeReplicaUpdateFailed :: SectorState where "FinalizeReplicaUpdateFailed \<equiv> ''FinalizeReplicaUpdateFailed''"
abbreviation (input) Faulty :: SectorState where "Faulty \<equiv> ''Faulty''"
abbreviation (input) FaultReported :: SectorState where "FaultReported \<equiv> ''FaultReported''"
abbreviation (input) FaultedFinal :: SectorState where "FaultedFinal \<equiv> ''FaultedFinal''"
abbreviation (input) Terminating :: SectorState where "Terminating \<equiv> ''Terminating''"
abbreviation (input) TerminateWait :: SectorState where "TerminateWait \<equiv> ''TerminateWait''"
abbreviation (input) TerminateFinality :: SectorState where "TerminateFinality \<equiv> ''TerminateFinality''"
abbreviation (input) TerminateFailed :: SectorState where "TerminateFailed \<equiv> ''TerminateFailed''"
abbreviation (input) Removing :: SectorState where "Removing \<equiv> ''Removing''"
abbreviation (input) RemoveFailed :: SectorState where "RemoveFailed \<equiv> ''RemoveFailed''"
abbreviation (input) Removed :: SectorState where "Removed \<equiv> ''Removed''"

definition ExistSectorStateList :: "SectorState list" where
  "ExistSectorStateList =
     [Empty, WaitDeals, Packing, AddPiece, AddPieceFailed, GetTicket, PreCommit1, PreCommit2, PreCommitting,
      PreCommitWait, SubmitPreCommitBatch, PreCommitBatchWait, WaitSeed, Committing, CommitFinalize,
      CommitFinalizeFailed, SubmitCommit, CommitWait, SubmitCommitAggregate, CommitAggregateWait, FinalizeSector,
      Proving, Available, FailedUnrecoverable, SealPreCommit1Failed, SealPreCommit2Failed, PreCommitFailed,
      ComputeProofFailed, RemoteCommitFailed, CommitFailed, PackingFailed, FinalizeFailed, DealsExpired,
      RecoverDealIDs, Faulty, FaultReported, FaultedFinal, Terminating, TerminateWait, TerminateFinality,
      TerminateFailed, Removing, RemoveFailed, Removed, SnapDealsWaitDeals, SnapDealsAddPiece, SnapDealsPacking,
      UpdateReplica, ProveReplicaUpdate, SubmitReplicaUpdate, ReplicaUpdateWait, UpdateActivating,
      ReleaseSectorKey, FinalizeReplicaUpdate, SnapDealsAddPieceFailed, SnapDealsDealsExpired,
      SnapDealsRecoverDealIDs, ReplicaUpdateFailed, ReleaseSectorKeyFailed, FinalizeReplicaUpdateFailed,
      AbortUpgrade, ReceiveSector]"

datatype statSectorState = sstStaging | sstSealing | sstFailed | sstProving

definition toStatState :: "SectorState \<Rightarrow> bool \<Rightarrow> statSectorState" where
  "toStatState st finEarly =
     (if st \<in> set [UndefinedSectorState, Empty, WaitDeals, AddPiece, AddPieceFailed, SnapDealsWaitDeals,
          SnapDealsAddPiece] then sstStaging
      else if st \<in> set [Packing, GetTicket, PreCommit1, PreCommit2, PreCommitting, PreCommitWait,
          SubmitPreCommitBatch, PreCommitBatchWait, WaitSeed, Committing, CommitFinalize, FinalizeSector,
          SnapDealsPacking, UpdateReplica, ProveReplicaUpdate, FinalizeReplicaUpdate, ReceiveSector]
      then sstSealing
      else if st \<in> set [SubmitCommit, CommitWait, SubmitCommitAggregate, CommitAggregateWait,
          SubmitReplicaUpdate, ReplicaUpdateWait]
      then (if finEarly then sstProving else sstSealing)
      else if st \<in> set [Proving, Available, UpdateActivating, ReleaseSectorKey, Removed, Removing, Terminating,
          TerminateWait, TerminateFinality, TerminateFailed]
      then sstProving
      else sstFailed)"

definition IsUpgradeState :: "SectorState \<Rightarrow> bool" where
  "IsUpgradeState st \<longleftrightarrow>
     st \<in> set [SnapDealsWaitDeals, SnapDealsAddPiece, SnapDealsPacking, UpdateReplica, ProveReplicaUpdate,
       SubmitReplicaUpdate, SnapDealsAddPieceFailed, SnapDealsDealsExpired, SnapDealsRecoverDealIDs, AbortUpgrade,
       ReplicaUpdateFailed, ReleaseSectorKeyFailed, FinalizeReplicaUpdateFailed]"

subsection \<open>Sector records\<close>

record PieceInfo =
  Size :: int
  PieceCID :: cid

text \<open>A deal. The proposal is a value of the market actor, of which nothing is read here.\<close>

record PieceDealInfo =
  PublishCid :: "cid option"
  DealID :: nat
  DealProposal :: "bytes option"
  StartEpoch :: epoch
  EndEpoch :: epoch
  KeepUnsealed :: bool

record SectorPiece =
  Piece :: PieceInfo
  DealInfo :: "PieceDealInfo option"

record SectorLocation =
  LocLocal :: bool
  LocURL :: string
  LocHeaders :: "(string \<times> string) list"

record Log =
  Timestamp :: int
  Trace :: string
  LogMessage :: string
  Kind :: string

type_synonym ReturnState = string

record SectorInfo =
  State :: SectorState
  SectorNumber :: nat
  SectorType :: int
  CreationTime :: int
  Pieces :: "SectorPiece list"
  TicketValue :: bytes
  TicketEpoch :: epoch
  PreCommit1Out :: bytes
  CommD :: "cid option"
  CommR :: "cid option"
  Proof :: bytes
  PreCommitDeposit :: "token option"
  PreCommitMessage :: "cid option"
  PreCommitTipSet :: "cid list"
  PreCommit2Fails :: int
  SeedValue :: bytes
  SeedEpoch :: epoch
  CommitMessage :: "cid option"
  InvalidProofs :: int
  CCUpdate :: bool
  CCPieces :: "SectorPiece list"
  UpdateSealed :: "cid option"
  UpdateUnsealed :: "cid option"
  ReplicaUpdateProof :: bytes
  ReplicaUpdateMessage :: "cid option"
  FaultReportMsg :: "cid option"
  ReturnTo :: ReturnState
  TerminateMessage :: "cid option"
  TerminatedAt :: epoch
  RemoteDataUnsealed :: "SectorLocation option"
  RemoteDataSealed :: "SectorLocation option"
  RemoteDataCache :: "SectorLocation option"
  RemoteCommit1Endpoint :: string
  RemoteCommit2Endpoint :: string
  RemoteSealingDoneEndpoint :: string
  RemoteDataFinalized :: bool
  LastErr :: string
  SectorLog :: "Log list"

definition pieceInfos :: "SectorInfo \<Rightarrow> PieceInfo list" where
  "pieceInfos t = map Piece (Pieces t)"

fun dealIDs_of :: "SectorPiece list \<Rightarrow> nat list" where
  "dealIDs_of [] = []"
| "dealIDs_of (p # ps) =
     (case DealInfo p of None \<Rightarrow> dealIDs_of ps | Some d \<Rightarrow> DealID d # dealIDs_of ps)"

definition dealIDs :: "SectorInfo \<Rightarrow> nat list" where
  "dealIDs t = dealIDs_of (Pieces t)"

text \<open>\<open>PaddedPieceSize.Unpadded\<close> is not part of the repository: the function \<open>unpadded\<close>.\<close>

definition existingPieceSizes :: "(int \<Rightarrow> int) \<Rightarrow> SectorInfo \<Rightarrow> int list" where
  "existingPieceSizes unpadded t = map (\<lambda>p. unpadded (Size (Piece p))) (Pieces t)"

definition hasDeals :: "SectorInfo \<Rightarrow> bool" where
  "hasDeals t = list_ex (\<lambda>p. DealInfo p \<noteq> None) (Pieces t)"

record Range =
  Offset :: int
  RangeSize :: int

fun keepUnsealedRanges_from ::
  "(int \<Rightarrow> int) \<Rightarrow> int \<Rightarrow> SectorPiece list \<Rightarrow> bool \<Rightarrow> bool \<Rightarrow> Range list"
where
  "keepUnsealedRanges_from unpadded at [] invert alwaysKeep = []"
| "keepUnsealedRanges_from unpadded at (p # ps) invert alwaysKeep =
     (let psize = unpadded (Size (Piece p));
          at = wrapu64 (at + psize);
          rest = keepUnsealedRanges_from unpadded at ps invert alwaysKeep
      in case DealInfo p of
           None \<Rightarrow> rest
         | Some d \<Rightarrow>
             if (KeepUnsealed d \<or> alwaysKeep) = invert then rest
             else \<lparr>Offset = wrapu64 (at - psize), RangeSize = psize\<rparr> # rest)"

definition keepUnsealedRanges :: "(int \<Rightarrow> int) \<Rightarrow> SectorPiece list \<Rightarrow> bool \<Rightarrow> bool \<Rightarrow> Range list" where
  "keepUnsealedRanges unpadded pieces invert alwaysKeep =
     keepUnsealedRanges_from unpadded 0 pieces invert alwaysKeep"

subsection \<open>Statistics\<close>

text \<open>The part of the sealing configuration the statistics read, and the counters. A sector is named by its miner and number.\<close>

record SealConfig =
  FinalizeEarly :: bool
  MaxSealingSectorsForDeals :: int
  MaxWaitDealsSectors :: int

record SectorStats =
  bySector :: "((nat \<times> nat) \<times> SectorState) list"
  byState :: "SectorState \<Rightarrow> int"
  totals :: "statSectorState \<Rightarrow> int"

definition newSectorStats :: SectorStats where
  "newSectorStats = \<lparr>bySector = [], byState = (\<lambda>_. 0), totals = (\<lambda>_. 0)\<rparr>"

definition curSealing :: "SectorStats \<Rightarrow> int" where
  "curSealing ss = wrapu64 (wrapu64 (totals ss sstStaging + totals ss sstSealing) + totals ss sstFailed)"

definition curStaging :: "SectorStats \<Rightarrow> int" where
  "curStaging ss = totals ss sstStaging"

text \<open>The counters are a \<open>uint64\<close> per group and an \<open>int64\<close> per state; going below 0 wraps around.\<close>

definition updateSector ::
  "SealConfig \<Rightarrow> (nat \<times> nat) \<Rightarrow> SectorState \<Rightarrow> SectorStats \<Rightarrow> bool \<times> SectorStats"
where
  "updateSector cfg sid st ss =
     (let preSealing = curSealing ss;
          preStaging = curStaging ss;
          ss1 = (case map_of (bySector ss) sid of
                   None \<Rightarrow> ss
                 | Some oldst \<Rightarrow>
                     let g = toStatState oldst (FinalizeEarly cfg)
                     in ss\<lparr>totals := (totals ss)(g := wrapu64 (totals ss g - 1)),
                           byState := (byState ss)(oldst := sub64 (byState ss oldst) 1)\<rparr>);
          sst = toStatState st (FinalizeEarly cfg);
          ss2 = ss1\<lparr>bySector := AList.update sid st (bySector ss1),
                    totals := (totals ss1)(sst := wrapu64 (totals ss1 sst + 1)),
                    byState := (byState ss1)(st := add64 (byState ss1 st) 1)\<rparr>;
          sealing = curSealing ss2;
          staging = curStaging ss2
      in (MaxSealingSectorsForDeals cfg > 0 \<and> preSealing \<ge> MaxSealingSectorsForDeals cfg
            \<and> sealing < MaxSealingSectorsForDeals cfg
          \<or> MaxWaitDealsSectors cfg > 0 \<and> preStaging \<ge> MaxWaitDealsSectors cfg
            \<and> staging < MaxWaitDealsSectors cfg,
          ss2))"

subsection \<open>Ranges to keep unsealed\<close>

text \<open>The start of a piece in its sector, and the pieces a call selects.\<close>

definition piece_sizes :: "(int \<Rightarrow> int) \<Rightarrow> SectorPiece list \<Rightarrow> int list" where
  "piece_sizes unpadded ps = map (\<lambda>p. unpadded (Size (Piece p))) ps"

definition piece_start :: "(int \<Rightarrow> int) \<Rightarrow> SectorPiece list \<Rightarrow> nat \<Rightarrow> int" where
  "piece_start unpadded ps i = sum_list (take i (piece_sizes unpadded ps))"

definition selected :: "bool \<Rightarrow> bool \<Rightarrow> SectorPiece \<Rightarrow> bool" where
  "selected invert alwaysKeep p =
     (case DealInfo p of None \<Rightarrow> False | Some d \<Rightarrow> (KeepUnsealed d \<or> alwaysKeep) \<noteq> invert)"

definition sizes_ok :: "(int \<Rightarrow> int) \<Rightarrow> SectorPiece list \<Rightarrow> bool" where
  "sizes_ok unpadded ps \<longleftrightarrow> list_all (\<lambda>s. 0 \<le> s) (piece_sizes unpadded ps) \<and> sum_list (piece_sizes unpadded ps) < 2 ^ 64"

lemma ranges_from:
  assumes "list_all (\<lambda>s. 0 \<le> s) (piece_sizes unpadded ps)" and "0 \<le> at"
    and "at + sum_list (piece_sizes unpadded ps) < 2 ^ 64"
  shows "keepUnsealedRanges_from unpadded at ps invert alwaysKeep =
    map (\<lambda>i. \<lparr>Offset = at + piece_start unpadded ps i, RangeSize = piece_sizes unpadded ps ! i\<rparr>)
      (filter (\<lambda>i. selected invert alwaysKeep (ps ! i)) [0..<length ps])"
  using assms
proof (induction ps arbitrary: at)
  case Nil
  then show ?case by simp
next
  case (Cons p ps)
  let ?s = "unpadded (Size (Piece p))"
  have s: "0 \<le> ?s" "list_all (\<lambda>s. 0 \<le> s) (piece_sizes unpadded ps)" using Cons.prems(1) by (simp_all add: piece_sizes_def)
  have "0 \<le> sum_list (piece_sizes unpadded ps)" using s(2) by (intro sum_list_nonneg) (auto simp: list_all_iff)
  then have w: "wrapu64 (at + ?s) = at + ?s" "wrapu64 at = at"
    using Cons.prems s by (simp_all add: piece_sizes_def wrapu64_def)
  have ih: "keepUnsealedRanges_from unpadded (at + ?s) ps invert alwaysKeep =
    map (\<lambda>i. \<lparr>Offset = at + ?s + piece_start unpadded ps i, RangeSize = piece_sizes unpadded ps ! i\<rparr>)
      (filter (\<lambda>i. selected invert alwaysKeep (ps ! i)) [0..<length ps])"
    using Cons.prems s by (intro Cons.IH) (simp_all add: piece_sizes_def add.assoc)
  have up: "[0..<length (p # ps)] = 0 # map Suc [0..<length ps]" by (simp add: upt_conv_Cons map_Suc_upt del: upt_Suc)
  show ?case
    unfolding up using ih w
    by (simp add: Let_def selected_def filter_map o_def piece_start_def piece_sizes_def add.assoc split: option.splits)
qed

text \<open>
  The ranges kept unsealed are exactly the kept deals. For pieces whose sizes add up without
  overflow, \<open>keepUnsealedRanges\<close> lists, in order, one range for every piece that belongs to a deal
  and is to be kept (or, inverted, not to be kept): it starts where the sizes of the pieces before it
  add up to and has the piece's size. The call and its inverted form share out the deals between them.
\<close>

theorem keep_unsealed_ranges_exact:
  assumes "sizes_ok unpadded pieces"
  shows "keepUnsealedRanges unpadded pieces invert alwaysKeep =
      map (\<lambda>i. \<lparr>Offset = piece_start unpadded pieces i, RangeSize = piece_sizes unpadded pieces ! i\<rparr>)
        (filter (\<lambda>i. selected invert alwaysKeep (pieces ! i)) [0..<length pieces])
    \<and> length (keepUnsealedRanges unpadded pieces True alwaysKeep) + length (keepUnsealedRanges unpadded pieces False alwaysKeep)
        = length (dealIDs_of pieces)"
proof -
  have r: "keepUnsealedRanges unpadded pieces inv alwaysKeep =
      map (\<lambda>i. \<lparr>Offset = piece_start unpadded pieces i, RangeSize = piece_sizes unpadded pieces ! i\<rparr>)
        (filter (\<lambda>i. selected inv alwaysKeep (pieces ! i)) [0..<length pieces])" for inv
    using assms ranges_from [of unpadded pieces 0 inv alwaysKeep] by (simp add: keepUnsealedRanges_def sizes_ok_def)
  have "length (keepUnsealedRanges_from unpadded at ps True alwaysKeep)
      + length (keepUnsealedRanges_from unpadded at ps False alwaysKeep) = length (dealIDs_of ps)" for at ps
    by (induction ps arbitrary: at) (auto simp: Let_def split: option.splits)
  from this [of 0 pieces] show ?thesis using r [of invert] by (auto simp: keepUnsealedRanges_def)
qed

definition example_pieces :: "SectorPiece list" where
  "example_pieces =
     [\<lparr>Piece = \<lparr>Size = 256, PieceCID = ''a''\<rparr>, DealInfo = Some \<lparr>PublishCid = None, DealID = 1, DealProposal = None,
        StartEpoch = 0, EndEpoch = 9, KeepUnsealed = True\<rparr>\<rparr>,
      \<lparr>Piece = \<lparr>Size = 128, PieceCID = ''f''\<rparr>, DealInfo = None\<rparr>,
      \<lparr>Piece = \<lparr>Size = 512, PieceCID = ''b''\<rparr>, DealInfo = Some \<lparr>PublishCid = None, DealID = 2, DealProposal = None,
        StartEpoch = 0, EndEpoch = 9, KeepUnsealed = True\<rparr>\<rparr>]"

theorem keep_unsealed_ranges_exact_witness:
  "keepUnsealedRanges (\<lambda>s. s - s div 128) example_pieces False False
     = [\<lparr>Offset = 0, RangeSize = 254\<rparr>, \<lparr>Offset = 381, RangeSize = 508\<rparr>]
   \<and> sizes_ok (\<lambda>s. s - s div 128) example_pieces
   \<and> length (keepUnsealedRanges (\<lambda>s. s - s div 128) example_pieces True False)
      + length (keepUnsealedRanges (\<lambda>s. s - s div 128) example_pieces False False) = 2"
proof -
  have "sizes_ok (\<lambda>s. s - s div 128) example_pieces" by code_simp
  moreover have "keepUnsealedRanges (\<lambda>s. s - s div 128) example_pieces False False
      = [\<lparr>Offset = 0, RangeSize = 254\<rparr>, \<lparr>Offset = 381, RangeSize = 508\<rparr>]" "length (dealIDs_of example_pieces) = 2"
    by code_simp+
  ultimately show ?thesis using keep_unsealed_ranges_exact [of "\<lambda>s. s - s div 128" example_pieces False False] by auto
qed

subsection \<open>The counters\<close>

text \<open>The number of sectors on record with a property, and the invariant of the counters for a fixed setting.\<close>

definition sectors_with :: "(SectorState \<Rightarrow> bool) \<Rightarrow> SectorStats \<Rightarrow> int" where
  "sectors_with P ss = int (length (filter (\<lambda>e. P (snd e)) (bySector ss)))"

definition stats_ok :: "bool \<Rightarrow> SectorStats \<Rightarrow> bool" where
  "stats_ok finEarly ss \<longleftrightarrow> distinct (map fst (bySector ss)) \<and> int (length (bySector ss)) < 2 ^ 63
     \<and> (\<forall>g. totals ss g = sectors_with (\<lambda>st. toStatState st finEarly = g) ss)
     \<and> (\<forall>st. byState ss st = sectors_with (\<lambda>st'. st' = st) ss)"

lemma filter_update:
  assumes "distinct (map fst xs)"
  shows "int (length (filter P (AList.update k v xs)))
    = int (length (filter P xs)) - (case map_of xs k of Some v' \<Rightarrow> if P (k, v') then 1 else 0 | None \<Rightarrow> 0)
      + (if P (k, v) then 1 else 0)"
  using assms by (induction xs) (auto split: option.splits)

lemma filter_found: "map_of xs k = Some v \<Longrightarrow> P (k, v) \<Longrightarrow> 0 < length (filter P xs)"
  by (induction xs) (auto split: if_splits)

lemma length_update:
  "length (AList.update k v xs) = (if map_of xs k = None then length xs + 1 else length xs)"
  by (induction xs) auto

lemma sectors_with_bounds: "0 \<le> sectors_with P ss" "sectors_with P ss \<le> int (length (bySector ss))"
  by (simp_all add: sectors_with_def)

lemma sectors_with_update:
  assumes "distinct (map fst (bySector ss))"
  shows "sectors_with P (ss\<lparr>bySector := AList.update sid st (bySector ss), totals := t, byState := b\<rparr>)
    = sectors_with P ss - (case map_of (bySector ss) sid of Some old \<Rightarrow> if P old then 1 else 0 | None \<Rightarrow> 0)
      + (if P st then 1 else 0)"
  using filter_update [OF assms, of "\<lambda>e. P (snd e)" sid st] by (simp add: sectors_with_def cong: option.case_cong)

lemma sectors_with_found:
  "map_of (bySector ss) sid = Some old \<Longrightarrow> P old \<Longrightarrow> 0 < sectors_with P ss"
  using filter_found [of "bySector ss" sid old "\<lambda>e. P (snd e)"] by (simp add: sectors_with_def)


text \<open>One update moves a counter down for the old state and up for the new one.\<close>

definition bump :: "bool \<Rightarrow> bool \<Rightarrow> int \<Rightarrow> int" where
  "bump down up n = (let m = (if down then wrapu64 (n - 1) else n) in if up then wrapu64 (m + 1) else m)"

definition bump64 :: "bool \<Rightarrow> bool \<Rightarrow> int \<Rightarrow> int" where
  "bump64 down up n = (let m = (if down then sub64 n 1 else n) in if up then add64 m 1 else m)"

lemma bump_exact:
  "0 \<le> n \<Longrightarrow> n + 1 < 2 ^ 63 \<Longrightarrow> (down \<Longrightarrow> 0 < n) \<Longrightarrow>
    bump down up n = n - (if down then 1 else 0) + (if up then 1 else 0)"
  by (simp add: bump_def Let_def wrapu64_def)

lemma bump64_exact:
  "0 \<le> n \<Longrightarrow> n + 1 < 2 ^ 63 \<Longrightarrow> (down \<Longrightarrow> 0 < n) \<Longrightarrow>
    bump64 down up n = n - (if down then 1 else 0) + (if up then 1 else 0)"
  by (simp add: bump64_def Let_def i64_simps in64_def)

lemma updateSector_totals:
  assumes "updateSector cfg sid st ss = (u, ss')"
  shows "totals ss' g = bump (case map_of (bySector ss) sid of None \<Rightarrow> False | Some old \<Rightarrow> toStatState old (FinalizeEarly cfg) = g)
    (toStatState st (FinalizeEarly cfg) = g) (totals ss g)"
  using assms by (auto simp: updateSector_def bump_def Let_def split: option.splits)

lemma updateSector_byState:
  assumes "updateSector cfg sid st ss = (u, ss')"
  shows "byState ss' s = bump64 (case map_of (bySector ss) sid of None \<Rightarrow> False | Some old \<Rightarrow> old = s) (st = s) (byState ss s)"
  using assms by (auto simp: updateSector_def bump64_def Let_def split: option.splits)

text \<open>
  The counters of the sealing pipeline are the numbers of sectors. As long as the setting
  \<open>FinalizeEarly\<close> stays the same, after every update of a sector each group's total and each state's
  count are the numbers of sectors on record in that group and in that state, the totals of the four
  groups add up to the number of sectors, and the sector counts towards the state it was put in.
\<close>

theorem sector_stats_count_sectors:
  assumes "stats_ok (FinalizeEarly cfg) ss" and "int (length (bySector ss)) + 1 < 2 ^ 63"
    and "updateSector cfg sid st ss = (updateInput, ss')"
  shows "stats_ok (FinalizeEarly cfg) ss' \<and> map_of (bySector ss') sid = Some st
    \<and> totals ss' sstStaging + totals ss' sstSealing + totals ss' sstFailed + totals ss' sstProving
        = int (length (bySector ss'))"
proof -
  let ?fe = "FinalizeEarly cfg"
  have ok: "distinct (map fst (bySector ss))" "\<And>g. totals ss g = sectors_with (\<lambda>st. toStatState st ?fe = g) ss"
      "\<And>s. byState ss s = sectors_with (\<lambda>st'. st' = s) ss"
    using assms(1) by (simp_all add: stats_ok_def)
  have bs: "bySector ss' = AList.update sid st (bySector ss)"
    using assms(3) by (auto simp: updateSector_def Let_def split: option.splits)
  have d: "distinct (map fst (bySector ss'))" "int (length (bySector ss')) < 2 ^ 63"
    using ok(1) assms(2) by (simp_all add: bs distinct_update length_update)
  have w: "sectors_with P ss' = sectors_with P ss - (case map_of (bySector ss) sid of Some old \<Rightarrow> if P old then 1 else 0 | None \<Rightarrow> 0)
      + (if P st then 1 else 0)" for P
    using sectors_with_update [OF ok(1), where P = P and sid = sid and st = st] by (simp add: sectors_with_def bs)
  have b: "0 \<le> sectors_with P ss" "sectors_with P ss + 1 < 2 ^ 63" for P
    using sectors_with_bounds [of P ss] assms(2) by simp_all
  have t: "totals ss' g = sectors_with (\<lambda>st. toStatState st ?fe = g) ss'" for g
    unfolding updateSector_totals [OF assms(3)] w
    using b [of "\<lambda>st. toStatState st ?fe = g"] sectors_with_found [of ss sid _ "\<lambda>st. toStatState st ?fe = g"]
    by (simp add: ok(2) bump_exact split: option.splits)
  have s: "byState ss' s = sectors_with (\<lambda>st'. st' = s) ss'" for s
    unfolding updateSector_byState [OF assms(3)] w
    using b [of "\<lambda>st'. st' = s"] sectors_with_found [of ss sid _ "\<lambda>st'. st' = s"]
    by (simp add: ok(3) bump64_exact split: option.splits)
  have "int (length xs) = int (length (filter (\<lambda>e. f (snd e) = sstStaging) xs)) + int (length (filter (\<lambda>e. f (snd e) = sstSealing) xs))
      + int (length (filter (\<lambda>e. f (snd e) = sstFailed) xs)) + int (length (filter (\<lambda>e. f (snd e) = sstProving) xs))"
    for xs :: "((nat \<times> nat) \<times> SectorState) list" and f
    by (induction xs) (auto intro: statSectorState.exhaust)
  from this [of "bySector ss'" "\<lambda>st. toStatState st ?fe"] show ?thesis
    using d t s by (simp add: stats_ok_def bs update_conv' sectors_with_def)
qed


definition example_cfg :: "bool \<Rightarrow> SealConfig" where
  "example_cfg finEarly = \<lparr>FinalizeEarly = finEarly, MaxSealingSectorsForDeals = 2, MaxWaitDealsSectors = 0\<rparr>"

definition example_stats :: SectorStats where
  "example_stats = snd (updateSector (example_cfg False) (1000, 7) SubmitCommit newSectorStats)"

lemma example_stats_ok: "stats_ok False newSectorStats"
  by (simp add: stats_ok_def newSectorStats_def sectors_with_def)

theorem sector_stats_count_sectors_witness:
  "stats_ok False example_stats \<and> map_of (bySector example_stats) (1000, 7) = Some SubmitCommit
    \<and> totals example_stats sstStaging + totals example_stats sstSealing + totals example_stats sstFailed
      + totals example_stats sstProving = int (length (bySector example_stats))"
proof -
  have ok: "stats_ok (FinalizeEarly (example_cfg False)) newSectorStats" using example_stats_ok by (simp add: example_cfg_def)
  have "int (length (bySector newSectorStats)) + 1 < 2 ^ 63" by (simp add: newSectorStats_def)
  from sector_stats_count_sectors [OF ok this, of "(1000, 7)" SubmitCommit "fst (updateSector (example_cfg False) (1000, 7) SubmitCommit newSectorStats)" example_stats]
  show ?thesis by (simp add: example_stats_def) (simp add: example_cfg_def)
qed

text \<open>
  The configuration is read again at every update. When \<open>FinalizeEarly\<close> is switched on while a sector
  waits in a state whose group depends on it, the next update of that sector takes it out of a group
  in which it was never counted: the total of that group wraps around, and the total of the group it
  was counted in stays one too high.
\<close>

lemma sector_stats_wrap_on_config_change:
  "totals (snd (updateSector (example_cfg True) (1000, 7) CommitFailed example_stats)) sstProving = 2 ^ 64 - 1
   \<and> totals (snd (updateSector (example_cfg True) (1000, 7) CommitFailed example_stats)) sstSealing = 1"
  by code_simp


end
