(* ===== verification/SealingFSM.thy ===== *)
theory SealingFSM
  imports SealingState
begin

section \<open>Sealing: the state machine of a sector\<close>

text \<open>
  Models \<open>src/storage/pipeline/fsm_events.go\<close> (the events and what each does to the record of a
  sector) and \<open>src/storage/pipeline/fsm.go\<close> (the table of planners, the planners, the log of a sector,
  and \<open>plan\<close>, which logs the events, runs the planner of the current state, updates the statistics and
  chooses the handler to run next).

  An event is named by its Go type. The error wrapped in an event is left out, since no planner reads
  it. What \<open>plan\<close> needs from outside is a parameter: the clock, the JSON text and the trace of an
  event, the text of an error, the configuration. The HTTP notification of a remote sealer is
  recorded as sent; its outcome is ignored by the code. The handlers are named, not run.
\<close>

subsection \<open>Events\<close>

text \<open>The events, in the groups of the source.\<close>

datatype GlobalEvent =
    SectorRestart
  | SectorFatalError
  | SectorForceState SectorState
  | SectorTerminate
  | SectorRemove

datatype SealEvent =
    SectorStart nat int
  | SectorStartCC nat int
  | SectorAddPiece
  | SectorPieceAdded "SectorPiece list"
  | SectorAddPieceFailed
  | SectorRetryWaitDeals
  | SectorStartPacking
  | SectorPacked "PieceInfo list"
  | SectorTicket bytes epoch
  | SectorOldTicket
  | SectorPreCommit1 bytes
  | SectorPreCommit2 cid cid
  | SectorPreCommitBatch
  | SectorPreCommitBatchSent cid
  | SectorPreCommitLanded "cid list"
  | SectorSealPreCommit1Failed
  | SectorSealPreCommit2Failed
  | SectorChainPreCommitFailed
  | SectorPreCommitted cid "token option"

datatype CommitEvent =
    SectorSeedReady bytes epoch
  | SectorRemoteCommit1Failed
  | SectorRemoteCommit2Failed
  | SectorComputeProofFailed
  | SectorCommitFailed
  | SectorRetrySubmitCommit
  | SectorDealsExpired
  | SectorTicketExpired
  | SectorCommitted bytes
  | SectorProofReady bytes
  | SectorSubmitCommitAggregate
  | SectorCommitSubmitted cid
  | SectorCommitAggregateSent cid
  | SectorProving
  | SectorFinalized
  | SectorFinalizedAvailable
  | SectorRetryFinalize
  | SectorFinalizeFailed

datatype SnapEvent =
    SectorMarkForUpdate
  | SectorStartCCUpdate
  | SectorReplicaUpdate cid cid
  | SectorProveReplicaUpdate bytes
  | SectorReplicaUpdateSubmitted cid
  | SectorReplicaUpdateLanded
  | SectorUpdateActive
  | SectorKeyReleased

datatype RetryEvent =
    SectorRetrySealPreCommit1
  | SectorRetrySealPreCommit2
  | SectorRetryPreCommit
  | SectorRetryWaitSeed
  | SectorRetryPreCommitWait
  | SectorRetryComputeProof
  | SectorRetryInvalidProof
  | SectorRetryCommitWait
  | SectorInvalidDealIDs ReturnState
  | SectorUpdateDealIDs "(int \<times> nat) list"

datatype SnapFailEvent =
    SectorRetryReplicaUpdate
  | SectorRetryProveReplicaUpdate
  | SectorUpdateReplicaFailed
  | SectorProveReplicaUpdateFailed
  | SectorAbortUpgrade
  | SectorRevertUpgradeToProving
  | SectorRetrySubmitReplicaUpdateWait
  | SectorRetrySubmitReplicaUpdate
  | SectorSubmitReplicaUpdateFailed
  | SectorReleaseKeyFailed

datatype PostEvent =
    SectorFaulty
  | SectorFaultReported cid
  | SectorFaultedFinal
  | SectorTerminating "cid option"
  | SectorTerminated epoch
  | SectorTerminateFailed
  | SectorRemoved
  | SectorRemoveFailed
  | SectorReceive SectorInfo
  | SectorReceived

datatype SectorEvent =
    EvGlobal GlobalEvent
  | EvSeal SealEvent
  | EvCommit CommitEvent
  | EvSnap SnapEvent
  | EvRetry RetryEvent
  | EvSnapFail SnapFailEvent
  | EvPost PostEvent

text \<open>The Go type of an event.\<close>

primrec TypeOfGlobalEvent :: "GlobalEvent \<Rightarrow> string" where
  "TypeOfGlobalEvent SectorRestart = ''SectorRestart''"
| "TypeOfGlobalEvent SectorFatalError = ''SectorFatalError''"
| "TypeOfGlobalEvent (SectorForceState a) = ''SectorForceState''"
| "TypeOfGlobalEvent SectorTerminate = ''SectorTerminate''"
| "TypeOfGlobalEvent SectorRemove = ''SectorRemove''"

primrec TypeOfSealEvent :: "SealEvent \<Rightarrow> string" where
  "TypeOfSealEvent (SectorStart a b) = ''SectorStart''"
| "TypeOfSealEvent (SectorStartCC a b) = ''SectorStartCC''"
| "TypeOfSealEvent SectorAddPiece = ''SectorAddPiece''"
| "TypeOfSealEvent (SectorPieceAdded a) = ''SectorPieceAdded''"
| "TypeOfSealEvent SectorAddPieceFailed = ''SectorAddPieceFailed''"
| "TypeOfSealEvent SectorRetryWaitDeals = ''SectorRetryWaitDeals''"
| "TypeOfSealEvent SectorStartPacking = ''SectorStartPacking''"
| "TypeOfSealEvent (SectorPacked a) = ''SectorPacked''"
| "TypeOfSealEvent (SectorTicket a b) = ''SectorTicket''"
| "TypeOfSealEvent SectorOldTicket = ''SectorOldTicket''"
| "TypeOfSealEvent (SectorPreCommit1 a) = ''SectorPreCommit1''"
| "TypeOfSealEvent (SectorPreCommit2 a b) = ''SectorPreCommit2''"
| "TypeOfSealEvent SectorPreCommitBatch = ''SectorPreCommitBatch''"
| "TypeOfSealEvent (SectorPreCommitBatchSent a) = ''SectorPreCommitBatchSent''"
| "TypeOfSealEvent (SectorPreCommitLanded a) = ''SectorPreCommitLanded''"
| "TypeOfSealEvent SectorSealPreCommit1Failed = ''SectorSealPreCommit1Failed''"
| "TypeOfSealEvent SectorSealPreCommit2Failed = ''SectorSealPreCommit2Failed''"
| "TypeOfSealEvent SectorChainPreCommitFailed = ''SectorChainPreCommitFailed''"
| "TypeOfSealEvent (SectorPreCommitted a b) = ''SectorPreCommitted''"

primrec TypeOfCommitEvent :: "CommitEvent \<Rightarrow> string" where
  "TypeOfCommitEvent (SectorSeedReady a b) = ''SectorSeedReady''"
| "TypeOfCommitEvent SectorRemoteCommit1Failed = ''SectorRemoteCommit1Failed''"
| "TypeOfCommitEvent SectorRemoteCommit2Failed = ''SectorRemoteCommit2Failed''"
| "TypeOfCommitEvent SectorComputeProofFailed = ''SectorComputeProofFailed''"
| "TypeOfCommitEvent SectorCommitFailed = ''SectorCommitFailed''"
| "TypeOfCommitEvent SectorRetrySubmitCommit = ''SectorRetrySubmitCommit''"
| "TypeOfCommitEvent SectorDealsExpired = ''SectorDealsExpired''"
| "TypeOfCommitEvent SectorTicketExpired = ''SectorTicketExpired''"
| "TypeOfCommitEvent (SectorCommitted a) = ''SectorCommitted''"
| "TypeOfCommitEvent (SectorProofReady a) = ''SectorProofReady''"
| "TypeOfCommitEvent SectorSubmitCommitAggregate = ''SectorSubmitCommitAggregate''"
| "TypeOfCommitEvent (SectorCommitSubmitted a) = ''SectorCommitSubmitted''"
| "TypeOfCommitEvent (SectorCommitAggregateSent a) = ''SectorCommitAggregateSent''"
| "TypeOfCommitEvent SectorProving = ''SectorProving''"
| "TypeOfCommitEvent SectorFinalized = ''SectorFinalized''"
| "TypeOfCommitEvent SectorFinalizedAvailable = ''SectorFinalizedAvailable''"
| "TypeOfCommitEvent SectorRetryFinalize = ''SectorRetryFinalize''"
| "TypeOfCommitEvent SectorFinalizeFailed = ''SectorFinalizeFailed''"

primrec TypeOfSnapEvent :: "SnapEvent \<Rightarrow> string" where
  "TypeOfSnapEvent SectorMarkForUpdate = ''SectorMarkForUpdate''"
| "TypeOfSnapEvent SectorStartCCUpdate = ''SectorStartCCUpdate''"
| "TypeOfSnapEvent (SectorReplicaUpdate a b) = ''SectorReplicaUpdate''"
| "TypeOfSnapEvent (SectorProveReplicaUpdate a) = ''SectorProveReplicaUpdate''"
| "TypeOfSnapEvent (SectorReplicaUpdateSubmitted a) = ''SectorReplicaUpdateSubmitted''"
| "TypeOfSnapEvent SectorReplicaUpdateLanded = ''SectorReplicaUpdateLanded''"
| "TypeOfSnapEvent SectorUpdateActive = ''SectorUpdateActive''"
| "TypeOfSnapEvent SectorKeyReleased = ''SectorKeyReleased''"

primrec TypeOfRetryEvent :: "RetryEvent \<Rightarrow> string" where
  "TypeOfRetryEvent SectorRetrySealPreCommit1 = ''SectorRetrySealPreCommit1''"
| "TypeOfRetryEvent SectorRetrySealPreCommit2 = ''SectorRetrySealPreCommit2''"
| "TypeOfRetryEvent SectorRetryPreCommit = ''SectorRetryPreCommit''"
| "TypeOfRetryEvent SectorRetryWaitSeed = ''SectorRetryWaitSeed''"
| "TypeOfRetryEvent SectorRetryPreCommitWait = ''SectorRetryPreCommitWait''"
| "TypeOfRetryEvent SectorRetryComputeProof = ''SectorRetryComputeProof''"
| "TypeOfRetryEvent SectorRetryInvalidProof = ''SectorRetryInvalidProof''"
| "TypeOfRetryEvent SectorRetryCommitWait = ''SectorRetryCommitWait''"
| "TypeOfRetryEvent (SectorInvalidDealIDs a) = ''SectorInvalidDealIDs''"
| "TypeOfRetryEvent (SectorUpdateDealIDs a) = ''SectorUpdateDealIDs''"

primrec TypeOfSnapFailEvent :: "SnapFailEvent \<Rightarrow> string" where
  "TypeOfSnapFailEvent SectorRetryReplicaUpdate = ''SectorRetryReplicaUpdate''"
| "TypeOfSnapFailEvent SectorRetryProveReplicaUpdate = ''SectorRetryProveReplicaUpdate''"
| "TypeOfSnapFailEvent SectorUpdateReplicaFailed = ''SectorUpdateReplicaFailed''"
| "TypeOfSnapFailEvent SectorProveReplicaUpdateFailed = ''SectorProveReplicaUpdateFailed''"
| "TypeOfSnapFailEvent SectorAbortUpgrade = ''SectorAbortUpgrade''"
| "TypeOfSnapFailEvent SectorRevertUpgradeToProving = ''SectorRevertUpgradeToProving''"
| "TypeOfSnapFailEvent SectorRetrySubmitReplicaUpdateWait = ''SectorRetrySubmitReplicaUpdateWait''"
| "TypeOfSnapFailEvent SectorRetrySubmitReplicaUpdate = ''SectorRetrySubmitReplicaUpdate''"
| "TypeOfSnapFailEvent SectorSubmitReplicaUpdateFailed = ''SectorSubmitReplicaUpdateFailed''"
| "TypeOfSnapFailEvent SectorReleaseKeyFailed = ''SectorReleaseKeyFailed''"

primrec TypeOfPostEvent :: "PostEvent \<Rightarrow> string" where
  "TypeOfPostEvent SectorFaulty = ''SectorFaulty''"
| "TypeOfPostEvent (SectorFaultReported a) = ''SectorFaultReported''"
| "TypeOfPostEvent SectorFaultedFinal = ''SectorFaultedFinal''"
| "TypeOfPostEvent (SectorTerminating a) = ''SectorTerminating''"
| "TypeOfPostEvent (SectorTerminated a) = ''SectorTerminated''"
| "TypeOfPostEvent SectorTerminateFailed = ''SectorTerminateFailed''"
| "TypeOfPostEvent SectorRemoved = ''SectorRemoved''"
| "TypeOfPostEvent SectorRemoveFailed = ''SectorRemoveFailed''"
| "TypeOfPostEvent (SectorReceive a) = ''SectorReceive''"
| "TypeOfPostEvent SectorReceived = ''SectorReceived''"

primrec TypeOf :: "SectorEvent \<Rightarrow> string" where
  "TypeOf (EvGlobal e) = TypeOfGlobalEvent e"
| "TypeOf (EvSeal e) = TypeOfSealEvent e"
| "TypeOf (EvCommit e) = TypeOfCommitEvent e"
| "TypeOf (EvSnap e) = TypeOfSnapEvent e"
| "TypeOf (EvRetry e) = TypeOfRetryEvent e"
| "TypeOf (EvSnapFail e) = TypeOfSnapFailEvent e"
| "TypeOf (EvPost e) = TypeOfPostEvent e"

text \<open>
  New deal IDs for pieces, by index. An index out of range, and a piece without a deal, is a panic.
\<close>

fun update_deal_ids :: "(int \<times> nat) list \<Rightarrow> SectorPiece list \<Rightarrow> SectorPiece list option" where
  "update_deal_ids [] ps = Some ps"
| "update_deal_ids ((i, d) # us) ps =
     (if i < 0 \<or> int (length ps) \<le> i then None
      else
        case DealInfo (ps ! nat i) of
          None \<Rightarrow> None
        | Some deal \<Rightarrow>
            update_deal_ids us (ps[nat i := (ps ! nat i)\<lparr>DealInfo := Some (deal\<lparr>DealID := d\<rparr>)\<rparr>]))"

text \<open>
  What an event does to the record of the sector. \<open>None\<close> is a panic: an update of deal IDs that does not
  fit the pieces, or an event whose type has no \<open>apply\<close>.
\<close>

primrec applySealEvent :: "int \<Rightarrow> SealEvent \<Rightarrow> SectorInfo \<Rightarrow> SectorInfo" where
  "applySealEvent now (SectorStart a b) s = s\<lparr>SectorNumber := a, SectorType := b\<rparr>"
| "applySealEvent now (SectorStartCC a b) s = s\<lparr>SectorNumber := a, SectorType := b\<rparr>"
| "applySealEvent now SectorAddPiece s = (if CreationTime s = 0 then s\<lparr>CreationTime := now\<rparr> else s)"
| "applySealEvent now (SectorPieceAdded a) s = s\<lparr>Pieces := Pieces s @ a\<rparr>"
| "applySealEvent now SectorAddPieceFailed s = s"
| "applySealEvent now SectorRetryWaitDeals s = s"
| "applySealEvent now SectorStartPacking s = s"
| "applySealEvent now (SectorPacked a) s = s\<lparr>Pieces := Pieces s @ map (\<lambda>p. \<lparr>Piece = p, DealInfo = None\<rparr>) a\<rparr>"
| "applySealEvent now (SectorTicket a b) s = s\<lparr>TicketEpoch := b, TicketValue := a\<rparr>"
| "applySealEvent now SectorOldTicket s = s"
| "applySealEvent now (SectorPreCommit1 a) s = s\<lparr>PreCommit1Out := a, PreCommit2Fails := 0\<rparr>"
| "applySealEvent now (SectorPreCommit2 a b) s = s\<lparr>CommD := Some b, CommR := Some a\<rparr>"
| "applySealEvent now SectorPreCommitBatch s = s"
| "applySealEvent now (SectorPreCommitBatchSent a) s = s\<lparr>PreCommitMessage := Some a\<rparr>"
| "applySealEvent now (SectorPreCommitLanded a) s = s\<lparr>PreCommitTipSet := a\<rparr>"
| "applySealEvent now SectorSealPreCommit1Failed s = s\<lparr>InvalidProofs := 0, PreCommit2Fails := 0\<rparr>"
| "applySealEvent now SectorSealPreCommit2Failed s = s\<lparr>InvalidProofs := 0, PreCommit2Fails := wrapu64 (PreCommit2Fails s + 1)\<rparr>"
| "applySealEvent now SectorChainPreCommitFailed s = s"
| "applySealEvent now (SectorPreCommitted a b) s = s\<lparr>PreCommitMessage := Some a, PreCommitDeposit := b\<rparr>"

primrec applyCommitEvent :: "CommitEvent \<Rightarrow> SectorInfo \<Rightarrow> SectorInfo" where
  "applyCommitEvent (SectorSeedReady a b) s = s\<lparr>SeedEpoch := b, SeedValue := a\<rparr>"
| "applyCommitEvent SectorRemoteCommit1Failed s = s"
| "applyCommitEvent SectorRemoteCommit2Failed s = s"
| "applyCommitEvent SectorComputeProofFailed s = s"
| "applyCommitEvent SectorCommitFailed s = s"
| "applyCommitEvent SectorRetrySubmitCommit s = s"
| "applyCommitEvent SectorDealsExpired s = s"
| "applyCommitEvent SectorTicketExpired s = s"
| "applyCommitEvent (SectorCommitted a) s = s\<lparr>Proof := a\<rparr>"
| "applyCommitEvent (SectorProofReady a) s = (if a \<noteq> [] then s\<lparr>Proof := a\<rparr> else s)"
| "applyCommitEvent SectorSubmitCommitAggregate s = s"
| "applyCommitEvent (SectorCommitSubmitted a) s = s\<lparr>CommitMessage := Some a\<rparr>"
| "applyCommitEvent (SectorCommitAggregateSent a) s = s\<lparr>CommitMessage := Some a\<rparr>"
| "applyCommitEvent SectorProving s = s"
| "applyCommitEvent SectorFinalized s = s"
| "applyCommitEvent SectorFinalizedAvailable s = s"
| "applyCommitEvent SectorRetryFinalize s = s"
| "applyCommitEvent SectorFinalizeFailed s = s"

primrec applySnapEvent :: "SnapEvent \<Rightarrow> SectorInfo \<Rightarrow> SectorInfo" where
  "applySnapEvent SectorMarkForUpdate s = s"
| "applySnapEvent SectorStartCCUpdate s = s\<lparr>CCUpdate := True, CCPieces := Pieces s, Pieces := []\<rparr>"
| "applySnapEvent (SectorReplicaUpdate a b) s = s\<lparr>UpdateSealed := Some a, UpdateUnsealed := Some b\<rparr>"
| "applySnapEvent (SectorProveReplicaUpdate a) s = s\<lparr>ReplicaUpdateProof := a\<rparr>"
| "applySnapEvent (SectorReplicaUpdateSubmitted a) s = s\<lparr>ReplicaUpdateMessage := Some a\<rparr>"
| "applySnapEvent SectorReplicaUpdateLanded s = s"
| "applySnapEvent SectorUpdateActive s = s"
| "applySnapEvent SectorKeyReleased s = s"

primrec applyRetryEvent :: "RetryEvent \<Rightarrow> SectorInfo \<Rightarrow> SectorInfo option" where
  "applyRetryEvent SectorRetrySealPreCommit1 s = Some s"
| "applyRetryEvent SectorRetrySealPreCommit2 s = Some s"
| "applyRetryEvent SectorRetryPreCommit s = Some s"
| "applyRetryEvent SectorRetryWaitSeed s = Some s"
| "applyRetryEvent SectorRetryPreCommitWait s = Some s"
| "applyRetryEvent SectorRetryComputeProof s = Some (s\<lparr>InvalidProofs := wrapu64 (InvalidProofs s + 1)\<rparr>)"
| "applyRetryEvent SectorRetryInvalidProof s = Some (s\<lparr>InvalidProofs := wrapu64 (InvalidProofs s + 1)\<rparr>)"
| "applyRetryEvent SectorRetryCommitWait s = Some s"
| "applyRetryEvent (SectorInvalidDealIDs a) s = Some (s\<lparr>ReturnTo := a\<rparr>)"
| "applyRetryEvent (SectorUpdateDealIDs a) s = map_option (\<lambda>ps. s\<lparr>Pieces := ps\<rparr>) (update_deal_ids a (Pieces s))"

primrec applySnapFailEvent :: "SnapFailEvent \<Rightarrow> SectorInfo \<Rightarrow> SectorInfo" where
  "applySnapFailEvent SectorRetryReplicaUpdate s = s"
| "applySnapFailEvent SectorRetryProveReplicaUpdate s = s"
| "applySnapFailEvent SectorUpdateReplicaFailed s = s"
| "applySnapFailEvent SectorProveReplicaUpdateFailed s = s"
| "applySnapFailEvent SectorAbortUpgrade s = s"
| "applySnapFailEvent SectorRevertUpgradeToProving s =
     s\<lparr>CCUpdate := False, UpdateSealed := None, UpdateUnsealed := None, ReplicaUpdateProof := [],
        ReplicaUpdateMessage := None, Pieces := CCPieces s, CCPieces := []\<rparr>"
| "applySnapFailEvent SectorRetrySubmitReplicaUpdateWait s = s"
| "applySnapFailEvent SectorRetrySubmitReplicaUpdate s = s"
| "applySnapFailEvent SectorSubmitReplicaUpdateFailed s = s"
| "applySnapFailEvent SectorReleaseKeyFailed s = s"

primrec applyPostEvent :: "PostEvent \<Rightarrow> SectorInfo \<Rightarrow> SectorInfo option" where
  "applyPostEvent SectorFaulty s = Some s"
| "applyPostEvent (SectorFaultReported a) s = Some (s\<lparr>FaultReportMsg := Some a\<rparr>)"
| "applyPostEvent SectorFaultedFinal s = None"
| "applyPostEvent (SectorTerminating a) s = Some (s\<lparr>TerminateMessage := a\<rparr>)"
| "applyPostEvent (SectorTerminated a) s = Some (s\<lparr>TerminatedAt := a\<rparr>)"
| "applyPostEvent SectorTerminateFailed s = Some s"
| "applyPostEvent SectorRemoved s = Some s"
| "applyPostEvent SectorRemoveFailed s = Some s"
| "applyPostEvent (SectorReceive a) s = Some a"
| "applyPostEvent SectorReceived s = Some s"

primrec apply_event :: "int \<Rightarrow> SectorEvent \<Rightarrow> SectorInfo \<Rightarrow> SectorInfo option" where
  "apply_event now (EvGlobal e) s = None"
| "apply_event now (EvSeal e) s = Some (applySealEvent now e s)"
| "apply_event now (EvCommit e) s = Some (applyCommitEvent e s)"
| "apply_event now (EvSnap e) s = Some (applySnapEvent e s)"
| "apply_event now (EvRetry e) s = applyRetryEvent e s"
| "apply_event now (EvSnapFail e) s = Some (applySnapFailEvent e s)"
| "apply_event now (EvPost e) s = applyPostEvent e s"

subsection \<open>State and global events\<close>

text \<open>
  The machine of one sector with what its steps touch besides the record: the notifications sent to
  the remote sealer, the set of sectors to be dropped from the scheduler's queue, and the statistics.
\<close>

record Fsm =
  sector :: SectorInfo
  notices :: "(string \<times> bool \<times> string \<times> cid option) list"
  RemoveSectors :: "nat list"
  fsmStats :: SectorStats
  inputTriggers :: nat

definition set_state :: "SectorState \<Rightarrow> Fsm \<Rightarrow> Fsm" where
  "set_state st m = m\<lparr>sector := (sector m)\<lparr>State := st\<rparr>\<rparr>"

definition maybeNotifyRemoteDone :: "bool \<Rightarrow> string \<Rightarrow> Fsm \<Rightarrow> Fsm" where
  "maybeNotifyRemoteDone success st m =
     (if RemoteSealingDoneEndpoint (sector m) = [] then m
      else m\<lparr>notices := notices m @ [(RemoteSealingDoneEndpoint (sector m), success, st, CommitMessage (sector m))]\<rparr>)"

text \<open>\<open>strings.Contains\<close>.\<close>

fun contains :: "string \<Rightarrow> string \<Rightarrow> bool" where
  "contains [] sub = (sub = [])"
| "contains (c # cs) sub = (take (length sub) (c # cs) = sub \<or> contains cs sub)"

text \<open>The result says whether the processing of events is to be interrupted.\<close>

primrec applyGlobalEvent :: "GlobalEvent \<Rightarrow> Fsm \<Rightarrow> bool \<times> Fsm" where
  "applyGlobalEvent SectorRestart m = (False, m)"
| "applyGlobalEvent SectorFatalError m = (True, m)"
| "applyGlobalEvent (SectorForceState st) m =
     (True, set_state st
        (if contains st ''SubmitCommit''
         then m\<lparr>RemoveSectors := List.insert (SectorNumber (sector m)) (RemoveSectors m)\<rparr> else m))"
| "applyGlobalEvent SectorTerminate m = (True, set_state Terminating m)"
| "applyGlobalEvent SectorRemove m = (True, set_state Removing (maybeNotifyRemoteDone False ''Removing'' m))"

primrec applyGlobal :: "SectorEvent \<Rightarrow> Fsm \<Rightarrow> (bool \<times> Fsm) option" where
  "applyGlobal (EvGlobal e) m = Some (applyGlobalEvent e m)"
| "applyGlobal (EvSeal e) m = None"
| "applyGlobal (EvCommit e) m = None"
| "applyGlobal (EvSnap e) m = None"
| "applyGlobal (EvRetry e) m = None"
| "applyGlobal (EvSnapFail e) m = None"
| "applyGlobal (EvPost e) m = None"

definition Ignorable :: "SectorEvent \<Rightarrow> bool" where
  "Ignorable e \<longleftrightarrow> TypeOf e = ''SectorStartPacking''"

subsection \<open>Transitions and planners\<close>

datatype plan_error =
    ReturnNotSet
  | UnexpectedEvent SectorState string
  | CommittingUnknownEvent string
  | FinalUnexpected SectorState
  | PlannerNotFound SectorState
  | PlannerFailed SectorState plan_error

datatype next_step = On SectorState | OnWithCB SectorState bool string | Apply | OnReturning

text \<open>A transition: the Go type of the event, and what follows its application.\<close>

type_synonym trans = "string \<times> next_step"

definition on :: "string \<Rightarrow> SectorState \<Rightarrow> trans" where
  "on mut nxt = (mut, On nxt)"

definition onWithCB :: "string \<Rightarrow> SectorState \<Rightarrow> bool \<Rightarrow> string \<Rightarrow> trans" where
  "onWithCB mut nxt success st = (mut, OnWithCB nxt success st)"

definition apply_only :: "string \<Rightarrow> trans" where
  "apply_only mut = (mut, Apply)"

definition onReturning :: "string \<Rightarrow> trans" where
  "onReturning mut = (mut, OnReturning)"

text \<open>Whether to go on with the next event, an error, and the machine.\<close>

primrec run_next :: "next_step \<Rightarrow> Fsm \<Rightarrow> bool \<times> plan_error option \<times> Fsm" where
  "run_next (On nxt) m = (False, None, set_state nxt m)"
| "run_next (OnWithCB nxt success st) m = (False, None, set_state nxt (maybeNotifyRemoteDone success st m))"
| "run_next Apply m = (True, None, m)"
| "run_next OnReturning m =
     (if ReturnTo (sector m) = [] then (False, Some ReturnNotSet, m)
      else (False, None, m\<lparr>sector := (sector m)\<lparr>State := ReturnTo (sector m), ReturnTo := []\<rparr>\<rparr>))"

text \<open>The number of events processed, an error, and the machine; \<open>None\<close> is a panic.\<close>

type_synonym plan_result = "(nat \<times> plan_error option \<times> Fsm) option"

fun planOne_from :: "int \<Rightarrow> trans list \<Rightarrow> nat \<Rightarrow> SectorEvent list \<Rightarrow> Fsm \<Rightarrow> plan_result" where
  "planOne_from now ts i [] m = Some (i, None, m)"
| "planOne_from now ts i (e # es) m =
     (case applyGlobal e m of
        Some (_, m) \<Rightarrow> Some (i + 1, None, m)
      | None \<Rightarrow>
          (case map_of ts (TypeOf e) of
             Some nxt \<Rightarrow>
               (case apply_event now e (sector m) of
                  None \<Rightarrow> None
                | Some s \<Rightarrow>
                    (case run_next nxt (m\<lparr>sector := s\<rparr>) of
                       (cont, err, m) \<Rightarrow>
                         if err \<noteq> None \<or> \<not> cont then Some (i + 1, err, m)
                         else planOne_from now ts (i + 1) es m))
           | None \<Rightarrow>
               if Ignorable e then planOne_from now ts (i + 1) es m
               else Some (i + 1, Some (UnexpectedEvent (State (sector m)) (TypeOf e)), m)))"

definition planOne :: "trans list \<Rightarrow> int \<Rightarrow> SectorEvent list \<Rightarrow> Fsm \<Rightarrow> plan_result" where
  "planOne ts now es m = planOne_from now ts 0 es m"

definition planOneOrIgnore :: "trans list \<Rightarrow> int \<Rightarrow> SectorEvent list \<Rightarrow> Fsm \<Rightarrow> plan_result" where
  "planOneOrIgnore ts now es m = map_option (\<lambda>(cnt, err, m). (cnt, None, m)) (planOne ts now es m)"

text \<open>The planner of \<open>Committing\<close>, which goes on after most events.\<close>

fun planCommitting_from :: "nat \<Rightarrow> SectorEvent list \<Rightarrow> Fsm \<Rightarrow> nat \<times> plan_error option \<times> Fsm" where
  "planCommitting_from i [] m = (i, None, m)"
| "planCommitting_from i (EvGlobal e # es) m =
     (case applyGlobalEvent e m of
        (stop, m) \<Rightarrow> if stop then (i + 1, None, m) else planCommitting_from (i + 1) es m)"
| "planCommitting_from i (EvCommit (SectorCommitted p) # es) m =
     planCommitting_from (i + 1) es (set_state SubmitCommit
       (if p \<noteq> [] then m\<lparr>sector := applyCommitEvent (SectorCommitted p) (sector m)\<rparr> else m))"
| "planCommitting_from i (EvCommit (SectorProofReady p) # es) m =
     planCommitting_from (i + 1) es (set_state CommitFinalize
       (m\<lparr>sector := applyCommitEvent (SectorProofReady p) (sector m)\<rparr>))"
| "planCommitting_from i (EvCommit (SectorSeedReady v ep) # es) m =
     (if ep = SeedEpoch (sector m) \<and> v = SeedValue (sector m) then planCommitting_from (i + 1) es m
      else (i + 1, None, set_state Committing (m\<lparr>sector := applyCommitEvent (SectorSeedReady v ep) (sector m)\<rparr>)))"
| "planCommitting_from i (EvCommit SectorComputeProofFailed # es) m =
     planCommitting_from (i + 1) es (set_state ComputeProofFailed m)"
| "planCommitting_from i (EvCommit SectorRemoteCommit1Failed # es) m =
     planCommitting_from (i + 1) es (set_state RemoteCommitFailed m)"
| "planCommitting_from i (EvCommit SectorRemoteCommit2Failed # es) m =
     planCommitting_from (i + 1) es (set_state RemoteCommitFailed m)"
| "planCommitting_from i (EvSeal SectorSealPreCommit1Failed # es) m =
     planCommitting_from (i + 1) es (set_state SealPreCommit1Failed m)"
| "planCommitting_from i (EvCommit SectorCommitFailed # es) m =
     planCommitting_from (i + 1) es (set_state CommitFailed m)"
| "planCommitting_from i (EvRetry SectorRetryCommitWait # es) m =
     planCommitting_from (i + 1) es (set_state CommitWait m)"
| "planCommitting_from i (e # es) m = (i, Some (CommittingUnknownEvent (TypeOf e)), m)"

definition finalRemoved :: "SectorEvent list \<Rightarrow> Fsm \<Rightarrow> nat \<times> plan_error option \<times> Fsm" where
  "finalRemoved es m = (length es, None, m)"

definition final :: "SectorEvent list \<Rightarrow> Fsm \<Rightarrow> nat \<times> plan_error option \<times> Fsm" where
  "final es m =
     (case es of
        EvGlobal e # _ \<Rightarrow> (1, None, snd (applyGlobalEvent e m))
      | _ \<Rightarrow> (0, Some (FinalUnexpected (State (sector m))), m))"

datatype planner = PlanOne "trans list" | PlanOneOrIgnore "trans list" | PlanCommitting | Final | FinalRemoved

primrec run_planner :: "planner \<Rightarrow> int \<Rightarrow> SectorEvent list \<Rightarrow> Fsm \<Rightarrow> plan_result" where
  "run_planner (PlanOne ts) now es m = planOne ts now es m"
| "run_planner (PlanOneOrIgnore ts) now es m = planOneOrIgnore ts now es m"
| "run_planner PlanCommitting now es m = Some (planCommitting_from 0 es m)"
| "run_planner Final now es m = Some (final es m)"
| "run_planner FinalRemoved now es m = Some (finalRemoved es m)"

text \<open>The table of planners, in the sections of the source.\<close>

definition planners_sealing :: "(SectorState \<times> planner) list" where
  "planners_sealing =
     [(ReceiveSector, PlanOne [onReturning ''SectorReceived'']),
      (UndefinedSectorState, PlanOne [on ''SectorStart'' WaitDeals,
        on ''SectorStartCC'' Packing,
        on ''SectorReceive'' ReceiveSector]),
      (Empty, PlanOne [on ''SectorAddPiece'' AddPiece,
        on ''SectorStartPacking'' Packing]),
      (WaitDeals, PlanOne [on ''SectorAddPiece'' AddPiece,
        on ''SectorStartPacking'' Packing]),
      (AddPiece, PlanOne [on ''SectorPieceAdded'' WaitDeals,
        apply_only ''SectorStartPacking'',
        apply_only ''SectorAddPiece'',
        on ''SectorAddPieceFailed'' AddPieceFailed]),
      (Packing, PlanOne [on ''SectorPacked'' GetTicket]),
      (GetTicket, PlanOne [on ''SectorTicket'' PreCommit1,
        on ''SectorCommitFailed'' CommitFailed]),
      (PreCommit1, PlanOne [on ''SectorPreCommit1'' PreCommit2,
        on ''SectorSealPreCommit1Failed'' SealPreCommit1Failed,
        on ''SectorDealsExpired'' DealsExpired,
        on ''SectorInvalidDealIDs'' RecoverDealIDs,
        on ''SectorOldTicket'' GetTicket]),
      (PreCommit2, PlanOne [on ''SectorPreCommit2'' PreCommitting,
        on ''SectorSealPreCommit2Failed'' SealPreCommit2Failed,
        on ''SectorSealPreCommit1Failed'' SealPreCommit1Failed]),
      (PreCommitting, PlanOne [on ''SectorPreCommitBatch'' SubmitPreCommitBatch,
        on ''SectorPreCommitted'' PreCommitWait,
        on ''SectorSealPreCommit1Failed'' SealPreCommit1Failed,
        on ''SectorChainPreCommitFailed'' PreCommitFailed,
        on ''SectorPreCommitLanded'' WaitSeed,
        on ''SectorDealsExpired'' DealsExpired,
        on ''SectorInvalidDealIDs'' RecoverDealIDs]),
      (SubmitPreCommitBatch, PlanOne [on ''SectorPreCommitBatchSent'' PreCommitBatchWait,
        on ''SectorSealPreCommit1Failed'' SealPreCommit1Failed,
        on ''SectorChainPreCommitFailed'' PreCommitFailed,
        on ''SectorPreCommitLanded'' WaitSeed,
        on ''SectorDealsExpired'' DealsExpired,
        on ''SectorInvalidDealIDs'' RecoverDealIDs]),
      (PreCommitBatchWait, PlanOne [on ''SectorChainPreCommitFailed'' PreCommitFailed,
        on ''SectorPreCommitLanded'' WaitSeed,
        on ''SectorRetryPreCommit'' PreCommitting]),
      (PreCommitWait, PlanOne [on ''SectorChainPreCommitFailed'' PreCommitFailed,
        on ''SectorPreCommitLanded'' WaitSeed,
        on ''SectorRetryPreCommit'' PreCommitting]),
      (WaitSeed, PlanOne [on ''SectorSeedReady'' Committing,
        on ''SectorChainPreCommitFailed'' PreCommitFailed]),
      (Committing, PlanCommitting),
      (CommitFinalize, PlanOne [on ''SectorFinalized'' SubmitCommit,
        on ''SectorFinalizedAvailable'' SubmitCommit,
        on ''SectorFinalizeFailed'' CommitFinalizeFailed]),
      (SubmitCommit, PlanOne [on ''SectorCommitSubmitted'' CommitWait,
        on ''SectorSubmitCommitAggregate'' SubmitCommitAggregate,
        on ''SectorCommitFailed'' CommitFailed]),
      (SubmitCommitAggregate, PlanOne [on ''SectorCommitAggregateSent'' CommitAggregateWait,
        on ''SectorCommitFailed'' CommitFailed,
        on ''SectorRetrySubmitCommit'' SubmitCommit]),
      (CommitWait, PlanOne [on ''SectorProving'' FinalizeSector,
        on ''SectorCommitFailed'' CommitFailed,
        on ''SectorRetrySubmitCommit'' SubmitCommit]),
      (CommitAggregateWait, PlanOne [on ''SectorProving'' FinalizeSector,
        on ''SectorCommitFailed'' CommitFailed,
        on ''SectorRetrySubmitCommit'' SubmitCommit]),
      (FinalizeSector, PlanOne [onWithCB ''SectorFinalized'' Proving True ''Proving'',
        onWithCB ''SectorFinalizedAvailable'' Available True ''Available'',
        on ''SectorFinalizeFailed'' FinalizeFailed,
        on ''SectorCommitted'' SubmitCommit])]"

definition planners_snap :: "(SectorState \<times> planner) list" where
  "planners_snap =
     [(SnapDealsWaitDeals, PlanOne [on ''SectorAddPiece'' SnapDealsAddPiece,
        on ''SectorStartPacking'' SnapDealsPacking,
        on ''SectorAbortUpgrade'' AbortUpgrade]),
      (SnapDealsAddPiece, PlanOne [on ''SectorPieceAdded'' SnapDealsWaitDeals,
        apply_only ''SectorStartPacking'',
        apply_only ''SectorAddPiece'',
        on ''SectorAddPieceFailed'' SnapDealsAddPieceFailed,
        on ''SectorAbortUpgrade'' AbortUpgrade]),
      (SnapDealsPacking, PlanOne [on ''SectorPacked'' UpdateReplica,
        on ''SectorAbortUpgrade'' AbortUpgrade]),
      (UpdateReplica, PlanOne [on ''SectorReplicaUpdate'' ProveReplicaUpdate,
        on ''SectorUpdateReplicaFailed'' ReplicaUpdateFailed,
        on ''SectorDealsExpired'' SnapDealsDealsExpired,
        on ''SectorInvalidDealIDs'' SnapDealsRecoverDealIDs,
        on ''SectorAbortUpgrade'' AbortUpgrade]),
      (ProveReplicaUpdate, PlanOne [on ''SectorProveReplicaUpdate'' FinalizeReplicaUpdate,
        on ''SectorProveReplicaUpdateFailed'' ReplicaUpdateFailed,
        on ''SectorDealsExpired'' SnapDealsDealsExpired,
        on ''SectorInvalidDealIDs'' SnapDealsRecoverDealIDs,
        on ''SectorAbortUpgrade'' AbortUpgrade]),
      (FinalizeReplicaUpdate, PlanOne [on ''SectorFinalized'' SubmitReplicaUpdate,
        on ''SectorFinalizeFailed'' FinalizeReplicaUpdateFailed]),
      (SubmitReplicaUpdate, PlanOne [on ''SectorReplicaUpdateSubmitted'' ReplicaUpdateWait,
        on ''SectorSubmitReplicaUpdateFailed'' ReplicaUpdateFailed]),
      (ReplicaUpdateWait, PlanOne [on ''SectorReplicaUpdateLanded'' UpdateActivating,
        on ''SectorSubmitReplicaUpdateFailed'' ReplicaUpdateFailed,
        on ''SectorAbortUpgrade'' AbortUpgrade]),
      (UpdateActivating, PlanOne [on ''SectorUpdateActive'' ReleaseSectorKey]),
      (ReleaseSectorKey, PlanOne [on ''SectorKeyReleased'' Proving,
        on ''SectorReleaseKeyFailed'' ReleaseSectorKeyFailed])]"

definition planners_errors :: "(SectorState \<times> planner) list" where
  "planners_errors =
     [(AddPieceFailed, PlanOne [on ''SectorRetryWaitDeals'' WaitDeals,
        apply_only ''SectorStartPacking'',
        apply_only ''SectorAddPiece'']),
      (SealPreCommit1Failed, PlanOne [on ''SectorRetrySealPreCommit1'' PreCommit1]),
      (SealPreCommit2Failed, PlanOne [on ''SectorRetrySealPreCommit1'' PreCommit1,
        on ''SectorRetrySealPreCommit2'' PreCommit2]),
      (PreCommitFailed, PlanOne [on ''SectorRetryPreCommit'' PreCommitting,
        on ''SectorRetryPreCommitWait'' PreCommitWait,
        on ''SectorRetryWaitSeed'' WaitSeed,
        on ''SectorSealPreCommit1Failed'' SealPreCommit1Failed,
        on ''SectorPreCommitLanded'' WaitSeed,
        onWithCB ''SectorDealsExpired'' DealsExpired False ''DealsExpired'',
        on ''SectorInvalidDealIDs'' RecoverDealIDs]),
      (ComputeProofFailed, PlanOne [on ''SectorRetryComputeProof'' Committing,
        on ''SectorSealPreCommit1Failed'' SealPreCommit1Failed]),
      (RemoteCommitFailed, PlanOne [on ''SectorRetryComputeProof'' Committing]),
      (CommitFinalizeFailed, PlanOne [on ''SectorRetryFinalize'' CommitFinalize]),
      (CommitFailed, PlanOne [on ''SectorSealPreCommit1Failed'' SealPreCommit1Failed,
        on ''SectorRetryWaitSeed'' WaitSeed,
        on ''SectorRetryComputeProof'' Committing,
        on ''SectorRetryInvalidProof'' Committing,
        on ''SectorRetryPreCommitWait'' PreCommitWait,
        on ''SectorChainPreCommitFailed'' PreCommitFailed,
        on ''SectorRetryPreCommit'' PreCommitting,
        on ''SectorRetryCommitWait'' CommitWait,
        on ''SectorRetrySubmitCommit'' SubmitCommit,
        onWithCB ''SectorDealsExpired'' DealsExpired False ''DealsExpired'',
        on ''SectorInvalidDealIDs'' RecoverDealIDs,
        onWithCB ''SectorTicketExpired'' Removing False ''Removing'']),
      (FinalizeFailed, PlanOne [on ''SectorRetryFinalize'' FinalizeSector]),
      (PackingFailed, PlanOne []),
      (DealsExpired, PlanOne []),
      (RecoverDealIDs, PlanOne [onReturning ''SectorUpdateDealIDs''])]"

definition planners_snap_errors :: "(SectorState \<times> planner) list" where
  "planners_snap_errors =
     [(SnapDealsAddPieceFailed, PlanOne [on ''SectorRetryWaitDeals'' SnapDealsWaitDeals,
        apply_only ''SectorStartPacking'',
        apply_only ''SectorAddPiece'',
        on ''SectorAbortUpgrade'' AbortUpgrade]),
      (SnapDealsDealsExpired, PlanOne [on ''SectorAbortUpgrade'' AbortUpgrade]),
      (SnapDealsRecoverDealIDs, PlanOne [on ''SectorUpdateDealIDs'' SubmitReplicaUpdate,
        on ''SectorAbortUpgrade'' AbortUpgrade]),
      (AbortUpgrade, PlanOneOrIgnore [on ''SectorRevertUpgradeToProving'' Proving]),
      (ReplicaUpdateFailed, PlanOne [on ''SectorRetrySubmitReplicaUpdateWait'' ReplicaUpdateWait,
        on ''SectorRetrySubmitReplicaUpdate'' SubmitReplicaUpdate,
        on ''SectorRetryReplicaUpdate'' UpdateReplica,
        on ''SectorRetryProveReplicaUpdate'' ProveReplicaUpdate,
        on ''SectorInvalidDealIDs'' SnapDealsRecoverDealIDs,
        on ''SectorDealsExpired'' SnapDealsDealsExpired,
        on ''SectorAbortUpgrade'' AbortUpgrade]),
      (ReleaseSectorKeyFailed, PlanOne [on ''SectorUpdateActive'' ReleaseSectorKey]),
      (FinalizeReplicaUpdateFailed, PlanOne [on ''SectorRetryFinalize'' FinalizeReplicaUpdate])]"

definition planners_post :: "(SectorState \<times> planner) list" where
  "planners_post =
     [(Proving, PlanOne [on ''SectorFaultReported'' FaultReported,
        on ''SectorFaulty'' Faulty,
        on ''SectorMarkForUpdate'' Available]),
      (Available, PlanOne [on ''SectorStartCCUpdate'' SnapDealsWaitDeals,
        on ''SectorAbortUpgrade'' Proving]),
      (Terminating, PlanOne [on ''SectorTerminating'' TerminateWait,
        on ''SectorTerminateFailed'' TerminateFailed]),
      (TerminateWait, PlanOne [on ''SectorTerminated'' TerminateFinality,
        on ''SectorTerminateFailed'' TerminateFailed]),
      (TerminateFinality, PlanOne [on ''SectorTerminateFailed'' TerminateFailed]),
      (TerminateFailed, PlanOne []),
      (Removing, PlanOneOrIgnore [on ''SectorRemoved'' Removed,
        on ''SectorRemoveFailed'' RemoveFailed]),
      (RemoveFailed, PlanOne []),
      (Faulty, PlanOne [on ''SectorFaultReported'' FaultReported]),
      (FaultReported, Final),
      (FaultedFinal, Final),
      (Removed, FinalRemoved),
      (FailedUnrecoverable, Final)]"

definition fsmPlanners :: "(SectorState \<times> planner) list" where
  "fsmPlanners = planners_sealing @ planners_snap @ planners_errors @ planners_snap_errors @ planners_post"

subsection \<open>The log of a sector\<close>

definition logAppend :: "int \<Rightarrow> Log \<Rightarrow> SectorInfo \<Rightarrow> SectorInfo" where
  "logAppend now l s =
     (let lg = SectorLog s;
          lg = (if 8000 < length lg
                then
                  let lg = lg[2000 := \<lparr>Timestamp = now, Trace = [],
                                       LogMessage = ''truncating log (above 8000 entries)'', Kind = ''truncate''\<rparr>]
                  in take 2000 lg @ drop 6000 lg
                else lg)
      in s\<lparr>SectorLog := lg @ [l]\<rparr>)"

text \<open>
  What a step of the machine takes from outside: the clock, the JSON text of an event (\<open>None\<close> when it
  cannot be marshalled), its trace when it wraps an error, the text of an error and the name of its Go
  type, the configuration (\<open>None\<close> without a callback, \<open>Some None\<close> when the callback fails), whether the
  seal proof type is found, and the ID of the miner.
\<close>

record PlanEnv =
  clock :: int
  event_json :: "SectorEvent \<Rightarrow> string option"
  event_trace :: "SectorEvent \<Rightarrow> string option"
  error_text :: "plan_error option \<Rightarrow> string"
  error_type :: "plan_error option \<Rightarrow> string"
  getConfig :: "SealConfig option option"
  seal_proof_known :: bool
  miner_id :: nat

fun logEvents :: "PlanEnv \<Rightarrow> SectorEvent list \<Rightarrow> SectorInfo \<Rightarrow> SectorInfo" where
  "logEvents env [] s = s"
| "logEvents env (ev # evs) s =
     (case event_json env ev of
        None \<Rightarrow> logEvents env evs s
      | Some e \<Rightarrow>
          if ev = EvGlobal SectorRestart then logEvents env evs s
          else
            let e = (if 8000 < length e then take 8000 e @ ''... truncated'' else e);
                l = \<lparr>Timestamp = clock env,
                     Trace = (case event_trace env ev of Some t \<Rightarrow> t | None \<Rightarrow> []),
                     LogMessage = e, Kind = ''event;sealing.'' @ TypeOf ev\<rparr>
            in logEvents env evs (logAppend (clock env) l s))"

subsection \<open>One step of the machine\<close>

text \<open>
  The statistics are updated with the new state; a new round of input processing starts when they ask
  for one. An error is logged and dropped by the caller.
\<close>

definition onUpdateSector :: "PlanEnv \<Rightarrow> Fsm \<Rightarrow> Fsm" where
  "onUpdateSector env m =
     (case getConfig env of
        None \<Rightarrow> m
      | Some None \<Rightarrow> m
      | Some (Some cfg) \<Rightarrow>
          (case updateSector cfg (miner_id env, SectorNumber (sector m)) (State (sector m)) (fsmStats m) of
             (shouldUpdateInput, st) \<Rightarrow>
               let m = m\<lparr>fsmStats := st\<rparr>
               in if shouldUpdateInput \<and> seal_proof_known env
                  then m\<lparr>inputTriggers := inputTriggers m + 1\<rparr> else m))"

text \<open>The handler of each state, by the name of its function.\<close>

definition handlers :: "(SectorState \<times> string) list" where
  "handlers =
     [(ReceiveSector, ''handleReceiveSector''),
      (Empty, ''handleWaitDeals''),
      (WaitDeals, ''handleWaitDeals''),
      (AddPiece, ''handleAddPiece''),
      (Packing, ''handlePacking''),
      (GetTicket, ''handleGetTicket''),
      (PreCommit1, ''handlePreCommit1''),
      (PreCommit2, ''handlePreCommit2''),
      (PreCommitting, ''handlePreCommitting''),
      (SubmitPreCommitBatch, ''handleSubmitPreCommitBatch''),
      (PreCommitBatchWait, ''handlePreCommitWait''),
      (PreCommitWait, ''handlePreCommitWait''),
      (WaitSeed, ''handleWaitSeed''),
      (Committing, ''handleCommitting''),
      (SubmitCommit, ''handleSubmitCommit''),
      (SubmitCommitAggregate, ''handleSubmitCommitAggregate''),
      (CommitAggregateWait, ''handleCommitWait''),
      (CommitWait, ''handleCommitWait''),
      (CommitFinalize, ''handleFinalizeSector''),
      (FinalizeSector, ''handleFinalizeSector''),
      (SnapDealsWaitDeals, ''handleWaitDeals''),
      (SnapDealsAddPiece, ''handleAddPiece''),
      (SnapDealsPacking, ''handlePacking''),
      (UpdateReplica, ''handleReplicaUpdate''),
      (ProveReplicaUpdate, ''handleProveReplicaUpdate''),
      (SubmitReplicaUpdate, ''handleSubmitReplicaUpdate''),
      (ReplicaUpdateWait, ''handleReplicaUpdateWait''),
      (FinalizeReplicaUpdate, ''handleFinalizeReplicaUpdate''),
      (UpdateActivating, ''handleUpdateActivating''),
      (ReleaseSectorKey, ''handleReleaseSectorKey''),
      (AddPieceFailed, ''handleAddPieceFailed''),
      (SealPreCommit1Failed, ''handleSealPrecommit1Failed''),
      (SealPreCommit2Failed, ''handleSealPrecommit2Failed''),
      (PreCommitFailed, ''handlePreCommitFailed''),
      (ComputeProofFailed, ''handleComputeProofFailed''),
      (RemoteCommitFailed, ''handleRemoteCommitFailed''),
      (CommitFailed, ''handleCommitFailed''),
      (CommitFinalizeFailed, ''handleFinalizeFailed''),
      (FinalizeFailed, ''handleFinalizeFailed''),
      (PackingFailed, ''handleDealsExpired''),
      (DealsExpired, ''handleDealsExpired''),
      (RecoverDealIDs, ''HandleRecoverDealIDs''),
      (SnapDealsAddPieceFailed, ''handleAddPieceFailed''),
      (SnapDealsDealsExpired, ''handleDealsExpiredSnapDeals''),
      (SnapDealsRecoverDealIDs, ''handleSnapDealsRecoverDealIDs''),
      (ReplicaUpdateFailed, ''handleSubmitReplicaUpdateFailed''),
      (ReleaseSectorKeyFailed, ''handleReleaseSectorKeyFailed''),
      (FinalizeReplicaUpdateFailed, ''handleFinalizeFailed''),
      (AbortUpgrade, ''handleAbortUpgrade''),
      (Proving, ''handleProvingSector''),
      (Available, ''handleAvailableSector''),
      (Terminating, ''handleTerminating''),
      (TerminateWait, ''handleTerminateWait''),
      (TerminateFinality, ''handleTerminateFinality''),
      (TerminateFailed, ''handleTerminateFailed''),
      (Removing, ''handleRemoving''),
      (RemoveFailed, ''handleRemoveFailed''),
      (Faulty, ''handleFaulty''),
      (FaultReported, ''handleFaultReported'')]"

text \<open>The handler, the number of processed events as reported, and the machine.\<close>

definition dispatch :: "nat \<Rightarrow> Fsm \<Rightarrow> string option \<times> nat \<times> Fsm" where
  "dispatch processed m =
     (let st = State (sector m)
      in (map_of handlers st,
          if st = ReleaseSectorKeyFailed then 0 else processed,
          if st = PackingFailed then set_state DealsExpired m else m))"

definition is_global :: "SectorEvent \<Rightarrow> bool" where
  "is_global e \<longleftrightarrow> (case e of EvGlobal _ \<Rightarrow> True | _ \<Rightarrow> False)"

text \<open>\<open>None\<close> is a panic of an event's \<open>apply\<close>; \<open>Inl\<close> an error with the number of processed events.\<close>

definition plan ::
  "PlanEnv \<Rightarrow> SectorEvent list \<Rightarrow> Fsm \<Rightarrow> ((plan_error + string option) \<times> nat \<times> Fsm) option"
where
  "plan env events m =
     (let m = m\<lparr>sector := logEvents env events (sector m)\<rparr>;
          p = (case map_of fsmPlanners (State (sector m)) of
                 Some p \<Rightarrow> Some p
               | None \<Rightarrow> if length events = 1 \<and> is_global (hd events) then Some (PlanOne []) else None)
      in case p of
           None \<Rightarrow> Some (Inl (PlannerNotFound (State (sector m))), 0, m)
         | Some p \<Rightarrow>
             (case run_planner p (clock env) events m of
                None \<Rightarrow> None
              | Some (processed, Some err, m) \<Rightarrow> Some (Inl (PlannerFailed (State (sector m)) err), processed, m)
              | Some (processed, None, m) \<Rightarrow>
                  (case dispatch processed (onUpdateSector env m) of
                     (h, processed, m) \<Rightarrow> Some (Inr h, processed, m))))"

text \<open>
  The entry point: the handler to run, the number of processed events, and the machine. An error, and
  a state without a handler, are noted in the log of the sector.
\<close>

definition Plan :: "PlanEnv \<Rightarrow> SectorEvent list \<Rightarrow> Fsm \<Rightarrow> (string option \<times> nat \<times> Fsm) option" where
  "Plan env events m =
     (case plan env events m of
        None \<Rightarrow> None
      | Some (Inr (Some h), processed, m) \<Rightarrow> Some (Some h, processed, m)
      | Some (r, processed, m) \<Rightarrow>
          let err = (case r of Inl e \<Rightarrow> Some e | Inr _ \<Rightarrow> None);
              l = \<lparr>Timestamp = clock env, Trace = [],
                   LogMessage = ''state machine error: '' @ error_text env err,
                   Kind = ''error;'' @ error_type env err\<rparr>
          in Some (None, processed, m\<lparr>sector := logAppend (clock env) l (sector m)\<rparr>))"

text \<open>The event sent by the operator's command to force a state.\<close>

definition ForceSectorState :: "SectorState \<Rightarrow> SectorEvent" where
  "ForceSectorState st =
     (if contains st ''SubmitCommit'' then EvCommit (SectorCommitted []) else EvGlobal (SectorForceState st))"

text \<open>On start-up every tracked sector is sent a restart.\<close>

definition restartSectors :: "SectorInfo list \<Rightarrow> (nat \<times> SectorEvent) list" where
  "restartSectors tracked = map (\<lambda>s. (SectorNumber s, EvGlobal SectorRestart)) tracked"

end
