(* ===== verification/SealingSafety.thy ===== *)
theory SealingSafety
  imports SealingFSM
begin

text \<open>
  What the state machine of a sector keeps and where it can go: the states stay within the table of
  planners, the log stays bounded, the pieces of a sector under upgrade are not lost, a removed sector
  stays removed, and every state of the sealing pipeline leads to \<open>Proving\<close>. The locale
  \<open>sector_invariant\<close> carries the argument that a property of the record which every event keeps is kept by
  \<open>Plan\<close>; it is interpreted for each of the invariants.
\<close>

section \<open>Invariants of the machine\<close>

definition known :: "SectorState \<Rightarrow> bool" where
  "known st \<longleftrightarrow> st \<in> set (map fst fsmPlanners)"

text \<open>The states a transition, a planner or a table can lead to are among the given ones.\<close>

primrec next_within :: "SectorState list \<Rightarrow> next_step \<Rightarrow> bool" where
  "next_within sts (On st) = List.member sts st"
| "next_within sts (OnWithCB st b n) = List.member sts st"
| "next_within sts Apply = True"
| "next_within sts OnReturning = True"

primrec planner_within :: "SectorState list \<Rightarrow> planner \<Rightarrow> bool" where
  "planner_within sts (PlanOne ts) = list_all (\<lambda>t. next_within sts (snd t)) ts"
| "planner_within sts (PlanOneOrIgnore ts) = list_all (\<lambda>t. next_within sts (snd t)) ts"
| "planner_within sts PlanCommitting = True"
| "planner_within sts Final = True"
| "planner_within sts FinalRemoved = True"

definition table_within :: "SectorState list \<Rightarrow> (SectorState \<times> planner) list \<Rightarrow> bool" where
  "table_within sts ps = list_all (\<lambda>p. planner_within sts (snd p)) ps"

abbreviation next_known :: "next_step \<Rightarrow> bool" where
  "next_known \<equiv> next_within (map fst fsmPlanners)"

abbreviation planner_known :: "planner \<Rightarrow> bool" where
  "planner_known \<equiv> planner_within (map fst fsmPlanners)"

text \<open>Every transition of the table leads to a state of the table.\<close>

lemma table_closed: "table_within (map fst fsmPlanners) fsmPlanners"
  by code_simp

lemma planner_known: "map_of fsmPlanners st = Some p \<Longrightarrow> planner_known p"
  using table_closed by (auto dest!: map_of_SomeD simp: table_within_def list_all_iff)

lemma next_known: "list_all (\<lambda>t. next_known (snd t)) ts \<Longrightarrow> map_of ts ty = Some nxt \<Longrightarrow> next_known nxt"
  by (auto dest!: map_of_SomeD simp: list_all_iff)

lemma next_known_simps [simp]:
  "next_known (On st) = known st" "next_known (OnWithCB st b n) = known st"
  by (simp_all add: known_def)

lemma known_states [simp]:
  "known Terminating" "known Removing" "known DealsExpired" "known SubmitCommit" "known CommitFinalize"
  "known Committing" "known ComputeProofFailed" "known RemoteCommitFailed" "known SealPreCommit1Failed"
  "known CommitFailed" "known CommitWait"
  by code_simp+

text \<open>
  A property \<open>Q\<close> of the record of a sector that every event allowed by \<open>ok\<close> keeps. The record may move
  to any state that is \<open>good\<close>, and the states of the table are.
\<close>

locale sector_invariant =
  fixes Q :: "SectorInfo \<Rightarrow> bool"
    and ok :: "SectorEvent \<Rightarrow> bool"
    and good :: "SectorState \<Rightarrow> bool"
  assumes moves: "Q s \<Longrightarrow> good st \<Longrightarrow> Q (s\<lparr>State := st\<rparr>)"
    and known_good: "known st \<Longrightarrow> good st"
    and force_good: "ok (EvGlobal (SectorForceState st)) \<Longrightarrow> good st"
    and returns: "Q s \<Longrightarrow> ReturnTo s \<noteq> [] \<Longrightarrow> Q (s\<lparr>State := ReturnTo s, ReturnTo := []\<rparr>)"
    and events: "Q s \<Longrightarrow> ok e \<Longrightarrow> apply_event now e s = Some s' \<Longrightarrow> Q s'"
    and logs: "Q s \<Longrightarrow> Q (logAppend now l s)"
begin

lemma set_state_inv: "Q (sector m) \<Longrightarrow> known st \<Longrightarrow> Q (sector (set_state st m))"
  by (simp add: set_state_def moves known_good)

lemma notify_sector: "sector (maybeNotifyRemoteDone b st m) = sector m"
  by (simp add: maybeNotifyRemoteDone_def)

lemma global_inv: "Q (sector m) \<Longrightarrow> ok (EvGlobal e) \<Longrightarrow> Q (sector (snd (applyGlobalEvent e m)))"
  by (cases e) (auto simp: set_state_def notify_sector moves known_good force_good)

lemma run_next_inv: "Q (sector m) \<Longrightarrow> next_known nxt \<Longrightarrow> Q (sector (snd (snd (run_next nxt m))))"
  by (cases nxt) (auto simp: set_state_inv notify_sector returns simp del: next_within.simps(1,2))

lemma planOne_inv:
  assumes "planOne_from now ts i es m = Some (k, err, m')"
    and "Q (sector m)" and "\<forall>e\<in>set es. ok e" and "list_all (\<lambda>t. next_known (snd t)) ts"
  shows "Q (sector m')"
  using assms
proof (induction now ts i es m rule: planOne_from.induct)
  case (1 now ts i m)
  then show ?case by simp
next
  case (2 now ts i e es m)
  show ?case
  proof (cases "applyGlobal e m")
    case (Some r)
    then obtain g where "e = EvGlobal g" by (cases e) auto
    then show ?thesis using 2 global_inv [of m g] by (auto split: prod.splits)
  next
    case None
    note glob = this
    show ?thesis
    proof (cases "map_of ts (TypeOf e)")
      case None
      then show ?thesis using glob 2 by (auto split: if_splits)
    next
      case (Some nxt)
      then obtain s where s: "apply_event now e (sector m) = Some s" using 2(3) glob by (auto split: option.splits)
      have inv: "Q (sector (snd (snd (run_next nxt (m\<lparr>sector := s\<rparr>)))))"
        using run_next_inv [of "m\<lparr>sector := s\<rparr>" nxt] events [OF _ _ s] 2(4,5,6) next_known [OF _ Some] by simp
      show ?thesis using 2(2) [OF glob Some s] 2(3-6) glob Some s inv
        by (auto split: if_splits prod.splits)
    qed
  qed
qed

lemma commit_inv: "Q (sector m) \<Longrightarrow> ok (EvCommit e) \<Longrightarrow> Q (applyCommitEvent e (sector m))"
  using events [of "sector m" "EvCommit e"] by simp

lemma planCommitting_inv:
  assumes "Q (sector m)" and "\<forall>e\<in>set es. ok e"
  shows "Q (sector (snd (snd (planCommitting_from i es m))))"
  using assms
proof (induction i es m rule: planCommitting_from.induct)
  case (2 i e es m)
  then show ?case using global_inv [of m e] by (auto split: prod.splits)
qed (auto simp: set_state_inv commit_inv simp del: applyCommitEvent.simps)

lemma run_planner_inv:
  assumes "run_planner p now es m = Some (k, err, m')"
    and "Q (sector m)" and "\<forall>e\<in>set es. ok e" and "planner_known p"
  shows "Q (sector m')"
proof (cases p)
  case PlanCommitting
  then show ?thesis using assms planCommitting_inv [of m es 0] by (cases "planCommitting_from 0 es m") auto
next
  case Final
  then show ?thesis using assms global_inv
    by (auto simp: final_def split: list.splits SectorEvent.splits)
qed (use assms in \<open>auto simp: planOne_def planOneOrIgnore_def finalRemoved_def intro: planOne_inv\<close>)

lemma logEvents_inv: "Q s \<Longrightarrow> Q (logEvents env es s)"
  by (induction env es s rule: logEvents.induct) (auto simp: Let_def logs split: option.splits)

lemma onUpdateSector_sector: "sector (onUpdateSector env m) = sector m"
  by (auto simp: onUpdateSector_def Let_def split: option.splits prod.splits)

lemma plan_inv:
  assumes "plan env es m = Some (r, k, m')" and "Q (sector m)" and "\<forall>e\<in>set es. ok e"
  shows "Q (sector m')"
proof -
  define m1 where "m1 = m\<lparr>sector := logEvents env es (sector m)\<rparr>"
  have m1: "Q (sector m1)" using logEvents_inv [OF assms(2)] by (simp add: m1_def)
  show ?thesis
    using assms(1,3) m1 planner_known [of "State (sector m1)"]
    by (fastforce simp: plan_def Let_def dispatch_def set_state_inv onUpdateSector_sector m1_def [symmetric]
        split: option.splits if_splits dest: run_planner_inv)
qed

lemma Plan_inv:
  assumes "Plan env es m = Some (h, k, m')" and "Q (sector m)" and "\<forall>e\<in>set es. ok e"
  shows "Q (sector m')"
  using assms by (auto simp: Plan_def Let_def split: option.splits sum.splits prod.splits dest!: plan_inv intro!: logs)

end

subsection \<open>The states stay within the table\<close>

definition known_record :: "SectorInfo \<Rightarrow> bool" where
  "known_record s \<longleftrightarrow> known (State s) \<and> (ReturnTo s = [] \<or> known (ReturnTo s))"

text \<open>Events that carry a state, or a whole record, carry a known one.\<close>

fun known_event :: "SectorEvent \<Rightarrow> bool" where
  "known_event (EvGlobal (SectorForceState st)) = known st"
| "known_event (EvRetry (SectorInvalidDealIDs r)) = (r = [] \<or> known r)"
| "known_event (EvPost (SectorReceive s)) = known_record s"
| "known_event e = True"

text \<open>
  What an event leaves alone, a received record apart: the state, the log, the return state unless it
  sets it, and the pieces put aside for an upgrade unless it starts or reverts one.
\<close>

fun apply_frame :: "SectorEvent \<Rightarrow> SectorInfo \<Rightarrow> SectorInfo \<Rightarrow> bool" where
  "apply_frame (EvPost (SectorReceive r)) s s' \<longleftrightarrow> s' = r"
| "apply_frame e s s' \<longleftrightarrow> State s' = State s \<and> SectorLog s' = SectorLog s
     \<and> ((\<exists>r. e = EvRetry (SectorInvalidDealIDs r) \<and> ReturnTo s' = r) \<or> ReturnTo s' = ReturnTo s)
     \<and> (e = EvSnap SectorStartCCUpdate \<or> e = EvSnapFail SectorRevertUpgradeToProving \<or> CCPieces s' = CCPieces s)"

lemma apply_frame: "apply_event now e s = Some s' \<Longrightarrow> apply_frame e s s'"
proof (cases e)
  case (EvSeal x)
  then show "apply_event now e s = Some s' \<Longrightarrow> ?thesis" by (cases x) auto
next
  case (EvCommit x)
  then show "apply_event now e s = Some s' \<Longrightarrow> ?thesis" by (cases x) auto
next
  case (EvSnap x)
  then show "apply_event now e s = Some s' \<Longrightarrow> ?thesis" by (cases x) auto
next
  case (EvRetry x)
  then show "apply_event now e s = Some s' \<Longrightarrow> ?thesis" by (cases x) auto
next
  case (EvSnapFail x)
  then show "apply_event now e s = Some s' \<Longrightarrow> ?thesis" by (cases x) auto
next
  case (EvPost x)
  then show "apply_event now e s = Some s' \<Longrightarrow> ?thesis" by (cases x) auto
qed auto

text \<open>A received record, or a record framed as above.\<close>

lemma apply_event_cases:
  assumes "apply_event now e s = Some s'"
  obtains (receive) r where "e = EvPost (SectorReceive r)" "s' = r"
    | (frame) "\<forall>r. e \<noteq> EvPost (SectorReceive r)" "State s' = State s" "SectorLog s' = SectorLog s"
      "(\<exists>r. e = EvRetry (SectorInvalidDealIDs r) \<and> ReturnTo s' = r) \<or> ReturnTo s' = ReturnTo s"
      "e = EvSnap SectorStartCCUpdate \<or> e = EvSnapFail SectorRevertUpgradeToProving \<or> CCPieces s' = CCPieces s"
  using apply_frame [OF assms] by (elim apply_frame.elims) auto

lemma apply_known:
  assumes "known_record s" and "known_event e" and "apply_event now e s = Some s'"
  shows "known_record s'"
  using assms(3)
proof (cases rule: apply_event_cases)
  case (receive r)
  then show ?thesis using assms(2) by simp
next
  case frame
  then show ?thesis using assms(1,2) by (auto simp: known_record_def)
qed

interpretation kn: sector_invariant known_record known_event known
proof unfold_locales
  show "known_record s'" if "known_record s" "known_event e" "apply_event now e s = Some s'" for s e now s'
    using apply_known that .
qed (auto simp: known_record_def logAppend_def Let_def)

lemma logAppend_frame: "\<exists>lg. logAppend now l s = s\<lparr>SectorLog := lg\<rparr>"
  unfolding logAppend_def Let_def by (rule exI) (rule refl)

lemma logEvents_frame: "\<exists>lg. logEvents env es s = s\<lparr>SectorLog := lg\<rparr>"
proof (induction es arbitrary: s)
  case Nil
  show ?case by (rule exI [of _ "SectorLog s"]) simp
next
  case (Cons ev es)
  have step: "\<exists>lg. logEvents env es (logAppend now l s) = s\<lparr>SectorLog := lg\<rparr>" for now l
  proof -
    obtain lg1 where "logAppend now l s = s\<lparr>SectorLog := lg1\<rparr>" using logAppend_frame by blast
    moreover obtain lg2 where "logEvents env es (s\<lparr>SectorLog := lg1\<rparr>) = (s\<lparr>SectorLog := lg1\<rparr>)\<lparr>SectorLog := lg2\<rparr>"
      using Cons by blast
    ultimately show ?thesis by auto
  qed
  show ?case unfolding logEvents.simps Let_def
    by (cases "event_json env ev"; cases "ev = EvGlobal SectorRestart")
      (simp_all only: option.case if_True if_False step Cons simp_thms)
qed

lemma logEvents_State [simp]: "State (logEvents env es s) = State s"
  using logEvents_frame [of env es s] by auto

lemma known_planner: "known st \<Longrightarrow> \<exists>p. map_of fsmPlanners st = Some p"
  unfolding known_def by (metis map_of_eq_None_iff not_None_eq set_map)


subsection \<open>The log stays bounded\<close>

fun bounded_event :: "SectorEvent \<Rightarrow> bool" where
  "bounded_event (EvPost (SectorReceive s)) = (length (SectorLog s) \<le> 8001)"
| "bounded_event e = True"

lemma apply_bounded:
  assumes "length (SectorLog s) \<le> 8001" and "bounded_event e" and "apply_event now e s = Some s'"
  shows "length (SectorLog s') \<le> 8001"
  using assms(3) by (cases rule: apply_event_cases) (use assms(1,2) in auto)

lemma logAppend_bounded:
  assumes "length (SectorLog s) \<le> 8001"
  shows "length (SectorLog (logAppend now l s)) \<le> 8001"
proof (cases "8000 < length (SectorLog s)")
  case True
  then have "length (SectorLog s) = 8001" using assms by linarith
  then show ?thesis by (simp add: logAppend_def Let_def)
next
  case False
  then show ?thesis by (simp add: logAppend_def)
qed

interpretation lg: sector_invariant "\<lambda>s. length (SectorLog s) \<le> 8001" bounded_event "\<lambda>_. True"
proof unfold_locales
  show "length (SectorLog s') \<le> 8001"
    if "length (SectorLog s) \<le> 8001" "bounded_event e" "apply_event now e s = Some s'" for s e now s'
    using apply_bounded that .
  show "length (SectorLog (logAppend now l s)) \<le> 8001" if "length (SectorLog s) \<le> 8001" for s now l
    using logAppend_bounded that .
qed simp_all

text \<open>
  The log of a sector stays bounded: a record with at most 8001 entries has at most 8001 after any step
  of the machine, whatever the number of events, so long as a received record obeys the bound.
\<close>

theorem sector_log_bounded:
  assumes "length (SectorLog (sector m)) \<le> 8001" and "\<forall>e\<in>set es. bounded_event e"
    and "Plan env es m = Some (h, k, m')"
  shows "length (SectorLog (sector m')) \<le> 8001"
  using lg.Plan_inv [OF assms(3,1,2)] .


subsection \<open>One event at a time\<close>

text \<open>Feeding the machine batches of events; \<open>None\<close> when a step panics.\<close>

fun Plans :: "PlanEnv \<Rightarrow> SectorEvent list list \<Rightarrow> Fsm \<Rightarrow> Fsm option" where
  "Plans env [] m = Some m"
| "Plans env (es # bs) m = (case Plan env es m of None \<Rightarrow> None | Some (_, _, m') \<Rightarrow> Plans env bs m')"

text \<open>A step of the machine that leaves the given record, up to its log.\<close>

definition moves_to :: "PlanEnv \<Rightarrow> SectorEvent list \<Rightarrow> Fsm \<Rightarrow> SectorInfo \<Rightarrow> bool" where
  "moves_to env es m s \<longleftrightarrow> (\<exists>h j m' lg. Plan env es m = Some (h, j, m') \<and> sector m' = s\<lparr>SectorLog := lg\<rparr>)"

lemma onUpdateSector_frame [simp]: "sector (onUpdateSector env m) = sector m"
  by (auto simp: onUpdateSector_def Let_def split: option.splits prod.splits)

lemma plan_moves:
  assumes "plan env es m = Some (Inr h, j, m1)"
  shows "moves_to env es m (sector m1)"
proof (cases h)
  case (Some a)
  then have "Plan env es m = Some (h, j, m1)" using assms by (simp add: Plan_def)
  moreover have "sector m1 = (sector m1)\<lparr>SectorLog := SectorLog (sector m1)\<rparr>" by simp
  ultimately show ?thesis unfolding moves_to_def by blast
next
  case None
  obtain l where "Plan env es m = Some (None, j, m1\<lparr>sector := logAppend (clock env) l (sector m1)\<rparr>)"
    using assms None by (simp add: Plan_def Let_def)
  moreover obtain lg where "logAppend (clock env) l (sector m1) = (sector m1)\<lparr>SectorLog := lg\<rparr>"
    using logAppend_frame by blast
  ultimately show ?thesis unfolding moves_to_def by fastforce
qed

lemma planner_moves:
  assumes "run_planner p (clock env) es (m\<lparr>sector := logEvents env es (sector m)\<rparr>) = Some (k, None, m1)"
    and "map_of fsmPlanners (State (sector m)) = Some p
      \<or> p = PlanOne [] \<and> map_of fsmPlanners (State (sector m)) = None \<and> length es = 1 \<and> is_global (hd es)"
    and "State (sector m1) \<noteq> PackingFailed"
  shows "moves_to env es m (sector m1)"
proof -
  obtain h j m2 where d: "dispatch k (onUpdateSector env m1) = (h, j, m2)" by (cases "dispatch k (onUpdateSector env m1)")
  then have m2: "sector m2 = sector m1" using assms(3) by (auto simp: dispatch_def Let_def)
  have "plan env es m = Some (Inr h, j, m2)" using assms(1,2) d by (elim disjE) (simp_all add: plan_def)
  then show ?thesis using plan_moves m2 by metis
qed

text \<open>An event for which the planner of the state has a transition that does not ask for more.\<close>

lemma transition_moves:
  assumes "map_of fsmPlanners (State (sector m)) \<in> {Some (PlanOne ts), Some (PlanOneOrIgnore ts)}"
    and "map_of ts (TypeOf e) = Some nxt" and "\<not> is_global e"
    and "apply_event (clock env) e (logEvents env [e] (sector m)) = Some s"
    and "run_next nxt (m\<lparr>sector := s\<rparr>) = (False, None, m1)" and "State (sector m1) \<noteq> PackingFailed"
  shows "moves_to env [e] m (sector m1)"
proof -
  have g: "applyGlobal e n = None" for n using assms(3) by (cases e) (auto simp: is_global_def)
  have one: "planOne ts (clock env) [e] (m\<lparr>sector := logEvents env [e] (sector m)\<rparr>) = Some (1, None, m1)"
    using assms(2,4,5) g by (simp add: planOne_def del: logEvents.simps)
  have "\<exists>p. map_of fsmPlanners (State (sector m)) = Some p
      \<and> run_planner p (clock env) [e] (m\<lparr>sector := logEvents env [e] (sector m)\<rparr>) = Some (1, None, m1)"
    using assms(1) one by (auto simp: planOneOrIgnore_def simp del: logEvents.simps)
  then show ?thesis using planner_moves assms(6) by blast
qed

text \<open>Only \<open>Removed\<close> does not listen to global events; in \<open>Committing\<close> a restart is passed over.\<close>

lemma only_Removed: "map_of fsmPlanners st = Some FinalRemoved \<Longrightarrow> st = Removed"
proof -
  have "list_all (\<lambda>p. snd p = FinalRemoved \<longrightarrow> fst p = Removed) fsmPlanners" by code_simp
  then show "map_of fsmPlanners st = Some FinalRemoved \<Longrightarrow> ?thesis"
    by (auto dest!: map_of_SomeD simp: list_all_iff)
qed

lemma global_moves:
  assumes "State (sector m) \<noteq> Removed" and "State (sector (snd (applyGlobalEvent e m1))) \<noteq> PackingFailed"
    and "m1 = m\<lparr>sector := logEvents env [EvGlobal e] (sector m)\<rparr>"
  shows "moves_to env [EvGlobal e] m (sector (snd (applyGlobalEvent e m1)))"
proof -
  define p where "p = (case map_of fsmPlanners (State (sector m)) of Some p \<Rightarrow> p | None \<Rightarrow> PlanOne [])"
  have p: "p \<noteq> FinalRemoved" using assms(1) only_Removed by (auto simp: p_def split: option.splits)
  obtain stop m2 where g: "applyGlobalEvent e m1 = (stop, m2)" by (cases "applyGlobalEvent e m1")
  have "\<exists>k. run_planner p (clock env) [EvGlobal e] m1 = Some (k, None, m2)"
    using p g by (cases p) (auto simp: planOne_def planOneOrIgnore_def final_def)
  then show ?thesis using planner_moves [of p env "[EvGlobal e]" m] assms(2,3) g
    by (auto simp: p_def is_global_def simp del: logEvents.simps split: option.splits)
qed


subsection \<open>An upgrade that is aborted gives the pieces back\<close>

text \<open>Events other than those that start or revert an upgrade or replace the whole record.\<close>

fun upgrade_event :: "SectorEvent \<Rightarrow> bool" where
  "upgrade_event (EvSnap SectorStartCCUpdate) = False"
| "upgrade_event (EvSnapFail SectorRevertUpgradeToProving) = False"
| "upgrade_event (EvPost (SectorReceive s)) = False"
| "upgrade_event e = True"

interpretation up: sector_invariant "\<lambda>s. CCPieces s = ps" upgrade_event "\<lambda>_. True" for ps
proof unfold_locales
  show "CCPieces s' = ps" if "CCPieces s = ps" "upgrade_event e" "apply_event now e s = Some s'" for s e now s'
    using that(3) by (cases rule: apply_event_cases) (use that(1,2) in auto)
qed (auto simp: logAppend_def Let_def)

lemma Plans_upgrade:
  assumes "\<forall>es\<in>set bs. \<forall>e\<in>set es. upgrade_event e" and "Plans env bs m = Some m'"
  shows "CCPieces (sector m') = CCPieces (sector m)"
  using assms
proof (induction bs arbitrary: m)
  case (Cons es bs)
  then obtain h k m1 where "Plan env es m = Some (h, k, m1)" by (auto split: option.splits)
  then show ?case using Cons up.Plan_inv [of env es m h k m1 "CCPieces (sector m)"] by auto
qed simp

lemma moves_to_log [simp]: "moves_to env es m (s\<lparr>SectorLog := lg\<rparr>) = moves_to env es m s"
  by (simp add: moves_to_def)

text \<open>No event but a received record reads or writes the log.\<close>

lemma apply_log:
  assumes "\<forall>r. e \<noteq> EvPost (SectorReceive r)"
  shows "apply_event now e (s\<lparr>SectorLog := lg\<rparr>) = map_option (\<lambda>s. s\<lparr>SectorLog := lg\<rparr>) (apply_event now e s)"
proof (cases e)
  case (EvSeal x) then show ?thesis by (cases x) auto
next
  case (EvCommit x) then show ?thesis by (cases x) auto
next
  case (EvSnap x) then show ?thesis by (cases x) auto
next
  case (EvRetry x) then show ?thesis by (cases x) (auto simp: option.map_comp comp_def intro!: option.map_cong0)
next
  case (EvSnapFail x) then show ?thesis by (cases x) auto
next
  case (EvPost x) then show ?thesis using assms by (cases x) auto
qed simp

primrec next_state :: "next_step \<Rightarrow> SectorState option" where
  "next_state (On st) = Some st"
| "next_state (OnWithCB st b n) = Some st"
| "next_state Apply = None"
| "next_state OnReturning = None"

lemma event_moves:
  assumes "map_of fsmPlanners (State (sector m)) \<in> {Some (PlanOne ts), Some (PlanOneOrIgnore ts)}"
    and "map_of ts (TypeOf e) = Some nxt" and "next_state nxt = Some st" and "st \<noteq> PackingFailed"
    and "\<not> is_global e" and "\<forall>r. e \<noteq> EvPost (SectorReceive r)"
    and "apply_event (clock env) e (sector m) = Some s"
  shows "moves_to env [e] m (s\<lparr>State := st\<rparr>)"
proof -
  obtain lg where "logEvents env [e] (sector m) = (sector m)\<lparr>SectorLog := lg\<rparr>" using logEvents_frame by blast
  then have ap: "apply_event (clock env) e (logEvents env [e] (sector m)) = Some (s\<lparr>SectorLog := lg\<rparr>)"
    using apply_log [OF assms(6)] assms(7) by simp
  have run: "\<exists>m1. run_next nxt (m\<lparr>sector := s\<lparr>SectorLog := lg\<rparr>\<rparr>) = (False, None, m1) \<and> sector m1 = s\<lparr>SectorLog := lg, State := st\<rparr>"
    using assms(3) by (cases nxt) (auto simp: set_state_def maybeNotifyRemoteDone_def)
  then obtain m1 where m1: "run_next nxt (m\<lparr>sector := s\<lparr>SectorLog := lg\<rparr>\<rparr>) = (False, None, m1)"
    "sector m1 = (s\<lparr>State := st\<rparr>)\<lparr>SectorLog := lg\<rparr>" by auto
  have "moves_to env [e] m (sector m1)"
    by (rule transition_moves [OF assms(1,2,5) ap m1(1)]) (simp add: m1(2) assms(4))
  then show ?thesis by (simp add: m1(2))
qed

lemma table_Available: "map_of fsmPlanners Available = Some (PlanOne
    [on ''SectorStartCCUpdate'' SnapDealsWaitDeals, on ''SectorAbortUpgrade'' Proving])"
  by code_simp

lemma table_AbortUpgrade: "map_of fsmPlanners AbortUpgrade = Some (PlanOneOrIgnore
    [on ''SectorRevertUpgradeToProving'' Proving])"
  by code_simp

lemma start_update_moves:
  assumes "State (sector m) = Available"
  shows "moves_to env [EvSnap SectorStartCCUpdate] m
    ((sector m)\<lparr>CCUpdate := True, CCPieces := Pieces (sector m), Pieces := [], State := SnapDealsWaitDeals\<rparr>)"
  using event_moves [of m "[on ''SectorStartCCUpdate'' SnapDealsWaitDeals, on ''SectorAbortUpgrade'' Proving]"
      "EvSnap SectorStartCCUpdate" "On SnapDealsWaitDeals" SnapDealsWaitDeals env]
  by (simp add: assms table_Available on_def is_global_def)

text \<open>
  C9. An upgrade that is aborted gives the pieces back: when a sector in \<open>Available\<close> starts a snap-deal
  upgrade, and after any steps with events other than a new start, a revert or a received record it is in
  \<open>AbortUpgrade\<close>, then the revert leads to \<open>Proving\<close> with exactly the pieces the sector had before the
  upgrade, and with the data of the upgrade cleared.
\<close>

theorem aborted_upgrade_restores_pieces:
  assumes "State (sector m) = Available" and "\<forall>es\<in>set bs. \<forall>e\<in>set es. upgrade_event e"
    and "Plans env ([EvSnap SectorStartCCUpdate] # bs) m = Some m1" and "State (sector m1) = AbortUpgrade"
  shows "\<exists>h k m2. Plan env [EvSnapFail SectorRevertUpgradeToProving] m1 = Some (h, k, m2)
    \<and> State (sector m2) = Proving \<and> Pieces (sector m2) = Pieces (sector m) \<and> CCPieces (sector m2) = []
    \<and> \<not> CCUpdate (sector m2) \<and> UpdateSealed (sector m2) = None \<and> ReplicaUpdateMessage (sector m2) = None"
proof -
  obtain h0 k0 m0 where m0: "Plan env [EvSnap SectorStartCCUpdate] m = Some (h0, k0, m0)"
    "CCPieces (sector m0) = Pieces (sector m)"
    using start_update_moves [OF assms(1), of env] by (auto simp: moves_to_def)
  then have "CCPieces (sector m1) = Pieces (sector m)"
    using assms(2,3) Plans_upgrade [of bs env m0 m1] by simp
  moreover have "moves_to env [EvSnapFail SectorRevertUpgradeToProving] m1
      ((applySnapFailEvent SectorRevertUpgradeToProving (sector m1))\<lparr>State := Proving\<rparr>)"
    using event_moves [of m1 "[on ''SectorRevertUpgradeToProving'' Proving]"
        "EvSnapFail SectorRevertUpgradeToProving" "On Proving" Proving env]
    by (simp add: assms(4) table_AbortUpgrade on_def is_global_def)
  ultimately show ?thesis unfolding moves_to_def by fastforce
qed

subsection \<open>Removal\<close>

lemma Removed_stays:
  assumes "State (sector m) = Removed"
  shows "\<exists>m' lg. Plan env es m = Some (None, length es, m') \<and> sector m' = (sector m)\<lparr>SectorLog := lg\<rparr>"
proof -
  have tab: "map_of fsmPlanners Removed = Some FinalRemoved" by code_simp
  have hd: "map_of handlers Removed = None" by code_simp
  define m1 where "m1 = onUpdateSector env (m\<lparr>sector := logEvents env es (sector m)\<rparr>)"
  have st: "State (sector m1) = Removed" using assms by (simp add: m1_def)
  have "plan env es m = Some (Inr None, length es, m1)"
    using assms tab hd st by (simp add: plan_def finalRemoved_def dispatch_def m1_def)
  then obtain l where "Plan env es m = Some (None, length es, m1\<lparr>sector := logAppend (clock env) l (sector m1)\<rparr>)"
    by (simp add: Plan_def Let_def)
  moreover obtain lg1 where "sector m1 = (sector m)\<lparr>SectorLog := lg1\<rparr>"
    using logEvents_frame [of env es "sector m"] by (auto simp: m1_def)
  moreover obtain lg where "logAppend (clock env) l (sector m1) = (sector m1)\<lparr>SectorLog := lg\<rparr>"
    using logAppend_frame by blast
  ultimately show ?thesis by fastforce
qed

lemma Removed_absorbing:
  "State (sector m) = Removed \<Longrightarrow> \<exists>m' lg. Plans env bs m = Some m' \<and> sector m' = (sector m)\<lparr>SectorLog := lg\<rparr>"
proof (induction bs arbitrary: m)
  case Nil
  show ?case by (simp, rule exI [of _ "SectorLog (sector m)"]) simp
next
  case (Cons es bs)
  then obtain m1 lg where m1: "Plan env es m = Some (None, length es, m1)" "sector m1 = (sector m)\<lparr>SectorLog := lg\<rparr>"
    using Removed_stays by blast
  then show ?case using Cons(1) [of m1] Cons(2) by auto
qed


lemma moves_to_Plans:
  assumes "moves_to env es m s"
  shows "\<exists>m1. Plans env [es] m = Some m1 \<and> State (sector m1) = State s"
  using assms by (auto simp: moves_to_def)

lemma Plans_append: "Plans env (bs @ cs) m = (case Plans env bs m of None \<Rightarrow> None | Some m1 \<Rightarrow> Plans env cs m1)"
  by (induction bs arbitrary: m) (auto split: option.splits)

lemma table_Removing: "map_of fsmPlanners Removing = Some (PlanOneOrIgnore
    [on ''SectorRemoved'' Removed, on ''SectorRemoveFailed'' RemoveFailed])"
  by code_simp

lemma removal_moves:
  assumes "State (sector m) \<noteq> Removed"
  shows "\<exists>m1. Plans env [[EvGlobal SectorRemove], [EvPost SectorRemoved]] m = Some m1 \<and> State (sector m1) = Removed"
proof -
  have "moves_to env [EvGlobal SectorRemove] m
      (sector (snd (applyGlobalEvent SectorRemove (m\<lparr>sector := logEvents env [EvGlobal SectorRemove] (sector m)\<rparr>))))"
    by (rule global_moves) (simp_all add: assms set_state_def)
  then obtain m1 where m1: "Plans env [[EvGlobal SectorRemove]] m = Some m1" "State (sector m1) = Removing"
    using moves_to_Plans by (fastforce simp: set_state_def simp del: Plans.simps)
  then have "moves_to env [EvPost SectorRemoved] m1 ((sector m1)\<lparr>State := Removed\<rparr>)"
    using event_moves [of m1 "[on ''SectorRemoved'' Removed, on ''SectorRemoveFailed'' RemoveFailed]"
        "EvPost SectorRemoved" "On Removed" Removed env]
    by (simp add: table_Removing on_def is_global_def)
  then show ?thesis using moves_to_Plans [of env _ m1] m1 Plans_append [of env "[[EvGlobal SectorRemove]]" "[[EvPost SectorRemoved]]" m]
    by fastforce
qed

text \<open>
  C12. A sector can always be removed, and stays removed: from every state, known or not, the removal
  command and the event that confirms it lead to \<open>Removed\<close>, and no further events, however batched, lead
  out of \<open>Removed\<close> or make the machine panic.
\<close>

theorem removal_reachable_and_final:
  "\<exists>m1. Plans env [[EvGlobal SectorRemove], [EvPost SectorRemoved]] m = Some m1 \<and> State (sector m1) = Removed
    \<and> (\<forall>bs. \<exists>m2. Plans env bs m1 = Some m2 \<and> State (sector m2) = Removed)"
proof -
  have fin: "\<exists>m2. Plans env bs n = Some m2 \<and> State (sector m2) = Removed" if "State (sector n) = Removed" for bs n
    using Removed_absorbing [OF that, of env bs] that by auto
  show ?thesis
  proof (cases "State (sector m) = Removed")
    case True
    then show ?thesis using fin by blast
  next
    case False
    then show ?thesis using fin removal_moves by blast
  qed
qed

subsection \<open>Every state of the pipeline leads to Proving\<close>

text \<open>
  For each state an event that brings the sector closer to \<open>Proving\<close>, and the state it leads to. The list is
  ordered so that every state it leads to comes earlier.
\<close>

definition to_proving :: "(SectorState \<times> SectorEvent \<times> SectorState) list" where
  "to_proving =
     [(FinalizeSector, EvCommit SectorFinalized, Proving),
      (CommitWait, EvCommit SectorProving, FinalizeSector),
      (CommitAggregateWait, EvCommit SectorProving, FinalizeSector),
      (SubmitCommitAggregate, EvCommit (SectorCommitAggregateSent []), CommitAggregateWait),
      (SubmitCommit, EvCommit (SectorCommitSubmitted []), CommitWait),
      (CommitFinalize, EvCommit SectorFinalized, SubmitCommit),
      (Committing, EvCommit (SectorCommitted []), SubmitCommit),
      (WaitSeed, EvCommit (SectorSeedReady [] 0), Committing),
      (PreCommitWait, EvSeal (SectorPreCommitLanded []), WaitSeed),
      (PreCommitBatchWait, EvSeal (SectorPreCommitLanded []), WaitSeed),
      (SubmitPreCommitBatch, EvSeal (SectorPreCommitBatchSent []), PreCommitBatchWait),
      (PreCommitting, EvSeal SectorPreCommitBatch, SubmitPreCommitBatch),
      (PreCommit2, EvSeal (SectorPreCommit2 [] []), PreCommitting),
      (PreCommit1, EvSeal (SectorPreCommit1 []), PreCommit2),
      (GetTicket, EvSeal (SectorTicket [] 0), PreCommit1),
      (Packing, EvSeal (SectorPacked []), GetTicket),
      (WaitDeals, EvSeal SectorStartPacking, Packing),
      (Empty, EvSeal SectorStartPacking, Packing),
      (AddPiece, EvSeal (SectorPieceAdded []), WaitDeals),
      (UndefinedSectorState, EvSeal (SectorStart 0 0), WaitDeals),
      (AddPieceFailed, EvSeal SectorRetryWaitDeals, WaitDeals),
      (SealPreCommit1Failed, EvRetry SectorRetrySealPreCommit1, PreCommit1),
      (SealPreCommit2Failed, EvRetry SectorRetrySealPreCommit2, PreCommit2),
      (PreCommitFailed, EvRetry SectorRetryPreCommit, PreCommitting),
      (ComputeProofFailed, EvRetry SectorRetryComputeProof, Committing),
      (RemoteCommitFailed, EvRetry SectorRetryComputeProof, Committing),
      (CommitFinalizeFailed, EvCommit SectorRetryFinalize, CommitFinalize),
      (CommitFailed, EvCommit SectorRetrySubmitCommit, SubmitCommit),
      (FinalizeFailed, EvCommit SectorRetryFinalize, FinalizeSector),
      (ReleaseSectorKey, EvSnap SectorKeyReleased, Proving),
      (UpdateActivating, EvSnap SectorUpdateActive, ReleaseSectorKey),
      (ReplicaUpdateWait, EvSnap SectorReplicaUpdateLanded, UpdateActivating),
      (SubmitReplicaUpdate, EvSnap (SectorReplicaUpdateSubmitted []), ReplicaUpdateWait),
      (FinalizeReplicaUpdate, EvCommit SectorFinalized, SubmitReplicaUpdate),
      (ProveReplicaUpdate, EvSnap (SectorProveReplicaUpdate []), FinalizeReplicaUpdate),
      (UpdateReplica, EvSnap (SectorReplicaUpdate [] []), ProveReplicaUpdate),
      (SnapDealsPacking, EvSeal (SectorPacked []), UpdateReplica),
      (SnapDealsWaitDeals, EvSeal SectorStartPacking, SnapDealsPacking),
      (SnapDealsAddPiece, EvSeal (SectorPieceAdded []), SnapDealsWaitDeals),
      (Available, EvSnapFail SectorAbortUpgrade, Proving),
      (AbortUpgrade, EvSnapFail SectorRevertUpgradeToProving, Proving),
      (SnapDealsAddPieceFailed, EvSeal SectorRetryWaitDeals, SnapDealsWaitDeals),
      (SnapDealsDealsExpired, EvSnapFail SectorAbortUpgrade, AbortUpgrade),
      (SnapDealsRecoverDealIDs, EvSnapFail SectorAbortUpgrade, AbortUpgrade),
      (ReplicaUpdateFailed, EvSnapFail SectorRetryReplicaUpdate, UpdateReplica),
      (ReleaseSectorKeyFailed, EvSnap SectorUpdateActive, ReleaseSectorKey),
      (FinalizeReplicaUpdateFailed, EvCommit SectorRetryFinalize, FinalizeReplicaUpdate)]"

text \<open>The states outside the pipeline: removal, termination, faults, and those that return to a recorded state.\<close>

definition off_pipeline :: "SectorState list" where
  "off_pipeline =
     [ReceiveSector, RecoverDealIDs, PackingFailed, DealsExpired, Terminating, TerminateWait, TerminateFinality,
      TerminateFailed, Removing, RemoveFailed, Faulty, FaultReported, FaultedFinal, Removed, FailedUnrecoverable]"

fun always_applies :: "SectorEvent \<Rightarrow> bool" where
  "always_applies (EvGlobal e) = False"
| "always_applies (EvRetry (SectorUpdateDealIDs ids)) = False"
| "always_applies (EvPost p) = False"
| "always_applies e = True"

lemma always_applies:
  assumes "always_applies e"
  shows "(\<exists>s'. apply_event now e s = Some s') \<and> \<not> is_global e \<and> (\<forall>r. e \<noteq> EvPost (SectorReceive r))"
proof (cases e)
  case (EvRetry x)
  then show ?thesis using assms by (cases x) (auto simp: is_global_def)
qed (use assms in \<open>auto simp: is_global_def\<close>)

definition leads_to :: "planner option \<Rightarrow> SectorEvent \<Rightarrow> SectorState \<Rightarrow> bool" where
  "leads_to p e st = (always_applies e \<and> st \<noteq> PackingFailed \<and>
     (case p of
        Some (PlanOne ts) \<Rightarrow> Option.bind (map_of ts (TypeOf e)) next_state = Some st
      | Some (PlanOneOrIgnore ts) \<Rightarrow> Option.bind (map_of ts (TypeOf e)) next_state = Some st
      | Some PlanCommitting \<Rightarrow> e = EvCommit (SectorCommitted []) \<and> st = SubmitCommit
      | _ \<Rightarrow> False))"

lemma leads_to_moves:
  assumes "leads_to (map_of fsmPlanners (State (sector m))) e st"
  shows "\<exists>m1. Plans env [[e]] m = Some m1 \<and> State (sector m1) = st"
proof -
  obtain s where s: "apply_event (clock env) e (sector m) = Some s" and e: "\<not> is_global e" "\<forall>r. e \<noteq> EvPost (SectorReceive r)"
    using assms always_applies [of e "clock env" "sector m"] by (auto simp: leads_to_def)
  consider (table) ts nxt where "map_of fsmPlanners (State (sector m)) \<in> {Some (PlanOne ts), Some (PlanOneOrIgnore ts)}"
      "map_of ts (TypeOf e) = Some nxt" "next_state nxt = Some st"
    | (committing) "map_of fsmPlanners (State (sector m)) = Some PlanCommitting" "e = EvCommit (SectorCommitted [])" "st = SubmitCommit"
    using assms by (auto simp: leads_to_def split: option.splits planner.splits bind_splits)
  then have "\<exists>s'. moves_to env [e] m s' \<and> State s' = st"
  proof cases
    case table
    then show ?thesis using event_moves [OF table _ e s] assms by (force simp: leads_to_def)
  next
    case committing
    then show ?thesis
      using planner_moves [of PlanCommitting env "[e]" m 1 "set_state SubmitCommit (m\<lparr>sector := logEvents env [e] (sector m)\<rparr>)"]
      by (force simp: set_state_def simp del: logEvents.simps)
  qed
  then show ?thesis using moves_to_Plans by blast
qed

fun routes :: "(SectorState \<times> planner) list \<Rightarrow> SectorState list \<Rightarrow> (SectorState \<times> SectorEvent \<times> SectorState) list \<Rightarrow> bool" where
  "routes tab sts [] = True"
| "routes tab sts ((st, e, st') # rs) = (List.member sts st' \<and> leads_to (map_of tab st) e st' \<and> routes tab (st # sts) rs)"

lemma to_proving_routes: "routes fsmPlanners [Proving] to_proving"
  by code_simp

text \<open>Reaching \<open>Proving\<close> by single events, none of them a global one.\<close>

definition reaches_proving :: "PlanEnv \<Rightarrow> Fsm \<Rightarrow> bool" where
  "reaches_proving env m \<longleftrightarrow>
     (\<exists>es m1. list_all (\<lambda>e. \<not> is_global e) es \<and> Plans env (map (\<lambda>e. [e]) es) m = Some m1 \<and> State (sector m1) = Proving)"

lemma reaches_step:
  assumes "leads_to (map_of fsmPlanners (State (sector m))) e st" and "\<And>n. State (sector n) = st \<Longrightarrow> reaches_proving env n"
  shows "reaches_proving env m"
proof -
  obtain m1 where m1: "Plans env [[e]] m = Some m1" "State (sector m1) = st" using leads_to_moves [OF assms(1)] by blast
  then obtain es m2 where "list_all (\<lambda>e. \<not> is_global e) es" "Plans env (map (\<lambda>e. [e]) es) m1 = Some m2" "State (sector m2) = Proving"
    using assms(2) [OF m1(2)] unfolding reaches_proving_def by blast
  moreover have "\<not> is_global e" using assms(1) always_applies [of e] by (auto simp: leads_to_def)
  ultimately show ?thesis
    using m1 Plans_append [of env "[[e]]" "map (\<lambda>e. [e]) es" m] by (auto simp: reaches_proving_def intro!: exI [of _ "e # es"])
qed

lemma routes_reach:
  assumes "routes fsmPlanners sts rs" and "\<And>n. State (sector n) \<in> set sts \<Longrightarrow> reaches_proving env n"
    and "State (sector m) \<in> set sts \<union> fst ` set rs"
  shows "reaches_proving env m"
  using assms
proof (induction rs arbitrary: sts m)
  case (Cons r rs)
  obtain st e st' where r: "r = (st, e, st')" by (cases r)
  have here: "reaches_proving env n" if "State (sector n) = st" for n
    using reaches_step [of n e st'] Cons(2,3) that by (auto simp: r)
  show ?case using Cons(1) [of "st # sts" m] Cons(2-4) here by (auto simp: r)
qed simp

lemma pipeline_covered:
  "list_all (\<lambda>st. st \<in> set off_pipeline \<or> st \<in> set (Proving # map fst to_proving)) (map fst fsmPlanners)"
  by code_simp


subsection \<open>Progress\<close>

lemma planOne_count:
  assumes "planOne_from now ts i es m = Some (k, err, m')"
  shows "i \<le> k \<and> k \<le> i + length es \<and> (es \<noteq> [] \<longrightarrow> i < k)"
  using assms
  by (induction now ts i es m arbitrary: k err m' rule: planOne_from.induct)
    (force split: option.splits prod.splits if_splits)+

lemma planCommitting_count:
  "case planCommitting_from i es m of (k, err, m') \<Rightarrow> i \<le> k \<and> k \<le> i + length es \<and> (es \<noteq> [] \<and> err = None \<longrightarrow> i < k)"
proof (induction i es m rule: planCommitting_from.induct)
  case (2 i e es m)
  then show ?case by (cases "applyGlobalEvent e m") (fastforce split: prod.splits if_splits)
qed (auto split: prod.splits if_splits)

text \<open>What a planner promises about the number of events it reports as processed.\<close>

locale counting_planner =
  fixes run :: "'p \<Rightarrow> int \<Rightarrow> SectorEvent list \<Rightarrow> Fsm \<Rightarrow> plan_result"
  assumes bound: "run p now es m = Some (k, err, m') \<Longrightarrow> k \<le> length es"
    and progress: "run p now es m = Some (k, None, m') \<Longrightarrow> es \<noteq> [] \<Longrightarrow> 0 < k"
begin

lemma single: "run p now [e] m = Some (k, None, m') \<Longrightarrow> k = 1"
  using bound progress by fastforce

end

interpretation cp: counting_planner run_planner
proof unfold_locales
  fix p now es m k err m'
  assume r: "run_planner p now es m = Some (k, err, m')"
  show "k \<le> length es"
  proof (cases p)
    case PlanCommitting
    then show ?thesis using r planCommitting_count [of 0 es m] by (auto split: prod.splits)
  next
    case Final
    then show ?thesis using r by (auto simp: final_def split: list.splits SectorEvent.splits)
  qed (use r planOne_count in \<open>force simp: planOne_def planOneOrIgnore_def finalRemoved_def\<close>)+
next
  fix p now es m k m'
  assume r: "run_planner p now es m = Some (k, None, m')" and ne: "es \<noteq> []"
  show "0 < k"
  proof (cases p)
    case PlanCommitting
    then show ?thesis using r ne planCommitting_count [of 0 es m] by (auto split: prod.splits)
  next
    case Final
    then show ?thesis using r by (auto simp: final_def split: list.splits SectorEvent.splits)
  qed (use r ne planOne_count in \<open>force simp: planOne_def planOneOrIgnore_def finalRemoved_def\<close>)+
qed

lemma no_handler: "list_all (\<lambda>st. map_of handlers st = None) [UndefinedSectorState, FaultedFinal, FailedUnrecoverable, Removed]"
  by code_simp

text \<open>
  A step consumes events: it never reports more events than it was given, and when it chooses a handler
  it has processed at least one of them, with the exception of \<open>ReleaseSectorKeyFailed\<close>, where the number
  reported is always 0.
\<close>

theorem plan_consumes_events:
  assumes "plan env es m = Some (r, k, m')"
  shows "k \<le> length es
    \<and> (es \<noteq> [] \<and> r = Inr h \<and> State (sector m') \<noteq> ReleaseSectorKeyFailed \<longrightarrow> 0 < k)
    \<and> (r = Inr h \<and> State (sector m') = ReleaseSectorKeyFailed \<longrightarrow> k = 0)"
proof -
  define m1 where "m1 = m\<lparr>sector := logEvents env es (sector m)\<rparr>"
  show ?thesis
    using assms
    by (auto simp: plan_def Let_def dispatch_def set_state_def m1_def [symmetric] simp del: run_planner.simps
        split: option.splits if_splits dest: cp.bound cp.progress)
qed

subsection \<open>Examples\<close>

definition example_env :: PlanEnv where
  "example_env = \<lparr>clock = 1700000000, event_json = (\<lambda>e. Some (TypeOf e)), event_trace = (\<lambda>_. None),
     error_text = (\<lambda>_. ''error''), error_type = (\<lambda>_. ''xerrors''), getConfig = None,
     seal_proof_known = True, miner_id = 1000\<rparr>"

definition example_piece :: SectorPiece where
  "example_piece = \<lparr>Piece = \<lparr>Size = 2048, PieceCID = ''piece''\<rparr>, DealInfo = None\<rparr>"

definition example_sector :: "SectorState \<Rightarrow> SectorInfo" where
  "example_sector st =
    \<lparr>State = st, SectorNumber = 7, SectorType = 0, CreationTime = 0, Pieces = [example_piece],
     TicketValue = [], TicketEpoch = 0, PreCommit1Out = [], CommD = None, CommR = None, Proof = [1, 2, 3],
     PreCommitDeposit = None, PreCommitMessage = None, PreCommitTipSet = [], PreCommit2Fails = 0,
     SeedValue = [], SeedEpoch = 0, CommitMessage = None, InvalidProofs = 0, CCUpdate = False,
     CCPieces = [], UpdateSealed = None, UpdateUnsealed = None, ReplicaUpdateProof = [],
     ReplicaUpdateMessage = None, FaultReportMsg = None, ReturnTo = [], TerminateMessage = None,
     TerminatedAt = 0, RemoteDataUnsealed = None, RemoteDataSealed = None, RemoteDataCache = None,
     RemoteCommit1Endpoint = [], RemoteCommit2Endpoint = [], RemoteSealingDoneEndpoint = [],
     RemoteDataFinalized = False, LastErr = [], SectorLog = []\<rparr>"

definition example_fsm :: "SectorState \<Rightarrow> Fsm" where
  "example_fsm st = \<lparr>sector = example_sector st, notices = [], RemoveSectors = [], fsmStats = newSectorStats, inputTriggers = 0\<rparr>"
lemma example_known: "known_record (sector (example_fsm PreCommit1))"
  by code_simp


theorem sector_log_bounded_witness:
  "\<exists>h k m'. Plan example_env [EvSeal (SectorPreCommit1 [])] (example_fsm PreCommit1) = Some (h, k, m')
    \<and> State (sector m') = PreCommit2 \<and> length (SectorLog (sector m')) \<le> 8001"
proof -
  have run: "(case Plan example_env [EvSeal (SectorPreCommit1 [])] (example_fsm PreCommit1) of
      None \<Rightarrow> False | Some (h, k, m') \<Rightarrow> State (sector m') = PreCommit2)"
    by code_simp
  then obtain h k m' where p: "Plan example_env [EvSeal (SectorPreCommit1 [])] (example_fsm PreCommit1) = Some (h, k, m')"
    "State (sector m') = PreCommit2" by (auto split: option.splits)
  have "length (SectorLog (sector m')) \<le> 8001"
    by (rule sector_log_bounded [OF _ _ p(1)]) (simp_all add: example_fsm_def example_sector_def)
  then show ?thesis using p by blast
qed

theorem aborted_upgrade_restores_pieces_witness:
  "\<exists>m1 h k m2. Plans example_env [[EvSnap SectorStartCCUpdate], [EvSeal SectorStartPacking], [EvSnapFail SectorAbortUpgrade]]
      (example_fsm Available) = Some m1 \<and> Pieces (sector m1) = []
    \<and> Plan example_env [EvSnapFail SectorRevertUpgradeToProving] m1 = Some (h, k, m2)
    \<and> State (sector m2) = Proving \<and> Pieces (sector m2) = [example_piece]"
proof -
  have "(case Plans example_env [[EvSnap SectorStartCCUpdate], [EvSeal SectorStartPacking], [EvSnapFail SectorAbortUpgrade]]
      (example_fsm Available) of None \<Rightarrow> False | Some m1 \<Rightarrow> State (sector m1) = AbortUpgrade \<and> Pieces (sector m1) = [])"
    by code_simp
  then obtain m1 where m1: "Plans example_env ([EvSnap SectorStartCCUpdate] # [[EvSeal SectorStartPacking], [EvSnapFail SectorAbortUpgrade]])
      (example_fsm Available) = Some m1" "State (sector m1) = AbortUpgrade" "Pieces (sector m1) = []"
    by (auto simp del: Plans.simps split: option.splits)
  have "State (sector (example_fsm Available)) = Available" "Pieces (sector (example_fsm Available)) = [example_piece]"
    by (simp_all add: example_fsm_def example_sector_def)
  then show ?thesis
    using aborted_upgrade_restores_pieces [OF _ _ m1(1,2)] m1(1,3) by (auto simp del: Plans.simps)
qed


theorem plan_consumes_events_witness:
  "\<exists>r m'. plan example_env [EvSnapFail SectorReleaseKeyFailed] (example_fsm ReleaseSectorKey) = Some (r, 0, m')
    \<and> State (sector m') = ReleaseSectorKeyFailed"
proof -
  have "(case plan example_env [EvSnapFail SectorReleaseKeyFailed] (example_fsm ReleaseSectorKey) of
      None \<Rightarrow> False | Some (r, k, m') \<Rightarrow> r = Inr (Some ''handleReleaseSectorKeyFailed'') \<and> State (sector m') = ReleaseSectorKeyFailed)"
    by code_simp
  then obtain r k m' where p: "plan example_env [EvSnapFail SectorReleaseKeyFailed] (example_fsm ReleaseSectorKey) = Some (r, k, m')"
    "r = Inr (Some ''handleReleaseSectorKeyFailed'')" "State (sector m') = ReleaseSectorKeyFailed" by (auto split: option.splits)
  then show ?thesis using plan_consumes_events [OF p(1), of "Some ''handleReleaseSectorKeyFailed''"] by auto
qed

subsection \<open>Where the machine departs from its intent\<close>

text \<open>The entry that should mark a truncation of the log is itself cut off.\<close>

lemma log_truncation_marker_lost:
  assumes "8000 < length (SectorLog s)"
  shows "SectorLog (logAppend now l s) = take 2000 (SectorLog s) @ drop 6000 (SectorLog s) @ [l]"
  using assms by (simp add: logAppend_def Let_def)

text \<open>
  Forcing a sector in \<open>FinalizeSector\<close> to \<open>SubmitCommit\<close> wipes its proof: the event sent has an empty proof, and
  only the planner of \<open>Committing\<close> guards against that.
\<close>

lemma forced_submit_commit_wipes_proof:
  assumes "State (sector m) = FinalizeSector"
  shows "moves_to env [ForceSectorState SubmitCommit] m ((sector m)\<lparr>Proof := [], State := SubmitCommit\<rparr>)"
proof -
  have "(case map_of fsmPlanners FinalizeSector of
      Some (PlanOne ts) \<Rightarrow> map_of ts ''SectorCommitted'' = Some (On SubmitCommit) | _ \<Rightarrow> False)" by code_simp
  then obtain ts where ts: "map_of fsmPlanners FinalizeSector = Some (PlanOne ts)" "map_of ts ''SectorCommitted'' = Some (On SubmitCommit)"
    by (auto split: option.splits planner.splits)
  have f: "ForceSectorState SubmitCommit = EvCommit (SectorCommitted [])" by (simp add: ForceSectorState_def)
  show ?thesis using event_moves [of m ts "EvCommit (SectorCommitted [])" "On SubmitCommit" SubmitCommit env]
    by (simp add: assms ts f is_global_def)
qed

text \<open>
  The operator cannot force the state \<open>SubmitCommitAggregate\<close>: an empty proof is sent instead, which a sector in
  \<open>CommitFailed\<close> does not expect.
\<close>

lemma forced_aggregate_not_forced:
  "ForceSectorState SubmitCommitAggregate = EvCommit (SectorCommitted [])
    \<and> map_option (\<lambda>(h, k, m'). State (sector m')) (Plan example_env [ForceSectorState SubmitCommitAggregate] (example_fsm CommitFailed))
      = Some CommitFailed"
  by code_simp

end
