(* ===== verification/FundManager.thy ===== *)
theory FundManager
  imports Lotus_Prelude "HOL-Library.AList" "HOL-Library.Multiset"
begin

section \<open>Market: the fund manager\<close>

text \<open>
  Models \<open>src/chain/market/fundmanager.go\<close> and the data it keeps through \<open>src/chain/market/store.go\<close>: the
  reserved amount of an address in the storage market, the queues of reservations, releases and
  withdrawals, and the one message at a time that is sent on chain for it.

  A request is shared between the queue that holds it and the lists that \<open>process\<close> builds from it, so
  what is known about a request, that it is completed and with what, is kept in a store by the identity of
  the request. Completing a request twice closes a closed channel: that is the panic \<open>CloseOfClosed\<close>.
  Whether the context of a request has expired is read once per step.

  The chain is outside: the balance of an address, the outcome of pushing a message and the encoding of
  parameters are parameters, which may answer differently on every call. The goroutines are the steps of
  a transition relation: a request arrives, a queue is processed, the wait for a message ends, a context
  expires, the node restarts. Each step runs under the lock of the address.
\<close>

subsection \<open>State\<close>

record FundedAddressState =
  Addr :: address
  AmtReserved :: token
  MsgCid :: "cid option"

record fundRequest =
  reqID :: nat
  amt :: token
  Wallet :: address

text \<open>The result handed to the waiting caller: a message, if one was sent, or an error.\<close>

record reqResult =
  res_msgCid :: "cid option"
  res_err :: "string option"

text \<open>The messages the manager pushes to the market actor.\<close>

datatype MarketParams = AddBalanceParams address | WithdrawBalanceParams address token

datatype MarketMethod = AddBalance | WithdrawBalance

record MarketMsg =
  MsgMethod :: MarketMethod
  MsgFrom :: address
  MsgValue :: token
  MsgParams :: bytes

record MarketBalance =
  Escrow :: token
  Locked :: token

text \<open>
  The outside: the balance on the \<open>n\<close>-th call, the message pool on the \<open>n\<close>-th call, the encoding of
  parameters, and whether the data store accepts the \<open>n\<close>-th write.
\<close>

record fundManagerAPI =
  StateMarketBalance :: "nat \<Rightarrow> address \<Rightarrow> string + MarketBalance"
  MpoolPushMessage :: "nat \<Rightarrow> MarketMsg \<Rightarrow> string + cid"
  SerializeParams :: "MarketParams \<Rightarrow> string + bytes"
  save_ok :: "nat \<Rightarrow> bool"

text \<open>
  An address under management. Besides the fields of the source: the store of completed requests, the
  expired contexts, the record in the data store, the running waits, the messages pushed, and the
  numbers of calls and of writes so far.
\<close>

record fundedAddress =
  astate :: FundedAddressState
  reservations :: "fundRequest list"
  releases :: "fundRequest list"
  withdrawals :: "fundRequest list"
  completed :: "(nat \<times> reqResult) list"
  expired :: "nat list"
  stored :: "FundedAddressState option"
  waits :: "cid list"
  pushed :: "(MarketParams \<times> token) list"
  calls :: nat
  writes :: nat
  nextReq :: nat

datatype fund_panic = CloseOfClosed | IndexOutOfRange

definition newFundedAddress :: "address \<Rightarrow> fundedAddress" where
  "newFundedAddress addr =
     \<lparr>astate = \<lparr>Addr = addr, AmtReserved = 0, MsgCid = None\<rparr>, reservations = [], releases = [], withdrawals = [],
      completed = [], expired = [], stored = None, waits = [], pushed = [], calls = 0, writes = 0, nextReq = 0\<rparr>"

subsection \<open>Requests\<close>

definition Amount :: "fundedAddress \<Rightarrow> fundRequest \<Rightarrow> token" where
  "Amount a req = (if reqID req \<in> set (expired a) then 0 else amt req)"

definition Completed :: "fundedAddress \<Rightarrow> fundRequest \<Rightarrow> bool" where
  "Completed a req \<longleftrightarrow> map_of (completed a) (reqID req) \<noteq> None"

definition Complete :: "cid option \<Rightarrow> string option \<Rightarrow> fundRequest \<Rightarrow> fundedAddress \<Rightarrow> fund_panic + fundedAddress" where
  "Complete c err req a =
     (if Completed a req then Inl CloseOfClosed
      else Inr (a\<lparr>completed := (reqID req, \<lparr>res_msgCid = c, res_err = err\<rparr>) # completed a\<rparr>))"

fun Complete_all :: "cid option \<Rightarrow> string option \<Rightarrow> fundRequest list \<Rightarrow> fundedAddress \<Rightarrow> fund_panic + fundedAddress" where
  "Complete_all c err [] a = Inr a"
| "Complete_all c err (req # reqs) a =
     (case Complete c err req a of Inl p \<Rightarrow> Inl p | Inr a \<Rightarrow> Complete_all c err reqs a)"

definition filterOutProcessedReqs :: "fundedAddress \<Rightarrow> fundRequest list \<Rightarrow> fundRequest list" where
  "filterOutProcessedReqs a reqs = filter (\<lambda>req. \<not> Completed a req) reqs"

subsection \<open>State changes\<close>

definition saveState :: "fundManagerAPI \<Rightarrow> fundedAddress \<Rightarrow> fundedAddress" where
  "saveState api a =
     a\<lparr>stored := (if save_ok api (writes a) then Some (astate a) else stored a), writes := writes a + 1\<rparr>"

text \<open>A missing amount leaves the reserved amount as it is.\<close>

definition applyStateChange :: "fundManagerAPI \<Rightarrow> cid option \<Rightarrow> token option \<Rightarrow> fundedAddress \<Rightarrow> fundedAddress" where
  "applyStateChange api c reserved a =
     saveState api (a\<lparr>astate := (astate a)\<lparr>MsgCid := c,
        AmtReserved := (case reserved of None \<Rightarrow> AmtReserved (astate a) | Some r \<Rightarrow> r)\<rparr>\<rparr>)"

definition clearWaitState :: "fundManagerAPI \<Rightarrow> fundedAddress \<Rightarrow> fundedAddress" where
  "clearWaitState api a = saveState api (a\<lparr>astate := (astate a)\<lparr>MsgCid := None\<rparr>\<rparr>)"

definition startWaitForResults :: "cid \<Rightarrow> fundedAddress \<Rightarrow> fundedAddress" where
  "startWaitForResults c a = a\<lparr>waits := waits a @ [c]\<rparr>"

subsection \<open>Calls to the chain\<close>

definition AvailableFunds :: "fundManagerAPI \<Rightarrow> fundedAddress \<Rightarrow> (string + token) \<times> fundedAddress" where
  "AvailableFunds api a =
     ((case StateMarketBalance api (calls a) (Addr (astate a)) of
         Inl e \<Rightarrow> Inl e | Inr bal \<Rightarrow> Inr (Escrow bal - Locked bal)),
      a\<lparr>calls := calls a + 1\<rparr>)"

definition pushMessage ::
  "fundManagerAPI \<Rightarrow> MarketMsg \<Rightarrow> MarketParams \<Rightarrow> fundedAddress \<Rightarrow> (string + cid) \<times> fundedAddress"
where
  "pushMessage api msg params a =
     (case MpoolPushMessage api (calls a) msg of
        Inl e \<Rightarrow> (Inl e, a\<lparr>calls := calls a + 1\<rparr>)
      | Inr c \<Rightarrow> (Inr c, a\<lparr>calls := calls a + 1, pushed := pushed a @ [(params, MsgValue msg)]\<rparr>))"

definition AddFunds :: "fundManagerAPI \<Rightarrow> address \<Rightarrow> token \<Rightarrow> fundedAddress \<Rightarrow> (string + cid) \<times> fundedAddress" where
  "AddFunds api wallet v a =
     (let params = AddBalanceParams (Addr (astate a))
      in case SerializeParams api params of
           Inl e \<Rightarrow> (Inl e, a)
         | Inr b \<Rightarrow> pushMessage api \<lparr>MsgMethod = AddBalance, MsgFrom = wallet, MsgValue = v, MsgParams = b\<rparr> params a)"

definition WithdrawFunds :: "fundManagerAPI \<Rightarrow> address \<Rightarrow> token \<Rightarrow> fundedAddress \<Rightarrow> (string + cid) \<times> fundedAddress" where
  "WithdrawFunds api wallet v a =
     (let params = WithdrawBalanceParams (Addr (astate a)) v
      in case SerializeParams api params of
           Inl e \<Rightarrow> (Inl (''serializing params: '' @ e), a)
         | Inr b \<Rightarrow> pushMessage api \<lparr>MsgMethod = WithdrawBalance, MsgFrom = wallet, MsgValue = 0, MsgParams = b\<rparr> params a)"

subsection \<open>Reservations and releases\<close>

text \<open>The loop over the reservations: what is left of the releases, the batch wallet, and the lists so far.\<close>

fun splitReservations_loop ::
  "(fundRequest \<Rightarrow> token) \<Rightarrow> token \<Rightarrow> token \<Rightarrow> address \<Rightarrow> fundRequest list \<Rightarrow> fundRequest list \<Rightarrow> fundRequest list
    \<Rightarrow> fundRequest list \<times> fundRequest list \<times> token"
where
  "splitReservations_loop am releaseAmt toAddAmt batchWallet toCancel toAdd [] = (toCancel, toAdd, toAddAmt - releaseAmt)"
| "splitReservations_loop am releaseAmt toAddAmt batchWallet toCancel toAdd (req # reqs) =
     (if am req \<le> releaseAmt
      then splitReservations_loop am (releaseAmt - am req) toAddAmt batchWallet (toCancel @ [req]) toAdd reqs
      else
        let batchWallet = (if batchWallet = AddrUndef then Wallet req else batchWallet)
        in if batchWallet = Wallet req
           then splitReservations_loop am 0 (toAddAmt + (am req - releaseAmt)) batchWallet toCancel (toAdd @ [req]) reqs
           else splitReservations_loop am releaseAmt toAddAmt batchWallet toCancel toAdd reqs)"

definition splitReservations ::
  "(fundRequest \<Rightarrow> token) \<Rightarrow> fundRequest list \<Rightarrow> fundRequest list \<Rightarrow> fundRequest list \<times> fundRequest list \<times> token"
where
  "splitReservations am resvs rels = splitReservations_loop am (sum_list (map am rels)) 0 AddrUndef [] [] resvs"

record processResult =
  covered :: "fundRequest list"
  added :: "fundRequest list"
  amtReserved :: token
  msgCid :: "cid option"

text \<open>The body of the function, before its deferred completion of the requests.\<close>

definition processReservations_body ::
  "fundManagerAPI \<Rightarrow> fundRequest list \<Rightarrow> fundRequest list \<Rightarrow> fundedAddress \<Rightarrow> (string + processResult) \<times> fundedAddress"
where
  "processReservations_body api resvs rels a =
     (case splitReservations (Amount a) resvs rels of
        (toCancel, toAdd, reservedDelta) \<Rightarrow>
          let reserved = AmtReserved (astate a) + reservedDelta;
              reserved = (if reserved < 0 then 0 else reserved);
              res = \<lparr>covered = toCancel, added = [], amtReserved = reserved, msgCid = None\<rparr>;
              (avail, a) = (if toAdd \<noteq> [] \<and> 0 < reserved
                            then map_prod (map_sum id Some) id (AvailableFunds api a) else (Inr None, a))
          in case avail of
               Inl e \<Rightarrow> (Inl e, a)
             | Inr av \<Rightarrow>
                 let amtToAdd = (case av of None \<Rightarrow> 0 | Some v \<Rightarrow> reserved - v)
                 in if amtToAdd \<le> 0 then (Inr (res\<lparr>covered := toCancel @ toAdd\<rparr>), a)
                    else
                      (case AddFunds api (Wallet (hd toAdd)) amtToAdd a of
                         (Inl e, a) \<Rightarrow> (Inl e, a)
                       | (Inr c, a) \<Rightarrow> (Inr (res\<lparr>added := toAdd, msgCid := Some c\<rparr>), a)))"

definition bind_panic :: "fund_panic + 'a \<Rightarrow> ('a \<Rightarrow> fund_panic + 'b) \<Rightarrow> fund_panic + 'b" where
  "bind_panic m f = (case m of Inl p \<Rightarrow> Inl p | Inr x \<Rightarrow> f x)"

definition processReservations ::
  "fundManagerAPI \<Rightarrow> fundRequest list \<Rightarrow> fundRequest list \<Rightarrow> fundedAddress
    \<Rightarrow> fund_panic + ((string + processResult) \<times> fundedAddress)"
where
  "processReservations api resvs rels a =
     (case processReservations_body api resvs rels a of
        (Inl e, a) \<Rightarrow> bind_panic (Complete_all None (Some e) (resvs @ rels) a) (\<lambda>a. Inr (Inl e, a))
      | (Inr pr, a) \<Rightarrow>
          bind_panic (Complete_all None None rels a) (\<lambda>a.
          bind_panic (Complete_all None None (covered pr) a) (\<lambda>a.
          bind_panic (if msgCid pr \<noteq> None then Complete_all (msgCid pr) None (added pr) a else Inr a) (\<lambda>a.
          Inr (Inr pr, a)))))"

subsection \<open>Withdrawals\<close>

text \<open>
  The loop over the withdrawals. Requests that are expired, or do not fit into what is available, are
  completed on the way; the text of the error is left out.
\<close>

fun processWithdrawals_loop ::
  "token \<Rightarrow> token \<Rightarrow> token \<Rightarrow> fundRequest list \<Rightarrow> address \<Rightarrow> fundRequest list \<Rightarrow> fundedAddress
    \<Rightarrow> fund_panic + (token \<times> fundRequest list \<times> fundedAddress)"
where
  "processWithdrawals_loop netAvail withdrawalAmt allowedAmt allowed batchWallet [] a = Inr (allowedAmt, allowed, a)"
| "processWithdrawals_loop netAvail withdrawalAmt allowedAmt allowed batchWallet (req # reqs) a =
     (if Amount a req = 0
      then (case Complete None None req a of
              Inl p \<Rightarrow> Inl p
            | Inr a \<Rightarrow> processWithdrawals_loop netAvail withdrawalAmt allowedAmt allowed batchWallet reqs a)
      else
        let newWithdrawalAmt = withdrawalAmt + Amount a req
        in if netAvail < newWithdrawalAmt
           then (case Complete None (Some ''insufficient funds'') req a of
                   Inl p \<Rightarrow> Inl p
                 | Inr a \<Rightarrow> processWithdrawals_loop netAvail withdrawalAmt allowedAmt allowed batchWallet reqs a)
           else
             let batchWallet = (if batchWallet = AddrUndef then Wallet req else batchWallet)
             in if Wallet req \<noteq> batchWallet
                then processWithdrawals_loop netAvail withdrawalAmt allowedAmt allowed batchWallet reqs a
                else processWithdrawals_loop netAvail newWithdrawalAmt (allowedAmt + Amount a req) (allowed @ [req])
                       batchWallet reqs a)"

text \<open>An error, nothing to withdraw, or the message that was sent.\<close>

definition processWithdrawals ::
  "fundManagerAPI \<Rightarrow> fundRequest list \<Rightarrow> fundedAddress \<Rightarrow> fund_panic + ((string + cid option) \<times> fundedAddress)"
where
  "processWithdrawals api wds a =
     (case AvailableFunds api a of
        (Inl e, a) \<Rightarrow> bind_panic (Complete_all None (Some e) wds a) (\<lambda>a. Inr (Inl e, a))
      | (Inr avail, a) \<Rightarrow>
          bind_panic (processWithdrawals_loop (avail - AmtReserved (astate a)) 0 0 [] AddrUndef wds a)
            (\<lambda>(allowedAmt, allowed, a).
               if allowedAmt = 0
               then bind_panic (Complete_all None None allowed a) (\<lambda>a. Inr (Inr None, a))
               else
                 case allowed of
                   [] \<Rightarrow> Inl IndexOutOfRange
                 | first # _ \<Rightarrow>
                     (case WithdrawFunds api (Wallet first) allowedAmt a of
                        (Inl e, a) \<Rightarrow> bind_panic (Complete_all None (Some e) wds a) (\<lambda>a. Inr (Inl e, a))
                      | (Inr c, a) \<Rightarrow> bind_panic (Complete_all (Some c) None allowed a) (\<lambda>a. Inr (Inr (Some c), a)))))"

subsection \<open>Processing the queues\<close>

definition process_reservations :: "fundManagerAPI \<Rightarrow> fundedAddress \<Rightarrow> fund_panic + fundedAddress" where
  "process_reservations api a =
     bind_panic (processReservations api (reservations a) (releases a) a) (\<lambda>(r, a).
       let a = (case r of Inl _ \<Rightarrow> a | Inr res \<Rightarrow> applyStateChange api (msgCid res) (Some (amtReserved res)) a)
       in Inr (a\<lparr>reservations := filterOutProcessedReqs a (reservations a),
                 releases := filterOutProcessedReqs a (releases a)\<rparr>))"

definition process_withdrawals :: "fundManagerAPI \<Rightarrow> fundedAddress \<Rightarrow> fund_panic + fundedAddress" where
  "process_withdrawals api a =
     bind_panic (processWithdrawals api (withdrawals a) a) (\<lambda>(r, a).
       let a = (case r of Inr (Some c) \<Rightarrow> applyStateChange api (Some c) None a | _ \<Rightarrow> a)
       in Inr (a\<lparr>withdrawals := filterOutProcessedReqs a (withdrawals a)\<rparr>))"

text \<open>One run of \<open>process\<close>. It starts itself again at the end unless there was nothing to do.\<close>

definition process :: "fundManagerAPI \<Rightarrow> fundedAddress \<Rightarrow> fund_panic + fundedAddress" where
  "process api a =
     (if MsgCid (astate a) \<noteq> None then Inr a
      else
        let haveReservations = (reservations a \<noteq> [] \<or> releases a \<noteq> []);
            haveWithdrawals = (withdrawals a \<noteq> [])
        in if \<not> haveReservations \<and> \<not> haveWithdrawals then Inr a
           else
             bind_panic (if haveReservations then process_reservations api a else Inr a) (\<lambda>a.
             bind_panic (if haveWithdrawals \<and> MsgCid (astate a) = None \<and> reservations a = []
                         then process_withdrawals api a else Inr a) (\<lambda>a.
             Inr (case MsgCid (astate a) of None \<Rightarrow> a | Some c \<Rightarrow> startWaitForResults c a))))"

subsection \<open>The manager\<close>

datatype queue_name = QReserve | QRelease | QWithdraw

text \<open>A request arrives: it is created and put into its queue; its caller then waits for the result.\<close>

definition requestAndWait :: "queue_name \<Rightarrow> address \<Rightarrow> token \<Rightarrow> fundedAddress \<Rightarrow> fundedAddress" where
  "requestAndWait q wallet v a =
     (let req = \<lparr>reqID = nextReq a, amt = v, Wallet = wallet\<rparr>;
          a = a\<lparr>nextReq := nextReq a + 1\<rparr>
      in case q of
           QReserve \<Rightarrow> a\<lparr>reservations := reservations a @ [req]\<rparr>
         | QRelease \<Rightarrow> a\<lparr>releases := releases a @ [req]\<rparr>
         | QWithdraw \<Rightarrow> a\<lparr>withdrawals := withdrawals a @ [req]\<rparr>)"

definition reserve :: "address \<Rightarrow> token \<Rightarrow> fundedAddress \<Rightarrow> fundedAddress" where
  "reserve wallet v a = requestAndWait QReserve wallet v a"

definition release :: "token \<Rightarrow> fundedAddress \<Rightarrow> fundedAddress" where
  "release v a = requestAndWait QRelease AddrUndef v a"

definition withdraw :: "address \<Rightarrow> token \<Rightarrow> fundedAddress \<Rightarrow> fundedAddress" where
  "withdraw wallet v a = requestAndWait QWithdraw wallet v a"

definition getReserved :: "fundedAddress \<Rightarrow> token" where
  "getReserved a = AmtReserved (astate a)"

text \<open>An address loaded from the data store: if a message was in progress, the wait for it starts again.\<close>

definition start :: "fundedAddress \<Rightarrow> fundedAddress" where
  "start a = (case MsgCid (astate a) of None \<Rightarrow> a | Some c \<Rightarrow> startWaitForResults c a)"

text \<open>The manager: the addresses under management.\<close>

type_synonym FundManager = "(address \<times> fundedAddress) list"

definition getFundedAddress :: "address \<Rightarrow> FundManager \<Rightarrow> fundedAddress \<times> FundManager" where
  "getFundedAddress addr fm =
     (case map_of fm addr of
        Some fa \<Rightarrow> (fa, fm)
      | None \<Rightarrow> let fa = newFundedAddress addr in (fa, AList.update addr fa fm))"

fun Start :: "FundedAddressState list \<Rightarrow> FundManager \<Rightarrow> FundManager" where
  "Start [] fm = fm"
| "Start (st # sts) fm =
     (let fa = start ((newFundedAddress (Addr st))\<lparr>astate := st, stored := Some st\<rparr>)
      in Start sts (AList.update (Addr st) fa fm))"

definition Reserve :: "address \<Rightarrow> address \<Rightarrow> token \<Rightarrow> FundManager \<Rightarrow> FundManager" where
  "Reserve wallet addr v fm = (case getFundedAddress addr fm of (fa, fm) \<Rightarrow> AList.update addr (reserve wallet v fa) fm)"

definition Release :: "address \<Rightarrow> token \<Rightarrow> FundManager \<Rightarrow> FundManager" where
  "Release addr v fm = (case getFundedAddress addr fm of (fa, fm) \<Rightarrow> AList.update addr (release v fa) fm)"

definition Withdraw :: "address \<Rightarrow> address \<Rightarrow> token \<Rightarrow> FundManager \<Rightarrow> FundManager" where
  "Withdraw wallet addr v fm = (case getFundedAddress addr fm of (fa, fm) \<Rightarrow> AList.update addr (withdraw wallet v fa) fm)"

definition GetReserved :: "address \<Rightarrow> FundManager \<Rightarrow> token \<times> FundManager" where
  "GetReserved addr fm = (case getFundedAddress addr fm of (fa, fm) \<Rightarrow> (getReserved fa, fm))"

text \<open>The end of a wait, whether the message landed or not: the pending message is cleared and the queues are processed.\<close>

definition waitDone :: "fundManagerAPI \<Rightarrow> cid \<Rightarrow> fundedAddress \<Rightarrow> fund_panic + fundedAddress" where
  "waitDone api c a = process api (clearWaitState api (a\<lparr>waits := remove1 c (waits a)\<rparr>))"

text \<open>A restart of the node: the queues and the waits are lost, the state comes back from the data store.\<close>

definition restart :: "FundedAddressState \<Rightarrow> fundedAddress \<Rightarrow> fundedAddress" where
  "restart st a = start (a\<lparr>astate := st, reservations := [], releases := [], withdrawals := [], waits := []\<rparr>)"

text \<open>The steps an address can take.\<close>

inductive fstep :: "fundManagerAPI \<Rightarrow> fundedAddress \<Rightarrow> fundedAddress \<Rightarrow> bool" for api where
  fs_request: "fstep api a (requestAndWait q wallet v a)"
| fs_expire: "fstep api a (a\<lparr>expired := n # expired a\<rparr>)"
| fs_process: "process api a = Inr a' \<Longrightarrow> fstep api a a'"
| fs_wait: "c \<in> set (waits a) \<Longrightarrow> waitDone api c a = Inr a' \<Longrightarrow> fstep api a a'"
| fs_restart: "stored a = Some st \<Longrightarrow> fstep api a (restart st a)"

inductive_cases fstepE: "fstep api a a'"

section \<open>What the fund manager keeps\<close>

subsection \<open>Splitting the reservations\<close>

lemma split_loop_sum:
  assumes "splitReservations_loop am rel add w c d reqs = (c', d', delta)"
  shows "sum_list (map am c') + sum_list (map am d') - delta = sum_list (map am c) + sum_list (map am d) + rel - add"
  using assms
  by (induction am rel add w c d reqs arbitrary: c' d' delta rule: splitReservations_loop.induct)
    (auto simp: Let_def split: if_splits)

lemma split_loop_mset:
  assumes "splitReservations_loop am rel add w c d reqs = (c', d', delta)"
  shows "mset (c' @ d') \<subseteq># mset (c @ d) + mset reqs"
  using assms
proof (induction am rel add w c d reqs arbitrary: c' d' delta rule: splitReservations_loop.induct)
  case (2 am rel add w c d req reqs)
  have weaken: "X \<subseteq># Y + mset reqs \<Longrightarrow> X \<subseteq># Y + mset (req # reqs)" for X Y
    by (metis mset.simps(2) add_mset_add_single subset_mset.add_increasing2 subset_mset.zero_le union_assoc)
  show ?case using 2 weaken by (force simp: Let_def split: if_splits)
qed simp

lemma split_loop_grows:
  assumes "splitReservations_loop am rel add w c d reqs = (c', d', delta)"
  shows "length c + length d \<le> length c' + length d'"
  using assms
  by (induction am rel add w c d reqs arbitrary: c' d' delta rule: splitReservations_loop.induct)
    (force simp: Let_def split: if_splits)+

text \<open>What the split gives: a part of the reservations, not empty, whose sum accounts for the change.\<close>

lemma splitReservations_result:
  assumes "splitReservations am resvs rels = (toCancel, toAdd, delta)"
  shows "delta = sum_list (map am (toCancel @ toAdd)) - sum_list (map am rels)"
    and "mset (toCancel @ toAdd) \<subseteq># mset resvs"
    and "resvs \<noteq> [] \<Longrightarrow> toCancel @ toAdd \<noteq> []"
proof -
  note s = assms [unfolded splitReservations_def]
  show "delta = sum_list (map am (toCancel @ toAdd)) - sum_list (map am rels)" using split_loop_sum [OF s] by simp
  show "mset (toCancel @ toAdd) \<subseteq># mset resvs" using split_loop_mset [OF s] by simp
  show "toCancel @ toAdd \<noteq> []" if "resvs \<noteq> []"
  proof (cases resvs)
    case (Cons req reqs)
    show ?thesis using s unfolding Cons
      by (auto simp: Let_def split: if_splits dest!: split_loop_grows)
  qed (use that in simp)
qed

subsection \<open>Completing requests\<close>

lemma distinct_map_sub:
  assumes "distinct (map f xs)" and "mset ys \<subseteq># mset xs"
  shows "distinct (map f ys)"
proof -
  obtain zs where "mset xs = mset (ys @ zs)"
    using assms(2) by (metis ex_mset mset_append subset_mset.add_diff_inverse)
  then have "mset (map f xs) = mset (map f (ys @ zs))" by simp
  then have "distinct (map f (ys @ zs))" using assms(1) mset_eq_imp_distinct_iff by blast
  then show ?thesis by simp
qed

lemma Completed_iff: "Completed a r \<longleftrightarrow> reqID r \<in> fst ` set (completed a)"
  by (simp add: Completed_def map_of_eq_None_iff)

text \<open>The requests are completed, and nothing else changes.\<close>

definition finished :: "fundRequest list \<Rightarrow> fundedAddress \<Rightarrow> fundedAddress \<Rightarrow> bool" where
  "finished reqs a a' \<longleftrightarrow> (\<exists>cs. a' = a\<lparr>completed := cs @ completed a\<rparr> \<and> fst ` set cs = reqID ` set reqs)"

lemma finished_Nil [simp]: "finished [] a a' \<longleftrightarrow> a' = a"
  by (auto simp: finished_def)

lemma finished_append: "finished xs a b \<Longrightarrow> finished ys b c \<Longrightarrow> finished (xs @ ys) a c"
proof -
  assume "finished xs a b" and "finished ys b c"
  then obtain cs cs' where "b = a\<lparr>completed := cs @ completed a\<rparr>" "fst ` set cs = reqID ` set xs"
    "c = b\<lparr>completed := cs' @ completed b\<rparr>" "fst ` set cs' = reqID ` set ys"
    by (auto simp: finished_def)
  then have "c = a\<lparr>completed := (cs' @ cs) @ completed a\<rparr> \<and> fst ` set (cs' @ cs) = reqID ` set (xs @ ys)"
    by (auto simp: image_Un)
  then show "finished (xs @ ys) a c" unfolding finished_def by blast
qed

lemma Completed_finished: "finished reqs a a' \<Longrightarrow> Completed a' r \<longleftrightarrow> Completed a r \<or> reqID r \<in> reqID ` set reqs"
  unfolding finished_def by (elim exE conjE) (simp add: Completed_iff image_Un disj_commute)

lemma Complete_all_ok:
  assumes "distinct (map reqID reqs)" and "\<forall>r\<in>set reqs. \<not> Completed a r"
  shows "\<exists>a'. Complete_all c err reqs a = Inr a' \<and> finished reqs a a'"
  using assms
proof (induction reqs arbitrary: a)
  case (Cons r reqs)
  define a1 where "a1 = a\<lparr>completed := (reqID r, \<lparr>res_msgCid = c, res_err = err\<rparr>) # completed a\<rparr>"
  have c1: "Complete c err r a = Inr a1" using Cons(3) by (simp add: Complete_def a1_def)
  have f1: "finished [r] a a1" by (auto simp: finished_def a1_def intro!: exI [of _ "[x]" for x])
  have nc: "\<not> Completed a1 q" if "q \<in> set reqs" for q
    using that Cons(2,3) Completed_finished [OF f1, of q] by (auto simp: image_iff)
  obtain a' where "Complete_all c err reqs a1 = Inr a'" "finished reqs a1 a'" using Cons(1) [of a1] Cons(2) nc by auto
  then show ?case using c1 finished_append [OF f1] by auto
qed simp

subsection \<open>The queues\<close>

text \<open>The queued requests have identities of their own, have been created, and are not completed.\<close>

definition queued :: "fundedAddress \<Rightarrow> fundRequest list" where
  "queued a = reservations a @ releases a @ withdrawals a"

definition queue_ok :: "fundedAddress \<Rightarrow> bool" where
  "queue_ok a \<longleftrightarrow> distinct (map reqID (queued a)) \<and> (\<forall>r\<in>set (queued a). \<not> Completed a r \<and> reqID r < nextReq a)
     \<and> (\<forall>n\<in>fst ` set (completed a). n < nextReq a)"

text \<open>Calls to the chain change only the counters and the messages sent.\<close>

definition called :: "(MarketParams \<times> token) list \<Rightarrow> fundedAddress \<Rightarrow> fundedAddress \<Rightarrow> bool" where
  "called ps a a' \<longleftrightarrow> (\<exists>k. a' = a\<lparr>calls := k, pushed := pushed a @ ps\<rparr>)"

lemma called_refl: "called [] a a"
  by (auto simp: called_def intro!: exI [of _ "calls a"])

lemma called_trans: "called ps a b \<Longrightarrow> called qs b c \<Longrightarrow> called (ps @ qs) a c"
  by (auto simp: called_def)

lemma called_fields:
  assumes "called ps a a'"
  shows "astate a' = astate a" "reservations a' = reservations a" "releases a' = releases a" "withdrawals a' = withdrawals a"
    "completed a' = completed a" "expired a' = expired a" "stored a' = stored a" "waits a' = waits a"
    "nextReq a' = nextReq a" "writes a' = writes a" "pushed a' = pushed a @ ps"
    "Amount a' = Amount a" "Completed a' = Completed a"
  using assms by (auto simp: called_def Amount_def Completed_def fun_eq_iff)

lemma AvailableFunds_called: "AvailableFunds api a = (r, a') \<Longrightarrow> called [] a a'"
  by (auto simp: AvailableFunds_def called_def)

lemma pushMessage_called:
  "pushMessage api msg params a = (r, a') \<Longrightarrow> called (if isl r then [] else [(params, MsgValue msg)]) a a'"
  by (cases r) (auto simp: pushMessage_def called_def split: sum.splits)

lemma AddFunds_called:
  "AddFunds api wallet v a = (r, a') \<Longrightarrow> called (if isl r then [] else [(AddBalanceParams (Addr (astate a)), v)]) a a'"
  by (auto simp: AddFunds_def Let_def called_refl split: sum.splits dest: pushMessage_called)

lemma WithdrawFunds_called:
  "WithdrawFunds api wallet v a = (r, a') \<Longrightarrow> called (if isl r then [] else [(WithdrawBalanceParams (Addr (astate a)) v, 0)]) a a'"
  by (auto simp: WithdrawFunds_def Let_def called_refl split: sum.splits dest: pushMessage_called)

subsection \<open>Processing reservations\<close>

text \<open>The amount sent with a message makes the available funds up to the reserved amount.\<close>

definition topped_up :: "fundManagerAPI \<Rightarrow> FundedAddressState \<Rightarrow> token \<Rightarrow> token \<Rightarrow> bool" where
  "topped_up api st reserved v \<longleftrightarrow>
     (\<exists>n bal. StateMarketBalance api n (Addr st) = Inr bal \<and> 0 < v \<and> Escrow bal - Locked bal + v = reserved)"

definition reserved_ok :: "fundManagerAPI \<Rightarrow> fundRequest list \<Rightarrow> fundRequest list \<Rightarrow> fundedAddress \<Rightarrow> processResult
    \<Rightarrow> (MarketParams \<times> token) list \<Rightarrow> bool"
where
  "reserved_ok api resvs rels a pr ps \<longleftrightarrow>
     mset (covered pr @ added pr) \<subseteq># mset resvs \<and> (resvs \<noteq> [] \<longrightarrow> covered pr @ added pr \<noteq> [])
     \<and> amtReserved pr = max 0 (AmtReserved (astate a) + sum_list (map (Amount a) (covered pr @ added pr)) - sum_list (map (Amount a) rels))
     \<and> (case msgCid pr of
          None \<Rightarrow> added pr = [] \<and> ps = []
        | Some c \<Rightarrow> (\<exists>v. ps = [(AddBalanceParams (Addr (astate a)), v)] \<and> topped_up api (astate a) (amtReserved pr) v))"

lemma body_result:
  assumes "processReservations_body api resvs rels a = (r, a')"
  shows "\<exists>ps. called ps a a' \<and> (case r of Inl e \<Rightarrow> ps = [] | Inr pr \<Rightarrow> reserved_ok api resvs rels a pr ps)"
proof -
  obtain toCancel toAdd delta where sp: "splitReservations (Amount a) resvs rels = (toCancel, toAdd, delta)"
    by (cases "splitReservations (Amount a) resvs rels")
  note s = splitReservations_result [OF sp]
  define reserved where "reserved = max 0 (AmtReserved (astate a) + delta)"
  have res: "reserved = max 0 (AmtReserved (astate a) + sum_list (map (Amount a) (toCancel @ toAdd)) - sum_list (map (Amount a) rels))"
    by (simp add: reserved_def s(1))
  have clamp: "(if AmtReserved (astate a) + delta < 0 then 0 else AmtReserved (astate a) + delta) = reserved"
    by (auto simp: reserved_def)
  have none: "reserved_ok api resvs rels a \<lparr>covered = toCancel @ toAdd, added = [], amtReserved = reserved, msgCid = None\<rparr> []"
    using s(2,3) res by (auto simp: reserved_ok_def)
  show ?thesis
  proof (cases "toAdd \<noteq> [] \<and> 0 < reserved")
    case False
    then have "r = Inr \<lparr>covered = toCancel @ toAdd, added = [], amtReserved = reserved, msgCid = None\<rparr> \<and> a' = a"
      using assms sp by (auto simp: processReservations_body_def clamp Let_def split: if_splits)
    then show ?thesis using none called_refl by auto
  next
    case True
    obtain av a1 where av: "AvailableFunds api a = (av, a1)" by (cases "AvailableFunds api a")
    note c1 = AvailableFunds_called [OF av]
    show ?thesis
    proof (cases av)
      case (Inl e)
      then show ?thesis using assms sp True av c1 by (auto simp: processReservations_body_def clamp Let_def)
    next
      case (Inr avail)
      show ?thesis
      proof (cases "reserved - avail \<le> 0")
        case True
        then show ?thesis using assms sp \<open>toAdd \<noteq> [] \<and> 0 < reserved\<close> av Inr c1 none
          by (auto simp: processReservations_body_def clamp Let_def)
      next
        case False
        obtain ad a2 where ad: "AddFunds api (Wallet (hd toAdd)) (reserved - avail) a1 = (ad, a2)"
          by (cases "AddFunds api (Wallet (hd toAdd)) (reserved - avail) a1")
        note c2 = called_trans [OF c1 AddFunds_called [OF ad]]
        have up: "topped_up api (astate a) reserved (reserved - avail)"
          using av Inr False by (auto simp: topped_up_def AvailableFunds_def intro!: exI [of _ "calls a"] split: sum.splits)
        have "(r, a') = (map_sum id (\<lambda>c. \<lparr>covered = toCancel, added = toAdd, amtReserved = reserved, msgCid = Some c\<rparr>) ad, a2)"
          using assms sp \<open>toAdd \<noteq> [] \<and> 0 < reserved\<close> av Inr False ad
          by (auto simp: processReservations_body_def clamp Let_def split: sum.splits)
        then show ?thesis using c2 s(2,3) res up called_fields(1) [OF c1]
          by (cases ad) (auto simp: reserved_ok_def)
      qed
    qed
  qed
qed

lemma finished_fields:
  assumes "finished reqs a a'"
  shows "astate a' = astate a" "reservations a' = reservations a" "releases a' = releases a" "withdrawals a' = withdrawals a"
    "expired a' = expired a" "stored a' = stored a" "waits a' = waits a" "nextReq a' = nextReq a" "writes a' = writes a"
    "pushed a' = pushed a" "Amount a' = Amount a" "calls a' = calls a"
    "fst ` set (completed a') = reqID ` set reqs \<union> fst ` set (completed a)"
  using assms unfolding finished_def by (elim exE conjE; simp add: Amount_def fun_eq_iff image_Un)+

text \<open>The requests completed by \<open>processReservations\<close>: all of them after an error.\<close>

definition settled_reqs :: "fundRequest list \<Rightarrow> fundRequest list \<Rightarrow> string + processResult \<Rightarrow> fundRequest list" where
  "settled_reqs resvs rels r = (case r of Inl e \<Rightarrow> resvs @ rels | Inr pr \<Rightarrow> rels @ covered pr @ added pr)"

lemma processReservations_result:
  assumes "distinct (map reqID (resvs @ rels))" and "\<forall>q\<in>set (resvs @ rels). \<not> Completed a q"
  shows "\<exists>r a' a1 ps. processReservations api resvs rels a = Inr (r, a') \<and> called ps a a1
    \<and> finished (settled_reqs resvs rels r) a1 a'
    \<and> (case r of Inl e \<Rightarrow> ps = [] | Inr pr \<Rightarrow> reserved_ok api resvs rels a pr ps)"
proof -
  obtain r a1 where b: "processReservations_body api resvs rels a = (r, a1)" by (cases "processReservations_body api resvs rels a")
  obtain ps where c: "called ps a a1" and r: "case r of Inl e \<Rightarrow> ps = [] | Inr pr \<Rightarrow> reserved_ok api resvs rels a pr ps"
    using body_result [OF b] by blast
  have nc: "\<forall>q\<in>set (resvs @ rels). \<not> Completed a1 q" using assms(2) called_fields(13) [OF c] by simp
  show ?thesis
  proof (cases r)
    case (Inl e)
    then show ?thesis using Complete_all_ok [OF assms(1) nc, of None "Some e"] b c r
      by (fastforce simp: processReservations_def bind_panic_def settled_reqs_def)
  next
    case (Inr pr)
    then have ok: "reserved_ok api resvs rels a pr ps" using r by simp
    have sub: "mset (rels @ covered pr @ added pr) \<subseteq># mset (resvs @ rels)" using ok by (simp add: reserved_ok_def)
    note d = distinct_map_sub [OF assms(1) sub]
    have in_res: "set (rels @ covered pr @ added pr) \<subseteq> set (resvs @ rels)" using sub by (metis set_mset_mono set_mset_mset)
    obtain a2 where a2: "Complete_all None None rels a1 = Inr a2" "finished rels a1 a2"
      using Complete_all_ok [of rels a1 None None] nc assms(1) by auto
    have "\<forall>q\<in>set (covered pr). \<not> Completed a2 q"
      using Completed_finished [OF a2(2)] nc in_res d by (auto simp: image_iff)
    then obtain a3 where a3: "Complete_all None None (covered pr) a2 = Inr a3" "finished (covered pr) a2 a3"
      using Complete_all_ok [of "covered pr" a2 None None] d by auto
    note f3 = finished_append [OF a2(2) a3(2)]
    have "\<forall>q\<in>set (added pr). \<not> Completed a3 q"
      using Completed_finished [OF f3] nc in_res d by (auto simp: image_iff)
    then obtain a4 where a4: "Complete_all (msgCid pr) None (added pr) a3 = Inr a4" "finished (added pr) a3 a4"
      using Complete_all_ok [of "added pr" a3 "msgCid pr" None] d by auto
    have "added pr = []" if "msgCid pr = None" using ok that by (simp add: reserved_ok_def)
    then have "processReservations api resvs rels a = Inr (r, a4)"
      using b Inr a2(1) a3(1) a4 by (auto simp: processReservations_def bind_panic_def)
    then show ?thesis using c r Inr finished_append [OF f3 a4(2)] by (auto simp: settled_reqs_def)
  qed
qed

text \<open>The requests left in a queue are those that were not completed.\<close>

lemma sum_list_left:
  assumes "distinct (map reqID xs)" and "mset ys \<subseteq># mset xs"
  shows "sum_list (map f (filter (\<lambda>r. reqID r \<notin> reqID ` set ys) xs)) = (sum_list (map f xs) :: int) - sum_list (map f ys)"
    and "length (filter (\<lambda>r. reqID r \<notin> reqID ` set ys) xs) + length ys = length xs"
proof -
  let ?left = "filter (\<lambda>r. reqID r \<notin> reqID ` set ys) xs"
  obtain zs where zs: "mset xs = mset ys + mset zs"
    using assms(2) by (metis ex_mset subset_mset.add_diff_inverse)
  have "distinct (map reqID (ys @ zs))"
    using assms(1) zs mset_eq_imp_distinct_iff [of "map reqID xs" "map reqID (ys @ zs)"] by simp
  then have "filter (\<lambda>r. reqID r \<notin> reqID ` set ys) zs = zs" by (auto intro!: filter_True)
  moreover have "filter (\<lambda>r. reqID r \<notin> reqID ` set ys) ys = []" by auto
  moreover have "mset ?left = mset (filter (\<lambda>r. reqID r \<notin> reqID ` set ys) ys) + mset (filter (\<lambda>r. reqID r \<notin> reqID ` set ys) zs)"
    using zs by (simp add: mset_filter)
  ultimately have left: "mset ?left = mset zs" by simp
  then have m: "mset xs = mset (ys @ ?left)" using zs by simp
  have "mset (map f xs) = mset (map f (ys @ ?left))" using m by (simp only: mset_map)
  then show "sum_list (map f ?left) = sum_list (map f xs) - sum_list (map f ys)"
    by (metis (no_types) add_diff_cancel_left' map_append sum_list_append sum_mset_sum_list)
  show "length ?left + length ys = length xs" using mset_eq_length [OF m] by simp
qed

text \<open>What a step on the queues keeps besides the queues themselves.\<close>

definition same_place :: "fundedAddress \<Rightarrow> fundedAddress \<Rightarrow> bool" where
  "same_place a a' \<longleftrightarrow> Addr (astate a') = Addr (astate a) \<and> waits a' = waits a \<and> nextReq a' = nextReq a
     \<and> expired a' = expired a"

text \<open>
  What a step does to the data store: nothing when the state does not change; otherwise the new state is
  written, unless the data store fails.
\<close>

definition store_step :: "fundManagerAPI \<Rightarrow> fundedAddress \<Rightarrow> fundedAddress \<Rightarrow> bool" where
  "store_step api a a' \<longleftrightarrow> astate a' = astate a \<and> stored a' = stored a \<or> stored a' = Some (astate a')
     \<or> (\<exists>n. \<not> save_ok api n) \<and> (stored a' = stored a \<or> (\<exists>st. stored a' = Some st \<and> AmtReserved st = AmtReserved (astate a')))"

lemma store_step_refl: "store_step api a a"
  by (simp add: store_step_def)

lemma store_step_trans:
  "store_step api a b \<Longrightarrow> store_step api b c \<Longrightarrow> AmtReserved (astate c) = AmtReserved (astate b) \<Longrightarrow> store_step api a c"
  unfolding store_step_def by (elim disjE conjE exE) auto

lemma store_step_apply: "store_step api a (applyStateChange api c r a)"
  by (auto simp: store_step_def applyStateChange_def saveState_def)

lemma store_step_cong:
  "store_step api a b \<Longrightarrow> astate a' = astate a \<Longrightarrow> stored a' = stored a \<Longrightarrow> astate b' = astate b \<Longrightarrow> stored b' = stored b
    \<Longrightarrow> store_step api a' b'"
  by (simp add: store_step_def)

lemma filterOut_finished:
  assumes "finished reqs a a'" and "\<forall>q\<in>set qs. \<not> Completed a q"
  shows "filterOutProcessedReqs a' qs = filter (\<lambda>r. reqID r \<notin> reqID ` set reqs) qs"
  using assms(2) Completed_finished [OF assms(1)] by (auto simp: filterOutProcessedReqs_def intro!: filter_cong)

lemma applyStateChange_fields:
  "reservations (applyStateChange api c r a) = reservations a" "releases (applyStateChange api c r a) = releases a"
  "withdrawals (applyStateChange api c r a) = withdrawals a" "completed (applyStateChange api c r a) = completed a"
  "Completed (applyStateChange api c r a) = Completed a" "pushed (applyStateChange api c r a) = pushed a"
  "Amount (applyStateChange api c r a) = Amount a" "Addr (astate (applyStateChange api c r a)) = Addr (astate a)"
  "waits (applyStateChange api c r a) = waits a" "nextReq (applyStateChange api c r a) = nextReq a"
  "expired (applyStateChange api c r a) = expired a"
  "MsgCid (astate (applyStateChange api c r a)) = c"
  "AmtReserved (astate (applyStateChange api c r a)) = (case r of None \<Rightarrow> AmtReserved (astate a) | Some v \<Rightarrow> v)"
  by (simp_all add: applyStateChange_def saveState_def Completed_def Amount_def fun_eq_iff)

lemma filterOut_apply: "filterOutProcessedReqs (applyStateChange api c r a) = filterOutProcessedReqs a"
  by (simp add: filterOutProcessedReqs_def applyStateChange_fields fun_eq_iff)

lemma queue_okD:
  assumes "queue_ok a"
  shows "distinct (map reqID (reservations a @ releases a))" "\<forall>q\<in>set (reservations a @ releases a). \<not> Completed a q"
    "distinct (map reqID (withdrawals a))" "\<forall>q\<in>set (withdrawals a). \<not> Completed a q"
    "\<forall>q\<in>set (reservations a). reqID q \<notin> reqID ` set (releases a)"
    "\<forall>q\<in>set (withdrawals a). reqID q \<notin> reqID ` set (reservations a @ releases a)"
  using assms by (auto simp: queue_ok_def queued_def)

text \<open>
  Shrinking the queues to the requests that are not completed keeps them in order, when what is completed
  in addition comes from the queues.
\<close>

lemma queue_ok_shrink:
  assumes "queue_ok a" and "nextReq a' = nextReq a"
    and "\<exists>reqs. set reqs \<subseteq> set (queued a) \<and> fst ` set (completed a') = reqID ` set reqs \<union> fst ` set (completed a)"
    and "reservations a' = filterOutProcessedReqs a' (reservations a)" and "releases a' = filterOutProcessedReqs a' (releases a)"
    and "withdrawals a' = filterOutProcessedReqs a' (withdrawals a)"
  shows "queue_ok a'"
proof -
  have q: "queued a' = filter (\<lambda>r. \<not> Completed a' r) (queued a)"
    using assms(4-6) by (simp add: queued_def filterOutProcessedReqs_def)
  have "\<forall>n\<in>fst ` set (completed a'). n < nextReq a'"
    using assms(1-3) by (elim exE conjE) (auto simp: queue_ok_def simp del: image_iff)
  then show ?thesis using assms(1,2) q by (auto simp: queue_ok_def distinct_map_filter)
qed

text \<open>
  The outcome of processing reservations and releases: after an error the state is as before and all
  requests are gone; otherwise the reserved amount has changed by the reservations that are gone less
  the releases, and a message was sent exactly when the available funds fall short of it.
\<close>

definition reservations_outcome :: "fundManagerAPI \<Rightarrow> fundedAddress \<Rightarrow> fundedAddress \<Rightarrow> bool" where
  "reservations_outcome api a a' \<longleftrightarrow> releases a' = [] \<and>
     (reservations a' = [] \<and> astate a' = astate a \<and> pushed a' = pushed a
      \<or> AmtReserved (astate a') = max 0 (AmtReserved (astate a) + sum_list (map (Amount a) (reservations a))
            - sum_list (map (Amount a) (reservations a')) - sum_list (map (Amount a) (releases a)))
        \<and> (case MsgCid (astate a') of
             None \<Rightarrow> pushed a' = pushed a
           | Some c \<Rightarrow> (\<exists>v. pushed a' = pushed a @ [(AddBalanceParams (Addr (astate a)), v)]
                        \<and> topped_up api (astate a) (AmtReserved (astate a')) v)))"

lemma settled_reqs_split:
  assumes "queue_ok a"
    and "case r of Inl e \<Rightarrow> ps = [] | Inr pr \<Rightarrow> reserved_ok api (reservations a) (releases a) a pr ps"
  shows "\<exists>done. mset done \<subseteq># mset (reservations a) \<and> (reservations a \<noteq> [] \<longrightarrow> done \<noteq> [])
    \<and> set (settled_reqs (reservations a) (releases a) r) = set done \<union> set (releases a)
    \<and> (case r of Inl e \<Rightarrow> done = reservations a | Inr pr \<Rightarrow> done = covered pr @ added pr)
    \<and> filter (\<lambda>q. reqID q \<notin> reqID ` set (settled_reqs (reservations a) (releases a) r)) (reservations a)
      = filter (\<lambda>q. reqID q \<notin> reqID ` set done) (reservations a)"
proof -
  define dn where "dn = (case r of Inl e \<Rightarrow> reservations a | Inr pr \<Rightarrow> covered pr @ added pr)"
  have set_dn: "set (settled_reqs (reservations a) (releases a) r) = set dn \<union> set (releases a)"
    by (auto simp: settled_reqs_def dn_def split: sum.splits)
  have "filter (\<lambda>q. reqID q \<notin> reqID ` set (settled_reqs (reservations a) (releases a) r)) (reservations a)
      = filter (\<lambda>q. reqID q \<notin> reqID ` set dn) (reservations a)"
    using queue_okD(5) [OF assms(1)] by (intro filter_cong refl) (simp add: set_dn image_Un)
  moreover have "mset dn \<subseteq># mset (reservations a) \<and> (reservations a \<noteq> [] \<longrightarrow> dn \<noteq> [])"
    using assms(2) by (cases r) (auto simp: dn_def reserved_ok_def)
  ultimately show ?thesis using set_dn by (intro exI [of _ dn]) (auto simp: dn_def split: sum.splits)
qed

lemma process_reservations_result:
  assumes "queue_ok a" and "MsgCid (astate a) = None" and "reservations a \<noteq> [] \<or> releases a \<noteq> []"
  shows "\<exists>a'. process_reservations api a = Inr a' \<and> reservations_outcome api a a' \<and> queue_ok a' \<and> same_place a a'
    \<and> withdrawals a' = withdrawals a \<and> length (queued a') < length (queued a) \<and> store_step api a a'"
proof -
  note q = queue_okD [OF assms(1)]
  obtain r a2 a1 ps where p: "processReservations api (reservations a) (releases a) a = Inr (r, a2)"
    and c: "called ps a a1" and f: "finished (settled_reqs (reservations a) (releases a) r) a1 a2"
    and r: "case r of Inl e \<Rightarrow> ps = [] | Inr pr \<Rightarrow> reserved_ok api (reservations a) (releases a) a pr ps"
    using processReservations_result [OF q(1,2)] by blast
  obtain dn where dn: "mset dn \<subseteq># mset (reservations a)" "reservations a \<noteq> [] \<longrightarrow> dn \<noteq> []"
    "set (settled_reqs (reservations a) (releases a) r) = set dn \<union> set (releases a)"
    "case r of Inl e \<Rightarrow> dn = reservations a | Inr pr \<Rightarrow> dn = covered pr @ added pr"
    "filter (\<lambda>q. reqID q \<notin> reqID ` set (settled_reqs (reservations a) (releases a) r)) (reservations a)
      = filter (\<lambda>q. reqID q \<notin> reqID ` set dn) (reservations a)"
    using settled_reqs_split [OF assms(1) r] by blast
  define a3 where "a3 = (case r of Inl _ \<Rightarrow> a2 | Inr res \<Rightarrow> applyStateChange api (msgCid res) (Some (amtReserved res)) a2)"
  define a' where "a' = a3\<lparr>reservations := filterOutProcessedReqs a3 (reservations a3), releases := filterOutProcessedReqs a3 (releases a3)\<rparr>"
  note cf = called_fields [OF c] finished_fields [OF f]
  have res: "process_reservations api a = Inr a'"
    using p by (simp add: process_reservations_def bind_panic_def a3_def a'_def Let_def)
  have a3: "reservations a3 = reservations a" "releases a3 = releases a" "withdrawals a3 = withdrawals a" "completed a3 = completed a2"
    "pushed a3 = pushed a @ ps" "same_place a a3" "filterOutProcessedReqs a3 = filterOutProcessedReqs a2"
    using cf by (simp_all add: a3_def applyStateChange_fields filterOut_apply same_place_def split: sum.splits)
  have fo: "filterOutProcessedReqs a2 qs = filter (\<lambda>q. reqID q \<notin> reqID ` set (settled_reqs (reservations a) (releases a) r)) qs"
    if "\<forall>q\<in>set qs. \<not> Completed a q" for qs
    using filterOut_finished [OF f] that cf(13) by simp
  have resv': "reservations a' = filter (\<lambda>q. reqID q \<notin> reqID ` set dn) (reservations a)"
    using fo [of "reservations a"] q(2) a3 dn(5) by (simp add: a'_def)
  have rel': "releases a' = []"
    using fo [of "releases a"] q(2) a3 dn(3) by (auto simp: a'_def filter_empty_conv)
  have wd': "withdrawals a' = withdrawals a" using a3 by (simp add: a'_def)
  have sub: "set dn \<subseteq> set (reservations a)" using dn(1) by (metis set_mset_mono set_mset_mset)
  have "filterOutProcessedReqs a2 (withdrawals a) = withdrawals a"
    using fo [OF q(4)] q(6) sub by (auto simp: dn(3) image_iff intro!: filter_True)
  then have ok: "queue_ok a'"
    using a3 cf sub wd' dn(3)
    by (intro queue_ok_shrink [OF assms(1)])
      (auto simp: a'_def same_place_def queued_def filterOutProcessedReqs_def Completed_def
        intro!: exI [of _ "settled_reqs (reservations a) (releases a) r"])
  note left = sum_list_left [OF _ dn(1)] q(1)
  have len: "length (reservations a') + length dn = length (reservations a)" using left resv' by simp
  then have shrink: "length (queued a') < length (queued a)"
    using assms(3) dn(2) rel' wd' by (cases dn; cases "releases a") (auto simp: queued_def)
  have sum: "sum_list (map (Amount a) (reservations a')) = sum_list (map (Amount a) (reservations a)) - sum_list (map (Amount a) dn)"
    using left(1) [of "Amount a"] q(1) resv' by simp
  have out: "reservations_outcome api a a'"
  proof (cases r)
    case (Inl e)
    then show ?thesis using r dn(4) cf resv' rel' by (auto simp: reservations_outcome_def a'_def a3_def)
  next
    case (Inr pr)
    then have pr: "reserved_ok api (reservations a) (releases a) a pr ps" "dn = covered pr @ added pr" using r dn(4) by auto
    have st: "AmtReserved (astate a') = amtReserved pr" "MsgCid (astate a') = msgCid pr" "pushed a' = pushed a @ ps"
      using a3 Inr by (simp_all add: a'_def a3_def applyStateChange_fields)
    show ?thesis using pr st sum rel' by (auto simp: reservations_outcome_def reserved_ok_def split: option.splits)
  qed
  have "store_step api a2 a3" by (simp add: a3_def store_step_refl store_step_apply split: sum.splits)
  then have "store_step api a a'" by (rule store_step_cong) (simp_all add: a'_def cf)
  then show ?thesis using res out ok a3 wd' shrink by (auto simp: a'_def same_place_def)
qed

subsection \<open>Processing withdrawals\<close>

text \<open>
  The loop: what is completed and what is allowed are different requests of the queue, at least one
  request is one or the other, and what is allowed sums up to no more than what is available, unless
  nothing is allowed.
\<close>

lemma Complete_finished: "\<not> Completed a r \<Longrightarrow> \<exists>a'. Complete c err r a = Inr a' \<and> finished [r] a a'"
  by (auto simp: Complete_def finished_def intro!: exI [of _ "[x]" for x])

lemma finished_others:
  assumes "finished [r] a a'" and "distinct (map reqID (r # reqs))" and "\<forall>q\<in>set reqs. \<not> Completed a q"
  shows "\<forall>q\<in>set reqs. \<not> Completed a' q"
  using assms Completed_finished [OF assms(1)] by (auto simp: image_iff)

lemma withdrawals_loop_result:
  assumes "distinct (map reqID wds)" and "\<forall>q\<in>set wds. \<not> Completed a q"
    and "allowed \<noteq> [] \<longrightarrow> allowedAmt \<le> netAvail"
  shows "\<exists>fin new a'. processWithdrawals_loop netAvail allowedAmt allowedAmt allowed w wds a
      = Inr (allowedAmt + sum_list (map (Amount a) new), allowed @ new, a')
    \<and> finished fin a a' \<and> mset (fin @ new) \<subseteq># mset wds
    \<and> (allowed @ new \<noteq> [] \<longrightarrow> allowedAmt + sum_list (map (Amount a) new) \<le> netAvail)
    \<and> (wds \<noteq> [] \<and> w = AddrUndef \<longrightarrow> fin @ new \<noteq> [])"
  using assms
proof (induction wds arbitrary: allowedAmt allowed w a)
  case (Cons req reqs)
  have refuse: ?case
    if ans: "\<And>a1. Complete None err req a = Inr a1 \<Longrightarrow>
        processWithdrawals_loop netAvail allowedAmt allowedAmt allowed w (req # reqs) a
          = processWithdrawals_loop netAvail allowedAmt allowedAmt allowed w reqs a1" for err
  proof -
    obtain a1 where a1: "Complete None err req a = Inr a1" "finished [req] a a1" using Complete_finished Cons(3) by fastforce
    note am = finished_fields(11) [OF a1(2)]
    obtain fin new a' where r: "processWithdrawals_loop netAvail allowedAmt allowedAmt allowed w reqs a1
        = Inr (allowedAmt + sum_list (map (Amount a) new), allowed @ new, a')" "finished fin a1 a'" "mset (fin @ new) \<subseteq># mset reqs"
      "allowed @ new \<noteq> [] \<longrightarrow> allowedAmt + sum_list (map (Amount a) new) \<le> netAvail"
      using Cons(1) [of a1 allowed allowedAmt w] finished_others [OF a1(2)] Cons(2-4) unfolding am by auto
    then show ?thesis using ans [OF a1(1)] finished_append [OF a1(2) r(2)]
      by (intro exI [of _ "[req] @ fin"] exI [of _ new] exI [of _ a']) simp
  qed
  consider (expired) "Amount a req = 0" | (short) "Amount a req \<noteq> 0" "netAvail < allowedAmt + Amount a req"
    | (fits) "Amount a req \<noteq> 0" "\<not> netAvail < allowedAmt + Amount a req" by blast
  then show ?case
  proof cases
    case expired
    then show ?thesis using refuse [of None] by simp
  next
    case short
    then show ?thesis using refuse [of "Some ''insufficient funds''"] by simp
  next
    case fits
    define w' where "w' = (if w = AddrUndef then Wallet req else w)"
    show ?thesis
    proof (cases "Wallet req = w'")
      case False
      obtain fin new a' where r: "processWithdrawals_loop netAvail allowedAmt allowedAmt allowed w' reqs a
          = Inr (allowedAmt + sum_list (map (Amount a) new), allowed @ new, a')" "finished fin a a'" "mset (fin @ new) \<subseteq># mset reqs"
        "allowed @ new \<noteq> [] \<longrightarrow> allowedAmt + sum_list (map (Amount a) new) \<le> netAvail"
        using Cons(1) [of a allowed allowedAmt w'] Cons(2-4) by auto
      then show ?thesis using fits False
        by (intro exI [of _ fin] exI [of _ new] exI [of _ a'])
          (auto simp: Let_def w'_def intro: subset_mset.order_trans split: if_splits)
    next
      case True
      obtain fin new a' where r: "processWithdrawals_loop netAvail (allowedAmt + Amount a req) (allowedAmt + Amount a req) (allowed @ [req]) w' reqs a
          = Inr (allowedAmt + Amount a req + sum_list (map (Amount a) new), (allowed @ [req]) @ new, a')" "finished fin a a'"
        "mset (fin @ new) \<subseteq># mset reqs"
        "(allowed @ [req]) @ new \<noteq> [] \<longrightarrow> allowedAmt + Amount a req + sum_list (map (Amount a) new) \<le> netAvail"
        using Cons(1) [of a "allowed @ [req]" "allowedAmt + Amount a req" w'] Cons(2-4) fits by auto
      then show ?thesis using fits True
        by (intro exI [of _ fin] exI [of _ "req # new"] exI [of _ a']) (auto simp: Let_def w'_def split: if_splits)
    qed
  qed
qed auto

lemma Complete_all_finished: "Complete_all c err reqs a = Inr a' \<Longrightarrow> finished reqs a a'"
proof (induction reqs arbitrary: a)
  case (Cons r reqs)
  then obtain a1 where a1: "Complete c err r a = Inr a1" "Complete_all c err reqs a1 = Inr a'" by (auto split: sum.splits)
  then have "finished [r] a a1" using Complete_finished [of a r c err] by (auto simp: Complete_def split: if_splits)
  then show ?case using finished_append Cons(1) [OF a1(2)] by fastforce
qed simp

text \<open>A withdrawal sent on chain leaves at least the reserved amount.\<close>

definition leaves_reserved :: "fundManagerAPI \<Rightarrow> FundedAddressState \<Rightarrow> token \<Rightarrow> bool" where
  "leaves_reserved api st v \<longleftrightarrow>
     (\<exists>n bal. StateMarketBalance api n (Addr st) = Inr bal \<and> v \<noteq> 0 \<and> AmtReserved st \<le> Escrow bal - Locked bal - v)"

text \<open>Calls and completions together.\<close>

definition advanced :: "(MarketParams \<times> token) list \<Rightarrow> fundRequest list \<Rightarrow> fundedAddress \<Rightarrow> fundedAddress \<Rightarrow> bool" where
  "advanced ps reqs a a' \<longleftrightarrow> (\<exists>k cs. a' = a\<lparr>calls := k, pushed := pushed a @ ps, completed := cs @ completed a\<rparr>
     \<and> fst ` set cs = reqID ` set reqs)"

lemma called_advanced: "called ps a a' \<Longrightarrow> advanced ps [] a a'"
  by (auto simp: called_def advanced_def)

lemma finished_advanced: "finished reqs a a' \<Longrightarrow> advanced [] reqs a a'"
  by (auto simp: finished_def advanced_def intro!: exI [of _ "calls a"])

lemma advanced_trans:
  assumes "advanced ps xs a b" and "advanced qs ys b c"
  shows "advanced (ps @ qs) (xs @ ys) a c"
proof -
  obtain k cs k' cs' where "b = a\<lparr>calls := k, pushed := pushed a @ ps, completed := cs @ completed a\<rparr>" "fst ` set cs = reqID ` set xs"
    "c = b\<lparr>calls := k', pushed := pushed b @ qs, completed := cs' @ completed b\<rparr>" "fst ` set cs' = reqID ` set ys"
    using assms by (auto simp: advanced_def)
  then have "c = a\<lparr>calls := k', pushed := pushed a @ (ps @ qs), completed := (cs' @ cs) @ completed a\<rparr>
      \<and> fst ` set (cs' @ cs) = reqID ` set (xs @ ys)"
    by (auto simp: image_Un)
  then show ?thesis unfolding advanced_def by blast
qed

lemma advanced_fields:
  assumes "advanced ps reqs a a'"
  shows "astate a' = astate a" "reservations a' = reservations a" "releases a' = releases a" "withdrawals a' = withdrawals a"
    "expired a' = expired a" "stored a' = stored a" "waits a' = waits a" "nextReq a' = nextReq a"
    "pushed a' = pushed a @ ps" "Amount a' = Amount a"
    "fst ` set (completed a') = reqID ` set reqs \<union> fst ` set (completed a)"
  using assms unfolding advanced_def by (elim exE conjE; simp add: Amount_def fun_eq_iff image_Un)+

text \<open>What \<open>processWithdrawals\<close> has done: at least one request of the queue is completed, and a message leaves the reserved amount.\<close>

definition withdrawn_ok :: "fundManagerAPI \<Rightarrow> fundRequest list \<Rightarrow> fundedAddress \<Rightarrow> string + cid option \<Rightarrow> fundedAddress \<Rightarrow> bool" where
  "withdrawn_ok api wds a r a' \<longleftrightarrow>
     (\<exists>ps fin. advanced ps fin a a' \<and> set fin \<subseteq> set wds \<and> (wds \<noteq> [] \<longrightarrow> fin \<noteq> [])
       \<and> (case r of
            Inr (Some c) \<Rightarrow> (\<exists>v. ps = [(WithdrawBalanceParams (Addr (astate a)) v, 0)] \<and> leaves_reserved api (astate a) v)
          | _ \<Rightarrow> ps = []))"

text \<open>The message pool accepts withdrawals.\<close>

definition withdraw_accepted :: "fundManagerAPI \<Rightarrow> bool" where
  "withdraw_accepted api \<longleftrightarrow> (\<forall>p. \<exists>b. SerializeParams api p = Inr b)
     \<and> (\<forall>n msg. MsgMethod msg = WithdrawBalance \<longrightarrow> (\<exists>c. MpoolPushMessage api n msg = Inr c))"

lemma WithdrawFunds_accepted: "withdraw_accepted api \<Longrightarrow> \<exists>c a'. WithdrawFunds api wallet v a = (Inr c, a')"
proof -
  assume acc: "withdraw_accepted api"
  obtain b where b: "SerializeParams api (WithdrawBalanceParams (Addr (astate a)) v) = Inr b"
    using acc unfolding withdraw_accepted_def by blast
  obtain c where "MpoolPushMessage api (calls a) \<lparr>MsgMethod = WithdrawBalance, MsgFrom = wallet, MsgValue = 0, MsgParams = b\<rparr> = Inr c"
    using acc unfolding withdraw_accepted_def by (metis MarketMsg.select_convs(1))
  then show ?thesis using b by (simp add: WithdrawFunds_def pushMessage_def)
qed

lemma withdrawn_okI:
  assumes "advanced ps fin a a'" and "set fin \<subseteq> set wds" and "wds \<noteq> [] \<longrightarrow> fin \<noteq> []"
    and "case r of Inr (Some c) \<Rightarrow> (\<exists>v. ps = [(WithdrawBalanceParams (Addr (astate a)) v, 0)] \<and> leaves_reserved api (astate a) v) | _ \<Rightarrow> ps = []"
  shows "withdrawn_ok api wds a r a'"
  using assms unfolding withdrawn_ok_def by blast

definition withdraw_send ::
  "fundManagerAPI \<Rightarrow> fundRequest list \<Rightarrow> fundRequest list \<Rightarrow> token \<Rightarrow> fundedAddress \<Rightarrow> fund_panic + ((string + cid option) \<times> fundedAddress)"
where
  "withdraw_send api wds allowed v a =
     (case WithdrawFunds api (Wallet (hd allowed)) v a of
        (Inl e, a) \<Rightarrow> bind_panic (Complete_all None (Some e) wds a) (\<lambda>a. Inr (Inl e, a))
      | (Inr c, a) \<Rightarrow> bind_panic (Complete_all (Some c) None allowed a) (\<lambda>a. Inr (Inr (Some c), a)))"

lemma withdraw_send_result:
  assumes adv: "advanced [] fin a a2" and sub: "set (fin @ allowed) \<subseteq> set wds" and ne: "allowed \<noteq> []"
    and dist: "distinct (map reqID allowed)" and nc: "\<forall>q\<in>set allowed. \<not> Completed a2 q"
    and v: "leaves_reserved api (astate a) v"
  shows "(withdraw_send api wds allowed v a2 = Inr (r, a') \<longrightarrow> withdrawn_ok api wds a r a')
    \<and> (withdraw_accepted api \<longrightarrow> (\<exists>r a'. withdraw_send api wds allowed v a2 = Inr (r, a')))"
proof -
  obtain wf a3 where wf: "WithdrawFunds api (Wallet (hd allowed)) v a2 = (wf, a3)" by (cases "WithdrawFunds api (Wallet (hd allowed)) v a2")
  note c3 = WithdrawFunds_called [OF wf]
  note adv3 = advanced_trans [OF adv called_advanced [OF c3]]
  show ?thesis
  proof (cases wf)
    case (Inl e)
    have "withdrawn_ok api wds a r a'" if run: "withdraw_send api wds allowed v a2 = Inr (r, a')"
    proof -
      have r: "r = Inl e" "finished wds a3 a'"
        using run wf Inl by (auto simp: withdraw_send_def bind_panic_def split: sum.splits dest: Complete_all_finished)
      show ?thesis using advanced_trans [OF adv3 finished_advanced [OF r(2)]] sub r(1) Inl by (intro withdrawn_okI) auto
    qed
    moreover have "\<not> withdraw_accepted api" using WithdrawFunds_accepted [of api "Wallet (hd allowed)" v a2] wf Inl by auto
    ultimately show ?thesis by blast
  next
    case (Inr c)
    have "\<forall>q\<in>set allowed. \<not> Completed a3 q" using nc called_fields(13) [OF c3] by simp
    then obtain a4 where a4: "Complete_all (Some c) None allowed a3 = Inr a4" "finished allowed a3 a4"
      using Complete_all_ok [OF dist] by blast
    have run: "withdraw_send api wds allowed v a2 = Inr (Inr (Some c), a4)"
      using wf Inr a4(1) by (simp add: withdraw_send_def bind_panic_def)
    have "withdrawn_ok api wds a (Inr (Some c)) a4"
      using advanced_trans [OF adv3 finished_advanced [OF a4(2)]] sub ne v Inr advanced_fields(1) [OF adv]
      by (intro withdrawn_okI) auto
    then show ?thesis using run by auto
  qed
qed

lemma processWithdrawals_result:
  assumes "distinct (map reqID wds)" and "\<forall>q\<in>set wds. \<not> Completed a q"
  shows "(processWithdrawals api wds a = Inr (r, a') \<longrightarrow> withdrawn_ok api wds a r a')
    \<and> (withdraw_accepted api \<longrightarrow> (\<exists>r a'. processWithdrawals api wds a = Inr (r, a')))"
proof -
  obtain av a1 where av: "AvailableFunds api a = (av, a1)" by (cases "AvailableFunds api a")
  note c1 = AvailableFunds_called [OF av]
  note adv1 = called_advanced [OF c1]
  have nc: "\<forall>q\<in>set wds. \<not> Completed a1 q" using assms(2) called_fields(13) [OF c1] by simp
  show ?thesis
  proof (cases av)
    case (Inl e)
    obtain a2 where a2: "Complete_all None (Some e) wds a1 = Inr a2" "finished wds a1 a2"
      using Complete_all_ok [OF assms(1) nc] by blast
    have "processWithdrawals api wds a = Inr (Inl e, a2)" using av Inl a2(1) by (simp add: processWithdrawals_def bind_panic_def)
    moreover have "withdrawn_ok api wds a (Inl e) a2"
      using advanced_trans [OF adv1 finished_advanced [OF a2(2)]] by (intro withdrawn_okI) auto
    ultimately show ?thesis by auto
  next
    case (Inr avail)
    obtain fin allowed a2 where lp: "processWithdrawals_loop (avail - AmtReserved (astate a1)) 0 0 [] AddrUndef wds a1
        = Inr (sum_list (map (Amount a1) allowed), allowed, a2)" "finished fin a1 a2" "mset (fin @ allowed) \<subseteq># mset wds"
      "allowed \<noteq> [] \<longrightarrow> sum_list (map (Amount a1) allowed) \<le> avail - AmtReserved (astate a1)" "wds \<noteq> [] \<longrightarrow> fin @ allowed \<noteq> []"
      using withdrawals_loop_result [OF assms(1) nc, of "[]" 0 "avail - AmtReserved (astate a1)" AddrUndef] by auto
    have sub: "set (fin @ allowed) \<subseteq> set wds" using lp(3) by (metis set_mset_mono set_mset_mset)
    note adv2 = advanced_trans [OF adv1 finished_advanced [OF lp(2)]]
    note d = distinct_map_sub [OF assms(1) lp(3)]
    have nc2: "\<forall>q\<in>set allowed. \<not> Completed a2 q" using Completed_finished [OF lp(2)] nc sub d by (auto simp: image_iff)
    define v where "v = sum_list (map (Amount a1) allowed)"
    show ?thesis
    proof (cases "v = 0")
      case True
      obtain a3 where a3: "Complete_all None None allowed a2 = Inr a3" "finished allowed a2 a3"
        using Complete_all_ok [of allowed a2 None None] nc2 d by auto
      have "processWithdrawals api wds a = Inr (Inr None, a3)"
        using av Inr lp(1) a3(1) True by (simp add: processWithdrawals_def bind_panic_def v_def)
      moreover have "withdrawn_ok api wds a (Inr None) a3"
        using advanced_trans [OF adv2 finished_advanced [OF a3(2)]] lp(5) sub by (intro withdrawn_okI) auto
      ultimately show ?thesis by auto
    next
      case False
      then have ne: "allowed \<noteq> []" by (auto simp: v_def)
      have "leaves_reserved api (astate a) v"
        using av Inr lp(4) ne False called_fields(1) [OF c1]
        by (auto simp: leaves_reserved_def AvailableFunds_def v_def intro!: exI [of _ "calls a"] split: sum.splits)
      moreover have "processWithdrawals api wds a = withdraw_send api wds allowed v a2"
        using av Inr lp(1) False ne by (cases allowed) (auto simp: processWithdrawals_def withdraw_send_def bind_panic_def v_def)
      ultimately show ?thesis using withdraw_send_result [OF _ _ ne _ nc2, of fin a wds api v r a'] adv2 sub d by simp
    qed
  qed
qed

definition withdrawals_outcome :: "fundManagerAPI \<Rightarrow> fundedAddress \<Rightarrow> fundedAddress \<Rightarrow> bool" where
  "withdrawals_outcome api a a' \<longleftrightarrow> AmtReserved (astate a') = AmtReserved (astate a) \<and>
     (astate a' = astate a \<and> pushed a' = pushed a
      \<or> (\<exists>c v. MsgCid (astate a') = Some c \<and> pushed a' = pushed a @ [(WithdrawBalanceParams (Addr (astate a)) v, 0)]
          \<and> leaves_reserved api (astate a) v))"

lemma process_withdrawals_result:
  assumes "queue_ok a"
  shows "(process_withdrawals api a = Inr a' \<longrightarrow> withdrawals_outcome api a a' \<and> queue_ok a' \<and> same_place a a' \<and> store_step api a a'
      \<and> (withdrawals a \<noteq> [] \<longrightarrow> length (queued a') < length (queued a)))
    \<and> (withdraw_accepted api \<longrightarrow> (\<exists>a'. process_withdrawals api a = Inr a'))"
proof -
  note q = queue_okD [OF assms]
  note w = processWithdrawals_result [OF q(3,4), of api]
  have "withdrawals_outcome api a a' \<and> queue_ok a' \<and> same_place a a' \<and> store_step api a a' \<and> (withdrawals a \<noteq> [] \<longrightarrow> length (queued a') < length (queued a))"
    if run: "process_withdrawals api a = Inr a'"
  proof -
    obtain r a1 where p: "processWithdrawals api (withdrawals a) a = Inr (r, a1)"
      using run by (auto simp: process_withdrawals_def bind_panic_def split: sum.splits)
    obtain ps fin where f: "advanced ps fin a a1" "set fin \<subseteq> set (withdrawals a)" "withdrawals a \<noteq> [] \<longrightarrow> fin \<noteq> []"
      "case r of Inr (Some c) \<Rightarrow> (\<exists>v. ps = [(WithdrawBalanceParams (Addr (astate a)) v, 0)] \<and> leaves_reserved api (astate a) v) | _ \<Rightarrow> ps = []"
      using w p unfolding withdrawn_ok_def by blast
    define a2 where "a2 = (case r of Inr (Some c) \<Rightarrow> applyStateChange api (Some c) None a1 | _ \<Rightarrow> a1)"
    have a': "a' = a2\<lparr>withdrawals := filterOutProcessedReqs a2 (withdrawals a2)\<rparr>"
      using run p by (simp add: process_withdrawals_def bind_panic_def a2_def Let_def)
    note af = advanced_fields [OF f(1)]
    have a2: "reservations a2 = reservations a" "releases a2 = releases a" "withdrawals a2 = withdrawals a" "pushed a2 = pushed a @ ps"
      "completed a2 = completed a1" "same_place a a2" "AmtReserved (astate a2) = AmtReserved (astate a)"
      using af by (simp_all add: a2_def applyStateChange_fields same_place_def split: sum.splits option.splits)
    have cmp: "Completed a' q \<longleftrightarrow> reqID q \<in> reqID ` set fin \<or> Completed a q" for q
      using af(11) by (simp add: a' Completed_iff a2)
    have keep: "filterOutProcessedReqs a' qs = qs" if "qs = reservations a \<or> qs = releases a" for qs
    proof -
      have "reqID x \<noteq> reqID y" if "x \<in> set (reservations a @ releases a)" "y \<in> set fin" for x y
        using q(6) f(2) that by (metis imageI subsetD)
      then show ?thesis using that q(2) by (auto simp: filterOutProcessedReqs_def cmp intro!: filter_True)
    qed
    have wd': "withdrawals a' = filterOutProcessedReqs a' (withdrawals a)"
      by (simp add: a' a2 filterOutProcessedReqs_def Completed_def)
    have ok: "queue_ok a'"
      using a2 af f(2) wd' keep by (intro queue_ok_shrink [OF assms]) (auto simp: a' same_place_def queued_def intro!: exI [of _ fin])
    have "length (withdrawals a') < length (withdrawals a)" if ne: "withdrawals a \<noteq> []"
    proof -
      obtain r0 where "r0 \<in> set fin" using f(3) ne by (cases fin) auto
      then show ?thesis unfolding wd' filterOutProcessedReqs_def using f(2) cmp by (intro length_filter_less [of r0]) auto
    qed
    moreover have "withdrawals_outcome api a a'"
      using f(4) a2 af by (auto simp: withdrawals_outcome_def a' a2_def applyStateChange_fields split: sum.splits option.splits)
    moreover have "store_step api a1 a2" by (simp add: a2_def store_step_refl store_step_apply split: sum.splits option.splits)
    then have "store_step api a a'" by (rule store_step_cong) (simp_all add: a' af)
    ultimately show ?thesis using ok a2 by (auto simp: a' same_place_def queued_def)
  qed
  moreover have "\<exists>a'. process_withdrawals api a = Inr a'" if acc: "withdraw_accepted api"
  proof -
    obtain r a1 where "processWithdrawals api (withdrawals a) a = Inr (r, a1)" using w acc by blast
    then show ?thesis by (simp add: process_withdrawals_def bind_panic_def Let_def)
  qed
  ultimately show ?thesis by blast
qed

subsection \<open>Processing both\<close>

text \<open>The pending message, and the wait that goes with it.\<close>

definition pending :: "FundedAddressState \<Rightarrow> cid list" where
  "pending st = (case MsgCid st of None \<Rightarrow> [] | Some c \<Rightarrow> [c])"

text \<open>A run of \<open>process\<close> sends at most one message, and then waits for it.\<close>

definition process_outcome :: "fundManagerAPI \<Rightarrow> fundedAddress \<Rightarrow> fundedAddress \<Rightarrow> bool" where
  "process_outcome api a a' \<longleftrightarrow> Addr (astate a') = Addr (astate a) \<and> nextReq a' = nextReq a \<and> expired a' = expired a
     \<and> waits a' = waits a @ pending (astate a')
     \<and> (0 \<le> AmtReserved (astate a) \<longrightarrow> 0 \<le> AmtReserved (astate a'))
     \<and> (pushed a' = pushed a
        \<or> MsgCid (astate a') \<noteq> None
          \<and> ((\<exists>v. pushed a' = pushed a @ [(AddBalanceParams (Addr (astate a)), v)] \<and> topped_up api (astate a) (AmtReserved (astate a')) v)
             \<or> (\<exists>v. pushed a' = pushed a @ [(WithdrawBalanceParams (Addr (astate a)) v, 0)] \<and> leaves_reserved api (astate a') v)))"

lemma leaves_reserved_cong:
  "Addr st = Addr st' \<Longrightarrow> AmtReserved st = AmtReserved st' \<Longrightarrow> leaves_reserved api st v = leaves_reserved api st' v"
  by (simp add: leaves_reserved_def)

lemma start_wait_fields:
  "process_outcome api a (case MsgCid (astate b) of None \<Rightarrow> b | Some c \<Rightarrow> startWaitForResults c b) \<longleftrightarrow>
     process_outcome api a (b\<lparr>waits := waits b @ pending (astate b)\<rparr>)"
  by (auto simp: process_outcome_def startWaitForResults_def pending_def split: option.splits)

lemma outcome_compose:
  assumes "reservations_outcome api a a1 \<or> a1 = a" and "same_place a a1" and "MsgCid (astate a) = None"
    and "b = a1 \<or> MsgCid (astate a1) = None \<and> withdrawals_outcome api a1 b \<and> same_place a1 b"
  shows "process_outcome api a (b\<lparr>waits := waits b @ pending (astate b)\<rparr>)"
proof -
  have first: "(0 \<le> AmtReserved (astate a) \<longrightarrow> 0 \<le> AmtReserved (astate a1)) \<and>
      (MsgCid (astate a1) = None \<and> pushed a1 = pushed a
       \<or> MsgCid (astate a1) \<noteq> None \<and> (\<exists>v. pushed a1 = pushed a @ [(AddBalanceParams (Addr (astate a)), v)]
          \<and> topped_up api (astate a) (AmtReserved (astate a1)) v))"
    using assms(1,3) by (auto simp: reservations_outcome_def split: option.splits)
  show ?thesis using assms(4)
  proof
    assume "b = a1"
    then show ?thesis using first assms(2) by (auto simp: process_outcome_def same_place_def pending_def)
  next
    assume b: "MsgCid (astate a1) = None \<and> withdrawals_outcome api a1 b \<and> same_place a1 b"
    then have "leaves_reserved api (astate b) v = leaves_reserved api (astate a1) v" for v
      by (intro leaves_reserved_cong) (auto simp: same_place_def withdrawals_outcome_def)
    then show ?thesis using first assms(2) b
      by (auto simp: process_outcome_def same_place_def withdrawals_outcome_def pending_def)
  qed
qed

lemma startWait_queue:
  assumes "b' = (case MsgCid (astate b) of None \<Rightarrow> b | Some c \<Rightarrow> startWaitForResults c b)"
  shows "queued b' = queued b" "queue_ok b' = queue_ok b"
  using assms by (auto simp: startWaitForResults_def queued_def queue_ok_def Completed_def split: option.splits)

lemma process_result:
  assumes "queue_ok a" and "MsgCid (astate a) = None" and "queued a \<noteq> []"
  shows "(process api a = Inr a' \<longrightarrow> process_outcome api a a' \<and> queue_ok a' \<and> length (queued a') < length (queued a) \<and> store_step api a a')
    \<and> (withdraw_accepted api \<longrightarrow> (\<exists>a'. process api a = Inr a'))"
proof -
  define hr where "hr = (reservations a \<noteq> [] \<or> releases a \<noteq> [])"
  obtain a1 where a1: "(if hr then process_reservations api a else Inr a) = Inr a1" "queue_ok a1" "same_place a a1"
    "withdrawals a1 = withdrawals a" "hr \<longrightarrow> length (queued a1) < length (queued a)" "reservations_outcome api a a1 \<or> a1 = a" "\<not> hr \<longrightarrow> a1 = a"
    "store_step api a a1"
  proof (cases hr)
    case True
    then show ?thesis using process_reservations_result [OF assms(1,2), of api] that by (auto simp: hr_def)
  next
    case False
    then show ?thesis using that [of a] assms(1) by (simp add: same_place_def store_step_refl)
  qed
  define hw where "hw = (withdrawals a \<noteq> [] \<and> MsgCid (astate a1) = None \<and> reservations a1 = [])"
  have run: "process api a = bind_panic (if hw then process_withdrawals api a1 else Inr a1)
      (\<lambda>b. Inr (case MsgCid (astate b) of None \<Rightarrow> b | Some c \<Rightarrow> startWaitForResults c b))"
    using assms(2,3) a1(1) by (auto simp: process_def hr_def hw_def queued_def bind_panic_def Let_def)
  have w: "b = a1 \<or> MsgCid (astate a1) = None \<and> withdrawals_outcome api a1 b \<and> same_place a1 b" "queue_ok b" "length (queued b) < length (queued a)"
    "store_step api a b" if "(if hw then process_withdrawals api a1 else Inr a1) = Inr b" for b
  proof -
    have "hw" if "\<not> hr" using that assms a1(7) by (auto simp: hw_def hr_def queued_def)
    then show "b = a1 \<or> MsgCid (astate a1) = None \<and> withdrawals_outcome api a1 b \<and> same_place a1 b" "queue_ok b" "length (queued b) < length (queued a)"
      using that process_withdrawals_result [OF a1(2), of api b] a1(2,4,5,7) by (auto simp: hw_def split: if_splits)
    show "store_step api a b"
      using that process_withdrawals_result [OF a1(2), of api b] a1(8) store_step_trans [OF a1(8)]
      by (auto simp: withdrawals_outcome_def split: if_splits)
  qed
  show ?thesis
  proof (intro conjI impI)
    assume "process api a = Inr a'"
    then obtain b where b: "(if hw then process_withdrawals api a1 else Inr a1) = Inr b"
      "a' = (case MsgCid (astate b) of None \<Rightarrow> b | Some c \<Rightarrow> startWaitForResults c b)"
      using run by (auto simp: bind_panic_def split: sum.splits)
    show "process_outcome api a a'" using outcome_compose [OF a1(6,3) assms(2) w(1) [OF b(1)]] start_wait_fields b(2) by simp
    show "queue_ok a'" "length (queued a') < length (queued a)" using startWait_queue [OF b(2)] w(2,3) [OF b(1)] by auto
    show "store_step api a a'" by (rule store_step_cong [OF w(4) [OF b(1)]]) (simp_all add: b(2) startWaitForResults_def split: option.splits)
  next
    assume "withdraw_accepted api"
    then obtain b where "(if hw then process_withdrawals api a1 else Inr a1) = Inr b"
      using process_withdrawals_result [OF a1(2), of api] by (cases hw) auto
    then show "\<exists>a'. process api a = Inr a'" using run by (auto simp: bind_panic_def)
  qed
qed

subsection \<open>All steps\<close>

definition fund_inv :: "fundedAddress \<Rightarrow> bool" where
  "fund_inv a \<longleftrightarrow> queue_ok a \<and> 0 \<le> AmtReserved (astate a) \<and> waits a = pending (astate a)
     \<and> (case stored a of None \<Rightarrow> True | Some st \<Rightarrow> 0 \<le> AmtReserved st)"

lemma fund_inv_new: "fund_inv (newFundedAddress addr)"
  by (simp add: fund_inv_def newFundedAddress_def queue_ok_def queued_def pending_def)

lemma process_inv:
  assumes "fund_inv a" and "process api a = Inr a'"
  shows "fund_inv a'"
proof (cases "MsgCid (astate a) = None \<and> queued a \<noteq> []")
  case True
  then have r: "process_outcome api a a'" "queue_ok a'" "store_step api a a'" using process_result [of a api a'] assms by (auto simp: fund_inv_def)
  have w: "waits a = []" using assms(1) True by (simp add: fund_inv_def pending_def)
  show ?thesis using r w assms(1) by (auto simp: fund_inv_def process_outcome_def store_step_def split: option.splits)
next
  case False
  then have "a' = a" using assms(2) by (auto simp: process_def queued_def Let_def split: if_splits)
  then show ?thesis using assms(1) by simp
qed

lemma queue_ok_add:
  assumes "queue_ok a" and "mset (queued a') = add_mset r (mset (queued a))" and "reqID r = nextReq a"
    and "nextReq a' = nextReq a + 1" and "completed a' = completed a"
  shows "queue_ok a'"
proof -
  have "mset (map reqID (queued a')) = mset (map reqID (r # queued a))" using assms(2) by simp
  then have "distinct (map reqID (queued a'))"
    using assms(1,3) mset_eq_imp_distinct_iff [of "map reqID (queued a')" "map reqID (r # queued a)"] by (force simp: queue_ok_def)
  moreover have "set (queued a') = insert r (set (queued a))" using assms(2) by (metis set_mset_mset set_mset_add_mset_insert)
  ultimately show ?thesis using assms(1,3-5) by (fastforce simp: queue_ok_def Completed_iff)
qed

lemma request_inv: "fund_inv a \<Longrightarrow> fund_inv (requestAndWait q wallet v a)"
  using queue_ok_add [of a "requestAndWait q wallet v a" "\<lparr>reqID = nextReq a, amt = v, Wallet = wallet\<rparr>"]
  by (cases q) (auto simp: fund_inv_def requestAndWait_def queued_def)

lemma fstep_inv:
  assumes "fstep api a a'" and "fund_inv a"
  shows "fund_inv a'"
  using assms(1)
proof cases
  case (fs_request q wallet v)
  then show ?thesis using request_inv assms(2) by simp
next
  case (fs_expire n)
  then show ?thesis using assms(2) by (auto simp: fund_inv_def queue_ok_def queued_def Completed_def)
next
  case fs_process
  then show ?thesis using process_inv assms(2) by blast
next
  case (fs_wait c)
  have "fund_inv (clearWaitState api (a\<lparr>waits := remove1 c (waits a)\<rparr>))"
    using assms(2) fs_wait(1)
    by (auto simp: fund_inv_def clearWaitState_def saveState_def queue_ok_def queued_def Completed_def pending_def split: option.splits)
  then show ?thesis using process_inv fs_wait(2) by (auto simp: waitDone_def)
next
  case (fs_restart st)
  then show ?thesis using assms(2)
    by (auto simp: fund_inv_def restart_def start_def startWaitForResults_def queue_ok_def queued_def pending_def split: option.splits)
qed

lemma reachable_inv: "rtranclp (fstep api) (newFundedAddress addr) a \<Longrightarrow> fund_inv a"
  by (induction rule: rtranclp_induct) (auto simp: fund_inv_new intro: fstep_inv)

text \<open>With a data store that does not fail, the record in it is the state, or there is none yet.\<close>

definition in_sync :: "address \<Rightarrow> fundedAddress \<Rightarrow> bool" where
  "in_sync addr a \<longleftrightarrow> (case stored a of None \<Rightarrow> astate a = \<lparr>Addr = addr, AmtReserved = 0, MsgCid = None\<rparr> | Some st \<Rightarrow> st = astate a)"

lemma process_sync:
  assumes "\<forall>n. save_ok api n" and "fund_inv a" and "in_sync addr a" and "process api a = Inr a'"
  shows "in_sync addr a'"
proof (cases "MsgCid (astate a) = None \<and> queued a \<noteq> []")
  case True
  then have "store_step api a a'" using process_result [of a api a'] assms(2,4) by (auto simp: fund_inv_def)
  then show ?thesis using assms(1,3) by (auto simp: store_step_def in_sync_def split: option.splits)
next
  case False
  then have "a' = a" using assms(4) by (auto simp: process_def queued_def Let_def split: if_splits)
  then show ?thesis using assms(3) by simp
qed

lemma fstep_sync:
  assumes "fstep api a a'" and "\<forall>n. save_ok api n" and "fund_inv a" and "in_sync addr a"
  shows "in_sync addr a'"
  using assms(1)
proof cases
  case (fs_request q wallet v)
  then show ?thesis using assms(4) by (cases q) (auto simp: in_sync_def requestAndWait_def split: option.splits)
next
  case (fs_expire n)
  then show ?thesis using assms(4) by (simp add: in_sync_def split: option.splits)
next
  case fs_process
  then show ?thesis using process_sync assms by blast
next
  case (fs_wait c)
  define b where "b = clearWaitState api (a\<lparr>waits := remove1 c (waits a)\<rparr>)"
  have "fund_inv b" using assms(3) fs_wait(1)
    by (auto simp: b_def fund_inv_def clearWaitState_def saveState_def queue_ok_def queued_def Completed_def pending_def split: option.splits)
  moreover have "in_sync addr b" using assms(2) by (simp add: b_def in_sync_def clearWaitState_def saveState_def)
  ultimately show ?thesis using process_sync [OF assms(2)] fs_wait(2) by (auto simp: waitDone_def b_def)
next
  case (fs_restart st)
  then show ?thesis by (auto simp: in_sync_def restart_def start_def startWaitForResults_def split: option.splits)
qed

lemma reachable_sync:
  "rtranclp (fstep api) (newFundedAddress addr) a \<Longrightarrow> \<forall>n. save_ok api n \<Longrightarrow> in_sync addr a"
proof (induction rule: rtranclp_induct)
  case base
  show ?case by (simp add: in_sync_def newFundedAddress_def)
next
  case (step b c)
  then show ?case using fstep_sync reachable_inv by blast
qed

subsection \<open>Examples\<close>

definition example_api :: "token \<Rightarrow> bool \<Rightarrow> fundManagerAPI" where
  "example_api avail accept =
     \<lparr>StateMarketBalance = (\<lambda>n addr. Inr \<lparr>Escrow = avail, Locked = 0\<rparr>),
      MpoolPushMessage = (\<lambda>n msg. if accept then Inr ''msg'' else Inl ''push failed''),
      SerializeParams = (\<lambda>p. Inr []), save_ok = (\<lambda>n. True)\<rparr>"

definition example_funds :: fundedAddress where
  "example_funds = requestAndWait QRelease AddrUndef 30 (requestAndWait QReserve (AddrID 101) 50
     (requestAndWait QReserve (AddrID 100) 70 (newFundedAddress (AddrID 1))))"

lemma example_funds_reachable: "rtranclp (fstep api) (newFundedAddress (AddrID 1)) example_funds"
  unfolding example_funds_def by (meson fs_request rtranclp.rtrancl_into_rtrancl rtranclp.rtrancl_refl)

definition example_withdraw :: fundedAddress where
  "example_withdraw = requestAndWait QWithdraw (AddrID 100) 80 (requestAndWait QWithdraw (AddrID 100) 30 (newFundedAddress (AddrID 1)))"

lemma example_withdraw_reachable: "rtranclp (fstep api) (newFundedAddress (AddrID 1)) example_withdraw"
  unfolding example_withdraw_def by (meson fs_request rtranclp.rtrancl_into_rtrancl rtranclp.rtrancl_refl)

subsection \<open>Properties\<close>

text \<open>
  C23. One message at a time: in every reachable state of an address the reserved amount is not negative and
  exactly the pending message, if there is one, is being waited for; and a step that sends a message sends
  only one, and leaves it pending.
\<close>

theorem one_message_at_a_time:
  assumes "rtranclp (fstep api) (newFundedAddress addr) a"
  shows "0 \<le> AmtReserved (astate a) \<and> waits a = (case MsgCid (astate a) of None \<Rightarrow> [] | Some c \<Rightarrow> [c])
    \<and> (\<forall>a'. process api a = Inr a' \<and> pushed a' \<noteq> pushed a \<longrightarrow>
         MsgCid (astate a) = None \<and> MsgCid (astate a') \<noteq> None \<and> length (pushed a') = length (pushed a) + 1)"
proof -
  have inv: "fund_inv a" using reachable_inv assms .
  have "MsgCid (astate a) = None \<and> MsgCid (astate a') \<noteq> None \<and> length (pushed a') = length (pushed a) + 1"
    if "process api a = Inr a'" "pushed a' \<noteq> pushed a" for a'
  proof -
    have "MsgCid (astate a) = None \<and> queued a \<noteq> []"
      using that by (auto simp: process_def queued_def Let_def split: if_splits)
    then show ?thesis using process_result [of a api a'] inv that by (auto simp: fund_inv_def process_outcome_def)
  qed
  then show ?thesis using inv by (auto simp: fund_inv_def pending_def)
qed

theorem one_message_at_a_time_witness:
  "\<exists>a'. process (example_api 0 True) example_funds = Inr a' \<and> length (pushed a') = 1 \<and> MsgCid (astate a') \<noteq> None"
proof -
  have "(case process (example_api 0 True) example_funds of Inl _ \<Rightarrow> False | Inr a' \<Rightarrow> pushed a' \<noteq> [])" by code_simp
  then obtain a' where a': "process (example_api 0 True) example_funds = Inr a'" "pushed a' \<noteq> []" by (auto split: sum.splits)
  have "pushed example_funds = []" by code_simp
  then show ?thesis using one_message_at_a_time [OF example_funds_reachable, of "example_api 0 True"] a' by auto
qed

text \<open>
  C21. Withdrawals never touch the reserve: when a run of \<open>process\<close> sends a withdrawal, the chain has reported
  an available balance that covers the amount withdrawn and, besides, all that is reserved afterwards.
\<close>

theorem withdrawals_leave_reserve:
  assumes "rtranclp (fstep api) (newFundedAddress addr) a" and "process api a = Inr a'"
    and "pushed a' = pushed a @ [(WithdrawBalanceParams addr' v, x)]"
  shows "addr' = Addr (astate a') \<and> (\<exists>n bal. StateMarketBalance api n addr' = Inr bal
    \<and> v + AmtReserved (astate a') \<le> Escrow bal - Locked bal)"
proof -
  have inv: "fund_inv a" using reachable_inv assms(1) .
  have "MsgCid (astate a) = None \<and> queued a \<noteq> []"
    using assms(2,3) by (auto simp: process_def queued_def Let_def split: if_splits)
  then have "process_outcome api a a'" using process_result [of a api a'] inv assms(2) by (auto simp: fund_inv_def)
  then have "addr' = Addr (astate a')" "leaves_reserved api (astate a') v"
    using assms(3) by (auto simp: process_outcome_def)
  then show ?thesis by (force simp: leaves_reserved_def)
qed

theorem withdrawals_leave_reserve_witness:
  "\<exists>a'. process (example_api 100 True) example_withdraw = Inr a' \<and> pushed a' = [(WithdrawBalanceParams (AddrID 1) 30, 0)]
    \<and> (\<exists>n bal. StateMarketBalance (example_api 100 True) n (AddrID 1) = Inr bal \<and> 30 + AmtReserved (astate a') \<le> Escrow bal - Locked bal)"
proof -
  have "(case process (example_api 100 True) example_withdraw of Inl _ \<Rightarrow> False
      | Inr a' \<Rightarrow> pushed a' = pushed example_withdraw @ [(WithdrawBalanceParams (AddrID 1) 30, 0)])" by code_simp
  then obtain a' where a': "process (example_api 100 True) example_withdraw = Inr a'"
    "pushed a' = pushed example_withdraw @ [(WithdrawBalanceParams (AddrID 1) 30, 0)]" by (auto split: sum.splits)
  have "pushed example_withdraw = []" by code_simp
  then have "pushed a' = [(WithdrawBalanceParams (AddrID 1) 30, 0)]" using a'(2) by simp
  then show ?thesis using withdrawals_leave_reserve [OF example_withdraw_reachable a'] a'(1) by blast
qed



text \<open>
  C24. The queues drain: in every reachable state with no message pending and something queued, a run of
  \<open>process\<close> returns and leaves fewer requests, so long as the message pool accepts withdrawals.
\<close>

theorem process_drains_queues:
  assumes "rtranclp (fstep api) (newFundedAddress addr) a" and "MsgCid (astate a) = None"
    and "reservations a @ releases a @ withdrawals a \<noteq> []"
    and "\<forall>p. \<exists>b. SerializeParams api p = Inr b"
    and "\<forall>n msg. MsgMethod msg = WithdrawBalance \<longrightarrow> (\<exists>c. MpoolPushMessage api n msg = Inr c)"
  shows "\<exists>a'. process api a = Inr a' \<and> length (reservations a') + length (releases a') + length (withdrawals a')
    < length (reservations a) + length (releases a) + length (withdrawals a)"
proof -
  have "queue_ok a" using reachable_inv [OF assms(1)] by (simp add: fund_inv_def)
  moreover have "withdraw_accepted api" using assms(4,5) by (simp add: withdraw_accepted_def)
  ultimately obtain a' where "process api a = Inr a'" "length (queued a') < length (queued a)"
    using process_result [of a api] assms(2,3) by (auto simp: queued_def)
  then show ?thesis by (auto simp: queued_def)
qed

theorem process_drains_queues_witness:
  "\<exists>a'. process (example_api 100 True) example_withdraw = Inr a'
    \<and> length (reservations a') + length (releases a') + length (withdrawals a') < 2"
proof -
  have q: "MsgCid (astate example_withdraw) = None" "reservations example_withdraw @ releases example_withdraw @ withdrawals example_withdraw \<noteq> []"
    "length (reservations example_withdraw) + length (releases example_withdraw) + length (withdrawals example_withdraw) = 2" by code_simp+
  show ?thesis using process_drains_queues [OF example_withdraw_reachable q(1,2), of "example_api 100 True"] q(3)
    by (simp add: example_api_def)
qed

text \<open>
  C25. A restart loses no reservation and no pending message: when the data store accepts every write, the state
  read back after a restart is the state before, and the wait for a pending message runs again. An address
  without a record has nothing reserved and nothing pending.
\<close>

theorem restart_restores_state:
  assumes "rtranclp (fstep api) (newFundedAddress addr) a" and "\<forall>n. save_ok api n"
  shows "case stored a of
      None \<Rightarrow> AmtReserved (astate a) = 0 \<and> MsgCid (astate a) = None
    | Some st \<Rightarrow> astate (restart st a) = astate a \<and> waits (restart st a) = waits a"
proof -
  have "in_sync addr a" "fund_inv a" using reachable_sync [OF assms] reachable_inv [OF assms(1)] by auto
  then show ?thesis
    by (auto simp: in_sync_def fund_inv_def pending_def restart_def start_def startWaitForResults_def split: option.splits)
qed

theorem restart_restores_state_witness:
  "\<exists>a st. process (example_api 0 True) example_funds = Inr a \<and> stored a = Some st \<and> AmtReserved st = 40
    \<and> astate (restart st a) = astate a \<and> waits (restart st a) = waits a"
proof -
  have "(case process (example_api 0 True) example_funds of Inl _ \<Rightarrow> False
      | Inr a \<Rightarrow> (case stored a of None \<Rightarrow> False | Some st \<Rightarrow> AmtReserved st = 40))" by code_simp
  then obtain a st where a: "process (example_api 0 True) example_funds = Inr a" "stored a = Some st" "AmtReserved st = 40"
    by (auto split: sum.splits option.splits)
  have "rtranclp (fstep (example_api 0 True)) (newFundedAddress (AddrID 1)) a"
    using example_funds_reachable fs_process [OF a(1)] by (rule rtranclp.rtrancl_into_rtrancl)
  then show ?thesis using restart_restores_state [of "example_api 0 True" "AddrID 1" a] a by (auto simp: example_api_def)
qed

text \<open>
  A withdrawal that is refused for lack of funds is completed at once; when the message for the others then
  cannot be pushed, all withdrawals are completed again, and closing the closed channel panics.
\<close>

lemma failed_withdrawal_push_panics:
  "process (example_api 100 False) example_withdraw = Inl CloseOfClosed"
  by code_simp

end
