(* ===== verification/WdPost.thy ===== *)
theory WdPost
  imports Lotus_Prelude "HOL-Library.AList"
begin

section \<open>Window PoSt: the change handler\<close>

text \<open>
  Models \<open>src/storage/wdpost/wdpost_changehandler.go\<close>: the cache of proofs, the prover, which generates the
  proofs of one deadline at a time, and the submitter, which sends the proofs of a deadline on chain once the
  chain is far enough into it and starts over when the chain is reverted.

  A proof under way and a window are objects that callbacks refer to after the handler has dropped them, so
  they are kept in stores by identity. Starting a proof or a submission adds its identity to those that are
  still to be answered; cancelling one is recorded. The two run loops are the steps of a transition relation:
  a head change arrives at either handler, a proof or a submission is answered, a new proof is noticed.

  The deadlines come from \<open>go-state-types\<close>: the constructor of a deadline and the constants of the miner actor
  are parameters. Of a tipset only its height is used. Epochs are unbounded integers. The channel of new
  proofs is unbounded here, where the source has room for 16.
\<close>

subsection \<open>Deadlines\<close>

record DlineInfo =
  CurrentEpoch :: epoch
  PeriodStart :: epoch
  Index :: nat
  Open :: epoch
  Close :: epoch
  Challenge :: epoch

record dline_lib =
  NewInfo :: "epoch \<Rightarrow> nat \<Rightarrow> epoch \<Rightarrow> nat \<Rightarrow> epoch \<Rightarrow> epoch \<Rightarrow> epoch \<Rightarrow> epoch \<Rightarrow> DlineInfo"
  PeriodStarted :: "DlineInfo \<Rightarrow> bool"
  WPoStPeriodDeadlines :: nat
  WPoStProvingPeriod :: epoch
  WPoStChallengeWindow :: epoch
  WPoStChallengeLookback :: epoch
  FaultDeclarationCutoff :: epoch

definition SubmitConfidence :: epoch where
  "SubmitConfidence = 4"

definition ChallengeConfidence :: epoch where
  "ChallengeConfidence = 1"

definition NewDeadlineInfo :: "dline_lib \<Rightarrow> epoch \<Rightarrow> nat \<Rightarrow> epoch \<Rightarrow> DlineInfo" where
  "NewDeadlineInfo lib periodStart deadlineIdx currEpoch =
     NewInfo lib periodStart deadlineIdx currEpoch (WPoStPeriodDeadlines lib) (WPoStProvingPeriod lib)
       (WPoStChallengeWindow lib) (WPoStChallengeLookback lib) (FaultDeclarationCutoff lib)"

definition nextDeadline :: "dline_lib \<Rightarrow> DlineInfo \<Rightarrow> DlineInfo" where
  "nextDeadline lib currentDeadline =
     (let periodStart = PeriodStart currentDeadline;
          newDeadline = Index currentDeadline + 1;
          (newDeadline, periodStart) =
            (if newDeadline = WPoStPeriodDeadlines lib then (0, periodStart + WPoStProvingPeriod lib)
             else (newDeadline, periodStart))
      in NewDeadlineInfo lib periodStart newDeadline (CurrentEpoch currentDeadline))"

subsection \<open>The cache of proofs\<close>

type_synonym posts = "bytes list"

record postsCache =
  cache :: "(epoch \<times> posts) list"
  added :: "(DlineInfo \<times> posts) list"

definition newPostsCache :: postsCache where
  "newPostsCache = \<lparr>cache = [], added = []\<rparr>"

definition postsCache_add :: "DlineInfo \<Rightarrow> posts \<Rightarrow> postsCache \<Rightarrow> postsCache" where
  "postsCache_add di ps c = c\<lparr>cache := AList.update (Open di) ps (cache c), added := added c @ [(di, ps)]\<rparr>"

definition postsCache_get :: "DlineInfo \<Rightarrow> postsCache \<Rightarrow> posts option" where
  "postsCache_get di c = map_of (cache c) (Open di)"

subsection \<open>The prover\<close>

text \<open>
  The proof under way, by identity; the proofs ever started with their deadlines, in the order of their
  identities; those not answered yet, with the height they were started at; those cancelled; and the
  failures reported.
\<close>

record proveHandler =
  current :: "nat option"
  currPosts :: "DlineInfo list"
  generating :: "(nat \<times> epoch) list"
  genAborted :: "nat list"
  genFailed :: "DlineInfo list"

definition newProver :: proveHandler where
  "newProver = \<lparr>current = None, currPosts = [], generating = [], genAborted = [], genFailed = []\<rparr>"

definition currDi :: "proveHandler \<Rightarrow> nat \<Rightarrow> DlineInfo" where
  "currDi p n = currPosts p ! n"

text \<open>The first deadline from the given one on without a proof in the cache; the search may not end.\<close>

partial_function (option) firstIncomplete :: "dline_lib \<Rightarrow> postsCache \<Rightarrow> DlineInfo \<Rightarrow> DlineInfo option" where
  "firstIncomplete lib c di =
     (case postsCache_get di c of None \<Rightarrow> Some di | Some _ \<Rightarrow> firstIncomplete lib c (nextDeadline lib di))"

declare firstIncomplete.simps [code]

definition abort_expired :: "epoch \<Rightarrow> proveHandler \<Rightarrow> proveHandler" where
  "abort_expired h p =
     (case current p of
        None \<Rightarrow> p
      | Some n \<Rightarrow>
          if Close (currDi p n) \<le> h then p\<lparr>current := None, genAborted := genAborted p @ [n]\<rparr> else p)"

definition startGeneratePoST :: "epoch \<Rightarrow> DlineInfo \<Rightarrow> proveHandler \<Rightarrow> proveHandler" where
  "startGeneratePoST h di p =
     (let n = length (currPosts p)
      in p\<lparr>current := Some n, currPosts := currPosts p @ [di], generating := generating p @ [(n, h)]\<rparr>)"

definition prove_processHeadChange ::
  "dline_lib \<Rightarrow> epoch \<Rightarrow> DlineInfo \<Rightarrow> postsCache \<Rightarrow> proveHandler \<Rightarrow> proveHandler option"
where
  "prove_processHeadChange lib h di c p =
     (let p = abort_expired h p
      in if current p \<noteq> None then Some p
         else
           (case firstIncomplete lib c di of
              None \<Rightarrow> None
            | Some di \<Rightarrow>
                if h < Challenge di + ChallengeConfidence then Some p
                else Some (startGeneratePoST h di p)))"

text \<open>The answer of a proof: an error, or the proofs.\<close>

definition processPostResult ::
  "nat \<Rightarrow> string + posts \<Rightarrow> postsCache \<Rightarrow> proveHandler \<Rightarrow> postsCache \<times> proveHandler"
where
  "processPostResult n res c p =
     (let di = currDi p n
      in case res of
           Inl err \<Rightarrow>
             let p = p\<lparr>genFailed := genFailed p @ [di]\<rparr>
             in (c, if current p = Some n then p\<lparr>current := None\<rparr> else p)
         | Inr ps \<Rightarrow> (postsCache_add di ps c, p\<lparr>current := None\<rparr>))"

subsection \<open>The submitter\<close>

datatype SubmitState = SubmitStateStart | SubmitStateSubmitting | SubmitStateComplete

record postWindow =
  pwTs :: epoch
  pwDi :: DlineInfo
  submitState :: SubmitState
  pwAbort :: bool

text \<open>
  The window of each deadline, by identity; the windows ever made, in the order of their identities; the
  submissions not answered yet; those cancelled; every submission ever started with its height and proofs;
  and the failures reported.
\<close>

record submitHandler =
  postWindows :: "(epoch \<times> nat) list"
  windows :: "postWindow list"
  submitting :: "nat list"
  subAborted :: "nat list"
  submitted :: "(DlineInfo \<times> epoch \<times> posts) list"
  subFailed :: "DlineInfo list"
  currentTS :: "epoch option"
  currentDI :: "DlineInfo option"

definition newSubmitter :: submitHandler where
  "newSubmitter = \<lparr>postWindows = [], windows = [], submitting = [], subAborted = [], submitted = [], subFailed = [],
     currentTS = None, currentDI = None\<rparr>"

definition upd_window :: "nat \<Rightarrow> (postWindow \<Rightarrow> postWindow) \<Rightarrow> submitHandler \<Rightarrow> submitHandler" where
  "upd_window n f s = s\<lparr>windows := (windows s)[n := f (windows s ! n)]\<rparr>"

text \<open>A new window takes the place of the one the deadline had.\<close>

definition new_window :: "epoch \<Rightarrow> DlineInfo \<Rightarrow> submitHandler \<Rightarrow> nat \<times> submitHandler" where
  "new_window h di s =
     (let n = length (windows s);
          pw = \<lparr>pwTs = h, pwDi = di, submitState = SubmitStateStart, pwAbort = False\<rparr>
      in (n, s\<lparr>windows := windows s @ [pw], postWindows := AList.update (Open di) n (postWindows s)\<rparr>))"

definition startSubmitPoST :: "epoch \<Rightarrow> DlineInfo \<Rightarrow> posts \<Rightarrow> nat \<Rightarrow> submitHandler \<Rightarrow> submitHandler" where
  "startSubmitPoST h di ps n s = s\<lparr>submitting := submitting s @ [n], submitted := submitted s @ [(di, h, ps)]\<rparr>"

definition submitIfReady :: "postsCache \<Rightarrow> epoch \<Rightarrow> nat \<Rightarrow> submitHandler \<Rightarrow> submitHandler" where
  "submitIfReady c h n s =
     (let pw = windows s ! n; di = pwDi pw
      in if Close di \<le> h then s
         else if submitState pw \<noteq> SubmitStateStart then s
         else if h < Open di + SubmitConfidence then s
         else
           case postsCache_get di c of
             None \<Rightarrow> s
           | Some ps \<Rightarrow>
               if ps = [] then upd_window n (\<lambda>pw. pw\<lparr>submitState := SubmitStateComplete\<rparr>) s
               else
                 upd_window n (\<lambda>pw. pw\<lparr>pwAbort := True\<rparr>)
                   (startSubmitPoST h di ps n (upd_window n (\<lambda>pw. pw\<lparr>submitState := SubmitStateSubmitting\<rparr>) s)))"

definition processHeadChangeForPW :: "postsCache \<Rightarrow> epoch option \<Rightarrow> epoch \<Rightarrow> nat \<Rightarrow> submitHandler \<Rightarrow> submitHandler" where
  "processHeadChangeForPW c revert h n s =
     (let pw = windows s ! n; di = pwDi pw;
          revertedToPrevDL = (case revert of None \<Rightarrow> False | Some r \<Rightarrow> r < Open di);
          expired = (Close di \<le> h);
          (n, s) =
            (if submitState pw = SubmitStateSubmitting \<and> (revertedToPrevDL \<or> expired)
             then (if pwAbort pw
                   then (case new_window h di s of (k, s) \<Rightarrow> (k, s\<lparr>subAborted := subAborted s @ [n]\<rparr>))
                   else (n, s))
             else if submitState pw = SubmitStateComplete \<and> revertedToPrevDL
             then (n, upd_window n (\<lambda>pw. pw\<lparr>submitState := SubmitStateStart\<rparr>) s)
             else (n, s))
      in submitIfReady c h n s)"

text \<open>The windows tracked at the time of the head change, in some order.\<close>

definition submit_processHeadChange :: "postsCache \<Rightarrow> epoch option \<Rightarrow> epoch \<Rightarrow> DlineInfo \<Rightarrow> submitHandler \<Rightarrow> submitHandler" where
  "submit_processHeadChange c revert h di s =
     (let s = s\<lparr>currentTS := Some h, currentDI := Some di\<rparr>;
          s = (case map_of (postWindows s) (Open di) of None \<Rightarrow> snd (new_window h di s) | Some _ \<Rightarrow> s)
      in fold (\<lambda>(_, n). processHeadChangeForPW c revert h n) (postWindows s) s)"

text \<open>\<open>None\<close> is a panic: a window without any head change before.\<close>

definition processPostReady :: "postsCache \<Rightarrow> DlineInfo \<Rightarrow> submitHandler \<Rightarrow> submitHandler option" where
  "processPostReady c di s =
     (case map_of (postWindows s) (Open di) of
        None \<Rightarrow> Some s
      | Some n \<Rightarrow> (case currentTS s of None \<Rightarrow> None | Some h \<Rightarrow> Some (submitIfReady c h n s)))"

definition processSubmitResult :: "nat \<Rightarrow> string option \<Rightarrow> submitHandler \<Rightarrow> submitHandler" where
  "processSubmitResult n err s =
     (case err of
        Some e \<Rightarrow>
          upd_window n (\<lambda>pw. pw\<lparr>submitState := SubmitStateStart\<rparr>) (s\<lparr>subFailed := subFailed s @ [pwDi (windows s ! n)]\<rparr>)
      | None \<Rightarrow> upd_window n (\<lambda>pw. pw\<lparr>submitState := SubmitStateComplete\<rparr>) s)"

definition currentTSDI :: "submitHandler \<Rightarrow> epoch option \<times> DlineInfo option" where
  "currentTSDI s = (currentTS s, currentDI s)"

definition getPostWindow :: "DlineInfo \<Rightarrow> submitHandler \<Rightarrow> nat option" where
  "getPostWindow di s = map_of (postWindows s) (Open di)"

text \<open>On shutdown the proof under way and the submissions under way are cancelled.\<close>

definition prove_shutdown :: "proveHandler \<Rightarrow> proveHandler" where
  "prove_shutdown p = (case current p of None \<Rightarrow> p | Some n \<Rightarrow> p\<lparr>genAborted := genAborted p @ [n]\<rparr>)"

definition submit_shutdown :: "submitHandler \<Rightarrow> submitHandler" where
  "submit_shutdown s =
     s\<lparr>subAborted := subAborted s @ filter (\<lambda>n. pwAbort (windows s ! n)) (map snd (postWindows s))\<rparr>"

subsection \<open>Both together\<close>

record changeHandler =
  chPosts :: postsCache
  chProve :: proveHandler
  chSubmit :: submitHandler

definition newChangeHandler :: changeHandler where
  "newChangeHandler = \<lparr>chPosts = newPostsCache, chProve = newProver, chSubmit = newSubmitter\<rparr>"

text \<open>A head change is passed on to both handlers once the proving period has started; an error of the API is returned.\<close>

definition update :: "dline_lib \<Rightarrow> string + DlineInfo \<Rightarrow> string + DlineInfo option" where
  "update lib dir =
     (case dir of Inl e \<Rightarrow> Inl e | Inr di \<Rightarrow> if \<not> PeriodStarted lib di then Inr None else Inr (Some di))"

text \<open>The iterations of the two run loops. A head change reaches each handler on its own.\<close>

inductive ch_step :: "dline_lib \<Rightarrow> changeHandler \<Rightarrow> changeHandler \<Rightarrow> bool" for lib where
  ch_prove_head: "prove_processHeadChange lib h di (chPosts ch) (chProve ch) = Some p \<Longrightarrow> ch_step lib ch (ch\<lparr>chProve := p\<rparr>)"
| ch_prove_result: "(n, h) \<in> set (generating (chProve ch)) \<Longrightarrow>
    processPostResult n res (chPosts ch) ((chProve ch)\<lparr>generating := remove1 (n, h) (generating (chProve ch))\<rparr>) = (c, p) \<Longrightarrow>
    ch_step lib ch (ch\<lparr>chPosts := c, chProve := p\<rparr>)"
| ch_submit_head: "ch_step lib ch (ch\<lparr>chSubmit := submit_processHeadChange (chPosts ch) revert h di (chSubmit ch)\<rparr>)"
| ch_post_ready: "added (chPosts ch) = (di, ps) # rest \<Longrightarrow>
    processPostReady (chPosts ch) di (chSubmit ch) = Some s \<Longrightarrow>
    ch_step lib ch (ch\<lparr>chPosts := (chPosts ch)\<lparr>added := rest\<rparr>, chSubmit := s\<rparr>)"
| ch_submit_result: "n \<in> set (submitting (chSubmit ch)) \<Longrightarrow>
    ch_step lib ch (ch\<lparr>chSubmit := processSubmitResult n err ((chSubmit ch)\<lparr>submitting := remove1 n (submitting (chSubmit ch))\<rparr>)\<rparr>)"

section \<open>What the change handler keeps\<close>

subsection \<open>Submissions\<close>

text \<open>The window a deadline has is one of its own, and no longer that of a cancelled submission.\<close>

definition tracked_ok :: "submitHandler \<Rightarrow> bool" where
  "tracked_ok s \<longleftrightarrow> distinct (map fst (postWindows s)) \<and>
     (\<forall>n\<in>set (subAborted s). n < length (windows s)) \<and>
     (\<forall>o1 n. map_of (postWindows s) o1 = Some n \<longrightarrow> n < length (windows s) \<and> Open (pwDi (windows s ! n)) = o1 \<and> n \<notin> set (subAborted s)
        \<and> (submitState (windows s ! n) = SubmitStateSubmitting \<longrightarrow> pwAbort (windows s ! n)))"

text \<open>A submission under way is cancelled, or that of the window of its deadline.\<close>

definition flight_ok :: "submitHandler \<Rightarrow> bool" where
  "flight_ok s \<longleftrightarrow> distinct (submitting s) \<and>
     (\<forall>n\<in>set (submitting s). n < length (windows s) \<and>
        (n \<notin> set (subAborted s) \<longrightarrow> map_of (postWindows s) (Open (pwDi (windows s ! n))) = Some n
           \<and> submitState (windows s ! n) = SubmitStateSubmitting))"

text \<open>Every submission was made within its window, far enough into it, and with proofs.\<close>

definition timely :: "submitHandler \<Rightarrow> bool" where
  "timely s \<longleftrightarrow> (\<forall>(di, h, ps)\<in>set (submitted s). Open di + SubmitConfidence \<le> h \<and> h < Close di \<and> ps \<noteq> [])"

definition sub_inv :: "submitHandler \<Rightarrow> bool" where
  "sub_inv s \<longleftrightarrow> tracked_ok s \<and> flight_ok s \<and> timely s"

lemma tracked_okD:
  assumes "tracked_ok s" and "map_of (postWindows s) o1 = Some n"
  shows "n < length (windows s)" "Open (pwDi (windows s ! n)) = o1" "n \<notin> set (subAborted s)"
    "submitState (windows s ! n) = SubmitStateSubmitting \<Longrightarrow> pwAbort (windows s ! n)"
  using assms by (auto simp: tracked_ok_def)

lemma flight_okD:
  assumes "flight_ok s" and "n \<in> set (submitting s)"
  shows "n < length (windows s)"
    "n \<notin> set (subAborted s) \<Longrightarrow> map_of (postWindows s) (Open (pwDi (windows s ! n))) = Some n"
    "n \<notin> set (subAborted s) \<Longrightarrow> submitState (windows s ! n) = SubmitStateSubmitting"
  using assms by (auto simp: flight_ok_def)

lemma tracked_okI:
  assumes "distinct (map fst (postWindows s))" and "\<And>n. n \<in> set (subAborted s) \<Longrightarrow> n < length (windows s)"
    and "\<And>o1 n. map_of (postWindows s) o1 = Some n \<Longrightarrow> n < length (windows s) \<and> Open (pwDi (windows s ! n)) = o1
      \<and> n \<notin> set (subAborted s) \<and> (submitState (windows s ! n) = SubmitStateSubmitting \<longrightarrow> pwAbort (windows s ! n))"
  shows "tracked_ok s"
  using assms by (auto simp: tracked_ok_def)

lemma flight_okI:
  assumes "distinct (submitting s)"
    and "\<And>n. n \<in> set (submitting s) \<Longrightarrow> n < length (windows s)"
    and "\<And>n. n \<in> set (submitting s) \<Longrightarrow> n \<notin> set (subAborted s) \<Longrightarrow>
      map_of (postWindows s) (Open (pwDi (windows s ! n))) = Some n \<and> submitState (windows s ! n) = SubmitStateSubmitting"
  shows "flight_ok s"
  using assms by (auto simp: flight_ok_def)

lemma idle_not_submitting:
  assumes "sub_inv s" and "map_of (postWindows s) o1 = Some n" and "submitState (windows s ! n) \<noteq> SubmitStateSubmitting"
  shows "n \<notin> set (submitting s)"
  using assms tracked_okD(3) flight_okD(3) by (auto simp: sub_inv_def)

lemma upd_window_fields [simp]:
  "postWindows (upd_window n f s) = postWindows s" "submitting (upd_window n f s) = submitting s"
  "subAborted (upd_window n f s) = subAborted s" "submitted (upd_window n f s) = submitted s"
  "currentTS (upd_window n f s) = currentTS s" "length (windows (upd_window n f s)) = length (windows s)"
  by (simp_all add: upd_window_def)

lemma upd_window_nth:
  "n < length (windows s) \<Longrightarrow> windows (upd_window n f s) ! k = (if k = n then f (windows s ! n) else windows s ! k)"
  by (simp add: upd_window_def nth_list_update)

text \<open>Changing the state of a window that is not being submitted.\<close>

lemma set_idle_inv:
  assumes inv: "sub_inv s" and n: "n < length (windows s)" "n \<notin> set (submitting s)" and st: "st \<noteq> SubmitStateSubmitting"
  shows "sub_inv (upd_window n (\<lambda>pw. pw\<lparr>submitState := st\<rparr>) s)"
proof -
  have t: "tracked_ok s" and f: "flight_ok s" and "timely s" using inv by (auto simp: sub_inv_def)
  moreover have "tracked_ok (upd_window n (\<lambda>pw. pw\<lparr>submitState := st\<rparr>) s)"
    using t st by (intro tracked_okI) (auto simp: upd_window_nth [OF n(1)] tracked_ok_def dest: tracked_okD [OF t])
  moreover have "flight_ok (upd_window n (\<lambda>pw. pw\<lparr>submitState := st\<rparr>) s)"
    using f n(2) by (intro flight_okI) (auto simp: upd_window_nth [OF n(1)] flight_ok_def dest: flight_okD [OF f])
  ultimately show ?thesis by (simp add: sub_inv_def timely_def)
qed

text \<open>A window that is not being submitted and has proofs is submitted.\<close>

lemma start_submit_inv:
  assumes inv: "sub_inv s" and tr: "map_of (postWindows s) o1 = Some n" and n: "n \<notin> set (submitting s)"
    and ready: "Open (pwDi (windows s ! n)) + SubmitConfidence \<le> h" "h < Close (pwDi (windows s ! n))" "ps \<noteq> []"
  shows "sub_inv (upd_window n (\<lambda>pw. pw\<lparr>pwAbort := True\<rparr>)
    (startSubmitPoST h (pwDi (windows s ! n)) ps n (upd_window n (\<lambda>pw. pw\<lparr>submitState := SubmitStateSubmitting\<rparr>) s)))"
proof -
  define s' where "s' = upd_window n (\<lambda>pw. pw\<lparr>pwAbort := True\<rparr>)
    (startSubmitPoST h (pwDi (windows s ! n)) ps n (upd_window n (\<lambda>pw. pw\<lparr>submitState := SubmitStateSubmitting\<rparr>) s))"
  have t: "tracked_ok s" and f: "flight_ok s" and tm: "timely s" using inv by (auto simp: sub_inv_def)
  note lt = tracked_okD(1) [OF t tr]
  have win: "windows s' ! k = (if k = n then (windows s ! n)\<lparr>submitState := SubmitStateSubmitting, pwAbort := True\<rparr> else windows s ! k)" for k
    using lt by (simp add: s'_def upd_window_def startSubmitPoST_def nth_list_update)
  have len: "length (windows s') = length (windows s)" by (simp add: s'_def startSubmitPoST_def)
  have fields: "postWindows s' = postWindows s" "submitting s' = submitting s @ [n]" "subAborted s' = subAborted s"
    "submitted s' = submitted s @ [(pwDi (windows s ! n), h, ps)]"
    by (simp_all add: s'_def startSubmitPoST_def)
  have "tracked_ok s'"
    using t by (intro tracked_okI) (auto simp: win len fields tracked_ok_def dest: tracked_okD [OF t])
  moreover have "flight_ok s'"
    using f n tr tracked_okD(2) [OF t tr] lt by (intro flight_okI) (auto simp: win len fields flight_ok_def dest: flight_okD [OF f])
  moreover have "timely s'" using tm ready by (auto simp: timely_def fields)
  ultimately show ?thesis by (simp add: sub_inv_def s'_def)
qed

lemma submitIfReady_inv:
  assumes "sub_inv s" and "map_of (postWindows s) o1 = Some n"
  shows "sub_inv (submitIfReady c h n s) \<and> postWindows (submitIfReady c h n s) = postWindows s"
proof -
  have "sub_inv (submitIfReady c h n s)"
  proof (cases "submitState (windows s ! n) = SubmitStateStart")
    case True
    have n: "n \<notin> set (submitting s)" using idle_not_submitting [OF assms] True by simp
    have "n < length (windows s)" using assms tracked_okD(1) by (auto simp: sub_inv_def)
    then show ?thesis using assms n set_idle_inv [OF assms(1) _ n] start_submit_inv [OF assms n]
      by (auto simp: submitIfReady_def Let_def split: option.splits)
  next
    case False
    then show ?thesis using assms(1) by (simp add: submitIfReady_def Let_def)
  qed
  then show ?thesis by (auto simp: submitIfReady_def Let_def startSubmitPoST_def split: option.splits)
qed

lemma submitIfReady_fields [simp]:
  "postWindows (submitIfReady c h n s) = postWindows s" "currentTS (submitIfReady c h n s) = currentTS s"
  by (auto simp: submitIfReady_def Let_def startSubmitPoST_def split: option.splits)

text \<open>A deadline gets a new window, in place of one that is being submitted if it had one.\<close>

lemma new_window_inv:
  assumes inv: "sub_inv s"
    and old: "case map_of (postWindows s) (Open di) of
        None \<Rightarrow> ab = [] | Some n \<Rightarrow> ab = [n] \<and> submitState (windows s ! n) = SubmitStateSubmitting"
  shows "sub_inv ((snd (new_window h di s))\<lparr>subAborted := subAborted s @ ab\<rparr>)"
proof -
  have t: "tracked_ok s" and f: "flight_ok s" and tm: "timely s" using inv by (auto simp: sub_inv_def)
  define s' where "s' = (snd (new_window h di s))\<lparr>subAborted := subAborted s @ ab\<rparr>"
  have fields: "postWindows s' = AList.update (Open di) (length (windows s)) (postWindows s)" "submitting s' = submitting s"
    "subAborted s' = subAborted s @ ab" "submitted s' = submitted s" "length (windows s') = length (windows s) + 1"
    by (simp_all add: s'_def new_window_def Let_def)
  have win: "windows s' ! k = (if k = length (windows s) then \<lparr>pwTs = h, pwDi = di, submitState = SubmitStateStart, pwAbort = False\<rparr>
      else windows s ! k)" if "k < length (windows s) + 1" for k
    using that by (auto simp: s'_def new_window_def Let_def nth_append)
  have ab: "\<forall>n\<in>set ab. n < length (windows s) \<and> Open (pwDi (windows s ! n)) = Open di \<and> map_of (postWindows s) (Open di) = Some n"
    using old tracked_okD [OF t] by (auto split: option.splits)
  have "tracked_ok s'"
  proof (rule tracked_okI)
    show "distinct (map fst (postWindows s'))" using t by (simp add: fields tracked_ok_def distinct_update)
    show "n < length (windows s')" if "n \<in> set (subAborted s')" for n
      using that ab t by (force simp: fields tracked_ok_def)
    show "n < length (windows s') \<and> Open (pwDi (windows s' ! n)) = o1 \<and> n \<notin> set (subAborted s')
        \<and> (submitState (windows s' ! n) = SubmitStateSubmitting \<longrightarrow> pwAbort (windows s' ! n))"
      if m: "map_of (postWindows s') o1 = Some n" for o1 n
    proof (cases "o1 = Open di")
      case True
      then have "n = length (windows s)" using m by (simp add: fields update_conv')
      then show ?thesis using True ab t by (auto simp: fields win tracked_ok_def)
    next
      case False
      then have "map_of (postWindows s) o1 = Some n" using m by (simp add: fields update_conv')
      then show ?thesis using False ab tracked_okD [OF t, of o1 n] by (auto simp: fields win)
    qed
  qed
  moreover have "flight_ok s'"
  proof (rule flight_okI)
    show "distinct (submitting s')" using f by (simp add: fields flight_ok_def)
    fix n assume n: "n \<in> set (submitting s')"
    then have lt: "n < length (windows s)" using flight_okD(1) [OF f] by (simp add: fields)
    then show "n < length (windows s')" by (simp add: fields)
    assume "n \<notin> set (subAborted s')"
    then have fl: "map_of (postWindows s) (Open (pwDi (windows s ! n))) = Some n" "submitState (windows s ! n) = SubmitStateSubmitting" "n \<notin> set ab"
      using flight_okD [OF f, of n] n by (auto simp: fields)
    moreover have "Open (pwDi (windows s ! n)) \<noteq> Open di" using fl(1,3) old by (auto split: option.splits)
    ultimately show "map_of (postWindows s') (Open (pwDi (windows s' ! n))) = Some n \<and> submitState (windows s' ! n) = SubmitStateSubmitting"
      using lt by (simp add: fields win update_conv')
  qed
  ultimately show ?thesis using tm by (simp add: sub_inv_def timely_def fields s'_def [symmetric])
qed

lemma new_window_fields:
  "postWindows (snd (new_window h di s)) = AList.update (Open di) (length (windows s)) (postWindows s)"
  "fst (new_window h di s) = length (windows s)" "currentTS (snd (new_window h di s)) = currentTS s"
  "subAborted (snd (new_window h di s)) = subAborted s"
  by (simp_all add: new_window_def Let_def)

lemma forPW_inv:
  assumes inv: "sub_inv s" and tr: "map_of (postWindows s) o1 = Some n"
  shows "sub_inv (processHeadChangeForPW c revert h n s) \<and> currentTS (processHeadChangeForPW c revert h n s) = currentTS s
    \<and> (\<forall>o2. o2 \<noteq> o1 \<longrightarrow> map_of (postWindows (processHeadChangeForPW c revert h n s)) o2 = map_of (postWindows s) o2)"
proof -
  have t: "tracked_ok s" using inv by (simp add: sub_inv_def)
  note tn = tracked_okD [OF t tr]
  define rev where "rev = (case revert of None \<Rightarrow> False | Some r \<Rightarrow> r < Open (pwDi (windows s ! n)))"
  consider (abort) "submitState (windows s ! n) = SubmitStateSubmitting" "rev \<or> Close (pwDi (windows s ! n)) \<le> h"
    | (reset) "submitState (windows s ! n) = SubmitStateComplete" "rev"
    | (plain) "\<not> (submitState (windows s ! n) = SubmitStateSubmitting \<and> (rev \<or> Close (pwDi (windows s ! n)) \<le> h))"
      "\<not> (submitState (windows s ! n) = SubmitStateComplete \<and> rev)" by blast
  then show ?thesis
  proof cases
    case abort
    define s1 where "s1 = (snd (new_window h (pwDi (windows s ! n)) s))\<lparr>subAborted := subAborted s @ [n]\<rparr>"
    have run: "processHeadChangeForPW c revert h n s = submitIfReady c h (length (windows s)) s1"
      using abort tn(4) by (simp add: processHeadChangeForPW_def Let_def rev_def s1_def case_prod_beta new_window_fields)
    have "sub_inv s1" unfolding s1_def by (rule new_window_inv [OF inv]) (simp add: tn(2) tr abort(1))
    moreover have "postWindows s1 = AList.update o1 (length (windows s)) (postWindows s)" "currentTS s1 = currentTS s"
      by (simp_all add: s1_def new_window_fields tn(2))
    ultimately show ?thesis using submitIfReady_inv [of s1 o1 "length (windows s)" c h] by (simp add: run update_conv')
  next
    case reset
    define s1 where "s1 = upd_window n (\<lambda>pw. pw\<lparr>submitState := SubmitStateStart\<rparr>) s"
    have run: "processHeadChangeForPW c revert h n s = submitIfReady c h n s1"
      using reset by (simp add: processHeadChangeForPW_def Let_def rev_def s1_def)
    have "sub_inv s1" unfolding s1_def using idle_not_submitting [OF inv tr] reset by (intro set_idle_inv [OF inv tn(1)]) auto
    then show ?thesis using submitIfReady_inv [of s1 o1 n c h] tr by (simp add: run s1_def)
  next
    case plain
    then have run: "processHeadChangeForPW c revert h n s = submitIfReady c h n s"
      by (auto simp: processHeadChangeForPW_def Let_def rev_def)
    show ?thesis using submitIfReady_inv [OF inv tr] by (simp add: run)
  qed
qed

lemma fold_forPW_inv:
  assumes "sub_inv s" and "distinct (map fst ws)" and "\<forall>(o1, n)\<in>set ws. map_of (postWindows s) o1 = Some n"
  shows "sub_inv (fold (\<lambda>(_, n). processHeadChangeForPW c revert h n) ws s)
    \<and> currentTS (fold (\<lambda>(_, n). processHeadChangeForPW c revert h n) ws s) = currentTS s"
  using assms
proof (induction ws arbitrary: s)
  case (Cons w ws)
  obtain o1 n where w: "w = (o1, n)" by (cases w)
  have f: "sub_inv (processHeadChangeForPW c revert h n s)" "currentTS (processHeadChangeForPW c revert h n s) = currentTS s"
    "\<forall>o2. o2 \<noteq> o1 \<longrightarrow> map_of (postWindows (processHeadChangeForPW c revert h n s)) o2 = map_of (postWindows s) o2"
    using forPW_inv [OF Cons(2), of o1 n c revert h] Cons(4) by (auto simp: w)
  have "\<forall>(o2, m)\<in>set ws. map_of (postWindows (processHeadChangeForPW c revert h n s)) o2 = Some m"
  proof (safe)
    fix o2 m assume in_ws: "(o2, m) \<in> set ws"
    then have "o2 \<noteq> o1" using Cons(3) by (force simp: w)
    then show "map_of (postWindows (processHeadChangeForPW c revert h n s)) o2 = Some m" using f(3) Cons(4) in_ws by auto
  qed
  then show ?case using Cons(1) [OF f(1)] Cons(3) f(2) by (simp add: w)
qed simp

lemma submit_head_inv:
  assumes "sub_inv s"
  shows "sub_inv (submit_processHeadChange c revert h di s) \<and> currentTS (submit_processHeadChange c revert h di s) = Some h"
proof -
  define s0 where "s0 = s\<lparr>currentTS := Some h, currentDI := Some di\<rparr>"
  have s0: "sub_inv s0" using assms by (simp add: s0_def sub_inv_def tracked_ok_def flight_ok_def timely_def)
  define s1 where "s1 = (case map_of (postWindows s0) (Open di) of None \<Rightarrow> snd (new_window h di s0) | Some _ \<Rightarrow> s0)"
  have s1: "sub_inv s1 \<and> currentTS s1 = Some h"
  proof (cases "map_of (postWindows s0) (Open di)")
    case None
    have "(snd (new_window h di s0))\<lparr>subAborted := subAborted s0 @ []\<rparr> = snd (new_window h di s0)"
      by (simp add: new_window_def Let_def)
    then have "sub_inv (snd (new_window h di s0))" using new_window_inv [where di = di and ab = "[]" and h = h, OF s0] None by simp
    then show ?thesis by (simp add: s1_def None new_window_fields) (simp add: s0_def)
  next
    case (Some n)
    then show ?thesis using s0 by (simp add: s1_def) (simp add: s0_def)
  qed
  have "distinct (map fst (postWindows s1))" using s1 by (simp add: sub_inv_def tracked_ok_def)
  then have "sub_inv (fold (\<lambda>(_, n). processHeadChangeForPW c revert h n) (postWindows s1) s1)
      \<and> currentTS (fold (\<lambda>(_, n). processHeadChangeForPW c revert h n) (postWindows s1) s1) = currentTS s1"
    using s1 by (intro fold_forPW_inv) auto
  then show ?thesis using s1 by (simp add: submit_processHeadChange_def s0_def [symmetric] s1_def [symmetric] Let_def)
qed

lemma submit_result_inv:
  assumes inv: "sub_inv s" and n: "n \<in> set (submitting s)"
  shows "sub_inv (processSubmitResult n err (s\<lparr>submitting := remove1 n (submitting s)\<rparr>))"
proof -
  have "sub_inv (s\<lparr>submitting := remove1 n (submitting s)\<rparr>)"
    using inv by (auto simp: sub_inv_def tracked_ok_def flight_ok_def timely_def)
  moreover have "n < length (windows s)" "n \<notin> set (remove1 n (submitting s))"
    using inv n by (auto simp: sub_inv_def flight_ok_def)
  moreover have "sub_inv (t\<lparr>subFailed := x\<rparr>) = sub_inv t" for t x
    by (simp add: sub_inv_def tracked_ok_def flight_ok_def timely_def)
  ultimately show ?thesis by (cases err) (auto simp: processSubmitResult_def intro!: set_idle_inv)
qed

definition ch_inv :: "changeHandler \<Rightarrow> bool" where
  "ch_inv ch \<longleftrightarrow> sub_inv (chSubmit ch) \<and> (currentTS (chSubmit ch) = None \<longrightarrow> postWindows (chSubmit ch) = [])"

lemma ch_inv_new: "ch_inv newChangeHandler"
  by (simp add: ch_inv_def newChangeHandler_def newSubmitter_def sub_inv_def tracked_ok_def flight_ok_def timely_def)

lemma ch_step_inv:
  assumes "ch_step lib ch ch'" and "ch_inv ch"
  shows "ch_inv ch'"
  using assms(1)
proof cases
  case (ch_submit_head revert h di)
  then show ?thesis using assms(2) submit_head_inv [of "chSubmit ch" "chPosts ch" revert h di] by (simp add: ch_inv_def)
next
  case (ch_post_ready di ps rest s)
  then show ?thesis using assms(2) submitIfReady_inv
    by (auto simp: ch_inv_def processPostReady_def split: option.splits)
next
  case (ch_submit_result n err)
  then show ?thesis using assms(2) submit_result_inv [of "chSubmit ch" n err]
    by (auto simp: ch_inv_def processSubmitResult_def split: option.splits)
qed (use assms(2) in \<open>auto simp: ch_inv_def\<close>)

lemma ch_reachable_inv: "rtranclp (ch_step lib) newChangeHandler ch \<Longrightarrow> ch_inv ch"
  by (induction rule: rtranclp_induct) (auto simp: ch_inv_new intro: ch_step_inv)

text \<open>
  C26. Proofs are submitted in time and one at a time: whatever head changes, reverts, proofs and answers
  arrive in whatever order, every submission ever started had proofs to submit and was started at least
  \<open>SubmitConfidence\<close> epochs after its deadline opened and before it closed; at any time at most one submission
  per deadline is under way that has not been cancelled; and noticing a new proof never panics.
\<close>

theorem submissions_timely_and_exclusive:
  assumes "rtranclp (ch_step lib) newChangeHandler ch"
  shows "(\<forall>(di, h, ps)\<in>set (submitted (chSubmit ch)). Open di + SubmitConfidence \<le> h \<and> h < Close di \<and> ps \<noteq> [])
    \<and> distinct (submitting (chSubmit ch))
    \<and> (\<forall>n\<in>set (submitting (chSubmit ch)) - set (subAborted (chSubmit ch)).
        \<forall>m\<in>set (submitting (chSubmit ch)) - set (subAborted (chSubmit ch)).
          Open (pwDi (windows (chSubmit ch) ! n)) = Open (pwDi (windows (chSubmit ch) ! m)) \<longrightarrow> n = m)
    \<and> processPostReady (chPosts ch) di (chSubmit ch) \<noteq> None"
proof -
  have inv: "sub_inv (chSubmit ch)" "currentTS (chSubmit ch) = None \<longrightarrow> postWindows (chSubmit ch) = []"
    using ch_reachable_inv [OF assms] by (auto simp: ch_inv_def)
  then have f: "flight_ok (chSubmit ch)" by (simp add: sub_inv_def)
  show ?thesis
  proof (intro conjI)
    show "\<forall>(di, h, ps)\<in>set (submitted (chSubmit ch)). Open di + SubmitConfidence \<le> h \<and> h < Close di \<and> ps \<noteq> []"
      using inv(1) by (simp add: sub_inv_def timely_def)
    show "distinct (submitting (chSubmit ch))" using f by (simp add: flight_ok_def)
    show "\<forall>n\<in>set (submitting (chSubmit ch)) - set (subAborted (chSubmit ch)).
        \<forall>m\<in>set (submitting (chSubmit ch)) - set (subAborted (chSubmit ch)).
          Open (pwDi (windows (chSubmit ch) ! n)) = Open (pwDi (windows (chSubmit ch) ! m)) \<longrightarrow> n = m"
      using flight_okD(2) [OF f] by (metis DiffD1 DiffD2 option.inject)
    show "processPostReady (chPosts ch) di (chSubmit ch) \<noteq> None"
      using inv(2) by (auto simp: processPostReady_def split: option.splits)
  qed
qed

subsection \<open>The search for the next deadline\<close>

text \<open>
  What \<open>go-state-types\<close> documents of deadlines: a deadline carries the start of its period and its index, and
  opens as many challenge windows after the start of the period as its index; the deadlines fill the period.
\<close>

definition dline_laws :: "dline_lib \<Rightarrow> bool" where
  "dline_laws lib \<longleftrightarrow> 0 < WPoStChallengeWindow lib \<and> 0 < WPoStPeriodDeadlines lib
     \<and> WPoStProvingPeriod lib = int (WPoStPeriodDeadlines lib) * WPoStChallengeWindow lib
     \<and> (\<forall>start i cur. PeriodStart (NewDeadlineInfo lib start i cur) = start \<and> Index (NewDeadlineInfo lib start i cur) = i
          \<and> Open (NewDeadlineInfo lib start i cur) = start + int i * WPoStChallengeWindow lib)"

definition deadline_ok :: "dline_lib \<Rightarrow> DlineInfo \<Rightarrow> bool" where
  "deadline_ok lib di \<longleftrightarrow> Index di < WPoStPeriodDeadlines lib
     \<and> Open di = PeriodStart di + int (Index di) * WPoStChallengeWindow lib"

lemma nextDeadline_ok:
  assumes "dline_laws lib" and "deadline_ok lib di"
  shows "deadline_ok lib (nextDeadline lib di)" "Open (nextDeadline lib di) = Open di + WPoStChallengeWindow lib"
proof -
  have "int (Index di) * WPoStChallengeWindow lib + WPoStChallengeWindow lib = WPoStProvingPeriod lib"
    if "Suc (Index di) = WPoStPeriodDeadlines lib"
  proof -
    have "int (WPoStPeriodDeadlines lib) = int (Index di) + 1" using that by linarith
    then show ?thesis using assms(1) by (simp add: dline_laws_def algebra_simps)
  qed
  then show "deadline_ok lib (nextDeadline lib di)" "Open (nextDeadline lib di) = Open di + WPoStChallengeWindow lib"
    using assms by (auto simp: nextDeadline_def deadline_ok_def dline_laws_def Let_def algebra_simps)
qed

lemma firstIncomplete_finds:
  assumes "dline_laws lib" and "deadline_ok lib di"
  shows "\<exists>k. firstIncomplete lib c di = Some ((nextDeadline lib ^^ k) di) \<and> postsCache_get ((nextDeadline lib ^^ k) di) c = None
    \<and> (\<forall>j<k. postsCache_get ((nextDeadline lib ^^ j) di) c \<noteq> None)"
  using assms(2)
proof (induction "card {e \<in> fst ` set (cache c). Open di \<le> e}" arbitrary: di rule: less_induct)
  case less
  show ?case
  proof (cases "postsCache_get di c")
    case None
    then show ?thesis by (intro exI [of _ 0]) (simp add: firstIncomplete.simps)
  next
    case (Some ps)
    note nx = nextDeadline_ok [OF assms(1) less(2)]
    have win: "0 < WPoStChallengeWindow lib" using assms(1) by (simp add: dline_laws_def)
    have "Open di \<in> fst ` set (cache c)" using Some by (force simp: postsCache_get_def dest: map_of_SomeD)
    then have "Open di \<in> {e \<in> fst ` set (cache c). Open di \<le> e}" "Open di \<notin> {e \<in> fst ` set (cache c). Open (nextDeadline lib di) \<le> e}"
      using nx(2) win by auto
    moreover have "{e \<in> fst ` set (cache c). Open (nextDeadline lib di) \<le> e} \<subseteq> {e \<in> fst ` set (cache c). Open di \<le> e}"
      using nx(2) win by auto
    ultimately have "{e \<in> fst ` set (cache c). Open (nextDeadline lib di) \<le> e} \<subset> {e \<in> fst ` set (cache c). Open di \<le> e}" by blast
    then have "card {e \<in> fst ` set (cache c). Open (nextDeadline lib di) \<le> e} < card {e \<in> fst ` set (cache c). Open di \<le> e}"
      by (intro psubset_card_mono) auto
    then obtain k where k: "firstIncomplete lib c (nextDeadline lib di) = Some ((nextDeadline lib ^^ k) (nextDeadline lib di))"
      "postsCache_get ((nextDeadline lib ^^ k) (nextDeadline lib di)) c = None"
      "\<forall>j<k. postsCache_get ((nextDeadline lib ^^ j) (nextDeadline lib di)) c \<noteq> None"
      using less(1) nx(1) by blast
    have "postsCache_get ((nextDeadline lib ^^ j) di) c \<noteq> None" if "j < Suc k" for j
      using that k(3) Some by (cases j) (auto simp: funpow_swap1)
    then show ?thesis using k(1,2) Some
      by (intro exI [of _ "Suc k"]) (auto simp: firstIncomplete.simps [of lib c di] funpow_swap1)
  qed
qed

text \<open>
  The prover always finds the next deadline to prove: on a head change the search for a deadline without
  proofs ends; and unless a proof is still under way, a new one is started exactly when the chain is at least
  \<open>ChallengeConfidence\<close> epochs past the challenge of the first deadline, from the current one on, that has no
  proofs yet.
\<close>

theorem prover_finds_next_deadline:
  assumes "dline_laws lib" and "deadline_ok lib di"
  shows "\<exists>k p'. prove_processHeadChange lib h di c p = Some p'
    \<and> postsCache_get ((nextDeadline lib ^^ k) di) c = None
    \<and> (\<forall>j<k. postsCache_get ((nextDeadline lib ^^ j) di) c \<noteq> None)
    \<and> (current (abort_expired h p) = None \<and> Challenge ((nextDeadline lib ^^ k) di) + ChallengeConfidence \<le> h
       \<longrightarrow> current p' = Some (length (currPosts p)) \<and> currPosts p' = currPosts p @ [(nextDeadline lib ^^ k) di])
    \<and> (current (abort_expired h p) \<noteq> None \<or> h < Challenge ((nextDeadline lib ^^ k) di) + ChallengeConfidence
       \<longrightarrow> p' = abort_expired h p)"
proof -
  obtain k where k: "firstIncomplete lib c di = Some ((nextDeadline lib ^^ k) di)" "postsCache_get ((nextDeadline lib ^^ k) di) c = None"
    "\<forall>j<k. postsCache_get ((nextDeadline lib ^^ j) di) c \<noteq> None" using firstIncomplete_finds [OF assms] by blast
  have "currPosts (abort_expired h p) = currPosts p" by (simp add: abort_expired_def split: option.splits)
  then show ?thesis using k
    by (intro exI [of _ k]) (auto simp: prove_processHeadChange_def startGeneratePoST_def Let_def)
qed

subsection \<open>Examples\<close>

definition example_lib :: dline_lib where
  "example_lib = \<lparr>NewInfo = (\<lambda>start i cur ds period win lookback cutoff.
       \<lparr>CurrentEpoch = cur, PeriodStart = start, Index = i, Open = start + int i * win, Close = start + int i * win + win,
        Challenge = start + int i * win - lookback\<rparr>),
     PeriodStarted = (\<lambda>di. PeriodStart di \<le> CurrentEpoch di), WPoStPeriodDeadlines = 48, WPoStProvingPeriod = 2880,
     WPoStChallengeWindow = 60, WPoStChallengeLookback = 20, FaultDeclarationCutoff = 70\<rparr>"

definition example_di :: DlineInfo where
  "example_di = NewDeadlineInfo example_lib 1000 0 1010"

lemma example_lib_laws: "dline_laws example_lib" "deadline_ok example_lib example_di"
  by (simp_all add: dline_laws_def deadline_ok_def example_di_def NewDeadlineInfo_def example_lib_def)

text \<open>The proof of the deadline is started, then answered; the head change 10 epochs into the deadline submits it.\<close>

definition example_proving :: changeHandler where
  "example_proving = newChangeHandler\<lparr>chProve := startGeneratePoST 1005 example_di newProver\<rparr>"

definition example_proved :: changeHandler where
  "example_proved = newChangeHandler
     \<lparr>chPosts := \<lparr>cache = [(1000, [[1]])], added = [(example_di, [[1]])]\<rparr>,
      chProve := (startGeneratePoST 1005 example_di newProver)\<lparr>generating := [], current := None\<rparr>\<rparr>"

definition example_submitting :: changeHandler where
  "example_submitting = example_proved
     \<lparr>chSubmit := submit_processHeadChange (chPosts example_proved) None 1010 example_di newSubmitter\<rparr>"

lemma example_submitting_reachable: "rtranclp (ch_step example_lib) newChangeHandler example_submitting"
proof -
  have "prove_processHeadChange example_lib 1005 example_di (chPosts newChangeHandler) (chProve newChangeHandler)
      = Some (startGeneratePoST 1005 example_di newProver)"
    by (simp add: prove_processHeadChange_def firstIncomplete.simps postsCache_get_def newChangeHandler_def newPostsCache_def newProver_def
        abort_expired_def example_di_def example_lib_def NewDeadlineInfo_def ChallengeConfidence_def)
  then have "ch_step example_lib newChangeHandler example_proving" unfolding example_proving_def by (rule ch_prove_head)
  moreover have "ch_step example_lib example_proving example_proved"
  proof -
    have "example_proved = example_proving\<lparr>chPosts := chPosts example_proved, chProve := chProve example_proved\<rparr>"
      by (simp add: example_proved_def example_proving_def)
    moreover have "ch_step example_lib example_proving (example_proving\<lparr>chPosts := chPosts example_proved, chProve := chProve example_proved\<rparr>)"
      by (rule ch_prove_result [of 0 1005 _ "Inr [[1]]"])
        (simp_all add: example_proving_def example_proved_def startGeneratePoST_def newProver_def processPostResult_def newChangeHandler_def
          newPostsCache_def postsCache_add_def currDi_def Let_def example_di_def example_lib_def NewDeadlineInfo_def)
    ultimately show ?thesis by simp
  qed
  moreover have "ch_step example_lib example_proved example_submitting"
  proof -
    have "chSubmit example_proved = newSubmitter" by (simp add: example_proved_def newChangeHandler_def)
    then show ?thesis unfolding example_submitting_def using ch_submit_head [of example_lib example_proved None 1010 example_di] by simp
  qed
  ultimately show ?thesis by (meson rtranclp.rtrancl_into_rtrancl rtranclp.rtrancl_refl)
qed

theorem submissions_timely_and_exclusive_witness:
  "submitted (chSubmit example_submitting) = [(example_di, 1010, [[1]])] \<and> submitting (chSubmit example_submitting) = [0]
    \<and> list_all (\<lambda>(di, h, ps). Open di + SubmitConfidence \<le> h \<and> h < Close di) (submitted (chSubmit example_submitting))"
proof -
  have "submitted (chSubmit example_submitting) = [(example_di, 1010, [[1]])]" "submitting (chSubmit example_submitting) = [0]"
    by code_simp+
  then show ?thesis using submissions_timely_and_exclusive [OF example_submitting_reachable, of example_di] by auto
qed

theorem prover_finds_next_deadline_witness:
  "\<exists>k p'. prove_processHeadChange example_lib 1050 example_di (chPosts example_proved) (chProve example_proved) = Some p'
    \<and> postsCache_get ((nextDeadline example_lib ^^ k) example_di) (chPosts example_proved) = None
    \<and> current p' = Some 1 \<and> currPosts p' = [example_di, nextDeadline example_lib example_di]"
proof -
  have "(case prove_processHeadChange example_lib 1050 example_di (chPosts example_proved) (chProve example_proved) of
      None \<Rightarrow> False | Some p' \<Rightarrow> current p' = Some 1 \<and> currPosts p' = [example_di, nextDeadline example_lib example_di])"
    by code_simp
  then obtain p' where p': "prove_processHeadChange example_lib 1050 example_di (chPosts example_proved) (chProve example_proved) = Some p'"
    "current p' = Some 1" "currPosts p' = [example_di, nextDeadline example_lib example_di]" by (auto split: option.splits)
  obtain k where "postsCache_get ((nextDeadline example_lib ^^ k) example_di) (chPosts example_proved) = None"
    using prover_finds_next_deadline [OF example_lib_laws] by blast
  then show ?thesis using p' by blast
qed

text \<open>
  A proof whose deadline has passed is cancelled and the next one, here 1, is started. When the cancelled one
  is answered with proofs all the same, the handler forgets about the one under way, and the next head change
  starts a second proof for the same deadline, with neither of the two cancelled.
\<close>

definition example_stale :: proveHandler where
  "example_stale = \<lparr>current = Some 1, currPosts = [example_di, nextDeadline example_lib example_di],
     generating = [(0, 1005), (1, 1061)], genAborted = [0], genFailed = []\<rparr>"

lemma stale_proof_restarts_deadline:
  "(case processPostResult 0 (Inr [[1]]) newPostsCache (example_stale\<lparr>generating := [(1, 1061)]\<rparr>) of
      (c, p) \<Rightarrow>
        (case prove_processHeadChange example_lib 1062 (nextDeadline example_lib example_di) c p of
           None \<Rightarrow> False
         | Some p' \<Rightarrow> map fst (generating p') = [1, 2] \<and> genAborted p' = [0] \<and> currDi p' 1 = currDi p' 2))"
  by code_simp

end
