(* ===== verification/GoSlice.thy ===== *)
theory GoSlice
  imports Lotus_Prelude "HOL-Library.Monad_Syntax" "HOL-Library.Word"
begin

section \<open>Go slices and machine words\<close>

text \<open>
  What the components that work on slices share. A slice is a list; \<open>rd\<close> and \<open>wr\<close> are indexing and
  assignment, \<open>slice\<close> is \<open>xs[lo:hi]\<close> and \<open>copy_at\<close> is \<open>copy\<close> into a part of a slice. Each is \<^term>\<open>None\<close> where Go
  panics because an index is out of range. Slices have their length as their capacity.
\<close>

unbundle bit_operations_syntax

type_synonym byte = "8 word"

definition rd :: "'a list \<Rightarrow> nat \<Rightarrow> 'a option" where
  "rd xs i = (if i < length xs then Some (xs ! i) else None)"

definition wr :: "'a list \<Rightarrow> nat \<Rightarrow> 'a \<Rightarrow> 'a list option" where
  "wr xs i v = (if i < length xs then Some (xs[i := v]) else None)"

definition slice :: "'a list \<Rightarrow> nat \<Rightarrow> nat \<Rightarrow> 'a list option" where
  "slice xs lo hi = (if lo \<le> hi \<and> hi \<le> length xs then Some (drop lo (take hi xs)) else None)"

text \<open>\<open>copy(out[off:], src)\<close>: the shorter of the two lengths is copied.\<close>

definition copy_at :: "'a list \<Rightarrow> nat \<Rightarrow> 'a list \<Rightarrow> 'a list" where
  "copy_at out off src = take off out @ take (length out - off) src @ drop (off + length src) out"

lemma rd_Some [simp]: "i < length xs \<Longrightarrow> rd xs i = Some (xs ! i)"
  by (simp add: rd_def)

lemma wr_Some [simp]: "i < length xs \<Longrightarrow> wr xs i v = Some (xs[i := v])"
  by (simp add: wr_def)

lemma slice_Some [simp]:
  "lo \<le> hi \<Longrightarrow> hi \<le> length xs \<Longrightarrow> slice xs lo hi = Some (drop lo (take hi xs))"
  by (simp add: slice_def)

lemma slice_length: "slice xs lo hi = Some ys \<Longrightarrow> length ys = hi - lo"
  by (auto simp: slice_def split: if_splits)

lemma length_copy_at [simp]: "off \<le> length out \<Longrightarrow> length (copy_at out off src) = length out"
  by (simp add: copy_at_def)

lemma nth_copy_at:
  assumes "off + length src \<le> length out" and "j < length out"
  shows "copy_at out off src ! j = (if off \<le> j \<and> j < off + length src then src ! (j - off) else out ! j)"
  using assms by (auto simp: copy_at_def nth_append)

subsection \<open>The bits of a sequence of bytes\<close>

text \<open>The least significant bit of a byte comes first.\<close>

definition bits_of :: "byte list \<Rightarrow> bool list" where
  "bits_of xs = concat (map (\<lambda>b. map (bit b) [0..<8]) xs)"

lemma bits_of_simps [simp]:
  "bits_of [] = []"
  "bits_of (x # xs) = map (bit x) [0..<8] @ bits_of xs"
  "bits_of (xs @ ys) = bits_of xs @ bits_of ys"
  by (simp_all add: bits_of_def)

lemma length_bits_of [simp]: "length (bits_of xs) = 8 * length xs"
  by (induction xs) simp_all

lemma nth_bits_of:
  "k < 8 * length xs \<Longrightarrow> bits_of xs ! k = bit (xs ! (k div 8)) (k mod 8)"
proof (induction xs arbitrary: k)
  case (Cons x xs)
  show ?case
  proof (cases "k < 8")
    case True
    then show ?thesis by (simp add: nth_append del: upt.simps upt_Suc)
  next
    case False
    then obtain m where k: "k = m + 8" by (metis add.commute le_Suc_ex not_less)
    moreover have "bits_of xs ! m = bit (xs ! (m div 8)) (m mod 8)"
      using Cons k by simp
    moreover have "(m + 8) div 8 = Suc (m div 8)" by simp
    ultimately show ?thesis by (simp add: nth_append del: upt.simps upt_Suc)
  qed
qed simp

end
