(* ===== verification/Fr32.thy ===== *)
theory Fr32
  imports GoSlice
begin

section \<open>Padding of pieces to field elements (\<open>storage/sealer/fr32\<close>)\<close>

text \<open>
  Proofs work on field elements of 254 bits. \<open>pad\<close> spreads 127 bytes over four such elements of 32 bytes
  each, whose two top bits are zero; \<open>unpad\<close> gathers them again. The theory models \<open>fr32.go\<close> with its
  loops over slices, the splitting of long slices among goroutines, the sizes of sub-pieces of \<open>utils.go\<close>
  and the padding writer and unpadding reader of \<open>readers.go\<close>.
\<close>

subsection \<open>\<open>pad\<close> and \<open>unpad\<close>\<close>

text \<open>The three loops of \<open>pad\<close> that shift by \<open>s\<close> and carry over the bits above \<open>r\<close>; state: \<open>v\<close>, \<open>t\<close>, \<open>out\<close>.\<close>

fun pad_run :: "nat \<Rightarrow> nat \<Rightarrow> byte list \<Rightarrow> nat \<Rightarrow> nat \<Rightarrow> nat list \<Rightarrow> byte \<times> byte \<times> byte list
    \<Rightarrow> (byte \<times> byte \<times> byte list) option" where
  "pad_run s r inp inOff outOff [] st = Some st"
| "pad_run s r inp inOff outOff (i # is) (v, t, out) = do {
     v \<leftarrow> rd inp (inOff + i);
     out \<leftarrow> wr out (outOff + i) (push_bit s v OR t);
     pad_run s r inp inOff outOff is (v, drop_bit r v, out)
   }"

text \<open>\<open>out[k] &= 0x3f\<close>\<close>

definition clear_top :: "byte list \<Rightarrow> nat \<Rightarrow> byte list option" where
  "clear_top out k = do { b \<leftarrow> rd out k; wr out k (b AND 0x3f) }"

definition pad_chunk :: "byte list \<Rightarrow> nat \<Rightarrow> byte list \<Rightarrow> byte list option" where
  "pad_chunk inp chunk out = do {
     let inOff = chunk * 127;
     let outOff = chunk * 128;
     _ \<leftarrow> slice out outOff (outOff + 31);
     src \<leftarrow> slice inp inOff (inOff + 31);
     let out = copy_at out outOff src;
     b \<leftarrow> rd inp (inOff + 31);
     out \<leftarrow> wr out (outOff + 31) (b AND 0x3f);
     (v, t, out) \<leftarrow> pad_run 2 6 inp inOff outOff [32..<64] (0, drop_bit 6 b, out);
     out \<leftarrow> clear_top out (outOff + 63);
     (v, t, out) \<leftarrow> pad_run 4 4 inp inOff outOff [64..<96] (v, drop_bit 4 v, out);
     out \<leftarrow> clear_top out (outOff + 95);
     (v, t, out) \<leftarrow> pad_run 6 2 inp inOff outOff [96..<127] (v, drop_bit 2 v, out);
     wr out (outOff + 127) (t AND 0x3f)
   }"

fun pad_chunks :: "byte list \<Rightarrow> nat list \<Rightarrow> byte list \<Rightarrow> byte list option" where
  "pad_chunks inp [] out = Some out"
| "pad_chunks inp (c # cs) out = do { out \<leftarrow> pad_chunk inp c out; pad_chunks inp cs out }"

definition pad :: "byte list \<Rightarrow> byte list \<Rightarrow> byte list option" where
  "pad inp out = pad_chunks inp [0..<length out div 128] out"

text \<open>The first loop of \<open>unpad\<close> copies; the others shift down by \<open>r\<close> and take the low bits of the next byte.\<close>

fun unpad_copy :: "byte list \<Rightarrow> nat \<Rightarrow> nat \<Rightarrow> nat list \<Rightarrow> byte \<times> byte list \<Rightarrow> (byte \<times> byte list) option" where
  "unpad_copy inp inOffNext outOff [] st = Some st"
| "unpad_copy inp inOffNext outOff (i # is) (at, out) = do {
     nxt \<leftarrow> rd inp (i + inOffNext);
     out \<leftarrow> wr out (outOff + i) at;
     unpad_copy inp inOffNext outOff is (nxt, out)
   }"

fun unpad_run :: "nat \<Rightarrow> nat \<Rightarrow> byte list \<Rightarrow> nat \<Rightarrow> nat \<Rightarrow> nat list \<Rightarrow> byte \<times> byte list
    \<Rightarrow> (byte \<times> byte list) option" where
  "unpad_run r s inp inOffNext outOff [] st = Some st"
| "unpad_run r s inp inOffNext outOff (i # is) (at, out) = do {
     nxt \<leftarrow> rd inp (i + inOffNext);
     out \<leftarrow> wr out (outOff + i) (drop_bit r at);
     b \<leftarrow> rd out (outOff + i);
     out \<leftarrow> wr out (outOff + i) (b OR push_bit s nxt);
     unpad_run r s inp inOffNext outOff is (nxt, out)
   }"

definition unpad_chunk :: "byte list \<Rightarrow> nat \<Rightarrow> byte list \<Rightarrow> byte list option" where
  "unpad_chunk inp chunk out = do {
     let inOffNext = chunk * 128 + 1;
     let outOff = chunk * 127;
     at \<leftarrow> rd inp (chunk * 128);
     (at, out) \<leftarrow> unpad_copy inp inOffNext outOff [0..<32] (at, out);
     b \<leftarrow> rd out (outOff + 31);
     out \<leftarrow> wr out (outOff + 31) (b OR push_bit 6 at);
     (at, out) \<leftarrow> unpad_run 2 6 inp inOffNext outOff [32..<64] (at, out);
     b \<leftarrow> rd out (outOff + 63);
     out \<leftarrow> wr out (outOff + 63) (b XOR (push_bit 6 at XOR push_bit 4 at));
     (at, out) \<leftarrow> unpad_run 4 4 inp inOffNext outOff [64..<96] (at, out);
     b \<leftarrow> rd out (outOff + 95);
     out \<leftarrow> wr out (outOff + 95) (b XOR (push_bit 4 at XOR push_bit 2 at));
     (at, out) \<leftarrow> unpad_run 6 2 inp inOffNext outOff [96..<127] (at, out);
     Some out
   }"

fun unpad_chunks :: "byte list \<Rightarrow> nat list \<Rightarrow> byte list \<Rightarrow> byte list option" where
  "unpad_chunks inp [] out = Some out"
| "unpad_chunks inp (c # cs) out = do { out \<leftarrow> unpad_chunk inp c out; unpad_chunks inp cs out }"

definition unpad :: "byte list \<Rightarrow> byte list \<Rightarrow> byte list option" where
  "unpad out inp = unpad_chunks inp [0..<length inp div 128] out"

subsection \<open>What the loops write\<close>

definition paint :: "nat \<Rightarrow> nat \<Rightarrow> nat \<Rightarrow> (nat \<Rightarrow> 'a) \<Rightarrow> 'a list \<Rightarrow> 'a list" where
  "paint off a b f xs = map (\<lambda>j. if off + a \<le> j \<and> j < off + b then f (j - off) else xs ! j) [0..<length xs]"

lemma length_paint [simp]: "length (paint off a b f xs) = length xs"
  by (simp add: paint_def)

lemma nth_paint [simp]:
  "j < length xs \<Longrightarrow> paint off a b f xs ! j = (if off + a \<le> j \<and> j < off + b then f (j - off) else xs ! j)"
  by (simp add: paint_def)

lemma paint_empty [simp]: "paint off a a f xs = xs"
  by (rule nth_equalityI) auto

lemma paint_cong:
  assumes "\<And>i. a \<le> i \<Longrightarrow> i < b \<Longrightarrow> f i = g i"
  shows "paint off a b f xs = paint off a b g xs"
  by (rule nth_equalityI) (auto intro!: assms)

lemma paint_step:
  assumes "a < b"
  shows "paint off (Suc a) b f (xs[off + a := f a]) = paint off a b f xs"
proof (rule nth_equalityI)
  fix j assume "j < length (paint off (Suc a) b f (xs[off + a := f a]))"
  then show "paint off (Suc a) b f (xs[off + a := f a]) ! j = paint off a b f xs ! j"
    using assms by (cases "j = off + a") (auto simp: nth_list_update)
qed simp

lemma nth_paint_off [simp]:
  "off + k < length xs \<Longrightarrow> a \<le> k \<Longrightarrow> k < b \<Longrightarrow> paint off a b f xs ! (off + k) = f k"
  by simp

text \<open>Writes that follow each other form one write.\<close>

lemma paint_join:
  assumes "c \<le> a" and "a \<le> b"
  shows "paint off a b f (paint off c a g xs) = paint off c b (\<lambda>i. if i < a then g i else f i) xs"
  using assms by (intro nth_equalityI) auto

lemma paint_extend:
  assumes "c \<le> a" and "k = off + a"
  shows "(paint off c a g xs)[k := v] = paint off c (Suc a) (g(a := v)) xs"
  using assms by (intro nth_equalityI) (auto simp: nth_list_update)

lemma paint_update:
  assumes "c \<le> k - off" and "k - off < a" and "off \<le> k"
  shows "(paint off c a g xs)[k := v] = paint off c a (g(k - off := v)) xs"
  using assms by (intro nth_equalityI) (auto simp: nth_list_update)

lemma pad_run_spec:
  assumes "a < b" and "inOff + b \<le> length inp" and "outOff + b \<le> length out"
  shows "pad_run s r inp inOff outOff [a..<b] (v, t, out) =
    Some (inp ! (inOff + b - 1), drop_bit r (inp ! (inOff + b - 1)),
      paint outOff a b (\<lambda>i. push_bit s (inp ! (inOff + i)) OR
        (if i = a then t else drop_bit r (inp ! (inOff + i - 1)))) out)"
  using assms
proof (induction "b - a" arbitrary: a v t out)
  case (Suc n)
  let ?f = "\<lambda>i. push_bit s (inp ! (inOff + i)) OR (if i = a then t else drop_bit r (inp ! (inOff + i - 1)))"
  show ?case
  proof (cases "Suc a = b")
    case True
    have "paint outOff a (Suc a) ?f out = out[outOff + a := ?f a]"
      using paint_step[of a "Suc a" outOff ?f out] by simp
    with True show ?thesis using Suc.prems by auto
  next
    case False
    have "paint outOff (Suc a) b (\<lambda>i. push_bit s (inp ! (inOff + i)) OR
        (if i = Suc a then drop_bit r (inp ! (inOff + a)) else drop_bit r (inp ! (inOff + i - 1))))
        (out[outOff + a := push_bit s (inp ! (inOff + a)) OR t])
      = paint outOff (Suc a) b ?f (out[outOff + a := ?f a])"
      by (simp, rule paint_cong) simp
    moreover have "[a..<b] = a # [Suc a..<b]" using Suc.prems by (simp add: upt_conv_Cons)
    ultimately show ?thesis
      using Suc.prems False Suc.hyps(2) paint_step[of a b outOff ?f]
      by (simp add: Suc.hyps(1) del: upt.simps upt_Suc)
  qed
qed simp

lemma unpad_copy_spec:
  assumes "a \<le> b" and "b + inOffNext \<le> length inp" and "outOff + b \<le> length out"
    and "at = inp ! (a + inOffNext - 1)" and "0 < inOffNext"
  shows "unpad_copy inp inOffNext outOff [a..<b] (at, out) =
    Some (inp ! (b + inOffNext - 1), paint outOff a b (\<lambda>i. inp ! (i + inOffNext - 1)) out)"
  using assms
proof (induction "b - a" arbitrary: a at out)
  case (Suc n)
  have "paint outOff (Suc a) b (\<lambda>i. inp ! (i + inOffNext - 1)) (out[outOff + a := at])
      = paint outOff a b (\<lambda>i. inp ! (i + inOffNext - 1)) out"
    using Suc.hyps(2) Suc.prems(4) paint_step[of a b outOff "\<lambda>i. inp ! (i + inOffNext - 1)"] by simp
  then show ?case
    using Suc.prems Suc.hyps(2) by (simp add: upt_conv_Cons Suc.hyps(1) del: upt.simps upt_Suc)
qed simp

lemma unpad_run_spec:
  assumes "a \<le> b" and "b + inOffNext \<le> length inp" and "outOff + b \<le> length out"
    and "at = inp ! (a + inOffNext - 1)" and "0 < inOffNext"
  shows "unpad_run r s inp inOffNext outOff [a..<b] (at, out) =
    Some (inp ! (b + inOffNext - 1),
      paint outOff a b (\<lambda>i. drop_bit r (inp ! (i + inOffNext - 1)) OR push_bit s (inp ! (i + inOffNext))) out)"
  using assms
proof (induction "b - a" arbitrary: a at out)
  case (Suc n)
  let ?f = "\<lambda>i. drop_bit r (inp ! (i + inOffNext - 1)) OR push_bit s (inp ! (i + inOffNext))"
  have "paint outOff (Suc a) b ?f (out[outOff + a := drop_bit r at OR push_bit s (inp ! (a + inOffNext))])
      = paint outOff a b ?f out"
    using Suc.hyps(2) Suc.prems(4) paint_step[of a b outOff ?f] by simp
  then show ?case
    using Suc.prems Suc.hyps(2) by (simp add: upt_conv_Cons Suc.hyps(1) del: upt.simps upt_Suc)
qed simp

text \<open>The byte at offset \<open>j\<close> of a padded chunk, and the byte at offset \<open>i\<close> of an unpadded one.\<close>

definition padded_byte :: "(nat \<Rightarrow> byte) \<Rightarrow> nat \<Rightarrow> byte" where
  "padded_byte f j =
    (if j < 31 then f j
     else if j = 31 then f 31 AND 0x3f
     else if j < 63 then push_bit 2 (f j) OR drop_bit 6 (f (j - 1))
     else if j = 63 then (push_bit 2 (f 63) OR drop_bit 6 (f 62)) AND 0x3f
     else if j < 95 then push_bit 4 (f j) OR drop_bit 4 (f (j - 1))
     else if j = 95 then (push_bit 4 (f 95) OR drop_bit 4 (f 94)) AND 0x3f
     else if j < 127 then push_bit 6 (f j) OR drop_bit 2 (f (j - 1))
     else drop_bit 2 (f 126) AND 0x3f)"

definition unpadded_byte :: "(nat \<Rightarrow> byte) \<Rightarrow> nat \<Rightarrow> byte" where
  "unpadded_byte g i =
    (if i < 31 then g i
     else if i = 31 then g 31 OR push_bit 6 (g 32)
     else if i < 63 then drop_bit 2 (g i) OR push_bit 6 (g (i + 1))
     else if i = 63 then (drop_bit 2 (g 63) OR push_bit 6 (g 64)) XOR (push_bit 6 (g 64) XOR push_bit 4 (g 64))
     else if i < 95 then drop_bit 4 (g i) OR push_bit 4 (g (i + 1))
     else if i = 95 then (drop_bit 4 (g 95) OR push_bit 4 (g 96)) XOR (push_bit 4 (g 96) XOR push_bit 2 (g 96))
     else drop_bit 6 (g i) OR push_bit 2 (g (i + 1)))"

lemma pad_chunk_spec:
  assumes "(c + 1) * 127 \<le> length inp" and "(c + 1) * 128 \<le> length out"
  shows "pad_chunk inp c out = Some (paint (c * 128) 0 128 (padded_byte (\<lambda>i. inp ! (c * 127 + i))) out)"
proof -
  have copy: "copy_at out (c * 128) (drop (c * 127) (take (c * 127 + 31) inp))
      = paint (c * 128) 0 31 (\<lambda>i. inp ! (c * 127 + i)) out"
    using assms by (intro nth_equalityI) (auto simp: nth_copy_at)
  show ?thesis
    using assms
    apply (simp add: pad_chunk_def clear_top_def copy pad_run_spec Let_def paint_join paint_extend paint_update
        del: upt_Suc upt.simps upt_rec_numeral)
    apply (rule paint_cong)
    apply (simp add: padded_byte_def add.commute)
    done
qed

lemma unpad_chunk_spec:
  assumes "(c + 1) * 128 \<le> length inp" and "(c + 1) * 127 \<le> length out"
  shows "unpad_chunk inp c out = Some (paint (c * 127) 0 127 (unpadded_byte (\<lambda>i. inp ! (c * 128 + i))) out)"
  using assms
  apply (simp add: unpad_chunk_def unpad_copy_spec unpad_run_spec Let_def paint_join paint_extend paint_update
      del: upt_Suc upt.simps upt_rec_numeral)
  apply (rule paint_cong)
  apply (simp add: unpadded_byte_def add.commute)
  done

text \<open>All chunks: the bytes of the padding of a slice, and of its unpadding.\<close>

definition padded_at :: "byte list \<Rightarrow> nat \<Rightarrow> byte" where
  "padded_at inp j = padded_byte (\<lambda>i. inp ! (j div 128 * 127 + i)) (j mod 128)"

definition unpadded_at :: "byte list \<Rightarrow> nat \<Rightarrow> byte" where
  "unpadded_at inp j = unpadded_byte (\<lambda>i. inp ! (j div 127 * 128 + i)) (j mod 127)"

lemma paint_shift:
  "paint off 0 k (\<lambda>i. f (off + i)) xs = paint 0 off (off + k) f xs"
  by (rule nth_equalityI) auto

lemma pad_chunks_append:
  "pad_chunks inp (cs @ ds) out = pad_chunks inp cs out \<bind> pad_chunks inp ds"
  by (induction cs arbitrary: out) (simp_all split: bind_split)

lemma unpad_chunks_append:
  "unpad_chunks inp (cs @ ds) out = unpad_chunks inp cs out \<bind> unpad_chunks inp ds"
  by (induction cs arbitrary: out) (simp_all split: bind_split)

lemma pad_chunks_spec:
  assumes "m * 127 \<le> length inp" and "m * 128 \<le> length out"
  shows "pad_chunks inp [0..<m] out = Some (paint 0 0 (m * 128) (padded_at inp) out)"
  using assms
proof (induction m)
  case (Suc m)
  have "paint (m * 128) 0 128 (padded_byte (\<lambda>i. inp ! (m * 127 + i))) xs
      = paint (m * 128) 0 128 (\<lambda>i. padded_at inp (m * 128 + i)) xs" for xs
    by (rule paint_cong) (simp add: padded_at_def)
  then have "paint (m * 128) 0 128 (padded_byte (\<lambda>i. inp ! (m * 127 + i))) xs
      = paint 0 (m * 128) (m * 128 + 128) (padded_at inp) xs" for xs
    by (simp only: paint_shift)
  then show ?case
    using Suc by (simp add: pad_chunks_append pad_chunk_spec paint_join add.commute)
qed simp

lemma unpad_chunks_spec:
  assumes "m * 128 \<le> length inp" and "m * 127 \<le> length out"
  shows "unpad_chunks inp [0..<m] out = Some (paint 0 0 (m * 127) (unpadded_at inp) out)"
  using assms
proof (induction m)
  case (Suc m)
  have "paint (m * 127) 0 127 (unpadded_byte (\<lambda>i. inp ! (m * 128 + i))) xs
      = paint (m * 127) 0 127 (\<lambda>i. unpadded_at inp (m * 127 + i)) xs" for xs
    by (rule paint_cong) (simp add: unpadded_at_def)
  then have "paint (m * 127) 0 127 (unpadded_byte (\<lambda>i. inp ! (m * 128 + i))) xs
      = paint 0 (m * 127) (m * 127 + 127) (unpadded_at inp) xs" for xs
    by (simp only: paint_shift)
  then show ?case
    using Suc by (simp add: unpad_chunks_append unpad_chunk_spec paint_join add.commute)
qed simp

lemma paint_all: "length xs = n \<Longrightarrow> paint 0 0 n f xs = map f [0..<n]"
  by (rule nth_equalityI) simp_all

lemma pad_spec:
  assumes "length inp = n * 127" and "length out = n * 128"
  shows "pad inp out = Some (map (padded_at inp) [0..<n * 128])"
  using assms by (simp add: pad_def pad_chunks_spec paint_all del: upt.simps)

lemma unpad_spec:
  assumes "length inp = n * 128" and "length out = n * 127"
  shows "unpad out inp = Some (map (unpadded_at inp) [0..<n * 127])"
  using assms by (simp add: unpad_def unpad_chunks_spec paint_all del: upt.simps)

subsection \<open>The bits of padded bytes\<close>

lemma bit_and_0x3f [simp]: "bit (w AND (0x3f :: byte)) b \<longleftrightarrow> bit w b \<and> b < 6"
proof -
  have "(0x3f :: byte) = mask 6" by (simp add: mask_eq_exp_minus_1)
  then have "bit (0x3f :: byte) b \<longleftrightarrow> b < 6" by (simp only: bit_mask_iff) auto
  then show ?thesis by (simp only: bit_and_iff)
qed

lemma bit_byte_push [simp]: "bit (push_bit n (w :: byte)) b \<longleftrightarrow> n \<le> b \<and> b < 8 \<and> bit w (b - n)"
  by (auto simp: bit_simps)

lemma bit_byte_drop [simp]: "bit (drop_bit n (w :: byte)) b \<longleftrightarrow> bit w (n + b)"
  by (simp add: bit_simps)

lemma bit_byte_bound [simp]: "8 \<le> b \<Longrightarrow> \<not> bit (w :: byte) b"
  using bit_imp_le_length[of w b] by auto

lemma byte_eqI: "(\<And>b. b < 8 \<Longrightarrow> bit v b = bit w b) \<Longrightarrow> v = (w :: byte)"
  by (rule bit_word_eqI) simp

lemmas byte_bits = bit_or_iff bit_xor_iff

text \<open>Byte \<open>m\<close> of element \<open>k\<close>: the bits of the element start \<open>2 * k\<close> bits later than in the input.\<close>

lemma bit_padded_byte:
  assumes "k < 4" and "m < 32" and "b < 8"
  shows "bit (padded_byte f (32 * k + m)) b \<longleftrightarrow>
    \<not> (m = 31 \<and> 6 \<le> b) \<and>
    (if 2 * k \<le> b then bit (f (32 * k + m)) (b - 2 * k)
     else bit (f (32 * k + m - 1)) (b + 8 - 2 * k))"
proof -
  have m: "m < 31 \<or> m = 31" using assms(2) by linarith
  consider "k = 0" | "k = 1" | "k = 2" | "k = 3" using assms(1) by linarith
  then show ?thesis
  proof cases
    case 1
    with m show ?thesis using assms by (elim disjE) (auto simp: padded_byte_def)
  next
    case 2
    with m show ?thesis
      using assms by (elim disjE; cases "2 \<le> b")
        (auto simp: padded_byte_def byte_bits add.commute simp del: One_nat_def)
  next
    case 3
    with m show ?thesis
      using assms by (elim disjE; cases "4 \<le> b") (auto simp: padded_byte_def byte_bits add.commute)
  next
    case 4
    with m show ?thesis
      using assms by (elim disjE; cases "6 \<le> b") (auto simp: padded_byte_def byte_bits add.commute)
  qed
qed

lemma bit_unpadded_byte:
  assumes "i < 127" and "b < 8" and clear: "\<And>j c. j < 128 \<Longrightarrow> j mod 32 = 31 \<Longrightarrow> 6 \<le> c \<Longrightarrow> \<not> bit (g j) c"
  shows "bit (unpadded_byte g i) b \<longleftrightarrow>
    (let s = 2 * ((8 * i + b) div 254) in if b + s < 8 then bit (g i) (b + s) else bit (g (i + 1)) (b + s - 8))"
proof -
  have top: "\<not> bit (g 31) c" "\<not> bit (g 63) c" "\<not> bit (g 95) c" if "6 \<le> c" for c
    using clear[of 31 c] clear[of 63 c] clear[of 95 c] that by simp_all
  consider "8 * i + b < 254" | "254 \<le> 8 * i + b" "8 * i + b < 508" | "508 \<le> 8 * i + b" "8 * i + b < 762"
    | "762 \<le> 8 * i + b" "8 * i + b < 1016"
    using assms(1,2) by linarith
  then show ?thesis
  proof cases
    case 1
    then have "i < 31 \<or> i = 31" by linarith
    with 1 show ?thesis using assms(1,2) by (elim disjE) (simp_all add: unpadded_byte_def byte_bits)
  next
    case 2
    then have "(8 * i + b) div 254 = 1" by (intro div_nat_eqI) simp_all
    moreover have "i = 31 \<or> 32 \<le> i \<and> i < 63 \<or> i = 63" using 2 assms(2) by linarith
    ultimately show ?thesis using 2 assms(1,2)
      by (elim disjE; cases "b + 2 < 8") (simp_all add: unpadded_byte_def byte_bits top add.commute)
  next
    case 3
    then have "(8 * i + b) div 254 = 2" by (intro div_nat_eqI) simp_all
    moreover have "i = 63 \<or> 64 \<le> i \<and> i < 95 \<or> i = 95" using 3 assms(2) by linarith
    ultimately show ?thesis using 3 assms(1,2)
      by (elim disjE; cases "b + 4 < 8") (auto simp: unpadded_byte_def byte_bits top add.commute)
  next
    case 4
    then have "(8 * i + b) div 254 = 3" by (intro div_nat_eqI) simp_all
    moreover have "i = 95 \<or> 96 \<le> i \<and> i < 127" using 4 assms(1,2) by linarith
    ultimately show ?thesis using 4 assms(1,2)
      by (elim disjE; cases "b + 6 < 8")
        (auto simp: unpadded_byte_def byte_bits top add.commute numeral_2_eq_2[symmetric])
  qed
qed

subsection \<open>Padding as an operation on the stream of bits\<close>

text \<open>The specification: two zero bits after every 254 bits.\<close>

function pad_bits :: "bool list \<Rightarrow> bool list" where
  "pad_bits bs = (if bs = [] then [] else take 254 bs @ [False, False] @ pad_bits (drop 254 bs))"
  by auto
termination by (relation "measure length") auto

declare pad_bits.simps [simp del]

lemma pad_bits_length:
  "length bs = 254 * n \<Longrightarrow> length (pad_bits bs) = 256 * n"
proof (induction n arbitrary: bs)
  case (Suc n)
  then have "length (pad_bits (drop 254 bs)) = 256 * n" by simp
  moreover have "bs \<noteq> []" using Suc.prems by auto
  ultimately show ?case using Suc.prems by (subst pad_bits.simps) simp
qed (simp add: pad_bits.simps)

lemma pad_bits_nth:
  assumes "length bs = 254 * n" and "q < n" and "r < 256"
  shows "pad_bits bs ! (256 * q + r) = (r < 254 \<and> bs ! (254 * q + r))"
  using assms
proof (induction n arbitrary: bs q)
  case (Suc n)
  have "bs \<noteq> []" using Suc.prems by auto
  then have unf: "pad_bits bs = (take 254 bs @ [False, False]) @ pad_bits (drop 254 bs)"
    by (subst pad_bits.simps) simp
  have len: "length (take 254 bs @ [False, False]) = 256" using Suc.prems by simp
  show ?case
  proof (cases q)
    case 0
    have "r < 254 \<or> r = 254 \<or> r = 255" using Suc.prems by linarith
    then show ?thesis using 0 Suc.prems by (auto simp: unf nth_append)
  next
    case (Suc q')
    then have "pad_bits bs ! (256 * q + r) = pad_bits (drop 254 bs) ! (256 * q' + r)"
      unfolding unf nth_append len by simp
    also have "\<dots> = (r < 254 \<and> drop 254 bs ! (254 * q' + r))"
      using Suc Suc.prems Suc.IH[of "drop 254 bs" q'] by simp
    finally show ?thesis using Suc Suc.prems by (simp add: algebra_simps)
  qed
qed simp

lemma bit_position:
  obtains c e m b :: nat where "k = 1024 * c + 256 * e + 8 * m + b" and "e < 4" and "m < 32" and "b < 8"
proof -
  have "k = 8 * (k div 8) + k mod 8" "k div 8 = 32 * (k div 8 div 32) + k div 8 mod 32"
    "k div 8 div 32 = 4 * (k div 8 div 32 div 4) + k div 8 div 32 mod 4"
    by simp_all
  then have "k = 1024 * (k div 8 div 32 div 4) + 256 * (k div 8 div 32 mod 4) + 8 * (k div 8 mod 32) + k mod 8"
    by linarith
  then show ?thesis by (rule that) simp_all
qed

lemma bits_of_index:
  assumes "b < 8" and "i < length xs"
  shows "bits_of xs ! (8 * i + b) = bit (xs ! i) b"
  using assms by (simp add: nth_bits_of)

lemma bit_padded_at:
  assumes "length inp = n * 127" and "c < n" and bd: "e < 4" "m < 32" "b < 8"
  shows "bit (padded_at inp (128 * c + (32 * e + m))) b \<longleftrightarrow>
    8 * m + b < 254 \<and> bits_of inp ! (254 * (4 * c + e) + (8 * m + b))"
proof -
  let ?j = "32 * e + m"
  have "?j < 128" using bd by linarith
  then have byte: "bit (padded_at inp (128 * c + ?j)) b \<longleftrightarrow> \<not> (m = 31 \<and> 6 \<le> b) \<and>
      (if 2 * e \<le> b then bit (inp ! (c * 127 + ?j)) (b - 2 * e)
       else bit (inp ! (c * 127 + (?j - 1))) (b + 8 - 2 * e))"
    unfolding bit_padded_byte[OF bd, of "\<lambda>i. inp ! (c * 127 + i)", symmetric] by (simp add: padded_at_def)
  consider "\<not> 8 * m + b < 254" | "8 * m + b < 254" "2 * e \<le> b" | "8 * m + b < 254" "b < 2 * e" by linarith
  then show ?thesis
  proof cases
    case 1
    then have "m = 31 \<and> 6 \<le> b" using bd by linarith
    with 1 show ?thesis using byte by blast
  next
    case 2
    then have "e < 3 \<or> m < 31" using bd by linarith
    then have "?j < 127" using bd by linarith
    then have "c * 127 + ?j < length inp" using assms(1,2) by linarith
    then have "bits_of inp ! (8 * (c * 127 + ?j) + (b - 2 * e)) = bit (inp ! (c * 127 + ?j)) (b - 2 * e)"
      using bd by (intro bits_of_index) simp_all
    moreover have "254 * (4 * c + e) + (8 * m + b) = 8 * (c * 127 + ?j) + (b - 2 * e)" using 2 by simp
    moreover have "\<not> (m = 31 \<and> 6 \<le> b)" using 2 by linarith
    ultimately show ?thesis using 2 byte by presburger
  next
    case 3
    then have "?j - 1 < 127" using bd by linarith
    then have "c * 127 + (?j - 1) < length inp" using assms(1,2) by linarith
    then have "bits_of inp ! (8 * (c * 127 + (?j - 1)) + (b + 8 - 2 * e))
        = bit (inp ! (c * 127 + (?j - 1))) (b + 8 - 2 * e)"
      using 3 by (intro bits_of_index) simp_all
    moreover have "254 * (4 * c + e) + (8 * m + b) = 8 * (c * 127 + (?j - 1)) + (b + 8 - 2 * e)"
      using 3 bd by simp
    moreover have "\<not> (m = 31 \<and> 6 \<le> b)" "\<not> 2 * e \<le> b" using 3 by linarith+
    ultimately show ?thesis using 3 byte by presburger
  qed
qed

lemma bits_of_padded:
  assumes "length inp = n * 127"
  shows "bits_of (map (padded_at inp) [0..<n * 128]) = pad_bits (bits_of inp)"
proof (rule nth_equalityI)
  have len: "length (bits_of inp) = 254 * (4 * n)" using assms by simp
  show "length (bits_of (map (padded_at inp) [0..<n * 128])) = length (pad_bits (bits_of inp))"
    by (simp add: pad_bits_length[OF len])
  fix k assume k: "k < length (bits_of (map (padded_at inp) [0..<n * 128]))"
  obtain c e m b where p: "k = 1024 * c + 256 * e + 8 * m + b" and bd: "e < 4" "m < 32" "b < 8"
    by (rule bit_position)
  have c: "c < n" using k p bd by simp
  then have j: "128 * c + (32 * e + m) < n * 128" using bd by linarith
  have "k = 8 * (128 * c + (32 * e + m)) + b" by (simp add: p)
  then have "bits_of (map (padded_at inp) [0..<n * 128]) ! k \<longleftrightarrow> bit (padded_at inp (128 * c + (32 * e + m))) b"
    using j bd by (simp only:) (subst bits_of_index, simp_all)
  also have "\<dots> \<longleftrightarrow> pad_bits (bits_of inp) ! (256 * (4 * c + e) + (8 * m + b))"
    using c bd by (simp only: bit_padded_at[OF assms c bd]) (subst pad_bits_nth[OF len], simp_all)
  also have "256 * (4 * c + e) + (8 * m + b) = k" by (simp add: p)
  finally show "bits_of (map (padded_at inp) [0..<n * 128]) ! k = pad_bits (bits_of inp) ! k" .
qed

subsection \<open>Unpadding is the inverse\<close>

lemma padded_byte_top:
  assumes "j mod 32 = 31" and "6 \<le> c"
  shows "\<not> bit (padded_byte f j) c"
proof (cases "c < 8 \<and> j < 128")
  case True
  then have "j = 32 * (j div 32) + 31" "j div 32 < 4" using assms mult_div_mod_eq[of 32 j] by simp_all
  with bit_padded_byte[of "j div 32" 31 c f] True assms show ?thesis by simp
next
  case False
  with assms show ?thesis by (cases "c < 8") (auto simp: padded_byte_def)
qed

text \<open>Bit \<open>b\<close> of input byte \<open>i\<close> is in element \<open>k\<close> of the padded chunk, \<open>2 * k\<close> bits further on.\<close>

lemma unpadded_padded_byte:
  assumes "i < 127"
  shows "unpadded_byte (padded_byte f) i = f i"
proof (rule byte_eqI)
  fix b :: nat assume b: "b < 8"
  define k r where "k = (8 * i + b) div 254" and "r = (8 * i + b) mod 254"
  have q: "8 * i + b = 254 * k + r" "r < 254" by (simp_all add: k_def r_def)
  then have k: "k < 4" using assms b by linarith
  have bits: "bit (unpadded_byte (padded_byte f) i) b \<longleftrightarrow>
      (if b + 2 * k < 8 then bit (padded_byte f i) (b + 2 * k) else bit (padded_byte f (i + 1)) (b + 2 * k - 8))"
    using bit_unpadded_byte[OF assms b padded_byte_top] by (simp add: Let_def k_def)
  show "bit (unpadded_byte (padded_byte f) i) b = bit (f i) b"
  proof (cases "b + 2 * k < 8")
    case True
    then have "i = 32 * k + (i - 32 * k)" "i - 32 * k < 32" "\<not> (i - 32 * k = 31 \<and> 6 \<le> b + 2 * k)"
      using q by linarith+
    with True k bits bit_padded_byte[of k "i - 32 * k" "b + 2 * k" f] show ?thesis by simp
  next
    case False
    then have "i + 1 = 32 * k + (i + 1 - 32 * k)" "i + 1 - 32 * k < 32"
        "\<not> (i + 1 - 32 * k = 31 \<and> 6 \<le> b + 2 * k - 8)" "b + 2 * k - 8 < 8" "\<not> 2 * k \<le> b + 2 * k - 8"
        "b + 2 * k - 8 + 8 - 2 * k = b"
      using q k b by linarith+
    with False bits bit_padded_byte[OF k, of "i + 1 - 32 * k" "b + 2 * k - 8" f] show ?thesis by simp
  qed
qed


lemma padded_unpadded_byte:
  assumes "j < 128" and clear: "\<And>j c. j < 128 \<Longrightarrow> j mod 32 = 31 \<Longrightarrow> 6 \<le> c \<Longrightarrow> \<not> bit (g j) c"
  shows "padded_byte (unpadded_byte g) j = g j"
proof (rule byte_eqI)
  fix b :: nat assume b: "b < 8"
  define e m where "e = j div 32" and "m = j mod 32"
  have j: "j = 32 * e + m" "m < 32" by (simp_all add: e_def m_def)
  then have e: "e < 4" using assms(1) by linarith
  have bits: "bit (padded_byte (unpadded_byte g) j) b \<longleftrightarrow> \<not> (m = 31 \<and> 6 \<le> b) \<and>
      (if 2 * e \<le> b then bit (unpadded_byte g j) (b - 2 * e) else bit (unpadded_byte g (j - 1)) (b + 8 - 2 * e))"
    using bit_padded_byte[OF e j(2) b, of "unpadded_byte g"] j(1) by simp
  show "bit (padded_byte (unpadded_byte g) j) b = bit (g j) b"
  proof (cases "m = 31 \<and> 6 \<le> b")
    case True
    then show ?thesis using bits clear[OF assms(1), of b] by (simp add: m_def)
  next
    case inside: False
    then have in254: "8 * m + b < 254" using j b by linarith
    show ?thesis
    proof (cases "2 * e \<le> b")
      case True
      then have small: "j < 127" "b - 2 * e < 8" using inside j e b by linarith+
      have "8 * j + (b - 2 * e) = 254 * e + (8 * m + b)" using True j by simp
      then have "(8 * j + (b - 2 * e)) div 254 = e" using in254 by simp
      then have "bit (unpadded_byte g j) (b - 2 * e) = bit (g j) b"
        using bit_unpadded_byte[OF small clear] True b by (simp only: Let_def) simp
      then show ?thesis using bits inside True by simp
    next
      case False
      then have small: "j - 1 < 127" "b + 8 - 2 * e < 8" and "0 < j" using j e b assms(1) by linarith+
      have "8 * (j - 1) + (b + 8 - 2 * e) = 254 * e + (8 * m + b)" using False j e by simp
      then have "(8 * (j - 1) + (b + 8 - 2 * e)) div 254 = e" using in254 by simp
      moreover have "b + 8 - 2 * e + 2 * e = b + 8" using e by simp
      ultimately have "bit (unpadded_byte g (j - 1)) (b + 8 - 2 * e) = bit (g j) b"
        using bit_unpadded_byte[OF small clear] \<open>0 < j\<close> by (simp only: Let_def) simp
      then show ?thesis using bits inside False by simp
    qed
  qed
qed

subsection \<open>Field elements\<close>

text \<open>The number a sequence of bytes stands for, least significant byte first.\<close>

fun le_value :: "byte list \<Rightarrow> nat" where
  "le_value [] = 0"
| "le_value (x # xs) = unat x + 256 * le_value xs"

text \<open>The elements of 32 bytes of a slice, each below \<open>2 ^ 254\<close>.\<close>

definition element :: "byte list \<Rightarrow> nat \<Rightarrow> byte list" where
  "element ys k = take 32 (drop (32 * k) ys)"

definition field_elements :: "byte list \<Rightarrow> bool" where
  "field_elements ys \<longleftrightarrow> (\<forall>k<length ys div 32. le_value (element ys k) < 2 ^ 254)"

lemma le_value_append: "le_value (xs @ ys) = le_value xs + 256 ^ length xs * le_value ys"
  by (induction xs) (simp_all add: algebra_simps)

lemma le_value_bound: "le_value xs < 256 ^ length xs"
proof (induction xs)
  case (Cons x xs)
  have "unat x < 256" using unsigned_less[of x] by simp
  then show ?case using Cons by simp
qed simp

lemma byte_below_64: "unat (x :: byte) < 64 \<longleftrightarrow> (\<forall>c. 6 \<le> c \<longrightarrow> \<not> bit x c)"
proof
  assume "unat x < 64"
  then have "unat x < 2 ^ 6" by simp
  then have "x = take_bit 6 x" by (metis take_bit_nat_eq_self unsigned_take_bit_eq word_unat_eq_iff)
  then show "\<forall>c. 6 \<le> c \<longrightarrow> \<not> bit x c" by (metis bit_take_bit_iff not_less)
next
  assume "\<forall>c. 6 \<le> c \<longrightarrow> \<not> bit x c"
  then have "take_bit 6 x = x" by (intro bit_word_eqI) (metis bit_take_bit_iff not_less)
  then have "unat x = take_bit 6 (unat x)" by (metis unsigned_take_bit_eq)
  then show "unat x < 64" using take_bit_nat_less_exp[of 6 "unat x"] by simp
qed

lemma digit_bound: "a < B \<Longrightarrow> a + B * t < B * n \<longleftrightarrow> t < (n :: nat)"
  using div_less_iff_less_mult[of B "a + B * t" n] by (simp add: mult.commute)

lemma element_below:
  assumes "length e = 32"
  shows "le_value e < 2 ^ 254 \<longleftrightarrow> unat (e ! 31) < 64"
proof -
  have e: "e = take 31 e @ [e ! 31]"
    using assms take_Suc_conv_app_nth[of 31 e] by simp
  have "le_value e = le_value (take 31 e) + 256 ^ 31 * unat (e ! 31)"
    by (subst e) (simp add: le_value_append assms)
  moreover have "le_value (take 31 e) < 256 ^ 31"
    using le_value_bound[of "take 31 e"] assms by simp
  moreover have "(2 :: nat) ^ 254 = 256 ^ 31 * 64" by simp
  ultimately show ?thesis
    by (simp only: digit_bound)
qed

lemma field_elements_iff:
  "field_elements ys \<longleftrightarrow> (\<forall>k<length ys div 32. \<forall>c\<ge>6. \<not> bit (ys ! (32 * k + 31)) c)"
proof -
  have "le_value (element ys k) < 2 ^ 254 \<longleftrightarrow> (\<forall>c\<ge>6. \<not> bit (ys ! (32 * k + 31)) c)"
    if "k < length ys div 32" for k
  proof -
    have "32 * k + 32 \<le> length ys" using that by linarith
    then have "length (element ys k) = 32" "element ys k ! 31 = ys ! (32 * k + 31)"
      by (simp_all add: element_def)
    then show ?thesis by (simp only: element_below byte_below_64)
  qed
  then show ?thesis by (simp add: field_elements_def)
qed

text \<open>Everything about slices of a whole number of chunks.\<close>

definition padded :: "byte list \<Rightarrow> byte list" where
  "padded inp = map (padded_at inp) [0..<length inp div 127 * 128]"

definition unpadded :: "byte list \<Rightarrow> byte list" where
  "unpadded inp = map (unpadded_at inp) [0..<length inp div 128 * 127]"

lemma length_padded [simp]: "length (padded inp) = length inp div 127 * 128"
  and length_unpadded [simp]: "length (unpadded inp) = length inp div 128 * 127"
  by (simp_all add: padded_def unpadded_def)

lemma nth_padded [simp]: "j < length inp div 127 * 128 \<Longrightarrow> padded inp ! j = padded_at inp j"
  and nth_unpadded [simp]: "i < length inp div 128 * 127 \<Longrightarrow> unpadded inp ! i = unpadded_at inp i"
  by (simp_all add: padded_def unpadded_def)

lemma unpadded_byte_cong:
  "(\<And>j. j < 128 \<Longrightarrow> f j = g j) \<Longrightarrow> i < 127 \<Longrightarrow> unpadded_byte f i = unpadded_byte g i"
  by (simp add: unpadded_byte_def)

lemma padded_byte_cong:
  "(\<And>i. i < 127 \<Longrightarrow> f i = g i) \<Longrightarrow> j < 128 \<Longrightarrow> padded_byte f j = padded_byte g j"
  by (simp add: padded_byte_def)

lemma field_elements_padded: "field_elements (padded inp)"
proof (unfold field_elements_iff, intro allI impI)
  fix k c :: nat assume k: "k < length (padded inp) div 32" and c: "6 \<le> c"
  have bound: "32 * k + 31 < length inp div 127 * 128" using k by simp
  have "(32 * k + 31) mod 128 mod 32 = (32 * k + 31) mod 32" by (rule mod_mod_cancel) simp
  then have "\<not> bit (padded_at inp (32 * k + 31)) c"
    unfolding padded_at_def using c by (intro padded_byte_top) simp_all
  then show "\<not> bit (padded inp ! (32 * k + 31)) c"
    using nth_padded[OF bound] by simp
qed

lemma unpadded_at_padded:
  assumes "length inp = n * 127" and "i < n * 127"
  shows "unpadded_at (padded inp) i = inp ! i"
proof -
  let ?c = "i div 127"
  have c: "?c < n" using assms(2) by (simp add: div_less_iff_less_mult)
  have "padded inp ! (?c * 128 + j) = padded_byte (\<lambda>i. inp ! (?c * 127 + i)) j" if "j < 128" for j
  proof -
    have "?c * 128 + j < n * 128" using c that by linarith
    then show ?thesis using assms(1) that by (simp add: padded_at_def)
  qed
  then have "unpadded_at (padded inp) i = unpadded_byte (padded_byte (\<lambda>i. inp ! (?c * 127 + i))) (i mod 127)"
    unfolding unpadded_at_def by (intro unpadded_byte_cong) simp_all
  also have "\<dots> = inp ! i" by (subst unpadded_padded_byte) simp_all
  finally show ?thesis .
qed

lemma unpadded_padded:
  assumes "length inp = n * 127"
  shows "unpadded (padded inp) = inp"
  using assms unpadded_at_padded[OF assms] by (intro nth_equalityI) simp_all

lemma padded_at_unpadded:
  assumes "length y = n * 128" and "field_elements y" and "j < n * 128"
  shows "padded_at (unpadded y) j = y ! j"
proof -
  let ?c = "j div 128"
  have c: "?c < n" using assms(3) by (simp add: div_less_iff_less_mult)
  have "unpadded y ! (?c * 127 + i) = unpadded_byte (\<lambda>i. y ! (?c * 128 + i)) i" if "i < 127" for i
  proof -
    have "?c * 127 + i < n * 127" using c that by linarith
    then show ?thesis using assms(1) that by (simp add: unpadded_at_def)
  qed
  then have "padded_at (unpadded y) j = padded_byte (unpadded_byte (\<lambda>i. y ! (?c * 128 + i))) (j mod 128)"
    unfolding padded_at_def by (intro padded_byte_cong) simp_all
  also have "\<dots> = y ! (?c * 128 + j mod 128)"
  proof (rule padded_unpadded_byte)
    fix i b :: nat assume i: "i < 128" "i mod 32 = 31" and "6 \<le> b"
    have "i = 32 * (i div 32) + 31" using i mult_div_mod_eq[of 32 i] by simp
    then have "?c * 128 + i = 32 * (?c * 4 + i div 32) + 31" by simp
    moreover have "?c * 4 + i div 32 < length y div 32" using assms(1) c i by simp
    ultimately show "\<not> bit (y ! (?c * 128 + i)) b"
      using assms(2) \<open>6 \<le> b\<close> unfolding field_elements_iff by (simp only:) blast
  qed simp
  finally show ?thesis by (simp only: div_mult_mod_eq)
qed

lemma padded_unpadded:
  assumes "length y = n * 128" and "field_elements y"
  shows "padded (unpadded y) = y"
  using assms padded_at_unpadded[OF assms] by (intro nth_equalityI) simp_all


subsection \<open>Sizes of pieces and the splitting among goroutines\<close>

text \<open>
  \<open>abi.UnpaddedPieceSize.Padded\<close>, \<open>abi.PaddedPieceSize.Unpadded\<close> and \<open>Validate\<close> come from \<open>go-state-types\<close> and are
  parameters. Its documentation: 127 bytes of data take 128 bytes of a sector, and a padded size is valid
  when it is a power of two of at least 128 bytes.
\<close>

record piece_sizes =
  Padded :: "nat \<Rightarrow> nat"
  Unpadded :: "nat \<Rightarrow> nat"
  ValidSize :: "nat \<Rightarrow> bool"

definition sizes_ok :: "piece_sizes \<Rightarrow> bool" where
  "sizes_ok ps \<longleftrightarrow> (\<forall>s. Padded ps s = s + s div 127) \<and> (\<forall>s. Unpadded ps s = s - s div 128) \<and>
    (\<forall>s. ValidSize ps s \<longleftrightarrow> (\<exists>k\<ge>7. s = 2 ^ k))"

definition MTTresh :: nat where
  "MTTresh = 512 * 2 ^ 10"

text \<open>\<open>bits.Len32\<close>: the bits needed to write a number.\<close>

fun bitLen :: "nat \<Rightarrow> nat" where
  "bitLen n = (if n = 0 then 0 else Suc (bitLen (n div 2)))"

declare bitLen.simps [simp del]

definition mtChunkCount :: "nat \<Rightarrow> nat \<Rightarrow> nat" where
  "mtChunkCount numCPU usz =
    (let threads = usz div MTTresh;
         threads = (if threads > numCPU then 2 ^ bitLen numCPU else threads)
     in if threads = 0 then 1 else if threads > 32 then 32 else threads)"

text \<open>
  The goroutines of \<open>mt\<close> run in some order \<open>ts\<close>. An operation gets its two slices and returns what they
  hold afterwards, which is what the whole slices hold there from then on.
\<close>

fun mt_threads :: "piece_sizes \<Rightarrow> nat \<Rightarrow> (byte list \<Rightarrow> byte list \<Rightarrow> (byte list \<times> byte list) option) \<Rightarrow> nat list
    \<Rightarrow> byte list \<times> byte list \<Rightarrow> (byte list \<times> byte list) option" where
  "mt_threads ps threadBytes op [] st = Some st"
| "mt_threads ps threadBytes op (t # ts) (inp, out) = do {
     let start = threadBytes * t;
     let end' = start + threadBytes;
     u \<leftarrow> slice inp (Unpadded ps start) (Unpadded ps end');
     p \<leftarrow> slice out start end';
     (u, p) \<leftarrow> op u p;
     mt_threads ps threadBytes op ts (copy_at inp (Unpadded ps start) u, copy_at out start p)
   }"

definition mt :: "piece_sizes \<Rightarrow> nat \<Rightarrow> (nat \<Rightarrow> nat list) \<Rightarrow> byte list \<Rightarrow> byte list \<Rightarrow> nat
    \<Rightarrow> (byte list \<Rightarrow> byte list \<Rightarrow> (byte list \<times> byte list) option) \<Rightarrow> (byte list \<times> byte list) option" where
  "mt ps numCPU sched inp out padLen op =
    (let threads = mtChunkCount numCPU padLen;
         threadBytes = padLen div threads
     in mt_threads ps threadBytes op (sched threads) (inp, out))"

definition Pad :: "piece_sizes \<Rightarrow> nat \<Rightarrow> (nat \<Rightarrow> nat list) \<Rightarrow> byte list \<Rightarrow> byte list \<Rightarrow> byte list option" where
  "Pad ps numCPU sched inp out =
    (if length out > MTTresh
     then map_option snd (mt ps numCPU sched inp out (length out) (\<lambda>u p. map_option (Pair u) (pad u p)))
     else pad inp out)"

definition Unpad :: "piece_sizes \<Rightarrow> nat \<Rightarrow> (nat \<Rightarrow> nat list) \<Rightarrow> byte list \<Rightarrow> byte list \<Rightarrow> byte list option" where
  "Unpad ps numCPU sched inp out =
    (if length inp > MTTresh
     then map_option fst (mt ps numCPU sched out inp (length inp) (\<lambda>u p. map_option (\<lambda>u. (u, p)) (unpad u p)))
     else unpad out inp)"

text \<open>A scheduler runs every goroutine once.\<close>

definition schedules :: "(nat \<Rightarrow> nat list) \<Rightarrow> bool" where
  "schedules sched \<longleftrightarrow> (\<forall>n. distinct (sched n) \<and> set (sched n) = {0..<n})"

lemma bitLen_bound: "n < 2 ^ bitLen n"
proof (induction n rule: bitLen.induct)
  case (1 n)
  then show ?case by (subst bitLen.simps) auto
qed

lemma bitLen_least: "n < 2 ^ k \<Longrightarrow> bitLen n \<le> k"
proof (induction n arbitrary: k rule: bitLen.induct)
  case (1 n)
  show ?case
  proof (cases "n = 0")
    case False
    then obtain k' where k: "k = Suc k'" using "1.prems" by (cases k) auto
    then have "bitLen (n div 2) \<le> k'" using "1" False by simp
    then show ?thesis using k False by (subst bitLen.simps) simp
  qed (simp add: bitLen.simps)
qed

text \<open>For a power of two the goroutines get equal shares of whole chunks.\<close>

lemma mtChunkCount_power:
  assumes "MTTresh < 2 ^ k"
  shows "\<exists>a. mtChunkCount numCPU (2 ^ k) = 2 ^ a \<and> a + 19 \<le> k"
proof -
  have M: "MTTresh = 2 ^ 19" by (simp add: MTTresh_def)
  have "19 < k" using assms unfolding M by (rule power_less_imp_less_exp[rotated]) simp
  then obtain m where k: "k = 19 + m" and m: "0 < m" by (metis less_imp_add_positive)
  have th: "2 ^ k div MTTresh = 2 ^ m" by (simp add: M k power_add)
  define t where "t = (if 2 ^ m > numCPU then bitLen numCPU else m)"
  have "t \<le> m" by (simp add: t_def bitLen_least)
  moreover have "mtChunkCount numCPU (2 ^ k) = (if 2 ^ t > (32 :: nat) then 32 else 2 ^ t)"
    by (simp add: mtChunkCount_def th t_def)
  moreover have "(2 :: nat) ^ t > 32 \<longleftrightarrow> 5 < t"
    using power_strict_increasing_iff[of "2 :: nat" 5 t] by simp
  ultimately show ?thesis
    by (cases "5 < t") (auto simp: k intro: exI[of _ 5] exI[of _ t])
qed

lemma unpadded_multiple: "sizes_ok ps \<Longrightarrow> Unpadded ps (s * 128) = s * 127"
  by (simp add: sizes_ok_def)

lemma nth_part:
  "a + i < b \<Longrightarrow> b \<le> length xs \<Longrightarrow> drop a (take b xs) ! i = xs ! (a + i)"
  by simp

lemma padded_at_slice:
  assumes "length inp = n * 127" and "a + s \<le> n" and "j < s * 128"
  shows "padded_at (drop (a * 127) (take ((a + s) * 127) inp)) j = padded_at inp (a * 128 + j)"
proof -
  define d where "d = j div 128"
  have "d < s" using assms(3) by (simp add: d_def div_less_iff_less_mult)
  then have bd: "a * 127 + (d * 127 + i) < (a + s) * 127" if "i < 127" for i
    using that unfolding distrib_right by linarith
  have len: "(a + s) * 127 \<le> length inp" using assms(1,2) by (simp only: mult_le_mono1)
  have pos: "(a * 128 + j) div 128 * 127 = a * 127 + d * 127" "(a * 128 + j) mod 128 = j mod 128"
    by (simp_all add: d_def)
  show ?thesis
    unfolding padded_at_def d_def[symmetric] pos
    by (rule padded_byte_cong, simp only: nth_part[OF bd len] add.assoc, simp)
qed

lemma unpadded_at_slice:
  assumes "length inp = n * 128" and "a + s \<le> n" and "i < s * 127"
  shows "unpadded_at (drop (a * 128) (take ((a + s) * 128) inp)) i = unpadded_at inp (a * 127 + i)"
proof -
  define d where "d = i div 127"
  have "d < s" using assms(3) by (simp add: d_def div_less_iff_less_mult)
  then have bd: "a * 128 + (d * 128 + j) < (a + s) * 128" if "j < 128" for j
    using that unfolding distrib_right by linarith
  have len: "(a + s) * 128 \<le> length inp" using assms(1,2) by (simp only: mult_le_mono1)
  have pos: "(a * 127 + i) div 127 * 128 = a * 128 + d * 128" "(a * 127 + i) mod 127 = i mod 127"
    by (simp_all add: d_def)
  show ?thesis
    unfolding unpadded_at_def d_def[symmetric] pos
    by (rule unpadded_byte_cong, simp only: nth_part[OF bd len] add.assoc, simp)
qed

lemma copy_at_same:
  assumes "lo \<le> hi" and "hi \<le> length xs"
  shows "copy_at xs lo (drop lo (take hi xs)) = xs"
  using assms by (intro nth_equalityI) (auto simp: nth_copy_at)

lemma copy_at_paint:
  assumes "off + k \<le> length xs"
  shows "copy_at xs off (map (\<lambda>j. f (off + j)) [0..<k]) = paint 0 off (off + k) f xs"
  using assms by (intro nth_equalityI) (auto simp: nth_copy_at)

lemma mt_pad_step:
  assumes "sizes_ok ps" and "length inp = n * 127" and "length out = n * 128" and "s * Suc t \<le> n"
  shows "mt_threads ps (s * 128) (\<lambda>u p. map_option (Pair u) (pad u p)) (t # ts) (inp, out)
    = mt_threads ps (s * 128) (\<lambda>u p. map_option (Pair u) (pad u p)) ts
        (inp, paint 0 (s * t * 128) (s * t * 128 + s * 128) (padded_at inp) out)"
proof -
  have start: "s * 128 * t = (s * t) * 128" "s * 128 * t + s * 128 = (s * t + s) * 128" by simp_all
  have fits: "s * t + s \<le> n" using assms(4) by simp
  have le: "(s * t + s) * 127 \<le> n * 127" "(s * t + s) * 128 \<le> n * 128" using fits by (simp_all only: mult_le_mono1)
  let ?u = "drop (s * t * 127) (take ((s * t + s) * 127) inp)"
  let ?p = "drop (s * t * 128) (take ((s * t + s) * 128) out)"
  have "pad ?u ?p = Some (map (padded_at ?u) [0..<s * 128])"
    using assms(2,3) le by (intro pad_spec) simp_all
  also have "map (padded_at ?u) [0..<s * 128] = map (\<lambda>j. padded_at inp (s * t * 128 + j)) [0..<s * 128]"
    using padded_at_slice[OF assms(2) fits] by simp
  finally have "pad ?u ?p = Some (map (\<lambda>j. padded_at inp (s * t * 128 + j)) [0..<s * 128])" .
  moreover have "Unpadded ps (s * t * 128 + s * 128) = s * t * 127 + s * 127"
    using unpadded_multiple[OF assms(1), of "s * t + s"] by (simp add: distrib_right)
  ultimately show ?thesis
    using assms le by (simp add: Let_def start unpadded_multiple copy_at_same copy_at_paint del: upt.simps)
qed

lemma mt_unpad_step:
  assumes "sizes_ok ps" and "length inp = n * 128" and "length out = n * 127" and "s * Suc t \<le> n"
  shows "mt_threads ps (s * 128) (\<lambda>u p. map_option (\<lambda>u. (u, p)) (unpad u p)) (t # ts) (out, inp)
    = mt_threads ps (s * 128) (\<lambda>u p. map_option (\<lambda>u. (u, p)) (unpad u p)) ts
        (paint 0 (s * t * 127) (s * t * 127 + s * 127) (unpadded_at inp) out, inp)"
proof -
  have start: "s * 128 * t = (s * t) * 128" "s * 128 * t + s * 128 = (s * t + s) * 128" by simp_all
  have fits: "s * t + s \<le> n" using assms(4) by simp
  have le: "(s * t + s) * 127 \<le> n * 127" "(s * t + s) * 128 \<le> n * 128" using fits by (simp_all only: mult_le_mono1)
  let ?u = "drop (s * t * 127) (take ((s * t + s) * 127) out)"
  let ?p = "drop (s * t * 128) (take ((s * t + s) * 128) inp)"
  have "unpad ?u ?p = Some (map (unpadded_at ?p) [0..<s * 127])"
    using assms(2,3) le by (intro unpad_spec) simp_all
  also have "map (unpadded_at ?p) [0..<s * 127] = map (\<lambda>j. unpadded_at inp (s * t * 127 + j)) [0..<s * 127]"
    using unpadded_at_slice[OF assms(2) fits] by simp
  finally have "unpad ?u ?p = Some (map (\<lambda>j. unpadded_at inp (s * t * 127 + j)) [0..<s * 127])" .
  moreover have "Unpadded ps (s * t * 128 + s * 128) = s * t * 127 + s * 127"
    using unpadded_multiple[OF assms(1), of "s * t + s"] by (simp add: distrib_right)
  ultimately show ?thesis
    using assms le by (simp add: Let_def start unpadded_multiple copy_at_same copy_at_paint del: upt.simps)
qed

text \<open>The shares of the goroutines that have run are written, the others are as before.\<close>

definition shares :: "nat \<Rightarrow> nat list \<Rightarrow> (nat \<Rightarrow> 'a) \<Rightarrow> 'a list \<Rightarrow> 'a list" where
  "shares k ts f xs = map (\<lambda>j. if j div k \<in> set ts then f j else xs ! j) [0..<length xs]"

lemma length_shares [simp]: "length (shares k ts f xs) = length xs"
  by (simp add: shares_def)

lemma shares_Nil [simp]: "shares k [] f xs = xs"
  by (rule nth_equalityI) (simp_all add: shares_def)

lemma shares_step:
  assumes "0 < k"
  shows "shares k ts f (paint 0 (k * t) (k * t + k) f xs) = shares k (t # ts) f xs"
proof (rule nth_equalityI)
  fix j assume "j < length (shares k ts f (paint 0 (k * t) (k * t + k) f xs))"
  moreover have "k * t \<le> j \<and> j < k * t + k \<longleftrightarrow> j div k = t"
    using assms by (metis add.commute div_nat_eqI dividend_less_times_div mult_Suc_right times_div_less_eq_dividend)
  ultimately show "shares k ts f (paint 0 (k * t) (k * t + k) f xs) ! j = shares k (t # ts) f xs ! j"
    by (auto simp: shares_def)
qed simp

lemma shares_all:
  assumes "set ts = {0..<m}" and "length xs = k * m"
  shows "shares k ts f xs = map f [0..<k * m]"
  using assms by (intro nth_equalityI) (simp_all add: shares_def less_mult_imp_div_less mult.commute)

lemma mt_pad_all:
  assumes "sizes_ok ps" and "length inp = n * 127" and "length out = n * 128" and "0 < s"
    and "\<forall>t\<in>set ts. s * Suc t \<le> n"
  shows "mt_threads ps (s * 128) (\<lambda>u p. map_option (Pair u) (pad u p)) ts (inp, out)
    = Some (inp, shares (s * 128) ts (padded_at inp) out)"
  using assms(3,5)
proof (induction ts arbitrary: out)
  case (Cons t ts)
  have e: "s * 128 * t = s * t * 128" by simp
  from Cons show ?case
    using shares_step[of "s * 128" ts "padded_at inp" t out, unfolded e] assms(4)
    by (simp add: mt_pad_step[OF assms(1,2)] del: mt_threads.simps)
qed simp

lemma mt_unpad_all:
  assumes "sizes_ok ps" and "length inp = n * 128" and "length out = n * 127" and "0 < s"
    and "\<forall>t\<in>set ts. s * Suc t \<le> n"
  shows "mt_threads ps (s * 128) (\<lambda>u p. map_option (\<lambda>u. (u, p)) (unpad u p)) ts (out, inp)
    = Some (shares (s * 127) ts (unpadded_at inp) out, inp)"
  using assms(3,5)
proof (induction ts arbitrary: out)
  case (Cons t ts)
  have e: "s * 127 * t = s * t * 127" by simp
  from Cons show ?case
    using shares_step[of "s * 127" ts "unpadded_at inp" t out, unfolded e] assms(4)
    by (simp add: mt_unpad_step[OF assms(1,2)] del: mt_threads.simps)
qed simp

lemma goroutines_cover:
  assumes "MTTresh < 2 ^ k"
  obtains s where "0 < s" and "2 ^ k = s * mtChunkCount numCPU (2 ^ k) * 128"
proof -
  obtain a where a: "mtChunkCount numCPU (2 ^ k) = 2 ^ a" "a + 19 \<le> k"
    using mtChunkCount_power[OF assms] by blast
  define d where "d = k - a - 7"
  have "k = d + a + 7" using a(2) by (simp add: d_def)
  then have "(2 :: nat) ^ k = 2 ^ d * 2 ^ a * 128" by (simp add: power_add)
  then have "2 ^ k = 2 ^ d * mtChunkCount numCPU (2 ^ k) * 128" unfolding a(1) .
  then show ?thesis by (rule that[rotated]) simp
qed

lemma Pad_spec:
  assumes "sizes_ok ps" and "schedules sched" and "2 ^ k = n * 128" and "length inp = n * 127"
    and "length out = n * 128"
  shows "Pad ps numCPU sched inp out = Some (padded inp)"
proof (cases "MTTresh < 2 ^ k")
  case True
  then obtain s where s: "0 < s" "2 ^ k = s * mtChunkCount numCPU (2 ^ k) * 128" by (rule goroutines_cover)
  let ?m = "mtChunkCount numCPU (2 ^ k)"
  have n: "n = s * ?m" using s assms(3) by simp
  have m: "0 < ?m" using s by (metis mult_0_right mult_is_0 neq0_conv power_not_zero zero_neq_numeral)
  have sched: "set (sched ?m) = {0..<?m}" using assms(2) by (simp add: schedules_def)
  have "\<forall>t\<in>set (sched ?m). s * Suc t \<le> n" using sched n by (auto intro!: mult_le_mono2 simp del: mult_Suc_right)
  note all = mt_pad_all[OF assms(1,4,5) s(1) this]
  have div: "n * 128 div ?m = s * 128" using m by (simp add: n)
  have "shares (s * 128) (sched ?m) (padded_at inp) out = map (padded_at inp) [0..<s * 128 * ?m]"
    using sched assms(5) n by (intro shares_all) simp_all
  also have "s * 128 * ?m = length inp div 127 * 128" by (simp add: assms(4) n)
  finally show ?thesis
    using True all div assms(3,5) by (simp add: Pad_def mt_def Let_def padded_def del: upt.simps)
next
  case False
  then show ?thesis
    using assms(3) pad_spec[OF assms(4,5)] assms(4,5) by (simp add: Pad_def padded_def del: upt.simps)
qed

lemma Unpad_spec:
  assumes "sizes_ok ps" and "schedules sched" and "2 ^ k = n * 128" and "length inp = n * 128"
    and "length out = n * 127"
  shows "Unpad ps numCPU sched inp out = Some (unpadded inp)"
proof (cases "MTTresh < 2 ^ k")
  case True
  then obtain s where s: "0 < s" "2 ^ k = s * mtChunkCount numCPU (2 ^ k) * 128" by (rule goroutines_cover)
  let ?m = "mtChunkCount numCPU (2 ^ k)"
  have n: "n = s * ?m" using s assms(3) by simp
  have m: "0 < ?m" using s by (metis mult_0_right mult_is_0 neq0_conv power_not_zero zero_neq_numeral)
  have sched: "set (sched ?m) = {0..<?m}" using assms(2) by (simp add: schedules_def)
  have "\<forall>t\<in>set (sched ?m). s * Suc t \<le> n" using sched n by (auto intro!: mult_le_mono2 simp del: mult_Suc_right)
  note all = mt_unpad_all[OF assms(1,4,5) s(1) this]
  have div: "n * 128 div ?m = s * 128" using m by (simp add: n)
  have "shares (s * 127) (sched ?m) (unpadded_at inp) out = map (unpadded_at inp) [0..<s * 127 * ?m]"
    using sched assms(5) n by (intro shares_all) simp_all
  also have "s * 127 * ?m = length inp div 128 * 127" by (simp add: assms(4) n)
  finally show ?thesis
    using True all div assms(3,4) by (simp add: Unpad_def mt_def Let_def unpadded_def del: upt.simps)
next
  case False
  then show ?thesis
    using assms(3) unpad_spec[OF assms(4,5)] assms(4,5) by (simp add: Unpad_def unpadded_def del: upt.simps)
qed


subsection \<open>Sub-pieces\<close>

text \<open>\<open>bits.OnesCount64\<close> and \<open>bits.TrailingZeros64\<close>\<close>

fun onesCount :: "nat \<Rightarrow> nat" where
  "onesCount w = (if w = 0 then 0 else w mod 2 + onesCount (w div 2))"

fun trailingZeros :: "nat \<Rightarrow> nat" where
  "trailingZeros w = (if w = 0 then 64 else if odd w then 0 else Suc (trailingZeros (w div 2)))"

declare onesCount.simps [simp del] and trailingZeros.simps [simp del]

text \<open>The loop over \<open>out\<close>: the lowest bit of \<open>w\<close> is the next size and is cleared.\<close>

fun pieces_loop :: "(nat \<Rightarrow> nat) \<Rightarrow> nat \<Rightarrow> nat \<Rightarrow> nat list" where
  "pieces_loop unp 0 w = []"
| "pieces_loop unp (Suc n) w =
    (let psize = 2 ^ trailingZeros w in unp psize # pieces_loop unp n (w XOR psize))"

definition subPieces :: "piece_sizes \<Rightarrow> nat \<Rightarrow> nat list" where
  "subPieces ps inp = (let w = Padded ps inp in pieces_loop (Unpadded ps) (onesCount w) w)"

definition fillersFromRem :: "piece_sizes \<Rightarrow> nat \<Rightarrow> nat list" where
  "fillersFromRem ps inp = (let toFill = inp + inp div 127 in pieces_loop (Unpadded ps) (onesCount toFill) toFill)"

text \<open>The sizes as powers of two, before they are converted.\<close>

definition powers :: "nat \<Rightarrow> nat list" where
  "powers w = pieces_loop (\<lambda>s. s) (onesCount w) w"

lemma pieces_loop_map: "pieces_loop unp n w = map unp (pieces_loop (\<lambda>s. s) n w)"
  by (induction n arbitrary: w) (simp_all add: Let_def)

lemma subPieces_powers: "subPieces ps n = map (Unpadded ps) (powers (Padded ps n))"
  by (simp add: subPieces_def powers_def Let_def pieces_loop_map[of "Unpadded ps"])

lemma fillersFromRem_powers: "fillersFromRem ps n = map (Unpadded ps) (powers (n + n div 127))"
  by (simp add: fillersFromRem_def powers_def Let_def pieces_loop_map[of "Unpadded ps"])

lemma onesCount_0 [simp]: "onesCount 0 = 0"
  by (simp add: onesCount.simps)

lemma onesCount_double [simp]: "onesCount (2 * v) = onesCount v"
  by (cases "v = 0") (simp_all add: onesCount.simps[of "2 * v"])

lemma onesCount_odd [simp]: "onesCount (Suc (2 * v)) = Suc (onesCount v)"
  by (simp add: onesCount.simps[of "Suc (2 * v)"])

lemma onesCount_pos: "w \<noteq> 0 \<Longrightarrow> 0 < onesCount w"
proof (induction w rule: onesCount.induct)
  case (1 w)
  then show ?case
    by (cases "even w") (auto elim!: evenE oddE)
qed

lemma trailingZeros_double: "v \<noteq> 0 \<Longrightarrow> trailingZeros (2 * v) = Suc (trailingZeros v)"
  by (simp add: trailingZeros.simps[of "2 * v"])

lemma trailingZeros_odd [simp]: "trailingZeros (Suc (2 * v)) = 0"
  by (simp add: trailingZeros.simps)

lemma xor_double: "(2 * a) XOR (2 * b) = 2 * (a XOR (b :: nat))"
  by (simp add: xor_rec[of "2 * a"])

lemma xor_odd_1: "Suc (2 * v) XOR 1 = 2 * v"
  by (simp add: xor_rec[of "Suc (2 * v)"])

lemma onesCount_clear: "w \<noteq> 0 \<Longrightarrow> onesCount (w XOR 2 ^ trailingZeros w) = onesCount w - 1"
proof (induction w rule: onesCount.induct)
  case (1 w)
  show ?case
  proof (cases "even w")
    case True
    then obtain v where v: "w = 2 * v" "v \<noteq> 0" using "1.prems" by (auto elim: evenE)
    then show ?thesis using 1 by (simp add: trailingZeros_double xor_double)
  next
    case False
    then obtain v where v: "w = Suc (2 * v)" by (auto elim: oddE)
    then show ?thesis using xor_odd_1[of v] by simp
  qed
qed

lemma pieces_loop_double:
  "n \<le> onesCount v \<Longrightarrow> pieces_loop (\<lambda>s. s) n (2 * v) = map ((*) 2) (pieces_loop (\<lambda>s. s) n v)"
proof (induction n arbitrary: v)
  case (Suc n)
  then have "v \<noteq> 0" by (cases "v = 0") simp_all
  with Suc show ?case
    by (simp add: Let_def trailingZeros_double xor_double onesCount_clear)
qed simp

lemma powers_0 [simp]: "powers 0 = []"
  by (simp add: powers_def)

lemma powers_double [simp]: "powers (2 * v) = map ((*) 2) (powers v)"
  by (simp add: powers_def pieces_loop_double)

lemma powers_odd [simp]: "powers (Suc (2 * v)) = 1 # map ((*) 2) (powers v)"
  using xor_odd_1[of v] by (simp add: powers_def Let_def pieces_loop_double)

lemma sum_list_double: "sum_list (map ((*) 2) xs) = 2 * sum_list (xs :: nat list)"
  by (induction xs) simp_all

lemma powers_sum: "sum_list (powers w) = w"
  by (induction w rule: nat_bit_induct) (simp_all add: sum_list_double)

lemma powers_are_powers: "p \<in> set (powers w) \<Longrightarrow> \<exists>k. p = 2 ^ k"
proof (induction w arbitrary: p rule: nat_bit_induct)
  case (even v)
  then obtain q where q: "p = 2 * q" "q \<in> set (powers v)" by auto
  with even obtain k where "q = 2 ^ k" by blast
  with q show ?case by (intro exI[of _ "Suc k"]) simp
next
  case (odd v)
  show ?case
  proof (cases "p = 1")
    case True
    then show ?thesis by (intro exI[of _ 0]) simp
  next
    case False
    with odd obtain q where q: "p = 2 * q" "q \<in> set (powers v)" by auto
    with odd obtain k where "q = 2 ^ k" by blast
    with q show ?thesis by (intro exI[of _ "Suc k"]) simp
  qed
qed simp

lemma powers_sorted: "sorted_wrt (<) (powers w)"
proof (induction w rule: nat_bit_induct)
  case (odd v)
  have "1 < 2 * p" if "p \<in> set (powers v)" for p
  proof -
    have "0 < p" using powers_are_powers[OF that] by auto
    then show ?thesis by simp
  qed
  with odd show ?case by (auto simp: sorted_wrt_map)
qed (simp_all add: sorted_wrt_map)

lemma powers_last: "w \<noteq> 0 \<Longrightarrow> powers w \<noteq> [] \<and> last (powers w) = 2 ^ (bitLen w - 1)"
proof (induction w rule: nat_bit_induct)
  case (even v)
  then have "bitLen (2 * v) = Suc (bitLen v)" "bitLen v \<noteq> 0" by (simp_all add: bitLen.simps)
  with even show ?case by (cases "bitLen v") (simp_all add: last_map)
next
  case (odd v)
  have 1: "bitLen (Suc (2 * v)) = Suc (bitLen v)" by (simp add: bitLen.simps[of "Suc (2 * v)"])
  show ?case
  proof (cases "v = 0")
    case True
    then show ?thesis using powers_odd[of 0] by (simp add: bitLen.simps)
  next
    case False
    then have "bitLen v \<noteq> 0" by (simp add: bitLen.simps)
    with odd False 1 show ?thesis by (cases "bitLen v") (simp_all add: last_map)
  qed
qed simp

subsection \<open>The padding writer and the unpadding reader\<close>

text \<open>
  \<open>padWriter\<close>: what is left of earlier writes and the buffer, a list as long as its capacity. The destination
  is a state with its \<open>Write\<close>, which returns the number of bytes written and an error.
\<close>

record padWriter =
  stash :: "byte list"
  work :: "byte list"

type_synonym 'd writer = "'d \<Rightarrow> byte list \<Rightarrow> 'd \<times> nat \<times> string option"

definition NewPadWriter :: padWriter where
  "NewPadWriter = \<lparr>stash = [], work = []\<rparr>"

text \<open>The machine the code runs on: its processors and the order in which goroutines run.\<close>

record machine =
  sizes :: piece_sizes
  cpus :: nat
  sched :: "nat \<Rightarrow> nat list"

definition grow_work :: "padWriter \<Rightarrow> nat \<Rightarrow> byte list" where
  "grow_work w bp = (if length (work w) < bp then replicate bp 0 else work w)"

text \<open>
  The loop of \<open>Write\<close>, for a write of \<open>plen\<close> bytes. \<^term>\<open>None\<close> is a panic or a loop that does not end.
\<close>

partial_function (option) padWriter_loop ::
    "machine \<Rightarrow> 'd writer \<Rightarrow> nat \<Rightarrow> padWriter \<Rightarrow> 'd \<Rightarrow> byte list \<Rightarrow> (padWriter \<times> 'd \<times> nat \<times> string option) option" where
  "padWriter_loop mc write plen w dst inp = do {
     let pieces = subPieces (sizes mc) (length inp);
     biggest \<leftarrow> rd pieces (length pieces - 1);
     let bp = Padded (sizes mc) biggest;
     let buf = grow_work w bp;
     src \<leftarrow> slice inp 0 biggest;
     out \<leftarrow> slice buf 0 bp;
     out \<leftarrow> Pad (sizes mc) (cpus mc) (sched mc) src out;
     let w = w\<lparr>work := copy_at buf 0 out\<rparr>;
     let (dst, n, err) = write dst out;
     if err \<noteq> None then Some (w, dst, Unpadded (sizes mc) n, err)
     else do {
       let inp = drop biggest inp;
       if length inp < 127 then Some (w\<lparr>stash := inp\<rparr>, dst, plen, None)
       else padWriter_loop mc write plen w dst inp
     }
   }"

definition padWriter_Write :: "machine \<Rightarrow> 'd writer \<Rightarrow> padWriter \<Rightarrow> 'd \<Rightarrow> byte list
    \<Rightarrow> (padWriter \<times> 'd \<times> nat \<times> string option) option" where
  "padWriter_Write mc write w dst p =
    (if length p + length (stash w) < 127 then Some (w\<lparr>stash := stash w @ p\<rparr>, dst, length p, None)
     else padWriter_loop mc write (length p) w dst (if stash w \<noteq> [] then stash w @ p else p))"

definition padWriter_Close :: "padWriter \<Rightarrow> padWriter \<times> string option" where
  "padWriter_Close w =
    (if length (stash w) > 0 then (w, Some ''still have unprocessed bytes'')
     else (\<lparr>stash = [], work = []\<rparr>, None))"


text \<open>
  \<open>unpadReader\<close>: its source is the bytes to come and the error after them. \<open>io.ReadAtLeast\<close> with a buffer of
  the size it must fill reads that many bytes, or what there is.
\<close>

datatype read_error = EOF | UnexpectedEOF | OtherError string

record unpadReader =
  src :: "byte list \<times> read_error"
  left :: nat
  rwork :: "byte list"

definition ReadAtLeast :: "byte list \<times> read_error \<Rightarrow> nat \<Rightarrow> byte list \<times> read_error option \<times> byte list \<times> read_error" where
  "ReadAtLeast s n =
    (let (data, err) = s in
     if n \<le> length data then (take n data, None, drop n data, err)
     else (data, Some (if data \<noteq> [] \<and> err = EOF then UnexpectedEOF else err), [], err))"

definition BufSize :: "nat \<Rightarrow> nat \<Rightarrow> nat" where
  "BufSize numCPU sz = MTTresh * mtChunkCount numCPU sz"

definition NewUnpadReaderBuf :: "machine \<Rightarrow> byte list \<times> read_error \<Rightarrow> nat \<Rightarrow> byte list \<Rightarrow> string + unpadReader" where
  "NewUnpadReaderBuf mc s sz buf =
    (if \<not> ValidSize (sizes mc) sz then Inl ''bad piece size'' else Inr \<lparr>src = s, left = sz, rwork = buf\<rparr>)"

definition NewUnpadReader :: "machine \<Rightarrow> byte list \<times> read_error \<Rightarrow> nat \<Rightarrow> string + unpadReader" where
  "NewUnpadReader mc s sz = NewUnpadReaderBuf mc s sz (replicate (BufSize (cpus mc) sz) 0)"

text \<open>\<open>1 << (63 - bits.LeadingZeros64(x))\<close>: the highest bit; for 0 the shift is negative, which panics.\<close>

definition highestBit :: "nat \<Rightarrow> nat option" where
  "highestBit x = (if x = 0 then None else Some (2 ^ (bitLen x - 1)))"

text \<open>The result of \<open>Read\<close>: the reader and the slice afterwards, the number of bytes and the error.\<close>

definition unpadReader_Read :: "machine \<Rightarrow> unpadReader \<Rightarrow> byte list
    \<Rightarrow> (unpadReader \<times> byte list \<times> nat \<times> read_error option) option" where
  "unpadReader_Read mc r out =
    (if left r = 0 then Some (r, out, 0, Some EOF)
     else do {
       let chunks = length out div 127;
       outTwoPow \<leftarrow> highestBit (chunks * 128);
       if \<not> ValidSize (sizes mc) outTwoPow
       then Some (r, out, 0, Some (OtherError ''output must be of valid padded piece size''))
       else do {
         todo \<leftarrow> (if left r < outTwoPow then highestBit (left r) else Some outTwoPow);
         let r = r\<lparr>left := left r - todo\<rparr>;
         _ \<leftarrow> slice (rwork r) 0 todo;
         let (data, err, s) = ReadAtLeast (src r) todo;
         let r = r\<lparr>src := s, rwork := copy_at (rwork r) 0 data\<rparr>;
         let n = length data;
         if err \<noteq> None \<and> err \<noteq> Some EOF then Some (r, out, n, err)
         else if n < todo then Some (r, out, 0, Some (OtherError ''did not read enough''))
         else do {
           inp \<leftarrow> slice (rwork r) 0 todo;
           o' \<leftarrow> slice out 0 (Unpadded (sizes mc) todo);
           o' \<leftarrow> Unpad (sizes mc) (cpus mc) (sched mc) inp o';
           Some (r, copy_at out 0 o', Unpadded (sizes mc) todo, err)
         }
       }
     })"

subsection \<open>What the writer writes\<close>

definition machine_ok :: "machine \<Rightarrow> bool" where
  "machine_ok mc \<longleftrightarrow> sizes_ok (sizes mc) \<and> schedules (sched mc)"

text \<open>A destination that takes everything.\<close>

definition append_writer :: "byte list writer" where
  "append_writer dst bs = (dst @ bs, length bs, None)"

lemma le_sum_list: "x \<in> set xs \<Longrightarrow> x \<le> sum_list (xs :: nat list)"
  by (induction xs) auto

lemma highest_power:
  assumes "w \<noteq> 0"
  shows "2 ^ (bitLen w - 1) \<le> w" and "w < 2 * 2 ^ (bitLen w - 1)"
proof -
  have "last (powers w) \<in> set (powers w)" using powers_last[OF assms] last_in_set by blast
  then show "2 ^ (bitLen w - 1) \<le> w"
    using le_sum_list[of "last (powers w)" "powers w"] powers_last[OF assms] by (simp add: powers_sum)
  have "bitLen w \<noteq> 0" using assms by (simp add: bitLen.simps)
  then show "w < 2 * 2 ^ (bitLen w - 1)" using bitLen_bound[of w] by (simp flip: power_Suc)
qed

lemma highest_power_chunks:
  assumes "128 \<le> w"
  obtains e where "bitLen w - 1 = e + 7" and "(2 :: nat) ^ (bitLen w - 1) = 2 ^ e * 128"
    and "2 ^ e \<le> w div 128"
proof -
  have "\<not> bitLen w \<le> 7" using assms bitLen_bound[of w] power_increasing[of "bitLen w" 7 "2 :: nat"] by force
  define e where "e = bitLen w - 8"
  have e: "bitLen w - 1 = e + 7" using \<open>\<not> bitLen w \<le> 7\<close> by (simp add: e_def)
  moreover have "(2 :: nat) ^ (e + 7) = 2 ^ e * 128" by (simp add: power_add)
  moreover have "2 ^ (e + 7) \<le> w" using highest_power(1)[of w] assms e by simp
  ultimately show ?thesis using that by (metis less_eq_div_iff_mult_less_eq zero_less_numeral)
qed

lemma biggest_piece:
  assumes "sizes_ok ps" and "127 \<le> n"
  obtains e where "rd (subPieces ps n) (length (subPieces ps n) - 1) = Some (2 ^ e * 127)"
    and "Padded ps (2 ^ e * 127) = 2 ^ e * 128" and "2 ^ e * 127 \<le> n"
proof -
  define w where "w = n + n div 127"
  have w: "128 \<le> w" using assms(2) div_le_mono[of 127 n 127] by (simp add: w_def)
  then obtain e where e: "(2 :: nat) ^ (bitLen w - 1) = 2 ^ e * 128" "2 ^ e \<le> w div 128"
    by (rule highest_power_chunks)
  have "Padded ps n = w" using assms(1) by (simp add: sizes_ok_def w_def)
  then have "subPieces ps n \<noteq> []" "last (subPieces ps n) = 2 ^ e * 127"
    using w powers_last[of w] e(1) assms(1) by (simp_all add: subPieces_powers last_map unpadded_multiple)
  moreover have "w div 128 = n div 127"
  proof -
    have "w = n div 127 * 128 + n mod 127" unfolding w_def using div_mult_mod_eq[of n 127] by linarith
    moreover have "n mod 127 < 128" by (rule less_trans[of _ 127]) simp_all
    ultimately show ?thesis by simp
  qed
  then have "2 ^ e * 127 \<le> n" using e(2) by (simp add: less_eq_div_iff_mult_less_eq)
  moreover have "Padded ps (2 ^ e * 127) = 2 ^ e * 128" using assms(1) by (simp add: sizes_ok_def)
  ultimately show ?thesis using that by (simp add: rd_def last_conv_nth)
qed

lemma padded_append:
  assumes "length xs = a * 127" and "length ys = b * 127"
  shows "padded (xs @ ys) = padded xs @ padded ys"
proof (rule nth_equalityI)
  show "length (padded (xs @ ys)) = length (padded xs @ padded ys)" using assms by simp
  fix j assume "j < length (padded (xs @ ys))"
  then have j: "j < (a + b) * 128" using assms by simp
  have len: "length (xs @ ys) = (a + b) * 127" using assms by simp
  have whole: "padded (xs @ ys) ! j = padded_at (xs @ ys) j" using j len by simp
  show "padded (xs @ ys) ! j = (padded xs @ padded ys) ! j"
  proof (cases "j < a * 128")
    case True
    then show ?thesis
      using padded_at_slice[OF len, of 0 a j] assms whole by (simp add: nth_append)
  next
    case False
    then have "j - a * 128 < b * 128" "a * 128 + (j - a * 128) = j" using j by simp_all
    then show ?thesis
      using padded_at_slice[OF len, of a b "j - a * 128"] assms whole False by (simp add: nth_append)
  qed
qed

lemma padded_prefix:
  assumes "a * 127 \<le> length xs"
  shows "padded (take (length xs div 127 * 127) xs)
    = padded (take (a * 127) xs) @ padded (take (length (drop (a * 127) xs) div 127 * 127) (drop (a * 127) xs))"
proof -
  define n where "n = length xs div 127"
  have an: "a \<le> n" using assms by (simp add: n_def less_eq_div_iff_mult_less_eq)
  have nl: "n * 127 \<le> length xs" by (simp add: n_def)
  have rest: "length (drop (a * 127) xs) div 127 = n - a"
  proof -
    obtain d where "length xs = a * 127 + d" using assms le_Suc_ex by blast
    then show ?thesis by (simp add: n_def)
  qed
  have "take (n * 127) xs = take (a * 127) xs @ take ((n - a) * 127) (drop (a * 127) xs)"
    using an by (metis add_diff_inverse_nat distrib_right not_less take_add)
  moreover have "length (take (a * 127) xs) = a * 127" "length (take ((n - a) * 127) (drop (a * 127) xs)) = (n - a) * 127"
    using assms nl an by (simp_all add: diff_mult_distrib)
  ultimately show ?thesis unfolding rest by (simp only: n_def[symmetric] padded_append)
qed

text \<open>One round of the loop writes the padding of the biggest piece; in the end fewer than 127 bytes are left.\<close>

lemma padWriter_loop_step:
  assumes ok: "machine_ok mc" and "127 \<le> length inp"
  obtains m w1 where "0 < m" and "m * 127 \<le> length inp" and "stash w1 = stash w"
    and "padWriter_loop mc append_writer plen w dst inp =
      (let inp' = drop (m * 127) inp; dst' = dst @ padded (take (m * 127) inp) in
       if length inp' < 127 then Some (w1\<lparr>stash := inp'\<rparr>, dst', plen, None)
       else padWriter_loop mc append_writer plen w1 dst' inp')"
proof -
  have sz: "sizes_ok (sizes mc)" and sch: "schedules (sched mc)" using ok by (simp_all add: machine_ok_def)
  obtain e where e: "rd (subPieces (sizes mc) (length inp)) (length (subPieces (sizes mc) (length inp)) - 1) = Some (2 ^ e * 127)"
      "Padded (sizes mc) (2 ^ e * 127) = 2 ^ e * 128" "2 ^ e * 127 \<le> length inp"
    using biggest_piece[OF sz assms(2)] .
  let ?buf = "grow_work w (2 ^ e * 128)"
  have buf: "2 ^ e * 128 \<le> length ?buf" by (simp add: grow_work_def)
  have "Pad (sizes mc) (cpus mc) (sched mc) (take (2 ^ e * 127) inp) (take (2 ^ e * 128) ?buf)
      = Some (padded (take (2 ^ e * 127) inp))"
    using e(3) buf by (intro Pad_spec[OF sz sch, of "e + 7"]) (simp_all add: power_add)
  then show ?thesis
    using e buf by (intro that[of "2 ^ e" "w\<lparr>work := copy_at ?buf 0 (padded (take (2 ^ e * 127) inp))\<rparr>"])
      (simp_all add: padWriter_loop.simps[of mc append_writer plen w dst inp] Let_def append_writer_def)
qed

lemma padWriter_loop_spec:
  assumes "machine_ok mc" and "127 \<le> length inp"
  shows "\<exists>w'. padWriter_loop mc append_writer plen w dst inp
      = Some (w', dst @ padded (take (length inp div 127 * 127) inp), plen, None)
    \<and> stash w' = drop (length inp div 127 * 127) inp"
  using assms(2)
proof (induction "length inp" arbitrary: inp w dst rule: less_induct)
  case less
  obtain m w1 where m: "0 < m" "m * 127 \<le> length inp" and step:
      "padWriter_loop mc append_writer plen w dst inp =
      (let inp' = drop (m * 127) inp; dst' = dst @ padded (take (m * 127) inp) in
       if length inp' < 127 then Some (w1\<lparr>stash := inp'\<rparr>, dst', plen, None)
       else padWriter_loop mc append_writer plen w1 dst' inp')"
    using padWriter_loop_step[OF assms(1) less.prems] by blast
  let ?inp' = "drop (m * 127) inp"
  have pre: "padded (take (length inp div 127 * 127) inp)
      = padded (take (m * 127) inp) @ padded (take (length ?inp' div 127 * 127) ?inp')"
    by (rule padded_prefix[OF m(2)])
  obtain d where "length inp = m * 127 + d" using m(2) le_Suc_ex by blast
  then have q: "length inp div 127 * 127 = m * 127 + length ?inp' div 127 * 127" by simp
  show ?case
  proof (cases "length ?inp' < 127")
    case True
    then have "length ?inp' div 127 = 0" by simp
    then show ?thesis using True step pre q by (simp add: Let_def padded_def del: length_drop)
  next
    case False
    have "length ?inp' < length inp" "127 \<le> length ?inp'" using m False by simp_all
    from less.hyps[OF this, of w1 "dst @ padded (take (m * 127) inp)"]
    obtain w' where "padWriter_loop mc append_writer plen w1 (dst @ padded (take (m * 127) inp)) ?inp'
        = Some (w', (dst @ padded (take (m * 127) inp)) @ padded (take (length ?inp' div 127 * 127) ?inp'), plen, None)"
        "stash w' = drop (length ?inp' div 127 * 127) ?inp'"
      by blast
    moreover have "drop (length inp div 127 * 127) inp = drop (length ?inp' div 127 * 127) ?inp'"
      unfolding q by (simp only: drop_drop add.commute)
    ultimately show ?thesis
      using False step unfolding pre by (simp add: Let_def del: length_drop)
  qed
qed

text \<open>A client that writes one slice after the other until an error.\<close>

fun write_all :: "machine \<Rightarrow> 'd writer \<Rightarrow> padWriter \<Rightarrow> 'd \<Rightarrow> byte list list \<Rightarrow> (padWriter \<times> 'd \<times> string option) option" where
  "write_all mc write w dst [] = Some (w, dst, None)"
| "write_all mc write w dst (p # ps) = do {
     (w, dst, n, err) \<leftarrow> padWriter_Write mc write w dst p;
     if err \<noteq> None then Some (w, dst, err) else write_all mc write w dst ps
   }"

abbreviation whole :: "byte list \<Rightarrow> nat" where
  "whole xs \<equiv> length xs div 127 * 127"

lemma padWriter_Write_spec:
  assumes "machine_ok mc" and "stash w = drop (whole xs) xs"
  shows "\<exists>w'. padWriter_Write mc append_writer w (padded (take (whole xs) xs)) p
      = Some (w', padded (take (whole (xs @ p)) (xs @ p)), length p, None)
    \<and> stash w' = drop (whole (xs @ p)) (xs @ p)"
proof -
  define q where "q = length xs div 127"
  have split: "length xs = q * 127 + length (stash w)" "length (stash w) < 127"
    using assms(2) by (simp_all add: q_def)
  have new: "stash w @ p = drop (q * 127) (xs @ p)" using assms(2) by (simp add: q_def)
  have old: "take (q * 127) (xs @ p) = take (whole xs) xs" using split(1) by (simp add: q_def)
  show ?thesis
  proof (cases "length p + length (stash w) < 127")
    case True
    then have "whole (xs @ p) = q * 127" using split(1) by simp
    then show ?thesis
      using True old new by (simp add: padWriter_Write_def)
  next
    case False
    then have "127 \<le> length (stash w @ p)" by simp
    from padWriter_loop_spec[OF assms(1) this, of "length p" w "padded (take (whole xs) xs)"]
    obtain w' where w': "padWriter_loop mc append_writer (length p) w (padded (take (whole xs) xs)) (stash w @ p)
        = Some (w', padded (take (whole xs) xs) @ padded (take (whole (stash w @ p)) (stash w @ p)), length p, None)"
        "stash w' = drop (whole (stash w @ p)) (stash w @ p)" by blast
    have "padded (take (whole (xs @ p)) (xs @ p))
        = padded (take (whole xs) xs) @ padded (take (whole (stash w @ p)) (stash w @ p))"
      unfolding new old[symmetric] using split(1) by (intro padded_prefix) simp
    moreover have "drop (whole (xs @ p)) (xs @ p) = drop (whole (stash w @ p)) (stash w @ p)"
    proof -
      have "whole (xs @ p) = q * 127 + whole (stash w @ p)" using split(1) by (simp add: add.assoc)
      then show ?thesis by (simp only: new drop_drop add.commute)
    qed
    moreover have "(if stash w \<noteq> [] then stash w @ p else p) = stash w @ p" by simp
    ultimately show ?thesis
      using False w' by (simp add: padWriter_Write_def)
  qed
qed

lemma write_all_spec:
  assumes "machine_ok mc" and "stash w = drop (whole xs) xs"
  shows "\<exists>w'. write_all mc append_writer w (padded (take (whole xs) xs)) ps
      = Some (w', padded (take (whole (xs @ concat ps)) (xs @ concat ps)), None)
    \<and> stash w' = drop (whole (xs @ concat ps)) (xs @ concat ps)"
  using assms(2)
proof (induction ps arbitrary: w xs)
  case (Cons p ps)
  obtain w1 where "padWriter_Write mc append_writer w (padded (take (whole xs) xs)) p
      = Some (w1, padded (take (whole (xs @ p)) (xs @ p)), length p, None)"
      "stash w1 = drop (whole (xs @ p)) (xs @ p)"
    using padWriter_Write_spec[OF assms(1) Cons.prems] by blast
  then show ?case using Cons.IH[of w1 "xs @ p"] by (simp)
qed simp


subsection \<open>What the reader reads\<close>

text \<open>A client that reads into one slice after the other until an error, and what it has read.\<close>

fun read_all :: "machine \<Rightarrow> unpadReader \<Rightarrow> byte list list \<Rightarrow> (unpadReader \<times> byte list \<times> read_error option) option" where
  "read_all mc r [] = Some (r, [], None)"
| "read_all mc r (out # outs) = do {
     (r, out, n, err) \<leftarrow> unpadReader_Read mc r out;
     if err \<noteq> None then Some (r, take n out, err)
     else do {
       (r, rest, err) \<leftarrow> read_all mc r outs;
       Some (r, take n out @ rest, err)
     }
   }"

text \<open>The reader has passed on \<open>d\<close> chunks of \<open>n\<close>.\<close>

definition reader_at :: "byte list \<Rightarrow> nat \<Rightarrow> nat \<Rightarrow> unpadReader \<Rightarrow> bool" where
  "reader_at data n d r \<longleftrightarrow> length data = n * 128 \<and> d \<le> n \<and> fst (src r) = drop (d * 128) data \<and> left r = (n - d) * 128"

lemma unpadded_slice:
  assumes "length data = n * 128" and "d + q \<le> n"
  shows "unpadded (take (q * 128) (drop (d * 128) data)) = take (q * 127) (drop (d * 127) (unpadded data))"
proof (rule nth_equalityI)
  have le: "(d + q) * 127 \<le> n * 127" "(d + q) * 128 \<le> n * 128" using assms(2) by (simp_all only: mult_le_mono1)
  have part: "take (q * 128) (drop (d * 128) data) = drop (d * 128) (take ((d + q) * 128) data)"
    by (simp add: drop_take distrib_right)
  show "length (unpadded (take (q * 128) (drop (d * 128) data))) = length (take (q * 127) (drop (d * 127) (unpadded data)))"
    using assms le by simp
  fix i assume "i < length (unpadded (take (q * 128) (drop (d * 128) data)))"
  then have i: "i < q * 127" using assms le by simp
  have "d * 127 + i < n * 127" using i le by simp
  then have "take (q * 127) (drop (d * 127) (unpadded data)) ! i = unpadded_at data (d * 127 + i)"
    using i assms(1) by simp
  moreover have "unpadded (take (q * 128) (drop (d * 128) data)) ! i
      = unpadded_at (drop (d * 128) (take ((d + q) * 128) data)) i"
    unfolding part using i assms(1) le by (intro nth_unpadded) simp
  ultimately show "unpadded (take (q * 128) (drop (d * 128) data)) ! i = take (q * 127) (drop (d * 127) (unpadded data)) ! i"
    using unpadded_at_slice[OF assms(1,2) i] by (simp only:)
qed

lemma highestBit_chunks:
  assumes "0 < m"
  obtains e where "highestBit (m * 128) = Some (2 ^ e * 128)" and "2 ^ e \<le> m"
  using highest_power_chunks[of "m * 128"] assms by (force simp: highestBit_def)

lemma Read_todo:
  assumes sz: "sizes_ok ps" and "0 < n" and big: "127 \<le> length out"
  obtains p g where "highestBit (length out div 127 * 128) = Some p" and "ValidSize ps p"
    and "(if n * 128 < p then highestBit (n * 128) else Some p) = Some (2 ^ g * 128)"
    and "2 ^ g \<le> n" and "2 ^ g \<le> length out div 127"
proof -
  have "0 < length out div 127" using big by (simp add: div_greater_zero_iff)
  then obtain e where e: "highestBit (length out div 127 * 128) = Some (2 ^ e * 128)" "2 ^ e \<le> length out div 127"
    by (rule highestBit_chunks)
  have "ValidSize ps (2 ^ (e + 7))" using sz le_add2 unfolding sizes_ok_def by blast
  then have valid: "ValidSize ps (2 ^ e * 128)" by (simp add: power_add)
  obtain f where f: "highestBit (n * 128) = Some (2 ^ f * 128)" "2 ^ f \<le> n"
    using highestBit_chunks[OF assms(2)] .
  show ?thesis
  proof (cases "n * 128 < 2 ^ e * 128")
    case True
    then show ?thesis using e f by (intro that[OF e(1) valid, of f]) simp_all
  next
    case False
    then show ?thesis using e by (intro that[OF e(1) valid, of e]) simp_all
  qed
qed

lemma take_copy_at: "length ys = k \<Longrightarrow> k \<le> length xs \<Longrightarrow> take k (copy_at xs 0 ys) = ys"
  by (auto simp: copy_at_def)

lemma Read_step:
  assumes ok: "machine_ok mc" and at: "reader_at data n d r" and more: "d < n"
    and big: "127 \<le> length out" and fits: "length out div 127 * 128 \<le> length (rwork r)"
  obtains q r' out' where "0 < q" and "unpadReader_Read mc r out = Some (r', out', q * 127, None)"
    and "take (q * 127) out' = take (q * 127) (drop (d * 127) (unpadded data))"
    and "reader_at data n (d + q) r'" and "length (rwork r') = length (rwork r)" and "q * 127 \<le> length out'"
proof -
  have sz: "sizes_ok (sizes mc)" and sch: "schedules (sched mc)" using ok by (simp_all add: machine_ok_def)
  have left: "left r = (n - d) * 128" "0 < n - d" using at more by (simp_all add: reader_at_def)
  obtain p g where p: "highestBit (length out div 127 * 128) = Some p" "ValidSize (sizes mc) p"
    and todo: "(if left r < p then highestBit (left r) else Some p) = Some (2 ^ g * 128)"
    and g: "2 ^ g \<le> n - d" "2 ^ g \<le> length out div 127"
    using Read_todo[OF sz left(2) big] unfolding left(1) .
  define q :: nat where "q = 2 ^ g"
  note todo' = todo[folded q_def] and q = g[folded q_def]
  have dq: "d + q \<le> n" using q(1) more by simp
  let ?data = "take (q * 128) (drop (d * 128) data)"
  have read: "ReadAtLeast (src r) (q * 128) = (?data, None, drop (q * 128) (drop (d * 128) data), snd (src r))"
    using at dq by (cases "src r") (auto simp: ReadAtLeast_def reader_at_def diff_mult_distrib)
  have work: "q * 128 \<le> length (rwork r)" using q(2) fits by (meson le_trans mult_le_mono1)
  have outl: "q * 127 \<le> length out" using q(2) by (simp add: less_eq_div_iff_mult_less_eq)
  have len: "length ?data = q * 128" using at dq by (simp add: reader_at_def diff_mult_distrib)
  have "Unpad (sizes mc) (cpus mc) (sched mc) ?data (take (q * 127) out) = Some (unpadded ?data)"
    using len outl by (intro Unpad_spec[OF sz sch, of "g + 7"]) (simp_all add: q_def power_add)
  moreover have unp: "unpadded ?data = take (q * 127) (drop (d * 127) (unpadded data))"
    using at dq by (intro unpadded_slice) (simp_all add: reader_at_def)
  moreover have "take (q * 128) (copy_at (rwork r) 0 ?data) = ?data"
    using len work by (rule take_copy_at)
  ultimately have eq: "unpadReader_Read mc r out = Some
      (r\<lparr>left := left r - q * 128, src := (drop (q * 128) (drop (d * 128) data), snd (src r)), rwork := copy_at (rwork r) 0 ?data\<rparr>,
       copy_at out 0 (unpadded ?data), q * 127, None)"
    using left p todo' read work outl len unpadded_multiple[OF sz, of q]
    by (simp add: unpadReader_Read_def Let_def del: length_take length_drop take_all_iff drop_drop)
  show ?thesis
  proof (rule that[OF _ eq])
    show "take (q * 127) (copy_at out 0 (unpadded ?data)) = take (q * 127) (drop (d * 127) (unpadded data))"
      unfolding unp[symmetric] using len outl by (intro take_copy_at) simp_all
  qed (use at dq outl work in \<open>simp_all add: q_def reader_at_def diff_mult_distrib distrib_right add.commute\<close>)
qed

text \<open>Reading on gives the rest of the data, and then the end of the file.\<close>

lemma read_all_spec:
  assumes "machine_ok mc" and "reader_at data n d r"
    and "\<forall>out\<in>set outs. 127 \<le> length out \<and> length out div 127 * 128 \<le> length (rwork r)"
  shows "\<exists>r' k e. read_all mc r outs = Some (r', take k (drop (d * 127) (unpadded data)), e)
    \<and> (n - d < length outs \<longrightarrow> n * 127 \<le> d * 127 + k \<and> e = Some EOF)"
  using assms(2,3)
proof (induction outs arbitrary: r d)
  case (Cons out outs)
  show ?case
  proof (cases "d < n")
    case True
    obtain q r' out' where q: "0 < q" and rd: "unpadReader_Read mc r out = Some (r', out', q * 127, None)"
      and out': "take (q * 127) out' = take (q * 127) (drop (d * 127) (unpadded data))"
      and at: "reader_at data n (d + q) r'" and len: "length (rwork r') = length (rwork r)"
      using Read_step[OF assms(1) Cons.prems(1) True, of out] Cons.prems(2) by (metis list.set_intros(1))
    from Cons.IH[OF at] Cons.prems(2) len obtain r'' k e where
      rest: "read_all mc r' outs = Some (r'', take k (drop ((d + q) * 127) (unpadded data)), e)"
        "n - (d + q) < length outs \<longrightarrow> n * 127 \<le> (d + q) * 127 + k \<and> e = Some EOF"
      by auto
    have "take (q * 127) (drop (d * 127) (unpadded data)) @ take k (drop ((d + q) * 127) (unpadded data))
        = take (q * 127 + k) (drop (d * 127) (unpadded data))"
      by (simp only: take_add drop_drop distrib_right add.commute[of "d * 127"])
    moreover have "n - d < length (out # outs) \<Longrightarrow> n - (d + q) < length outs" using q True by simp
    ultimately show ?thesis
      using rd rest out'
      by (intro exI[of _ r''] exI[of _ "q * 127 + k"] exI[of _ e]) (auto simp: distrib_right simp del: drop_drop)
  next
    case False
    then have "left r = 0" using Cons.prems(1) by (simp add: reader_at_def)
    with False show ?thesis
      by (intro exI[of _ r] exI[of _ 0] exI[of _ "Some EOF"]) (simp add: unpadReader_Read_def)
  qed
qed (auto intro!: exI[of _ 0])

subsection \<open>Properties\<close>

lemma powers_chunks: "powers (n * 128) = map (\<lambda>p. p * 128) (powers n)"
proof -
  have "n * 128 = 2 * (2 * (2 * (2 * (2 * (2 * (2 * n))))))" by simp
  then show ?thesis by (simp only: powers_double map_map) (simp add: comp_def mult.commute)
qed

text \<open>An instance of the parameters, for the witnesses: the sizes as documented, goroutines in reverse order.\<close>

definition example_machine :: machine where
  "example_machine = \<lparr>
     sizes = \<lparr>Padded = (\<lambda>s. s + s div 127), Unpadded = (\<lambda>s. s - s div 128), ValidSize = (\<lambda>s. 128 \<le> s \<and> s = 2 ^ (bitLen s - 1))\<rparr>,
     cpus = 4, sched = (\<lambda>n. rev [0..<n])\<rparr>"

lemma bitLen_power: "bitLen (2 ^ k) = Suc k"
proof -
  have "bitLen (2 ^ k) \<le> Suc k" by (rule bitLen_least) simp
  moreover have "\<not> bitLen (2 ^ k) \<le> k"
    using bitLen_bound[of "2 ^ k"] power_increasing[of "bitLen (2 ^ k)" k "2 :: nat"] by force
  ultimately show ?thesis by simp
qed

lemma example_machine_ok: "machine_ok example_machine"
proof -
  have "(128 \<le> s \<and> s = 2 ^ (bitLen s - 1)) = (\<exists>k\<ge>7. s = 2 ^ k)" for s :: nat
  proof
    assume s: "128 \<le> s \<and> s = 2 ^ (bitLen s - 1)"
    then obtain e where "bitLen s - 1 = e + 7" using highest_power_chunks[of s] by blast
    with s show "\<exists>k\<ge>7. s = 2 ^ k" by (metis le_add2)
  next
    assume "\<exists>k\<ge>7. s = 2 ^ k"
    then obtain k where k: "7 \<le> k" "s = 2 ^ k" by blast
    then show "128 \<le> s \<and> s = 2 ^ (bitLen s - 1)"
      using power_increasing[of 7 k "2 :: nat"] by (simp add: bitLen_power)
  qed
  then show ?thesis by (simp add: example_machine_def machine_ok_def sizes_ok_def schedules_def)
qed

text \<open>C33. Padding inserts two zero bits after every 254 bits of the input, whatever the output slice held.\<close>

theorem pad_inserts_zero_bits:
  assumes "length inp = n * 127" and "length out = n * 128"
  shows "\<exists>y. pad inp out = Some y \<and> length y = n * 128 \<and> bits_of y = pad_bits (bits_of inp)"
  using pad_spec[OF assms] bits_of_padded[OF assms(1)] by simp

theorem pad_inserts_zero_bits_witness:
  "\<exists>y. pad (replicate 127 0xff) (replicate 128 1) = Some y \<and> length y = 1 * 128 \<and>
    bits_of y = pad_bits (bits_of (replicate 127 0xff))"
  by (rule pad_inserts_zero_bits) simp_all

text \<open>
  C35. What \<open>pad\<close> writes is a sequence of field elements: every 32 bytes are, as a number with the least
  significant byte first, below \<open>2 ^ 254\<close>.
\<close>

theorem pad_gives_field_elements:
  assumes "length inp = n * 127" and "length out = n * 128"
  shows "\<exists>y. pad inp out = Some y \<and> field_elements y"
  using pad_spec[OF assms] field_elements_padded[of inp] assms(1) by (simp add: padded_def)

theorem pad_gives_field_elements_witness:
  "\<exists>y. pad (replicate 254 0xff) (replicate 256 0) = Some y \<and> field_elements y"
  by (rule pad_gives_field_elements[of _ 2]) simp_all

text \<open>
  C34. \<open>unpad\<close> and \<open>pad\<close> are inverse to each other: unpadding what was padded gives the data back, and padding
  what was unpadded gives back every sequence of field elements.
\<close>

theorem pad_unpad_inverse:
  assumes "length x = n * 127" and "length x' = n * 127" and "length y = n * 128" and "length y' = n * 128"
  shows "(pad x y \<bind> unpad x') = Some x
    \<and> (field_elements y \<longrightarrow> (unpad x y \<bind> (\<lambda>u. pad u y')) = Some y)"
proof (intro conjI impI)
  have "pad x y = Some (padded x)" using pad_spec[OF assms(1,3)] assms(1) by (simp add: padded_def)
  moreover have "unpad x' (padded x) = Some (unpadded (padded x))"
    using unpad_spec[of "padded x" n x'] assms(1,2) by (simp add: unpadded_def)
  ultimately show "(pad x y \<bind> unpad x') = Some x" using unpadded_padded[OF assms(1)] by simp
  assume fe: "field_elements y"
  have "unpad x y = Some (unpadded y)" using unpad_spec[OF assms(3,1)] assms(3) by (simp add: unpadded_def)
  moreover have "pad (unpadded y) y' = Some (padded (unpadded y))"
    using pad_spec[of "unpadded y" n y'] assms(3,4) by (simp add: padded_def)
  ultimately show "(unpad x y \<bind> (\<lambda>u. pad u y')) = Some y" using padded_unpadded[OF assms(3) fe] by simp
qed

lemma field_elements_zero: "field_elements (replicate k 0)"
  by (simp add: field_elements_iff)

theorem pad_unpad_inverse_witness:
  "(pad (replicate 127 7) (replicate 128 0) \<bind> unpad (replicate 127 0)) = Some (replicate 127 7)
   \<and> (unpad (replicate 127 7) (replicate 128 0) \<bind> (\<lambda>u. pad u (replicate 128 1))) = Some (replicate 128 0)"
  using pad_unpad_inverse[of "replicate 127 7" 1 "replicate 127 0" "replicate 128 0" "replicate 128 1"]
    field_elements_zero[of 128] by simp



text \<open>
  The sizes \<open>subPieces\<close> and \<open>fillersFromRem\<close> give for a number of chunks are, as padded sizes, powers of
  two in increasing order that add up to the padded size of the whole.
\<close>

theorem sub_pieces_fill:
  assumes "sizes_ok ps"
  shows "let pieces = subPieces ps (n * 127) in
    pieces = fillersFromRem ps (n * 127) \<and> sum_list (map (Padded ps) pieces) = n * 128
    \<and> sorted_wrt (<) (map (Padded ps) pieces) \<and> (\<forall>s\<in>set pieces. ValidSize ps (Padded ps s))"
proof -
  have "n * 127 + n * 127 div 127 = n * 128" by simp
  moreover from this have "Padded ps (n * 127) = n * 128" using assms by (simp only: sizes_ok_def)
  ultimately have "subPieces ps (n * 127) = map (\<lambda>p. p * 127) (powers n)"
    "fillersFromRem ps (n * 127) = map (\<lambda>p. p * 127) (powers n)"
    by (simp_all only: subPieces_powers fillersFromRem_powers powers_chunks map_map)
      (simp_all add: comp_def unpadded_multiple[OF assms])
  moreover have padded: "map (Padded ps) (map (\<lambda>p. p * 127) (powers n)) = map (\<lambda>p. p * 128) (powers n)"
    using assms by (simp add: sizes_ok_def)
  moreover have "sum_list (map (\<lambda>p. p * 128) (powers n)) = n * 128"
    by (simp add: sum_list_mult_const powers_sum)
  moreover have "sorted_wrt (<) (map (\<lambda>p. p * 128) (powers n))"
    using powers_sorted[of n] by (simp add: sorted_wrt_map)
  moreover have "ValidSize ps (Padded ps (p * 127))" if "p \<in> set (powers n)" for p
  proof -
    from that have "\<exists>k. p = 2 ^ k" by (rule powers_are_powers)
    then obtain k where "p = 2 ^ k" by blast
    then have "p + p * 127 = 2 ^ (k + 7)" by (simp add: power_add)
    then show ?thesis using assms by (auto simp: sizes_ok_def intro!: exI[of _ "k + 7"])
  qed
  ultimately show ?thesis by (simp add: Let_def del: map_map)
qed

theorem sub_pieces_fill_witness:
  "let ps = sizes example_machine; pieces = subPieces ps (5 * 127) in
    pieces = fillersFromRem ps (5 * 127) \<and> sum_list (map (Padded ps) pieces) = 5 * 128
    \<and> sorted_wrt (<) (map (Padded ps) pieces) \<and> (\<forall>s\<in>set pieces. ValidSize ps (Padded ps s))"
  unfolding Let_def by (rule sub_pieces_fill[unfolded Let_def])
    (use example_machine_ok in \<open>simp add: machine_ok_def\<close>)

text \<open>
  C37. A padding writer passes on the padding of everything written to it, however the data is cut into
  writes: after each write all whole chunks of 127 bytes are in the destination, fewer than 127 bytes are
  kept back, and closing succeeds exactly if nothing is kept back.
\<close>

theorem pad_writer_streams:
  assumes "machine_ok mc"
  shows "\<exists>w. write_all mc append_writer NewPadWriter [] ps
      = Some (w, padded (take (whole (concat ps)) (concat ps)), None)
    \<and> stash w = drop (whole (concat ps)) (concat ps)
    \<and> (snd (padWriter_Close w) = None \<longleftrightarrow> 127 dvd length (concat ps))"
proof -
  have "stash NewPadWriter = drop (whole []) []" "padded (take (whole []) []) = []"
    by (simp_all add: NewPadWriter_def padded_def)
  from write_all_spec[OF assms this(1), of ps] this(2)
  obtain w where w: "write_all mc append_writer NewPadWriter [] ps
      = Some (w, padded (take (whole (concat ps)) (concat ps)), None)"
      "stash w = drop (whole (concat ps)) (concat ps)" by auto
  moreover have "length (stash w) = length (concat ps) mod 127"
    by (simp only: w(2) length_drop minus_div_mult_eq_mod)
  ultimately show ?thesis
    by (auto simp: padWriter_Close_def dvd_eq_mod_eq_0)
qed

theorem pad_writer_streams_witness:
  "\<exists>w. write_all example_machine append_writer NewPadWriter [] [replicate 100 1, replicate 200 2, replicate 81 3]
      = Some (w, padded (replicate 100 1 @ replicate 200 2 @ replicate 81 3), None)
    \<and> snd (padWriter_Close w) = None"
  using pad_writer_streams[OF example_machine_ok, of "[replicate 100 1, replicate 200 2, replicate 81 3]"] by auto

text \<open>
  An unpadding reader of a valid size returns the data that was padded, whatever slices of at least 127
  bytes the client reads into, as long as its buffer is as big as they are: what was read is a beginning of
  the data, and a client that goes on gets all of it and then the end of the file.
\<close>

theorem unpad_reader_streams:
  assumes "machine_ok mc" and "NewUnpadReaderBuf mc (y, err) (length y) buf = Inr r"
    and "\<forall>out\<in>set outs. 127 \<le> length out \<and> length out div 127 * 128 \<le> length buf"
  shows "\<exists>r' k e. read_all mc r outs = Some (r', take k (unpadded y), e)
    \<and> (length y div 128 < length outs \<longrightarrow> take k (unpadded y) = unpadded y \<and> e = Some EOF)"
proof -
  have "ValidSize (sizes mc) (length y)" and r: "r = \<lparr>src = (y, err), left = length y, rwork = buf\<rparr>"
    using assms(2) by (simp_all add: NewUnpadReaderBuf_def split: if_splits)
  then obtain k where "7 \<le> k" "length y = 2 ^ k" using assms(1) by (auto simp: machine_ok_def sizes_ok_def)
  then have "length y = 2 ^ (k - 7) * 2 ^ 7" by (simp only: power_add[symmetric]) simp
  then have "reader_at y (length y div 128) 0 r" by (simp add: reader_at_def r)
  from read_all_spec[OF assms(1) this, of outs] assms(3) r show ?thesis by auto
qed

theorem unpad_reader_streams_witness:
  "\<exists>r r' k e. NewUnpadReaderBuf example_machine (replicate 256 9, EOF) 256 (replicate 256 0) = Inr r
    \<and> read_all example_machine r [replicate 130 0, replicate 254 0, replicate 127 0] = Some (r', take k (unpadded (replicate 256 9)), e)
    \<and> take k (unpadded (replicate 256 9)) = unpadded (replicate 256 9) \<and> e = Some EOF"
proof -
  obtain r where r: "NewUnpadReaderBuf example_machine (replicate 256 9, EOF) 256 (replicate 256 0) = Inr r"
    using bitLen_power[of 8] by (simp add: NewUnpadReaderBuf_def example_machine_def)
  with unpad_reader_streams[OF example_machine_ok, of "replicate 256 9" EOF "replicate 256 0" r
      "[replicate 130 0, replicate 254 0, replicate 127 0]"]
  show ?thesis by simp
qed

subsection \<open>Limits of the interface\<close>

text \<open>
  Reading into a slice of fewer than 127 bytes does not give the error for bad sizes but panics: there is
  no highest bit of zero chunks. Reading into a slice for more chunks than the buffer holds panics as well.
\<close>

lemma short_read_panics: "left r \<noteq> 0 \<Longrightarrow> length out < 127 \<Longrightarrow> unpadReader_Read mc r out = None"
  by (simp add: unpadReader_Read_def Let_def highestBit_def)

lemma read_beyond_buffer_panics:
  assumes "sizes_ok (sizes mc)" and "left r = 2 ^ (Suc e) * 128" and "length out = 2 ^ (Suc e) * 127"
    and "length (rwork r) = 2 ^ e * 128"
  shows "unpadReader_Read mc r out = None"
proof -
  have "highestBit (2 ^ (Suc e + 7)) = Some (2 ^ (Suc e + 7))"
    by (simp only: highestBit_def bitLen_power) simp
  then have 1: "highestBit (2 ^ Suc e * 128) = Some (2 ^ Suc e * 128)" by (simp add: power_add)
  have "ValidSize (sizes mc) (2 ^ (Suc e + 7))" using assms(1) le_add2 unfolding sizes_ok_def by blast
  then have "ValidSize (sizes mc) (2 ^ Suc e * 128)" by (simp add: power_add)
  then show ?thesis using assms(2-4) 1 by (simp add: unpadReader_Read_def Let_def slice_def)
qed

end
