(* ===== verification/IndexLocks.thy ===== *)
theory IndexLocks
  imports GoSlice "HOL-Library.Multiset"
begin

section \<open>Locks on the files of sectors (\<open>storage/paths/index_locks.go\<close>)\<close>

text \<open>
  Workers lock the files of a sector for reading or writing through the sector index; a lock is given back
  when the context of the request is done. The theory models \<open>sectorLock\<close> with its counters and its bit mask,
  the condition variable of \<open>index_locks_util.go\<close>, and the table of locks. A request is a goroutine; the steps
  of the requests interleave, each step being what the code does under one mutex.
\<close>

subsection \<open>File types (\<open>storage/sealer/storiface/filetype.go\<close>)\<close>

text \<open>\<open>SectorFileType\<close> is a Go \<open>int\<close> used as a set of bits.\<close>

type_synonym file_type = int

definition FileTypes :: nat where
  "FileTypes = 5"

definition FTNone :: file_type where "FTNone = 0"
definition FTUnsealed :: file_type where "FTUnsealed = 1"
definition FTSealed :: file_type where "FTSealed = 2"
definition FTCache :: file_type where "FTCache = 4"
definition FTUpdate :: file_type where "FTUpdate = 8"
definition FTUpdateCache :: file_type where "FTUpdateCache = 16"

definition All :: "file_type \<Rightarrow> bool list" where
  "All t = map (\<lambda>i. t AND push_bit i 1 > 0) [0..<FileTypes]"

lemma and_exp_pos: "(t :: int) AND push_bit i 1 > 0 \<longleftrightarrow> bit t i"
proof -
  have "t AND push_bit i 1 = (if bit t i then push_bit i 1 else 0)"
    by (rule bit_eqI) (auto simp: bit_simps)
  then show ?thesis by simp
qed

lemma length_All [simp]: "length (All t) = FileTypes"
  by (simp add: All_def)

lemma nth_All [simp]: "i < FileTypes \<Longrightarrow> All t ! i \<longleftrightarrow> bit t i"
  by (simp add: All_def and_exp_pos del: push_bit_of_1)

subsection \<open>One lock\<close>

text \<open>
  \<open>notif\<close> is the channel of the condition variable; \<open>r\<close> and \<open>refs\<close> are unsigned 64-bit counters.
\<close>

record sectorLock =
  notif :: "nat option"
  r :: "64 word list"
  w :: file_type
  refs :: "64 word"

definition newSectorLock :: sectorLock where
  "newSectorLock = \<lparr>notif = None, r = replicate FileTypes 0, w = 0, refs = 0\<rparr>"

definition canLock :: "sectorLock \<Rightarrow> file_type \<Rightarrow> file_type \<Rightarrow> bool" where
  "canLock l read write \<longleftrightarrow>
    \<not> list_ex (\<lambda>(b, n). b \<and> n > 0) (zip (All write) (r l)) \<and> w l AND read = 0 \<and> w l AND write = 0"

definition tryLock :: "sectorLock \<Rightarrow> file_type \<Rightarrow> file_type \<Rightarrow> bool \<times> sectorLock" where
  "tryLock l read write =
    (if \<not> canLock l read write then (False, l)
     else (True, l\<lparr>r := map2 (\<lambda>set n. if set then n + 1 else n) (All read) (r l), w := w l OR write\<rparr>))"

definition unlock :: "sectorLock \<Rightarrow> file_type \<Rightarrow> file_type \<Rightarrow> sectorLock" where
  "unlock l read write =
    l\<lparr>r := map2 (\<lambda>set n. if set then n - 1 else n) (All read) (r l), w := w l AND NOT write\<rparr>"

subsection \<open>Requests and the table of locks\<close>

text \<open>
  Locks are shared by pointers: \<open>heap\<close> holds them, a pointer is a position in it.
  A request for a lock: its arguments, the lock it works on, whether it waits (\<open>lock\<close>) or not
  (\<open>tryLockSafe\<close>), and how far it is.
\<close>

datatype phase = Pending | Sleeping nat | Held | Failed | Released

record request =
  sector :: "nat \<times> nat"
  rread :: file_type
  rwrite :: file_type
  blocking :: bool
  slk :: nat
  phase :: phase

record indexLocks =
  locks :: "((nat \<times> nat) \<times> nat) list"
  heap :: "sectorLock list"
  closed :: "nat list"
  chans :: nat
  requests :: "request list"

definition newIndexLocks :: indexLocks where
  "newIndexLocks = \<lparr>locks = [], heap = [], closed = [], chans = 0, requests = []\<rparr>"

abbreviation lock_at :: "indexLocks \<Rightarrow> nat \<Rightarrow> sectorLock" where
  "lock_at s p \<equiv> heap s ! p"

definition set_lock :: "nat \<Rightarrow> sectorLock \<Rightarrow> indexLocks \<Rightarrow> indexLocks" where
  "set_lock p l s = s\<lparr>heap := (heap s)[p := l]\<rparr>"

definition set_request :: "nat \<Rightarrow> request \<Rightarrow> indexLocks \<Rightarrow> indexLocks" where
  "set_request t q s = s\<lparr>requests := (requests s)[t := q]\<rparr>"

definition newRequest :: "bool \<Rightarrow> nat \<times> nat \<Rightarrow> file_type \<Rightarrow> file_type \<Rightarrow> nat \<Rightarrow> request" where
  "newRequest blk sec read write p =
    \<lparr>sector = sec, rread = read, rwrite = write, blocking = blk, slk = p, phase = Pending\<rparr>"

text \<open>The first part of \<open>lockWith\<close>, up to the call of \<open>lockFn\<close>. Errors and the early return start no request.\<close>

definition lockWith_enter :: "indexLocks \<Rightarrow> bool \<Rightarrow> nat \<times> nat \<Rightarrow> file_type \<Rightarrow> file_type \<Rightarrow> string option + indexLocks" where
  "lockWith_enter s blk sec read write =
    (if read OR write = 0 then Inl None
     else if read OR write > push_bit FileTypes 1 - 1 then Inl (Some ''unknown file types specified'')
     else
       let (p, s) = (case map_of (locks s) sec of
             Some p \<Rightarrow> (p, s)
           | None \<Rightarrow> (length (heap s),
               s\<lparr>heap := heap s @ [newSectorLock], locks := (sec, length (heap s)) # locks s\<rparr>));
           l = lock_at s p;
           s = set_lock p (l\<lparr>refs := refs l + 1\<rparr>) s
       in Inr (s\<lparr>requests := requests s @ [newRequest blk sec read write p]\<rparr>))"

text \<open>
  \<open>lockFn\<close>: one attempt under the mutex of the lock. A request that waits takes the channel of the condition
  variable, or makes one, before it gives up the mutex; a request that does not wait has failed.
\<close>

definition lockFn_attempt :: "indexLocks \<Rightarrow> nat \<Rightarrow> indexLocks" where
  "lockFn_attempt s t =
    (let q = requests s ! t;
         (ok, l) = tryLock (lock_at s (slk q)) (rread q) (rwrite q)
     in if ok then set_request t (q\<lparr>phase := Held\<rparr>) (set_lock (slk q) l s)
        else if \<not> blocking q then set_request t (q\<lparr>phase := Failed\<rparr>) s
        else case notif l of
          Some c \<Rightarrow> set_request t (q\<lparr>phase := Sleeping c\<rparr>) s
        | None \<Rightarrow> set_request t (q\<lparr>phase := Sleeping (chans s)\<rparr>)
            (set_lock (slk q) (l\<lparr>notif := Some (chans s)\<rparr>) (s\<lparr>chans := chans s + 1\<rparr>)))"

text \<open>\<open>Wait\<close> returns the error of the context: \<open>lockWith\<close> returns it.\<close>

definition lockFn_cancel :: "indexLocks \<Rightarrow> nat \<Rightarrow> indexLocks" where
  "lockFn_cancel s t = set_request t ((requests s ! t)\<lparr>phase := Failed\<rparr>) s"

text \<open>The goroutine that waits for the context: it unlocks, wakes all waiters and drops an unused lock.\<close>

definition Broadcast :: "nat \<Rightarrow> indexLocks \<Rightarrow> indexLocks" where
  "Broadcast p s =
    (case notif (lock_at s p) of
       None \<Rightarrow> s
     | Some c \<Rightarrow> set_lock p ((lock_at s p)\<lparr>notif := None\<rparr>) (s\<lparr>closed := c # closed s\<rparr>))"

definition lockWith_release :: "indexLocks \<Rightarrow> nat \<Rightarrow> indexLocks" where
  "lockWith_release s t =
    (let q = requests s ! t;
         p = slk q;
         s = Broadcast p (set_lock p (unlock (lock_at s p) (rread q) (rwrite q)) s);
         l = lock_at s p;
         s = set_lock p (l\<lparr>refs := refs l - 1\<rparr>) s;
         s = (if refs (lock_at s p) = 0 then s\<lparr>locks := filter (\<lambda>(sec, _). sec \<noteq> sector q) (locks s)\<rparr> else s)
     in set_request t (q\<lparr>phase := Released\<rparr>) s)"

text \<open>The steps of the requests. Callers pass unions of the file types, which are not negative.\<close>

inductive lock_step :: "indexLocks \<Rightarrow> indexLocks \<Rightarrow> bool" where
  enter: "0 \<le> read \<Longrightarrow> 0 \<le> write \<Longrightarrow> lockWith_enter s blk sec read write = Inr s' \<Longrightarrow> lock_step s s'"
| attempt: "t < length (requests s) \<Longrightarrow> phase (requests s ! t) = Pending \<Longrightarrow> lock_step s (lockFn_attempt s t)"
| wake: "t < length (requests s) \<Longrightarrow> phase (requests s ! t) = Sleeping c \<Longrightarrow> c \<in> set (closed s)
    \<Longrightarrow> lock_step s (lockFn_attempt s t)"
| cancel: "t < length (requests s) \<Longrightarrow> phase (requests s ! t) = Sleeping c \<Longrightarrow> lock_step s (lockFn_cancel s t)"
| release: "t < length (requests s) \<Longrightarrow> phase (requests s ! t) = Held \<Longrightarrow> lock_step s (lockWith_release s t)"

inductive lock_reachable :: "indexLocks \<Rightarrow> bool" where
  init: "lock_reachable newIndexLocks"
| step: "lock_reachable s \<Longrightarrow> lock_step s s' \<Longrightarrow> lock_reachable s'"

text \<open>\<open>StorageGetLocks\<close>: for every lock of the table the writers and readers of its file types.\<close>

record SectorLock =
  Sector :: "nat \<times> nat"
  Write :: "nat list"
  Read :: "64 word list"

definition StorageGetLocks :: "indexLocks \<Rightarrow> SectorLock list" where
  "StorageGetLocks s = sort_key (\<lambda>l. snd (Sector l))
    (map (\<lambda>(sec, p). \<lparr>Sector = sec, Write = map (\<lambda>b. if b then 1 else 0) (All (w (lock_at s p))), Read = r (lock_at s p)\<rparr>)
      (locks s))"

subsection \<open>What a lock promises\<close>

text \<open>
  Two requests, as pairs of what they read and write, conflict if one writes a file type that the other
  reads or writes. A lock represents the requests that hold it.
\<close>

type_synonym access = "file_type \<times> file_type"

definition conflict :: "access \<Rightarrow> access \<Rightarrow> bool" where
  "conflict a b \<longleftrightarrow> (\<exists>i<FileTypes. bit (snd a) i \<and> (bit (fst b) i \<or> bit (snd b) i) \<or> bit (snd b) i \<and> bit (fst a) i)"

definition known_types :: "access \<Rightarrow> bool" where
  "known_types a \<longleftrightarrow> (\<forall>i\<ge>FileTypes. \<not> bit (fst a) i \<and> \<not> bit (snd a) i)"

definition compatible :: "access multiset \<Rightarrow> bool" where
  "compatible H \<longleftrightarrow> (\<forall>a\<in>#H. \<forall>b\<in>#H - {#a#}. \<not> conflict a b)"

definition represents :: "sectorLock \<Rightarrow> access multiset \<Rightarrow> bool" where
  "represents l H \<longleftrightarrow> length (r l) = FileTypes
    \<and> (\<forall>i<FileTypes. r l ! i = of_nat (size {#a \<in># H. bit (fst a) i#}))
    \<and> (\<forall>i. bit (w l) i \<longleftrightarrow> (\<exists>a\<in>#H. bit (snd a) i))"

text \<open>
  The interface of a lock for several readers or one writer per file type: a request gets it exactly if it
  does not conflict with a holder, and holders come and go.
\<close>

locale rw_lock =
  fixes rep :: "'l \<Rightarrow> access multiset \<Rightarrow> bool"
    and new :: 'l
    and acquire :: "'l \<Rightarrow> file_type \<Rightarrow> file_type \<Rightarrow> bool \<times> 'l"
    and release :: "'l \<Rightarrow> file_type \<Rightarrow> file_type \<Rightarrow> 'l"
  assumes rep_new: "rep new {#}"
    and acquire_iff: "rep l H \<Longrightarrow> known_types a \<Longrightarrow> \<forall>b\<in>#H. known_types b \<Longrightarrow> size H < 2 ^ 64
      \<Longrightarrow> fst (acquire l (fst a) (snd a)) \<longleftrightarrow> (\<forall>b\<in>#H. \<not> conflict a b)"
    and rep_acquire: "rep l H \<Longrightarrow> acquire l (fst a) (snd a) = (True, l') \<Longrightarrow> rep l' (add_mset a H)"
    and acquire_fails: "acquire l x y = (False, l') \<Longrightarrow> l' = l"
    and rep_release: "rep l (add_mset a H) \<Longrightarrow> compatible (add_mset a H) \<Longrightarrow> known_types a
      \<Longrightarrow> \<forall>b\<in>#H. known_types b \<Longrightarrow> rep (release l (fst a) (snd a)) H"
begin

lemma acquire_compatible:
  assumes "rep l H" and "compatible H" and "known_types a" and "\<forall>b\<in>#H. known_types b" and "size H < 2 ^ 64"
    and "acquire l (fst a) (snd a) = (True, l')"
  shows "compatible (add_mset a H)"
proof -
  have free: "\<forall>b\<in>#H. \<not> conflict a b" using acquire_iff[OF assms(1,3-5)] assms(6) by simp
  then have free': "\<forall>b\<in>#H. \<not> conflict b a" by (auto simp: conflict_def)
  show ?thesis
    unfolding compatible_def
  proof (intro ballI)
    fix b c assume b: "b \<in># add_mset a H" and c: "c \<in># add_mset a H - {#b#}"
    show "\<not> conflict b c"
    proof (cases "b = a")
      case True
      then show ?thesis using c free by simp
    next
      case False
      then have bH: "b \<in># H" using b by simp
      show ?thesis
      proof (cases "c = a")
        case True
        then show ?thesis using free' bH by blast
      next
        case False
        then have "c \<in># H - {#b#}" using c by (simp add: in_diff_count)
        then show ?thesis using bH assms(2) unfolding compatible_def by blast
      qed
    qed
  qed
qed

lemma refused_conflicts:
  assumes "rep l H" and "known_types a" and "\<forall>b\<in>#H. known_types b" and "size H < 2 ^ 64"
    and "\<not> fst (acquire l (fst a) (snd a))"
  obtains b where "b \<in># H" and "conflict a b"
  using acquire_iff[OF assms(1-4)] assms(5) by blast

end

lemma compatible_diff:
  assumes "compatible (add_mset a H)"
  shows "compatible H"
  unfolding compatible_def
proof (intro ballI)
  fix b c assume b: "b \<in># H" and c: "c \<in># H - {#b#}"
  from c have "c \<in># add_mset a H - {#b#}" by (simp add: in_diff_count less_SucI)
  with b show "\<not> conflict b c" using assms unfolding compatible_def by (metis union_single_eq_member
        insert_noteq_member set_mset_add_mset_insert insertCI)
qed

lemma compatible_new:
  assumes "compatible (add_mset a H)" and "b \<in># H"
  shows "\<not> conflict a b"
  using assms by (auto simp: compatible_def)

subsection \<open>\<open>sectorLock\<close> keeps the promise\<close>

lemma and_zero_iff: "(x :: int) AND y = 0 \<longleftrightarrow> (\<forall>i. \<not> (bit x i \<and> bit y i))"
  by (auto simp: bit_eq_iff bit_and_iff)

lemma list_ex_zip:
  "length xs = length ys \<Longrightarrow> list_ex P (zip xs ys) \<longleftrightarrow> (\<exists>i<length xs. P (xs ! i, ys ! i))"
  by (auto simp: list_ex_length)

lemma count_zero: "k < 2 ^ 64 \<Longrightarrow> (of_nat k :: 64 word) = 0 \<longleftrightarrow> k = 0"
  using nat_dvd_not_less[of k "2 ^ 64"] by (auto simp: word_of_nat_eq_0_iff)

lemma readers_pos:
  assumes "size H < 2 ^ 64"
  shows "0 < (of_nat (size {#a \<in># H. P a#}) :: 64 word) \<longleftrightarrow> (\<exists>a\<in>#H. P a)"
proof -
  have "size {#a \<in># H. P a#} < 2 ^ 64" using le_less_trans[OF size_filter_mset_lesseq assms] .
  then have "(of_nat (size {#a \<in># H. P a#}) :: 64 word) = 0 \<longleftrightarrow> size {#a \<in># H. P a#} = 0" by (rule count_zero)
  then show ?thesis by (auto simp: word_neq_0_conv[symmetric] filter_mset_eq_conv)
qed

lemma canLock_iff:
  assumes "represents l H" and "known_types a" and "\<forall>b\<in>#H. known_types b" and "size H < 2 ^ 64"
  shows "canLock l (fst a) (snd a) \<longleftrightarrow> (\<forall>b\<in>#H. \<not> conflict a b)"
proof -
  have "list_ex (\<lambda>(b, n). b \<and> n > 0) (zip (All (snd a)) (r l))
      \<longleftrightarrow> (\<exists>i<FileTypes. bit (snd a) i \<and> (\<exists>b\<in>#H. bit (fst b) i))"
  proof -
    have "All (snd a) ! i \<and> 0 < r l ! i \<longleftrightarrow> bit (snd a) i \<and> (\<exists>b\<in>#H. bit (fst b) i)" if "i < FileTypes" for i
      using assms(1) that readers_pos[OF assms(4)] by (simp add: represents_def)
    moreover have "length (All (snd a)) = length (r l)" using assms(1) by (simp add: represents_def)
    ultimately show ?thesis by (simp add: list_ex_zip cong: conj_cong)
  qed
  moreover have "(w l AND x = 0) \<longleftrightarrow> (\<forall>i. \<forall>b\<in>#H. \<not> (bit (snd b) i \<and> bit x i))" for x
    using assms(1) by (auto simp: and_zero_iff represents_def)
  moreover have "i < FileTypes" if "b \<in># H" "bit (snd b) i" for i b
    using assms(3) that by (metis known_types_def not_less)
  ultimately show ?thesis unfolding canLock_def conflict_def by blast
qed

lemma represents_tryLock:
  assumes "represents l H" and "tryLock l (fst a) (snd a) = (True, l')"
  shows "represents l' (add_mset a H)"
  using assms by (auto simp: represents_def tryLock_def bit_or_iff add.commute split: if_splits)

lemma represents_unlock:
  assumes "represents l (add_mset a H)" and "compatible (add_mset a H)" and "known_types a"
    and "\<forall>b\<in>#H. known_types b"
  shows "represents (unlock l (fst a) (snd a)) H"
proof -
  have "\<not> bit (snd a) i" if "b \<in># H" "bit (snd b) i" for b i
    using compatible_new[OF assms(2) that(1)] that assms(3)
    by (cases "i < FileTypes") (auto simp: conflict_def known_types_def)
  then have "bit (w (unlock l (fst a) (snd a))) i \<longleftrightarrow> (\<exists>b\<in>#H. bit (snd b) i)" for i
    using assms(1) by (auto simp: represents_def unlock_def bit_and_iff bit_not_iff_eq)
  moreover have "r (unlock l (fst a) (snd a)) ! i = of_nat (size {#b \<in># H. bit (fst b) i#})" if "i < FileTypes" for i
    using assms(1) that by (simp add: represents_def unlock_def)
  moreover have "length (r (unlock l (fst a) (snd a))) = FileTypes"
    using assms(1) by (simp add: represents_def unlock_def)
  ultimately show ?thesis by (simp add: represents_def)
qed

interpretation sl: rw_lock represents newSectorLock tryLock unlock
proof
  show "represents newSectorLock {#}"
    by (simp add: represents_def newSectorLock_def)
next
  fix l H a
  assume "represents l H" "known_types a" "\<forall>b\<in>#H. known_types b" "size H < 2 ^ 64"
  then show "fst (tryLock l (fst a) (snd a)) = (\<forall>b\<in>#H. \<not> conflict a b)"
    by (simp add: tryLock_def canLock_iff)
next
  fix l l' x y
  assume "tryLock l x y = (False, l')"
  then show "l' = l" by (simp add: tryLock_def split: if_splits)
qed (fact represents_tryLock represents_unlock)+

subsection \<open>What the table of locks keeps\<close>

definition access :: "request \<Rightarrow> access" where
  "access q = (rread q, rwrite q)"

definition holders :: "request list \<Rightarrow> nat \<Rightarrow> access multiset" where
  "holders rs p = image_mset access {#q \<in># mset rs. slk q = p \<and> phase q = Held#}"

text \<open>The requests that were counted in \<open>refs\<close> and not yet taken off: those that failed stay in.\<close>

definition users :: "request list \<Rightarrow> nat \<Rightarrow> nat" where
  "users rs p = size {#q \<in># mset rs. slk q = p \<and> phase q \<noteq> Released#}"

definition waits_for_holder :: "indexLocks \<Rightarrow> request \<Rightarrow> bool" where
  "waits_for_holder s q \<longleftrightarrow> (\<forall>c. phase q = Sleeping c \<longrightarrow> c \<in> set (closed s) \<or>
     notif (lock_at s (slk q)) = Some c \<and> (\<exists>b\<in>#holders (requests s) (slk q). conflict (access q) b))"

definition request_ok :: "indexLocks \<Rightarrow> request \<Rightarrow> bool" where
  "request_ok s q \<longleftrightarrow> slk q < length (heap s) \<and> known_types (access q)
    \<and> (phase q \<noteq> Released \<longrightarrow> map_of (locks s) (sector q) = Some (slk q)) \<and> waits_for_holder s q"

definition cell_ok :: "indexLocks \<Rightarrow> nat \<Rightarrow> bool" where
  "cell_ok s p \<longleftrightarrow> represents (lock_at s p) (holders (requests s) p) \<and> compatible (holders (requests s) p)
    \<and> refs (lock_at s p) = of_nat (users (requests s) p)"

definition table_ok :: "indexLocks \<Rightarrow> bool" where
  "table_ok s \<longleftrightarrow> distinct (map fst (locks s)) \<and> distinct (map snd (locks s)) \<and> (\<forall>p\<in>snd ` set (locks s). p < length (heap s))"

definition locks_inv :: "indexLocks \<Rightarrow> bool" where
  "locks_inv s \<longleftrightarrow> table_ok s \<and> (\<forall>q\<in>set (requests s). request_ok s q) \<and> (\<forall>p<length (heap s). cell_ok s p)"

lemma locks_inv_init: "locks_inv newIndexLocks"
  by (simp add: locks_inv_def table_ok_def newIndexLocks_def)

lemma mset_update_split:
  assumes "t < length rs"
  obtains M where "mset rs = add_mset (rs ! t) M" and "mset (rs[t := q]) = add_mset q M"
  using assms that[of "mset rs - {#rs ! t#}"] by (simp add: mset_update)

text \<open>What changes when one request goes to another phase.\<close>

lemma holders_same:
  assumes "t < length rs" and "phase (rs ! t) \<noteq> Held" and "phase q \<noteq> Held"
  shows "holders (rs[t := q]) p = holders rs p"
  using assms by (auto simp: holders_def elim: mset_update_split[of t rs q])

lemma holders_add:
  assumes "t < length rs" and "phase (rs ! t) \<noteq> Held" and "phase q = Held"
  shows "holders (rs[t := q]) p = (if p = slk q then add_mset (access q) (holders rs p) else holders rs p)"
  using assms by (auto simp: holders_def elim: mset_update_split[of t rs q])

lemma holders_remove:
  assumes "t < length rs" and "phase (rs ! t) = Held" and "phase q \<noteq> Held"
  shows "holders rs p = (if p = slk (rs ! t) then add_mset (access (rs ! t)) (holders (rs[t := q]) p)
    else holders (rs[t := q]) p)"
  using assms by (auto simp: holders_def elim: mset_update_split[of t rs q])

lemma users_same:
  assumes "t < length rs" and "slk q = slk (rs ! t)" and "phase (rs ! t) \<noteq> Released" and "phase q \<noteq> Released"
  shows "users (rs[t := q]) p = users rs p"
  using assms by (auto simp: users_def elim: mset_update_split[of t rs q])

lemma users_remove:
  assumes "t < length rs" and "slk q = slk (rs ! t)" and "phase (rs ! t) \<noteq> Released" and "phase q = Released"
  shows "users rs p = users (rs[t := q]) p + (if p = slk q then 1 else 0)"
  using assms by (auto simp: users_def elim: mset_update_split[of t rs q])

lemma holders_append: "phase q = Pending \<Longrightarrow> holders (rs @ [q]) p = holders rs p"
  and users_append: "phase q = Pending \<Longrightarrow> users (rs @ [q]) p = users rs p + (if p = slk q then 1 else 0)"
  by (simp_all add: holders_def users_def)

lemma size_holders: "size (holders rs p) \<le> length rs"
  unfolding holders_def size_image_mset by (rule order_trans[OF size_filter_mset_lesseq]) simp

lemma users_le: "users rs p \<le> length rs"
  unfolding users_def by (rule order_trans[OF size_filter_mset_lesseq]) simp

lemma holders_known:
  assumes "\<forall>q\<in>set rs. known_types (access q)" and "b \<in># holders rs p"
  shows "known_types b"
  using assms by (auto simp: holders_def)


lemma represents_refs [simp]:
  "represents (l\<lparr>refs := n\<rparr>) H = represents l H" "represents (l\<lparr>notif := c\<rparr>) H = represents l H"
  by (simp_all add: represents_def)

lemma small_bits: "0 \<le> (x :: int) \<Longrightarrow> x < 2 ^ n \<Longrightarrow> n \<le> i \<Longrightarrow> \<not> bit x i"
  by (metis bit_take_bit_iff linorder_not_less take_bit_int_eq_self)

lemma known_types_union:
  assumes "0 \<le> x" and "0 \<le> y" and "\<not> x OR y > push_bit FileTypes 1 - 1"
  shows "known_types (x, y)"
proof -
  have "x OR y < 2 ^ FileTypes" using assms(3) by simp
  moreover have "0 \<le> x OR y" using assms(1,2) by simp
  ultimately have "\<not> bit (x OR y) i" if "FileTypes \<le> i" for i using small_bits that by blast
  then show ?thesis by (simp add: known_types_def bit_or_iff)
qed

lemma map_of_unique:
  assumes "distinct (map fst xs)" and "distinct (map snd xs)" and "map_of xs a = Some p" and "map_of xs b = Some p"
  shows "a = b"
  using assms by (metis eq_key_imp_eq_value map_of_SomeD distinct_map inj_on_eq_iff prod.inject snd_conv)

lemma map_of_without: "map_of (filter (\<lambda>(k, _). k \<noteq> x) xs) k = (if k = x then None else map_of xs k)"
  by (induction xs) auto

text \<open>A request that keeps its lock alive is among the users of the lock.\<close>

lemma users_pos: "q \<in> set rs \<Longrightarrow> phase q \<noteq> Released \<Longrightarrow> slk q = p \<Longrightarrow> 0 < users rs p"
  by (auto simp: users_def nonempty_has_size[symmetric] filter_mset_eq_conv)

lemma no_users: "\<forall>q\<in>set rs. slk q \<noteq> p \<Longrightarrow> users rs p = 0 \<and> holders rs p = {#}"
  by (auto simp: users_def holders_def filter_mset_eq_conv)

lemma newRequest_simps [simp]:
  "phase (newRequest blk sec x y p) = Pending" "slk (newRequest blk sec x y p) = p"
  "sector (newRequest blk sec x y p) = sec" "access (newRequest blk sec x y p) = (x, y)"
  by (simp_all add: newRequest_def access_def)

lemma waits_for_holder_cong:
  assumes "holders (requests s') (slk x) = holders (requests s) (slk x)" and "set (closed s) \<subseteq> set (closed s')"
    and "notif (lock_at s' (slk x)) = notif (lock_at s (slk x))" and "waits_for_holder s x"
  shows "waits_for_holder s' x"
  using assms by (auto simp: waits_for_holder_def)

lemma enter_known_inv:
  assumes inv: "locks_inv s" and known: "known_types (x, y)" and tab: "map_of (locks s) sec = Some p"
    and s': "s' = s\<lparr>heap := (heap s)[p := (lock_at s p)\<lparr>refs := refs (lock_at s p) + 1\<rparr>],
      requests := requests s @ [newRequest blk sec x y p]\<rparr>"
  shows "locks_inv s'"
proof -
  have p: "p < length (heap s)" using inv map_of_SomeD[OF tab] by (force simp: locks_inv_def table_ok_def)
  have "request_ok s' q" if "q \<in> set (requests s)" for q
  proof -
    have q: "request_ok s q" using inv that by (simp add: locks_inv_def)
    then have "waits_for_holder s' q"
      using p by (intro waits_for_holder_cong[of s' q s]) (auto simp: s' nth_list_update request_ok_def holders_append)
    with q show ?thesis by (simp add: request_ok_def s')
  qed
  moreover have "request_ok s' (newRequest blk sec x y p)"
    using tab p known by (simp add: request_ok_def s' waits_for_holder_def)
  moreover have "cell_ok s' p'" if "p' < length (heap s)" for p'
    using inv that p by (auto simp: locks_inv_def cell_ok_def s' nth_list_update holders_append users_append add.commute)
  ultimately show ?thesis using inv by (simp add: locks_inv_def table_ok_def s')
qed

lemma enter_new_inv:
  assumes inv: "locks_inv s" and known: "known_types (x, y)" and tab: "map_of (locks s) sec = None"
    and s': "s' = s\<lparr>heap := heap s @ [newSectorLock\<lparr>refs := 1\<rparr>], locks := (sec, length (heap s)) # locks s,
      requests := requests s @ [newRequest blk sec x y (length (heap s))]\<rparr>"
  shows "locks_inv s'"
proof -
  let ?p = "length (heap s)"
  have old: "q \<in> set (requests s) \<Longrightarrow> request_ok s q" for q using inv by (simp add: locks_inv_def)
  have "request_ok s' q" if "q \<in> set (requests s)" for q
  proof -
    have q: "request_ok s q" using old that .
    then have "waits_for_holder s' q"
      by (intro waits_for_holder_cong[of s' q s]) (auto simp: s' nth_append request_ok_def holders_append)
    with q tab show ?thesis by (auto simp: request_ok_def s')
  qed
  moreover have "request_ok s' (newRequest blk sec x y ?p)"
    using known by (simp add: request_ok_def s' waits_for_holder_def)
  moreover have "cell_ok s' p'" if "p' < Suc ?p" for p'
  proof (cases "p' = ?p")
    case True
    have "\<forall>q\<in>set (requests s). slk q \<noteq> ?p" using old unfolding request_ok_def by (metis less_irrefl)
    then show ?thesis
      using True no_users[of "requests s" ?p] sl.rep_new
      by (simp add: cell_ok_def s' holders_append users_append compatible_def)
  next
    case False
    then show ?thesis using inv that
      by (auto simp: locks_inv_def cell_ok_def s' nth_append holders_append users_append)
  qed
  moreover have "sec \<notin> fst ` set (locks s)" using tab by (simp add: map_of_eq_None_iff)
  ultimately show ?thesis using inv by (auto simp: locks_inv_def table_ok_def s')
qed

lemma enter_inv:
  assumes "locks_inv s" and "0 \<le> x" and "0 \<le> y" and ent: "lockWith_enter s blk sec x y = Inr s'"
  shows "locks_inv s'"
proof -
  have known: "known_types (x, y)"
    using assms by (auto simp: lockWith_enter_def intro: known_types_union split: if_splits)
  show ?thesis
  proof (cases "map_of (locks s) sec")
    case None
    then show ?thesis
      using ent by (intro enter_new_inv[OF assms(1) known None, of s' blk])
        (auto simp: lockWith_enter_def set_lock_def newSectorLock_def Let_def split: if_splits)
  next
    case (Some p)
    then show ?thesis
      using ent by (intro enter_known_inv[OF assms(1) known Some, of s' blk])
        (auto simp: lockWith_enter_def set_lock_def Let_def split: if_splits)
  qed
qed

text \<open>A request goes from one phase to another that holds nothing, and the locks stay as they are.\<close>

lemma phase_inv:
  assumes inv: "locks_inv s" and t: "t < length (requests s)" and old: "phase (requests s ! t) \<notin> {Held, Released}"
    and new: "ph \<notin> {Held, Released}" and s': "s' = set_request t ((requests s ! t)\<lparr>phase := ph\<rparr>) s"
    and waits: "waits_for_holder s ((requests s ! t)\<lparr>phase := ph\<rparr>)"
  shows "locks_inv s'"
proof -
  let ?q = "requests s ! t" and ?q' = "(requests s ! t)\<lparr>phase := ph\<rparr>"
  have hold: "holders (requests s') p = holders (requests s) p" for p
    using t old new by (simp add: s' set_request_def holders_same)
  have use: "users (requests s') p = users (requests s) p" for p
    using t old new by (simp add: s' set_request_def users_same)
  have w: "waits_for_holder s' x" if "waits_for_holder s x" for x
    by (rule waits_for_holder_cong[OF hold _ _ that]) (simp_all add: s' set_request_def)
  have q: "request_ok s ?q" using inv t by (simp add: locks_inv_def)
  have "request_ok s' x" if "x \<in> set (requests s')" for x
  proof -
    have "x = ?q' \<or> x \<in> set (requests s)"
      using that set_update_subset_insert[of "requests s" t ?q'] by (auto simp: s' set_request_def)
    then show ?thesis
    proof
      assume "x = ?q'"
      then show ?thesis using q old w[OF waits] by (auto simp: request_ok_def s' set_request_def access_def)
    next
      assume "x \<in> set (requests s)"
      then have "request_ok s x" using inv by (simp add: locks_inv_def)
      then show ?thesis using w by (auto simp: request_ok_def s' set_request_def)
    qed
  qed
  moreover have "cell_ok s' p" if "p < length (heap s)" for p
    using inv that hold use by (simp add: locks_inv_def cell_ok_def s' set_request_def)
  ultimately show ?thesis using inv by (simp add: locks_inv_def table_ok_def s' set_request_def)
qed

lemma cancel_inv:
  assumes "locks_inv s" and "t < length (requests s)" and "phase (requests s ! t) = Sleeping c"
  shows "locks_inv (lockFn_cancel s t)"
  by (rule phase_inv[OF assms(1,2), where ph = Failed]) (simp_all add: assms(3) lockFn_cancel_def waits_for_holder_def)

text \<open>The channel of a lock without sleepers is made when the first request waits.\<close>

lemma new_channel_inv:
  assumes inv: "locks_inv s" and "notif (lock_at s p) = None" and p: "p < length (heap s)"
  shows "locks_inv (set_lock p ((lock_at s p)\<lparr>notif := Some c\<rparr>) (s\<lparr>chans := n\<rparr>))"
proof -
  let ?s = "set_lock p ((lock_at s p)\<lparr>notif := Some c\<rparr>) (s\<lparr>chans := n\<rparr>)"
  have "request_ok ?s x" if "x \<in> set (requests s)" for x
  proof -
    have x: "request_ok s x" using inv that by (simp add: locks_inv_def)
    then have "waits_for_holder ?s x"
      using assms(2) p by (auto simp: request_ok_def waits_for_holder_def set_lock_def nth_list_update)
    then show ?thesis using x by (simp add: request_ok_def set_lock_def)
  qed
  moreover have "cell_ok ?s p'" if "p' < length (heap s)" for p'
    using inv that p by (auto simp: locks_inv_def cell_ok_def set_lock_def nth_list_update)
  ultimately show ?thesis using inv by (simp add: locks_inv_def table_ok_def set_lock_def)
qed

lemma awake_waits: "phase q \<in> {Pending, Held, Failed, Released} \<Longrightarrow> waits_for_holder s q"
  by (auto simp: waits_for_holder_def)

lemma cell_known:
  assumes "locks_inv s" and "b \<in># holders (requests s) p"
  shows "known_types b"
  using assms holders_known[of "requests s" b p] by (auto simp: locks_inv_def request_ok_def)

text \<open>A request gets the lock.\<close>

lemma acquire_inv:
  assumes inv: "locks_inv s" and t: "t < length (requests s)" and old: "phase (requests s ! t) \<notin> {Held, Released}"
    and small: "length (requests s) < 2 ^ 64"
    and got: "tryLock (lock_at s (slk (requests s ! t))) (rread (requests s ! t)) (rwrite (requests s ! t)) = (True, l)"
  shows "locks_inv (set_request t ((requests s ! t)\<lparr>phase := Held\<rparr>) (set_lock (slk (requests s ! t)) l s))"
    (is "locks_inv ?s")
proof -
  define q where "q = requests s ! t"
  let ?H = "holders (requests s) (slk q)" and ?q' = "q\<lparr>phase := Held\<rparr>"
  have q: "request_ok s q" using inv t by (simp add: locks_inv_def q_def)
  then have cell: "cell_ok s (slk q)" using inv by (simp add: locks_inv_def request_ok_def)
  have acc: "access ?q' = access q" by (simp add: access_def)
  have tr: "tryLock (lock_at s (slk q)) (fst (access q)) (snd (access q)) = (True, l)"
    using got by (simp add: access_def q_def)
  have keep: "notif l = notif (lock_at s (slk q))" "refs l = refs (lock_at s (slk q))"
    using tr by (auto simp: tryLock_def split: if_splits)
  have new: "holders (requests ?s) p = (if p = slk q then add_mset (access q) ?H else holders (requests s) p)" for p
    using t old acc by (simp add: set_request_def set_lock_def holders_add q_def)
  have use: "users (requests ?s) p = users (requests s) p" for p
    using t old by (simp add: set_request_def set_lock_def users_same)
  have heap: "lock_at ?s p = (if p = slk q then l else lock_at s p)" for p
    using q by (simp add: set_request_def set_lock_def q_def request_ok_def)
  have "compatible (add_mset (access q) ?H)"
    using cell q cell_known[OF inv] le_less_trans[OF size_holders small] tr
    by (intro sl.acquire_compatible[of "lock_at s (slk q)" _ _ l]) (auto simp: cell_ok_def request_ok_def)
  moreover have "represents l (add_mset (access q) ?H)"
    using cell tr by (intro sl.rep_acquire[of "lock_at s (slk q)"]) (auto simp: cell_ok_def)
  ultimately have "cell_ok ?s p" if "p < length (heap s)" for p
    using inv that cell keep unfolding cell_ok_def new use heap by (auto simp: locks_inv_def cell_ok_def)
  moreover have "request_ok ?s x" if "x \<in> set (requests ?s)" for x
  proof -
    have w: "waits_for_holder ?s y" if "waits_for_holder s y" for y
      using that keep unfolding waits_for_holder_def new heap by (auto simp: set_request_def set_lock_def)
    have "x = ?q' \<or> x \<in> set (requests s)"
      using that set_update_subset_insert[of "requests s" t ?q'] by (auto simp: set_request_def set_lock_def q_def)
    then show ?thesis
      using q inv old w acc
      by (auto simp: request_ok_def set_request_def set_lock_def awake_waits locks_inv_def q_def)
  qed
  ultimately show ?thesis using inv by (simp add: locks_inv_def table_ok_def set_request_def set_lock_def)
qed

lemma attempt_inv:
  assumes inv: "locks_inv s" and t: "t < length (requests s)"
    and old: "phase (requests s ! t) \<notin> {Held, Failed, Released}" and small: "length (requests s) < 2 ^ 64"
  shows "locks_inv (lockFn_attempt s t)"
proof -
  define q where "q = requests s ! t"
  obtain ok l where got: "tryLock (lock_at s (slk q)) (rread q) (rwrite q) = (ok, l)" by fastforce
  have q: "request_ok s q" using inv t by (simp add: locks_inv_def q_def)
  then have p: "slk q < length (heap s)" and cell: "cell_ok s (slk q)"
    using inv by (simp_all add: locks_inv_def request_ok_def)
  show ?thesis
  proof (cases ok)
    case True
    then show ?thesis
      using acquire_inv[OF inv t _ small, of l] old got by (simp add: lockFn_attempt_def q_def Let_def)
  next
    case False
    then have l: "l = lock_at s (slk q)" using got sl.acquire_fails[of "lock_at s (slk q)"] by simp
    obtain b where b: "b \<in># holders (requests s) (slk q)" "conflict (access q) b"
      using sl.refused_conflicts[of "lock_at s (slk q)" "holders (requests s) (slk q)" "access q"] cell q got False
        cell_known[OF inv] le_less_trans[OF size_holders small]
      by (auto simp: cell_ok_def request_ok_def access_def)
    consider (fail) "\<not> blocking q" | (wait) c where "blocking q" "notif (lock_at s (slk q)) = Some c"
      | (make) "blocking q" "notif (lock_at s (slk q)) = None" by blast
    then show ?thesis
    proof cases
      case fail
      then show ?thesis
        using False got l old phase_inv[OF inv t, of Failed]
        by (simp add: lockFn_attempt_def q_def awake_waits Let_def)
    next
      case (wait c)
      then have "waits_for_holder s (q\<lparr>phase := Sleeping c\<rparr>)"
        using b by (auto simp: waits_for_holder_def access_def)
      then show ?thesis
        using False got l wait old phase_inv[OF inv t, of "Sleeping c"] by (simp add: lockFn_attempt_def q_def Let_def)
    next
      case make
      let ?s = "set_lock (slk q) ((lock_at s (slk q))\<lparr>notif := Some (chans s)\<rparr>) (s\<lparr>chans := chans s + 1\<rparr>)"
      have "locks_inv ?s" by (rule new_channel_inv[OF inv make(2) p])
      moreover have "waits_for_holder ?s (q\<lparr>phase := Sleeping (chans s)\<rparr>)"
        using b p by (auto simp: waits_for_holder_def access_def set_lock_def)
      ultimately show ?thesis
        using False got l make old t phase_inv[of ?s t "Sleeping (chans s)"]
        by (simp add: lockFn_attempt_def q_def set_lock_def Let_def)
    qed
  qed
qed

lemma lockWith_release_eq:
  assumes "slk (requests s ! t) < length (heap s)"
  shows "lockWith_release s t =
    (let q = requests s ! t; l = lock_at s (slk q); n = refs l - 1 in
     s\<lparr>heap := (heap s)[slk q := (unlock l (rread q) (rwrite q))\<lparr>notif := None, refs := n\<rparr>],
       closed := (case notif l of None \<Rightarrow> closed s | Some c \<Rightarrow> c # closed s),
       locks := (if n = 0 then filter (\<lambda>(sec, _). sec \<noteq> sector q) (locks s) else locks s),
       requests := (requests s)[t := q\<lparr>phase := Released\<rparr>]\<rparr>)"
  using assms
  by (cases "notif (lock_at s (slk (requests s ! t)))"; cases "lock_at s (slk (requests s ! t))")
    (simp_all add: lockWith_release_def Broadcast_def Let_def set_lock_def set_request_def unlock_def)

lemma release_inv:
  assumes inv: "locks_inv s" and t: "t < length (requests s)" and held: "phase (requests s ! t) = Held"
    and small: "length (requests s) < 2 ^ 64"
  shows "locks_inv (lockWith_release s t)"
proof -
  define q l where "q = requests s ! t" and "l = lock_at s (slk q)"
  let ?s = "lockWith_release s t" and ?q' = "q\<lparr>phase := Released\<rparr>"
  have q: "request_ok s q" using inv t by (simp add: locks_inv_def q_def)
  then have p: "slk q < length (heap s)" and cell: "cell_ok s (slk q)"
    using inv by (simp_all add: locks_inv_def request_ok_def)
  note eq = lockWith_release_eq[of s t, folded q_def, OF p, unfolded Let_def, folded l_def]
  have heap: "lock_at ?s x = (if x = slk q then (unlock l (rread q) (rwrite q))\<lparr>notif := None, refs := refs l - 1\<rparr> else lock_at s x)" for x
    using p by (simp add: eq)
  have rs: "requests ?s = (requests s)[t := ?q']" and len: "length (heap ?s) = length (heap s)" by (simp_all add: eq)
  have hold: "holders (requests s) x = (if x = slk q then add_mset (access q) (holders (requests ?s) x) else holders (requests ?s) x)" for x
    using holders_remove[OF t held, of ?q' x] by (simp add: rs q_def)
  have use: "users (requests s) x = users (requests ?s) x + (if x = slk q then 1 else 0)" for x
    using users_remove[OF t, of ?q' x] held by (simp add: rs q_def)
  have refs: "refs l - 1 = of_nat (users (requests ?s) (slk q))"
    using cell use[of "slk q"] by (simp add: cell_ok_def l_def)
  have few: "users (requests ?s) x < 2 ^ 64" for x
    using le_less_trans[OF users_le[of "requests ?s" x]] small rs by simp
  have "represents (unlock l (fst (access q)) (snd (access q))) (holders (requests ?s) (slk q))"
    using cell hold[of "slk q"] q cell_known[OF inv, of _ "slk q"]
    by (intro sl.rep_release) (auto simp: cell_ok_def l_def request_ok_def)
  then have "cell_ok ?s x" if "x < length (heap s)" for x
    using inv that hold[of x] use[of x] refs cell compatible_diff[of "access q"]
    by (auto simp: cell_ok_def heap locks_inv_def access_def rs split: if_splits)
  moreover have "request_ok ?s x" if "x \<in> set (requests ?s)" for x
  proof (cases "x = ?q'")
    case True
    then show ?thesis using q by (simp add: request_ok_def len awake_waits access_def)
  next
    case False
    then have x: "request_ok s x"
      using that inv set_update_subset_insert[of "requests s" t ?q'] by (auto simp: rs locks_inv_def)
    have "map_of (locks ?s) (sector x) = Some (slk x)" if "phase x \<noteq> Released"
    proof -
      have tab: "map_of (locks s) (sector x) = Some (slk x)" using x that by (simp add: request_ok_def)
      have "refs l - 1 \<noteq> 0" if "sector x = sector q"
      proof -
        have "slk x = slk q" using tab that q held by (simp add: request_ok_def q_def)
        then have "users (requests ?s) (slk q) \<noteq> 0"
          using users_pos[OF \<open>x \<in> set (requests ?s)\<close> \<open>phase x \<noteq> Released\<close>] by simp
        then show ?thesis unfolding refs by (simp add: count_zero[OF few])
      qed
      then show ?thesis using tab by (auto simp: eq map_of_without)
    qed
    moreover have "waits_for_holder ?s x"
      unfolding waits_for_holder_def
    proof (intro allI impI)
      fix c assume c: "phase x = Sleeping c"
      show "c \<in> set (closed ?s) \<or> notif (lock_at ?s (slk x)) = Some c \<and> (\<exists>b\<in>#holders (requests ?s) (slk x). conflict (access x) b)"
        using x c hold[of "slk x"] unfolding request_ok_def waits_for_holder_def
        by (cases "slk x = slk q") (auto simp: heap eq l_def split: option.splits)
    qed
    ultimately show ?thesis using x by (simp add: request_ok_def len)
  qed
  moreover have "table_ok ?s"
    using inv by (auto simp: eq table_ok_def locks_inv_def distinct_map_filter)
  ultimately show ?thesis by (simp add: locks_inv_def len)
qed


subsection \<open>Properties\<close>

lemma requests_grow:
  assumes "lock_step s s'"
  shows "length (requests s) \<le> length (requests s')"
  using assms
proof cases
  case (enter read "write" blk sec)
  then show ?thesis
    by (auto simp: lockWith_enter_def set_lock_def Let_def split: if_splits option.splits)
qed (auto simp: lockFn_attempt_def lockFn_cancel_def lockWith_release_def Broadcast_def set_request_def set_lock_def
    Let_def split: prod.splits option.splits if_splits)

lemma lock_reachable_inv:
  "lock_reachable s \<Longrightarrow> length (requests s) < 2 ^ 64 \<Longrightarrow> locks_inv s"
proof (induction rule: lock_reachable.induct)
  case init
  then show ?case by (simp add: locks_inv_init)
next
  case (step s s')
  then have small: "length (requests s) < 2 ^ 64" using requests_grow by fastforce
  then have inv: "locks_inv s" using step.IH by blast
  from step.hyps(2) show ?case
  proof cases
    case (enter read "write" blk sec)
    then show ?thesis using enter_inv[OF inv] by blast
  next
    case (attempt t)
    then show ?thesis using attempt_inv[OF inv _ _ small] by simp
  next
    case (wake t c)
    then show ?thesis using attempt_inv[OF inv _ _ small] by simp
  next
    case (cancel t c)
    then show ?thesis using cancel_inv[OF inv] by blast
  next
    case (release t)
    then show ?thesis using release_inv[OF inv _ _ small] by blast
  qed
qed

lemma held_in_holders:
  "t < length rs \<Longrightarrow> phase (rs ! t) = Held \<Longrightarrow> access (rs ! t) \<in># holders rs (slk (rs ! t))"
  by (auto simp: holders_def)

lemma two_holders:
  assumes "t < length rs" and "u < length rs" and "t \<noteq> u" and "phase (rs ! t) = Held" and "phase (rs ! u) = Held"
    and "slk (rs ! t) = slk (rs ! u)" and "compatible (holders rs (slk (rs ! t)))"
  shows "\<not> conflict (access (rs ! t)) (access (rs ! u))"
proof -
  let ?rs = "rs[t := (rs ! t)\<lparr>phase := Failed\<rparr>]"
  have "access (rs ! u) \<in># holders ?rs (slk (rs ! t))"
    using held_in_holders[of u ?rs] assms by simp
  moreover have "holders rs (slk (rs ! t)) = add_mset (access (rs ! t)) (holders ?rs (slk (rs ! t)))"
    using holders_remove[OF assms(1,4), of "(rs ! t)\<lparr>phase := Failed\<rparr>" "slk (rs ! t)"] by simp
  ultimately show ?thesis using assms(7) compatible_new by metis
qed

text \<open>The requests on a lock of the table are those for its sector.\<close>

lemma lock_users:
  assumes inv: "locks_inv s" and p: "(sec, p) \<in> set (locks s)" and q: "q \<in> set (requests s)" and "phase q = Held"
  shows "sector q = sec \<longleftrightarrow> slk q = p"
proof -
  have d: "distinct (map fst (locks s))" "distinct (map snd (locks s))" using inv by (simp_all add: locks_inv_def table_ok_def)
  have 1: "map_of (locks s) (sector q) = Some (slk q)" using inv q assms(4) by (auto simp: locks_inv_def request_ok_def)
  have 2: "map_of (locks s) sec = Some p" using d(1) p by simp
  show ?thesis
  proof
    assume "sector q = sec"
    then show "slk q = p" using 1 2 by (simp only: option.inject)
  next
    assume "slk q = p"
    then show "sector q = sec" using 1 2 map_of_unique[OF d] by blast
  qed
qed

lemma size_holders_filter:
  "size {#a \<in># holders rs p. P a#} = length (filter (\<lambda>q. (slk q = p \<and> phase q = Held) \<and> P (access q)) rs)"
  by (induction rs) (auto simp: holders_def)

text \<open>
  A run: two requests read the sealed file of sector (1000, 7), a third waits to write it, a fourth locks
  another sector, and a fifth, which does not wait, fails.
\<close>

definition enter' :: "bool \<Rightarrow> nat \<times> nat \<Rightarrow> file_type \<Rightarrow> file_type \<Rightarrow> indexLocks \<Rightarrow> indexLocks" where
  "enter' blk sec x y s = (case lockWith_enter s blk sec x y of Inr s' \<Rightarrow> lockFn_attempt s' (length (requests s)) | Inl _ \<Rightarrow> s)"

definition example_locks :: indexLocks where
  "example_locks = enter' False (1000, 7) 0 FTSealed (enter' True (1000, 8) 0 FTCache
    (enter' True (1000, 7) FTUnsealed FTSealed (enter' True (1000, 7) FTSealed 0 (enter' True (1000, 7) FTSealed 0 newIndexLocks))))"

lemma enter'_reachable:
  assumes "lock_reachable s" and "0 \<le> x" and "0 \<le> y"
  shows "lock_reachable (enter' blk sec x y s)"
proof (cases "lockWith_enter s blk sec x y")
  case (Inr s')
  then have "requests s' = requests s @ [newRequest blk sec x y (slk (last (requests s')))]"
    by (auto simp: lockWith_enter_def set_lock_def newRequest_def Let_def split: if_splits option.splits)
  then have "length (requests s) < length (requests s')" "phase (requests s' ! length (requests s)) = Pending"
    by (metis length_append_singleton lessI, metis newRequest_simps(1) nth_append_length)
  moreover have "lock_reachable s'" using assms Inr by (blast intro: lock_reachable.step lock_step.enter)
  ultimately have "lock_reachable (lockFn_attempt s' (length (requests s)))"
    by (blast intro: lock_reachable.step lock_step.attempt)
  then show ?thesis using Inr by (simp add: enter'_def)
qed (simp add: enter'_def assms)

lemma example_locks_reachable: "lock_reachable example_locks"
  by (simp add: example_locks_def enter'_reachable lock_reachable.init FTSealed_def FTUnsealed_def FTCache_def)

lemma example_phases:
  "map phase (requests example_locks) = [Held, Held, Sleeping 0, Held, Failed]" "closed example_locks = []"
  by code_simp+

text \<open>
  C38. No two requests hold locks on a sector of which one writes a file type the other reads or writes,
  in every interleaving of requests, waits, cancellations and releases (fewer than \<open>2 ^ 64\<close> requests, the width of
  the counters).
\<close>

theorem sector_locks_exclude:
  assumes "lock_reachable s" and "length (requests s) < 2 ^ 64"
    and "t < length (requests s)" and "u < length (requests s)" and "t \<noteq> u"
    and "phase (requests s ! t) = Held" and "phase (requests s ! u) = Held"
    and "sector (requests s ! t) = sector (requests s ! u)"
  shows "\<not> conflict (access (requests s ! t)) (access (requests s ! u))"
proof -
  have inv: "locks_inv s" using lock_reachable_inv assms(1,2) .
  then have "request_ok s (requests s ! t)" "request_ok s (requests s ! u)"
    using assms(3,4) by (simp_all add: locks_inv_def)
  then have "slk (requests s ! t) = slk (requests s ! u)" "slk (requests s ! t) < length (heap s)"
    using assms(6-8) by (simp_all add: request_ok_def)
  then show ?thesis
    using two_holders[OF assms(3-7)] inv by (simp add: locks_inv_def cell_ok_def)
qed

theorem sector_locks_exclude_witness:
  "lock_reachable example_locks \<and> phase (requests example_locks ! 0) = Held \<and> phase (requests example_locks ! 1) = Held
   \<and> sector (requests example_locks ! 0) = sector (requests example_locks ! 1)
   \<and> \<not> conflict (access (requests example_locks ! 0)) (access (requests example_locks ! 1))"
proof -
  have ex: "length (requests example_locks) = 5" "phase (requests example_locks ! 0) = Held"
    "phase (requests example_locks ! 1) = Held" "sector (requests example_locks ! 0) = sector (requests example_locks ! 1)"
    by code_simp+
  show ?thesis
    using sector_locks_exclude[OF example_locks_reachable, of 0 1] ex example_locks_reachable by simp
qed

text \<open>
  C39. No wake-up is lost: a request that sleeps on a channel that is still open conflicts with a request that
  holds a lock on the same sector at this moment. When the holders it conflicts with are gone, it has been woken.
\<close>

theorem sleepers_are_blocked:
  assumes "lock_reachable s" and "length (requests s) < 2 ^ 64"
    and "t < length (requests s)" and "phase (requests s ! t) = Sleeping c" and "c \<notin> set (closed s)"
  shows "\<exists>u<length (requests s). phase (requests s ! u) = Held \<and> sector (requests s ! u) = sector (requests s ! t)
    \<and> conflict (access (requests s ! t)) (access (requests s ! u))"
proof -
  have inv: "locks_inv s" using lock_reachable_inv assms(1,2) .
  then have t: "request_ok s (requests s ! t)" using assms(3) by (simp add: locks_inv_def)
  then obtain b where b: "b \<in># holders (requests s) (slk (requests s ! t))" "conflict (access (requests s ! t)) b"
    using assms(4,5) by (auto simp: request_ok_def waits_for_holder_def)
  then obtain q where q: "q \<in> set (requests s)" "phase q = Held" "slk q = slk (requests s ! t)" "b = access q"
    by (auto simp: holders_def)
  then obtain u where u: "u < length (requests s)" "requests s ! u = q" by (auto simp: in_set_conv_nth)
  have "request_ok s q" using inv q(1) by (simp add: locks_inv_def)
  then have "sector q = sector (requests s ! t)"
    using t assms(4) q inv map_of_unique[of "locks s" "sector q"]
    by (simp add: request_ok_def locks_inv_def table_ok_def)
  then show ?thesis using b q u by blast
qed

theorem sleepers_are_blocked_witness:
  "\<exists>u<length (requests example_locks). phase (requests example_locks ! u) = Held
    \<and> sector (requests example_locks ! u) = sector (requests example_locks ! 2)
    \<and> conflict (access (requests example_locks ! 2)) (access (requests example_locks ! u))"
proof -
  have ex: "length (requests example_locks) = 5" "phase (requests example_locks ! 2) = Sleeping 0" "closed example_locks = []"
    by code_simp+
  show ?thesis
    using ex by (intro sleepers_are_blocked[OF example_locks_reachable, of 2 0]) simp_all
qed

text \<open>
  \<open>StorageGetLocks\<close> reports, for every lock of the table, exactly who holds it: the readers of each file
  type are counted, and the file types that are written are marked.
\<close>

theorem get_locks_reports_holders:
  assumes "lock_reachable s" and "length (requests s) < 2 ^ 64" and "L \<in> set (StorageGetLocks s)" and "i < FileTypes"
  shows "unat (Read L ! i) = length (filter (\<lambda>q. sector q = Sector L \<and> phase q = Held \<and> bit (rread q) i) (requests s))
    \<and> (Write L ! i = 1) = (\<exists>q\<in>set (requests s). sector q = Sector L \<and> phase q = Held \<and> bit (rwrite q) i)"
proof -
  have inv: "locks_inv s" using lock_reachable_inv assms(1,2) .
  from assms(3) obtain p where p: "(Sector L, p) \<in> set (locks s)" and rd: "Read L = r (lock_at s p)"
    and wr: "Write L = map (\<lambda>b. if b then 1 else 0) (All (w (lock_at s p)))"
    by (auto simp: StorageGetLocks_def)
  have same: "sector q = Sector L \<and> phase q = Held \<longleftrightarrow> slk q = p \<and> phase q = Held" if "q \<in> set (requests s)" for q
    using lock_users[OF inv p that] by auto
  have rep: "represents (lock_at s p) (holders (requests s) p)"
    using inv p by (force simp: locks_inv_def table_ok_def cell_ok_def)
  have "Read L ! i = of_nat (size {#a \<in># holders (requests s) p. bit (fst a) i#})"
    using rep assms(4) rd by (simp add: represents_def)
  moreover have "size {#a \<in># holders (requests s) p. bit (fst a) i#}
      = length (filter (\<lambda>q. sector q = Sector L \<and> phase q = Held \<and> bit (rread q) i) (requests s))" (is "?k = length ?rs")
    unfolding size_holders_filter by (rule arg_cong[where f = length], rule filter_cong) (use same in \<open>auto simp: access_def\<close>)
  moreover have "length ?rs < 2 ^ 64" using le_less_trans[OF length_filter_le assms(2)] .
  moreover have "bit (w (lock_at s p)) i \<longleftrightarrow> (\<exists>q\<in>set (requests s). sector q = Sector L \<and> phase q = Held \<and> bit (rwrite q) i)"
  proof -
    have "bit (w (lock_at s p)) i \<longleftrightarrow> (\<exists>q\<in>set (requests s). (slk q = p \<and> phase q = Held) \<and> bit (rwrite q) i)"
      using rep by (auto simp: represents_def holders_def access_def)
    then show ?thesis using same by blast
  qed
  ultimately show ?thesis using assms(4) by (simp add: wr unat_of_nat)
qed

theorem get_locks_reports_holders_witness:
  "\<exists>L\<in>set (StorageGetLocks example_locks). Sector L = (1000, 7) \<and>
     unat (Read L ! 1) = length (filter (\<lambda>q. sector q = Sector L \<and> phase q = Held \<and> bit (rread q) 1) (requests example_locks))
     \<and> Read L ! 1 = 2"
proof -
  obtain L where L: "L \<in> set (StorageGetLocks example_locks)" "Sector L = (1000, 7)" "Read L ! 1 = 2"
  proof -
    have "list_ex (\<lambda>L. Sector L = (1000, 7) \<and> Read L ! 1 = 2) (StorageGetLocks example_locks)" by code_simp
    then show ?thesis using that by (auto simp: list_ex_iff)
  qed
  moreover have "length (requests example_locks) = 5" by code_simp
  ultimately show ?thesis
    using get_locks_reports_holders[OF example_locks_reachable _ L(1), of 1] by (auto simp: FileTypes_def)
qed

subsection \<open>A lock that is never dropped\<close>

text \<open>
  A request that fails was counted in \<open>refs\<close> and is never taken off: after the last holder is gone the lock stays
  in the table although nobody uses it.
\<close>

lemma failed_request_leaks_lock:
  "let s = lockWith_release (enter' False (1000, 7) 0 FTSealed (enter' False (1000, 7) 0 FTSealed newIndexLocks)) 0
   in map phase (requests s) = [Released, Failed] \<and> locks s = [((1000, 7), 0)] \<and> refs (lock_at s 0) = 1"
  by code_simp

end
