(* ===== verification/SectorIndex.thy ===== *)
theory SectorIndex
  imports IndexLocks "HOL-Library.AList"
begin

section \<open>The index of sector files (\<open>storage/paths/index.go\<close>)\<close>

text \<open>
  The index knows the storage paths attached by the workers and which files of which sectors are declared
  to be in which path. The theory models every operation of \<open>Index\<close>, the file types of
  \<open>storiface/filetype.go\<close>, the alerts of \<open>journal/alerting\<close> that the index raises, and the queue of requests to
  move files into a path. Go maps are association lists; the order of their entries is the order of iteration.
  The current time is an argument.
\<close>

subsection \<open>File types by name and their space\<close>

definition PathTypes :: "file_type list" where
  "PathTypes = [FTUnsealed, FTCache, FTSealed, FTUpdate, FTUpdateCache]"

definition FTAll :: file_type where
  "FTAll = fold (\<lambda>t out. out OR t) PathTypes 0"

definition TypeFromString :: "string \<Rightarrow> string + file_type" where
  "TypeFromString s =
    (if s = ''unsealed'' then Inr FTUnsealed
     else if s = ''sealed'' then Inr FTSealed
     else if s = ''cache'' then Inr FTCache
     else if s = ''update'' then Inr FTUpdate
     else if s = ''update-cache'' then Inr FTUpdateCache
     else Inl ''unknown sector file type'')"

text \<open>Decimal numbers, as \<open>fmt\<close> prints them.\<close>

fun decimal :: "nat \<Rightarrow> string" where
  "decimal n = (if n < 10 then [char_of (48 + n)] else decimal (n div 10) @ [char_of (48 + n mod 10)])"

declare decimal.simps [simp del]

definition decimal_int :: "int \<Rightarrow> string" where
  "decimal_int i = (if i < 0 then ''-'' @ decimal (nat (- i)) else decimal (nat i))"

definition ft_String :: "file_type \<Rightarrow> string" where
  "ft_String t =
    (if t = FTUnsealed then ''unsealed''
     else if t = FTSealed then ''sealed''
     else if t = FTCache then ''cache''
     else if t = FTUpdate then ''update''
     else if t = FTUpdateCache then ''update-cache''
     else ''<unknown '' @ decimal_int t @ ''>'')"

definition AllSet :: "file_type \<Rightarrow> file_type list" where
  "AllSet t = filter (\<lambda>ft. ft AND t \<noteq> 0) PathTypes"

definition ft_Strings :: "file_type \<Rightarrow> string list" where
  "ft_Strings t = map ft_String (filter (\<lambda>ft. ft AND t \<noteq> 0) PathTypes)"

definition Has :: "file_type \<Rightarrow> file_type \<Rightarrow> bool" where
  "Has t single \<longleftrightarrow> t AND single = single"

definition FSOverheadDen :: int where
  "FSOverheadDen = 10"

definition FSOverheadSeal :: "(file_type \<times> int) list" where
  "FSOverheadSeal = [(FTUnsealed, FSOverheadDen), (FTSealed, FSOverheadDen), (FTUpdate, FSOverheadDen),
    (FTUpdateCache, FSOverheadDen * 2 + 1), (FTCache, 141)]"

definition FsOverheadFinalized :: "(file_type \<times> int) list" where
  "FsOverheadFinalized = [(FTUnsealed, FSOverheadDen), (FTSealed, FSOverheadDen), (FTUpdate, FSOverheadDen),
    (FTUpdateCache, 1), (FTCache, 1)]"

text \<open>The loop of \<open>SealSpaceUse\<close> and \<open>StoreSpaceUse\<close> over \<open>PathTypes\<close>; sizes are \<open>uint64\<close>.\<close>

fun space_loop :: "(file_type \<times> int) list \<Rightarrow> file_type \<Rightarrow> int \<Rightarrow> file_type list \<Rightarrow> int \<Rightarrow> string + int" where
  "space_loop oh t ssize [] need = Inr need"
| "space_loop oh t ssize (pt # pts) need =
    (if \<not> Has t pt then space_loop oh t ssize pts need
     else case map_of oh pt of
       None \<Rightarrow> Inl ''no overhead info''
     | Some o' \<Rightarrow> space_loop oh t ssize pts (wrapu64 (need + wrapu64 (o' * ssize) div FSOverheadDen)))"

definition SealSpaceUse :: "file_type \<Rightarrow> int \<Rightarrow> string + int" where
  "SealSpaceUse t ssize = space_loop FSOverheadSeal t ssize PathTypes 0"

definition StoreSpaceUse :: "file_type \<Rightarrow> int \<Rightarrow> string + int" where
  "StoreSpaceUse t ssize = space_loop FsOverheadFinalized t ssize PathTypes 0"

text \<open>\<open>SubAllowed\<close>: the part of a set of file types that the lists of a path deny.\<close>

definition SubAllowed :: "file_type \<Rightarrow> string list \<Rightarrow> string list \<Rightarrow> file_type" where
  "SubAllowed t allowTypes denyTypes =
    (let known = (\<lambda>names. map projr (filter (\<lambda>x. \<not> isl x) (map TypeFromString names)));
         denyMask = (if allowTypes \<noteq> [] then fold (\<lambda>pt m. m AND NOT pt) (known allowTypes) (NOT 0) else 0);
         denyMask = fold (\<lambda>pt m. m OR pt) (known denyTypes) denyMask
     in t AND denyMask)"

definition AnyAllowed :: "file_type \<Rightarrow> string list \<Rightarrow> string list \<Rightarrow> bool" where
  "AnyAllowed t allowTypes denyTypes \<longleftrightarrow> SubAllowed t allowTypes denyTypes \<noteq> t"

definition Allowed :: "file_type \<Rightarrow> string list \<Rightarrow> string list \<Rightarrow> bool" where
  "Allowed t allowTypes denyTypes \<longleftrightarrow> SubAllowed t allowTypes denyTypes = 0"

definition SectorName :: "nat \<times> nat \<Rightarrow> string" where
  "SectorName sid = ''s-t0'' @ decimal (fst sid) @ ''-'' @ decimal (snd sid)"

record SectorPaths =
  spID :: "nat \<times> nat"
  Unsealed :: string
  Sealed :: string
  Cache :: string
  Update :: string
  UpdateCache :: string

text \<open>\<open>PathByType\<close> panics for anything but a single known type.\<close>

definition PathByType :: "SectorPaths \<Rightarrow> file_type \<Rightarrow> string option" where
  "PathByType sps t =
    (if t = FTUnsealed then Some (Unsealed sps)
     else if t = FTSealed then Some (Sealed sps)
     else if t = FTCache then Some (Cache sps)
     else if t = FTUpdate then Some (Update sps)
     else if t = FTUpdateCache then Some (UpdateCache sps)
     else None)"

definition SetPathByType :: "SectorPaths \<Rightarrow> file_type \<Rightarrow> string \<Rightarrow> SectorPaths" where
  "SetPathByType sps t p =
    (if t = FTUnsealed then sps\<lparr>Unsealed := p\<rparr>
     else if t = FTSealed then sps\<lparr>Sealed := p\<rparr>
     else if t = FTCache then sps\<lparr>Cache := p\<rparr>
     else if t = FTUpdate then sps\<lparr>Update := p\<rparr>
     else if t = FTUpdateCache then sps\<lparr>UpdateCache := p\<rparr>
     else sps)"

subsection \<open>Alerts (\<open>journal/alerting/alerts.go\<close>)\<close>

text \<open>The message of an event is kept as the fields it is marshalled from; \<open>journal\<close> is what was recorded.\<close>

record AlertEvent =
  evType :: string
  Message :: "(string \<times> string) list"
  evTime :: nat

record Alert =
  aType :: "string \<times> string"
  Active :: bool
  LastActive :: "AlertEvent option"
  LastResolved :: "AlertEvent option"

record Alerting =
  alerts :: "((string \<times> string) \<times> Alert) list"
  journal :: "((string \<times> string) \<times> AlertEvent) list"

definition AddAlertType :: "Alerting \<Rightarrow> string \<Rightarrow> string \<Rightarrow> Alerting \<times> (string \<times> string)" where
  "AddAlertType a system subsystem =
    (let at = (system, subsystem)
     in if map_of (alerts a) at \<noteq> None then (a, at)
        else (a\<lparr>alerts := AList.update at \<lparr>aType = at, Active = False, LastActive = None, LastResolved = None\<rparr> (alerts a)\<rparr>, at))"

text \<open>An unknown alert is logged, and the zero value is updated and stored.\<close>

definition alert_or_zero :: "Alerting \<Rightarrow> string \<times> string \<Rightarrow> Alert" where
  "alert_or_zero a at = (case map_of (alerts a) at of
     Some al \<Rightarrow> al
   | None \<Rightarrow> \<lparr>aType = ([], []), Active = False, LastActive = None, LastResolved = None\<rparr>)"

definition Raise :: "Alerting \<Rightarrow> nat \<Rightarrow> string \<times> string \<Rightarrow> (string \<times> string) list \<Rightarrow> Alerting" where
  "Raise a now at message =
    (let al = alert_or_zero a at; ev = \<lparr>evType = ''raised'', Message = message, evTime = now\<rparr>
     in a\<lparr>alerts := AList.update at (al\<lparr>Active := True, LastActive := Some ev\<rparr>) (alerts a),
          journal := journal a @ [(aType al, ev)]\<rparr>)"

definition Resolve :: "Alerting \<Rightarrow> nat \<Rightarrow> string \<times> string \<Rightarrow> (string \<times> string) list \<Rightarrow> Alerting" where
  "Resolve a now at message =
    (let al = alert_or_zero a at; ev = \<lparr>evType = ''resolved'', Message = message, evTime = now\<rparr>
     in a\<lparr>alerts := AList.update at (al\<lparr>Active := False, LastResolved := Some ev\<rparr>) (alerts a),
          journal := journal a @ [(aType al, ev)]\<rparr>)"

definition IsRaised :: "Alerting \<Rightarrow> string \<times> string \<Rightarrow> bool" where
  "IsRaised a at = Active (alert_or_zero a at)"

subsection \<open>The index\<close>

record FsStat =
  Capacity :: int
  Available :: int
  FSAvailable :: int
  Reserved :: int
  Max :: int
  Used :: int

record StorageInfo =
  siID :: string
  URLs :: "string list"
  Weight :: int
  MaxStorage :: int
  CanSeal :: bool
  CanStore :: bool
  Groups :: "string list"
  AllowTo :: "string list"
  AllowTypes :: "string list"
  DenyTypes :: "string list"
  LocalPath :: string

record storageQueue =
  uid :: string
  requestTime :: nat

record storageEntry =
  info :: StorageInfo
  fsi :: FsStat
  lastHeartbeat :: nat
  heartbeatErr :: "string option"
  rw :: "storageQueue list"

record declMeta =
  storage :: string
  primary :: bool

type_synonym Decl = "(nat \<times> nat) \<times> file_type"

record Index =
  alerting :: "Alerting option"
  pathAlerts :: "(string \<times> (string \<times> string)) list"
  sectors :: "(Decl \<times> declMeta list) list"
  stores :: "(string \<times> storageEntry) list"

definition NewIndex :: "Alerting option \<Rightarrow> Index" where
  "NewIndex al = \<lparr>alerting = al, pathAlerts = [], sectors = [], stores = []\<rparr>"

text \<open>The entries a Go map gives for a key: none for an absent key.\<close>

abbreviation decls :: "Index \<Rightarrow> Decl \<Rightarrow> declMeta list" where
  "decls ix d \<equiv> (case map_of (sectors ix) d of None \<Rightarrow> [] | Some ms \<Rightarrow> ms)"

text \<open>
  \<open>StorageList\<close>: for every path the union of the declared types of every sector. Adding to the map of a path
  that is not attached is an assignment to a nil map: it panics.
\<close>

fun list_decls :: "(string \<times> ((nat \<times> nat) \<times> file_type) list) list \<Rightarrow> (nat \<times> nat) \<Rightarrow> file_type \<Rightarrow> declMeta list
    \<Rightarrow> (string \<times> ((nat \<times> nat) \<times> file_type) list) list option" where
  "list_decls byID sid ft [] = Some byID"
| "list_decls byID sid ft (m # ms) =
    (case map_of byID (storage m) of
       None \<Rightarrow> None
     | Some mp \<Rightarrow>
         let old = (case map_of mp sid of None \<Rightarrow> 0 | Some t \<Rightarrow> t)
         in list_decls (AList.update (storage m) (AList.update sid (old OR ft) mp) byID) sid ft ms)"

fun list_sectors :: "(string \<times> ((nat \<times> nat) \<times> file_type) list) list \<Rightarrow> (Decl \<times> declMeta list) list
    \<Rightarrow> (string \<times> ((nat \<times> nat) \<times> file_type) list) list option" where
  "list_sectors byID [] = Some byID"
| "list_sectors byID (((sid, ft), ms) # ds) = do { byID \<leftarrow> list_decls byID sid ft ms; list_sectors byID ds }"

definition StorageList :: "Index \<Rightarrow> (string \<times> ((nat \<times> nat) \<times> file_type) list) list option" where
  "StorageList ix = list_sectors (map (\<lambda>(id, _). (id, [])) (stores ix)) (sectors ix)"

text \<open>The check of a list of type names in \<open>StorageAttach\<close>: bad names are left out and raise the path's alert.\<close>

fun checkTypes :: "nat \<Rightarrow> string \<Rightarrow> string \<Rightarrow> string \<times> string \<Rightarrow> nat \<Rightarrow> string list \<Rightarrow> Alerting option \<times> bool
    \<Rightarrow> string list \<times> Alerting option \<times> bool" where
  "checkTypes now path msg at i [] (al, issues) = ([], al, issues)"
| "checkTypes now path msg at i (typ # typs) (al, issues) =
    (case TypeFromString typ of
       Inr _ \<Rightarrow> let (rest, al, issues) = checkTypes now path msg at (Suc i) typs (al, issues) in (typ # rest, al, issues)
     | Inl err \<Rightarrow>
         checkTypes now path msg at (Suc i) typs
           (map_option (\<lambda>a. Raise a now at [(''message'', msg), (''path'', path), (''idx'', decimal i),
              (''path_type'', typ), (''error'', err)]) al, True))"

text \<open>\<open>url.Parse\<close> and the URL with a joined path are parameters of the operations that use them.\<close>

record urls =
  urlOk :: "string \<Rightarrow> bool"
  urlJoin :: "string \<Rightarrow> string \<Rightarrow> string \<Rightarrow> string"

text \<open>The new information of a path that is attached again; its URLs are added to those known.\<close>

definition updateInfo :: "StorageInfo \<Rightarrow> StorageInfo \<Rightarrow> StorageInfo" where
  "updateInfo old si = old\<lparr>URLs := fold (\<lambda>u us. if u \<in> set us then us else us @ [u]) (URLs si) (URLs old),
     LocalPath := LocalPath si, Weight := Weight si, MaxStorage := MaxStorage si, CanSeal := CanSeal si,
     CanStore := CanStore si, Groups := Groups si, AllowTo := AllowTo si, AllowTypes := AllowTypes si,
     DenyTypes := DenyTypes si\<rparr>"

text \<open>The alert of a path is added with the path.\<close>

definition attach_alert :: "Index \<Rightarrow> string \<Rightarrow> Index" where
  "attach_alert ix sto =
    (case alerting ix of
       Some a \<Rightarrow>
         if map_of (pathAlerts ix) sto = None
         then let (a, at) = AddAlertType a ''sector-index'' (''pathconf-'' @ sto)
              in ix\<lparr>alerting := Some a, pathAlerts := AList.update sto at (pathAlerts ix)\<rparr>
         else ix
     | None \<Rightarrow> ix)"

text \<open>The names that are left of the two lists; the alert is resolved when none was bad.\<close>

definition attach_types :: "nat \<Rightarrow> Index \<Rightarrow> StorageInfo \<Rightarrow> Index \<times> string list \<times> string list" where
  "attach_types now ix si =
    (let at = (case map_of (pathAlerts ix) (siID si) of Some at \<Rightarrow> at | None \<Rightarrow> ([], []));
         (allow, al, issues) = checkTypes now (siID si) ''bad path type in AllowTypes'' at 0 (AllowTypes si) (alerting ix, False);
         (deny, al, issues) = checkTypes now (siID si) ''bad path type in DenyTypes'' at 0 (DenyTypes si) (al, issues);
         al = (case al of
            Some a \<Rightarrow> if \<not> issues \<and> IsRaised a at then Some (Resolve a now at [(''message'', ''path config is now correct'')]) else al
          | None \<Rightarrow> None)
     in (ix\<lparr>alerting := al\<rparr>, allow, deny))"

definition StorageAttach :: "urls \<Rightarrow> nat \<Rightarrow> Index \<Rightarrow> StorageInfo \<Rightarrow> FsStat \<Rightarrow> Index \<times> string option" where
  "StorageAttach ue now ix si st =
    (let (ix, allow, deny) = attach_types now (attach_alert ix (siID si)) si;
         si = si\<lparr>AllowTypes := allow, DenyTypes := deny\<rparr>
     in case map_of (stores ix) (siID si) of
          Some ent \<Rightarrow>
            if \<not> list_all (urlOk ue) (URLs si) then (ix, Some ''failed to parse url'')
            else (ix\<lparr>stores := AList.update (siID si) (ent\<lparr>info := updateInfo (info ent) si\<rparr>) (stores ix)\<rparr>, None)
        | None \<Rightarrow>
            (ix\<lparr>stores := AList.update (siID si)
               \<lparr>info = si, fsi = st, lastHeartbeat = now, heartbeatErr = None, rw = []\<rparr> (stores ix)\<rparr>, None))"

text \<open>\<open>StorageDetach\<close>: the declarations in a dropped path go with it.\<close>

definition dropDecls :: "string \<Rightarrow> (Decl \<times> declMeta list) list \<Rightarrow> (Decl \<times> declMeta list) list" where
  "dropDecls sto ds =
    concat (map (\<lambda>(d, dms).
      if \<not> list_ex (\<lambda>dm. storage dm = sto) dms then [(d, dms)]
      else if length dms \<le> 1 then []
      else [(d, filter (\<lambda>dm. storage dm \<noteq> sto) dms)]) ds)"

definition StorageDetach :: "nat \<Rightarrow> Index \<Rightarrow> string \<Rightarrow> string \<Rightarrow> Index \<times> string option" where
  "StorageDetach now ix sto url =
    (case map_of (stores ix) sto of
       None \<Rightarrow> (ix, Some ''storage is not registered'')
     | Some ent \<Rightarrow>
         let us = URLs (info ent); drp = (us = [] \<or> length us = 1)
         in if us \<noteq> [] \<and> drp \<and> us ! 0 \<noteq> url then (ix, Some ''not dropping path'')
            else if drp then
              let ix = (case (map_of (pathAlerts ix) sto, alerting ix) of
                    (Some at, Some a) \<Rightarrow>
                      ix\<lparr>alerting := Some (if IsRaised a at then Resolve a now at [(''message'', ''path detached'')] else a),
                        pathAlerts := AList.delete sto (pathAlerts ix)\<rparr>
                  | _ \<Rightarrow> ix)
              in (ix\<lparr>sectors := dropDecls sto (sectors ix), stores := AList.delete sto (stores ix)\<rparr>, None)
            else (ix\<lparr>stores := AList.update sto (ent\<lparr>info := (info ent)\<lparr>URLs := filter (\<lambda>u. u \<noteq> url) us\<rparr>\<rparr>) (stores ix)\<rparr>, None))"

definition StorageReportHealth :: "nat \<Rightarrow> Index \<Rightarrow> string \<Rightarrow> FsStat \<Rightarrow> string \<Rightarrow> Index \<times> string option" where
  "StorageReportHealth now ix sto stat err =
    (case map_of (stores ix) sto of
       None \<Rightarrow> (ix, Some ''health report for unknown storage'')
     | Some ent \<Rightarrow>
         (ix\<lparr>stores := AList.update sto (ent\<lparr>fsi := stat, heartbeatErr := (if err \<noteq> [] then Some err else None),
            lastHeartbeat := now\<rparr>) (stores ix)\<rparr>, None))"

text \<open>A path that is declared again can become primary.\<close>

fun promote :: "string \<Rightarrow> bool \<Rightarrow> declMeta list \<Rightarrow> declMeta list" where
  "promote sto prim [] = []"
| "promote sto prim (m # ms) =
    (if storage m = sto then (if \<not> primary m \<and> prim then m\<lparr>primary := True\<rparr> else m) # ms
     else m # promote sto prim ms)"

text \<open>The loop of \<open>StorageDeclareSector\<close> over the file types that are asked for.\<close>

fun declare_loop :: "string \<Rightarrow> nat \<times> nat \<Rightarrow> file_type \<Rightarrow> bool \<Rightarrow> file_type list \<Rightarrow> (Decl \<times> declMeta list) list
    \<Rightarrow> (Decl \<times> declMeta list) list" where
  "declare_loop sto s ft prim [] ds = ds"
| "declare_loop sto s ft prim (t # ts) ds =
    (if t AND ft = 0 then declare_loop sto s ft prim ts ds
     else
       let ms = (case map_of ds (s, t) of None \<Rightarrow> [] | Some ms \<Rightarrow> ms)
       in if list_ex (\<lambda>m. storage m = sto) ms
          then declare_loop sto s ft prim ts (AList.update (s, t) (promote sto prim ms) ds)
          else declare_loop sto s ft prim ts (AList.update (s, t) (ms @ [\<lparr>storage = sto, primary = prim\<rparr>]) ds))"

definition StorageDeclareSector :: "Index \<Rightarrow> string \<Rightarrow> nat \<times> nat \<Rightarrow> file_type \<Rightarrow> bool \<Rightarrow> Index" where
  "StorageDeclareSector ix sto s ft prim = ix\<lparr>sectors := declare_loop sto s ft prim PathTypes (sectors ix)\<rparr>"

fun drop_loop :: "string \<Rightarrow> nat \<times> nat \<Rightarrow> file_type \<Rightarrow> file_type list \<Rightarrow> (Decl \<times> declMeta list) list
    \<Rightarrow> (Decl \<times> declMeta list) list" where
  "drop_loop sto s ft [] ds = ds"
| "drop_loop sto s ft (t # ts) ds =
    (if t AND ft = 0 then drop_loop sto s ft ts ds
     else
       let ms = (case map_of ds (s, t) of None \<Rightarrow> [] | Some ms \<Rightarrow> ms)
       in if ms = [] then drop_loop sto s ft ts ds
          else
            let rewritten = filter (\<lambda>m. storage m \<noteq> sto) ms
            in drop_loop sto s ft ts
                 (if rewritten = [] then AList.delete (s, t) ds else AList.update (s, t) rewritten ds))"

definition StorageDropSector :: "Index \<Rightarrow> string \<Rightarrow> nat \<times> nat \<Rightarrow> file_type \<Rightarrow> Index" where
  "StorageDropSector ix sto s ft = ix\<lparr>sectors := drop_loop sto s ft PathTypes (sectors ix)\<rparr>"

record SectorStorageInfo =
  ssID :: string
  ssURLs :: "string list"
  BaseURLs :: "string list"
  ssWeight :: int
  ssCanSeal :: bool
  ssCanStore :: bool
  Primary :: bool
  ssAllowTypes :: "string list"
  ssDenyTypes :: "string list"

text \<open>
  \<open>StorageFindSector\<close> first counts, for every path, the declared files of the sector among the types, and whether
  one is primary. The function returns before the part that would look for paths to fetch to, so that the
  arguments \<open>ssize\<close> and \<open>allowFetch\<close> are not used.
\<close>

definition count_decl :: "(string \<times> (int \<times> bool)) list \<Rightarrow> declMeta \<Rightarrow> (string \<times> (int \<times> bool)) list" where
  "count_decl acc m =
    (let (n, p) = (case map_of acc (storage m) of None \<Rightarrow> (0, False) | Some x \<Rightarrow> x)
     in AList.update (storage m) (wrapu64 (n + 1), p \<or> primary m) acc)"

definition count_decls :: "Index \<Rightarrow> nat \<times> nat \<Rightarrow> file_type \<Rightarrow> (string \<times> (int \<times> bool)) list" where
  "count_decls ix s ft =
    fold (\<lambda>t acc. if ft AND t = 0 then acc else fold (\<lambda>m acc. count_decl acc m) (decls ix (s, t)) acc) PathTypes []"

definition find_info :: "urls \<Rightarrow> nat \<times> nat \<Rightarrow> file_type \<Rightarrow> string \<Rightarrow> StorageInfo \<Rightarrow> int \<times> bool \<Rightarrow> SectorStorageInfo" where
  "find_info ue s ft sto si np =
    \<lparr>ssID = sto, ssURLs = map (\<lambda>u. urlJoin ue u (ft_String ft) (SectorName s)) (URLs si), BaseURLs = URLs si,
     ssWeight = wrapu64 (Weight si * fst np), ssCanSeal = CanSeal si, ssCanStore = CanStore si, Primary = snd np,
     ssAllowTypes = AllowTypes si, ssDenyTypes = DenyTypes si\<rparr>"

fun find_loop :: "urls \<Rightarrow> Index \<Rightarrow> nat \<times> nat \<Rightarrow> file_type \<Rightarrow> (string \<times> (int \<times> bool)) list \<Rightarrow> string + SectorStorageInfo list" where
  "find_loop ue ix s ft [] = Inr []"
| "find_loop ue ix s ft ((sto, np) # rest) =
    (case map_of (stores ix) sto of
       None \<Rightarrow> find_loop ue ix s ft rest
     | Some st \<Rightarrow>
         if \<not> list_all (urlOk ue) (URLs (info st)) then Inl ''failed to parse url''
         else case find_loop ue ix s ft rest of
           Inl e \<Rightarrow> Inl e
         | Inr out \<Rightarrow> Inr (find_info ue s ft sto (info st) np # out))"

definition StorageFindSector :: "urls \<Rightarrow> Index \<Rightarrow> nat \<times> nat \<Rightarrow> file_type \<Rightarrow> int \<Rightarrow> bool \<Rightarrow> string + SectorStorageInfo list" where
  "StorageFindSector ue ix s ft ssize allowFetch = find_loop ue ix s ft (count_decls ix s ft)"

definition IndexStorageInfo :: "Index \<Rightarrow> string \<Rightarrow> string + StorageInfo" where
  "IndexStorageInfo ix sto = (case map_of (stores ix) sto of None \<Rightarrow> Inl ''sector store not found'' | Some st \<Rightarrow> Inr (info st))"

datatype PathType = PathStorage | PathSealing

text \<open>
  \<open>StorageBestAlloc\<close>: the paths for the purpose with at least 207 GB and no heartbeat error, by ascending
  weight. The types to allocate and the size of the sector are not looked at. Go's sort leaves the order of
  equal weights open; here they keep the order of the map.
\<close>

definition alloc_candidate :: "PathType \<Rightarrow> storageEntry \<Rightarrow> bool" where
  "alloc_candidate pt p \<longleftrightarrow>
    \<not> (pt = PathSealing \<and> \<not> CanSeal (info p)) \<and> \<not> (pt = PathStorage \<and> \<not> CanStore (info p))
    \<and> \<not> 207000000000 > wrapu64 (Available (fsi p)) \<and> heartbeatErr p = None"

definition StorageBestAlloc :: "Index \<Rightarrow> file_type \<Rightarrow> int \<Rightarrow> PathType \<Rightarrow> string + StorageInfo list" where
  "StorageBestAlloc ix allocate ssize pt =
    (let candidates = filter (alloc_candidate pt) (map snd (stores ix))
     in if candidates = [] then Inl ''no good path found''
        else Inr (map info (sort_key (\<lambda>c. wrap64 (Weight (info c))) candidates)))"

definition FindSector :: "Index \<Rightarrow> nat \<times> nat \<Rightarrow> file_type \<Rightarrow> string list" where
  "FindSector ix s t = (case map_of (sectors ix) (s, t) of None \<Rightarrow> [] | Some ms \<Rightarrow> map storage ms)"

definition StorageSetWeight :: "Index \<Rightarrow> string \<Rightarrow> Index \<times> string option" where
  "StorageSetWeight ix sto =
    (case map_of (stores ix) sto of
       Some ent \<Rightarrow> (ix\<lparr>stores := AList.update sto (ent\<lparr>info := (info ent)\<lparr>Weight := wrapu64 (Weight (info ent) + 1)\<rparr>\<rparr>) (stores ix)\<rparr>, None)
     | None \<Rightarrow> (ix, Some ''storage does not exist''))"

subsection \<open>The queue of a storage path\<close>

text \<open>Times are in nanoseconds, as Go's durations.\<close>

definition storageTime :: nat where
  "storageTime = 5 * 60 * 1000000000"

text \<open>The requests that were active in the last five minutes; the search counts those before the own one.\<close>

definition live :: "nat \<Rightarrow> storageQueue list \<Rightarrow> storageQueue list" where
  "live now q = filter (\<lambda>v. int now - int (requestTime v) < int storageTime) q"

fun find_uid :: "string \<Rightarrow> storageQueue list \<Rightarrow> nat \<Rightarrow> nat \<times> bool" where
  "find_uid u [] num = (num, False)"
| "find_uid u (v # vs) num = (if uid v = u then (num, True) else find_uid u vs (Suc num))"

definition StorageLockByID :: "nat \<Rightarrow> Index \<Rightarrow> string \<Rightarrow> string \<Rightarrow> Index \<times> nat \<times> string option" where
  "StorageLockByID now ix sto u =
    (case map_of (stores ix) sto of
       None \<Rightarrow> (ix, 0, Some ''storage does not exist'')
     | Some ent \<Rightarrow>
         let rws = live now (rw ent);
             (num, found) = find_uid u rws 0;
             rws = (if found then rws[num := (rws ! num)\<lparr>requestTime := now\<rparr>] else rws @ [\<lparr>uid = u, requestTime = now\<rparr>])
         in (ix\<lparr>stores := AList.update sto (ent\<lparr>rw := rws\<rparr>) (stores ix)\<rparr>, num, None))"

definition StorageUnLockByID :: "Index \<Rightarrow> string \<Rightarrow> string \<Rightarrow> Index \<times> string option" where
  "StorageUnLockByID ix sto u =
    (case map_of (stores ix) sto of
       None \<Rightarrow> (ix, Some ''storage does not exist'')
     | Some ent \<Rightarrow>
         let (num, found) = find_uid u (rw ent) 0
         in (if found then ix\<lparr>stores := AList.update sto (ent\<lparr>rw := take num (rw ent) @ drop (Suc num) (rw ent)\<rparr>) (stores ix)\<rparr> else ix, None))"


subsection \<open>The declarations as a relation\<close>

text \<open>
  What the map of sectors means: a path has a file of a type of a sector. \<open>paths_at\<close> is the set of paths of a
  declaration in a table.
\<close>

abbreviation metas :: "(Decl \<times> declMeta list) list \<Rightarrow> Decl \<Rightarrow> declMeta list" where
  "metas ds d \<equiv> (case map_of ds d of None \<Rightarrow> [] | Some ms \<Rightarrow> ms)"

definition paths_at :: "(Decl \<times> declMeta list) list \<Rightarrow> Decl \<Rightarrow> string set" where
  "paths_at ds d = storage ` set (metas ds d)"

definition declared :: "Index \<Rightarrow> ((nat \<times> nat) \<times> file_type \<times> string) set" where
  "declared ix = {(s, t, sto). sto \<in> paths_at (sectors ix) (s, t)}"

definition table_wf :: "(Decl \<times> declMeta list) list \<Rightarrow> bool" where
  "table_wf ds \<longleftrightarrow> distinct (map fst ds) \<and> (\<forall>d ms. map_of ds d = Some ms \<longrightarrow> ms \<noteq> [] \<and> distinct (map storage ms))"

definition index_ok :: "Index \<Rightarrow> bool" where
  "index_ok ix \<longleftrightarrow> table_wf (sectors ix) \<and> distinct (map fst (stores ix))"

lemma table_wfI:
  assumes "distinct (map fst ds)" and "\<And>d ms. map_of ds d = Some ms \<Longrightarrow> ms \<noteq> [] \<and> distinct (map storage ms)"
  shows "table_wf ds"
  using assms unfolding table_wf_def by blast

lemma table_wfD:
  assumes "table_wf ds"
  shows "distinct (map fst ds)" and "map_of ds d = Some ms \<Longrightarrow> ms \<noteq> [] \<and> distinct (map storage ms)"
  using assms unfolding table_wf_def by blast+

lemma table_wf_metas: "table_wf ds \<Longrightarrow> distinct (map storage (metas ds d))"
  using table_wfD(2)[of ds d] by (cases "map_of ds d") simp_all

lemma table_wf_update:
  assumes "table_wf ds" and "ms \<noteq> []" and "distinct (map storage ms)"
  shows "table_wf (AList.update d ms ds)"
proof (rule table_wfI)
  show "distinct (map fst (AList.update d ms ds))" using table_wfD(1)[OF assms(1)] by (rule distinct_update)
  fix k ms' assume "map_of (AList.update d ms ds) k = Some ms'"
  then have "ms' = ms \<or> map_of ds k = Some ms'" by (simp only: update_conv' fun_upd_apply split: if_splits) auto
  then show "ms' \<noteq> [] \<and> distinct (map storage ms')" using assms table_wfD(2) by blast
qed

lemma table_wf_delete:
  assumes "table_wf ds"
  shows "table_wf (AList.delete d ds)"
proof (rule table_wfI)
  show "distinct (map fst (AList.delete d ds))" using table_wfD(1)[OF assms] by (rule distinct_delete)
  fix k ms' assume "map_of (AList.delete d ds) k = Some ms'"
  then have "map_of ds k = Some ms'" by (simp only: delete_conv' fun_upd_apply split: if_splits) auto
  then show "ms' \<noteq> [] \<and> distinct (map storage ms')" using assms table_wfD(2) by blast
qed

lemma storage_promote [simp]: "map storage (promote sto prim ms) = map storage ms"
  by (induction ms) auto

lemma promote_Nil [simp]: "promote sto prim ms = [] \<longleftrightarrow> ms = []"
  by (cases ms) auto

lemma paths_promote: "storage ` set (promote sto prim ms) = storage ` set ms"
  by (metis list.set_map storage_promote)

lemma paths_at_update: "paths_at (AList.update d ms ds) d' = (if d' = d then storage ` set ms else paths_at ds d')"
  by (simp add: paths_at_def update_conv')

lemma paths_at_delete: "paths_at (AList.delete d ds) d' = (if d' = d then {} else paths_at ds d')"
  by (simp add: paths_at_def delete_conv')

text \<open>One round of the loops, for one file type.\<close>

lemma declare_loop_paths:
  "paths_at (declare_loop sto s ft prim ts ds) d =
    paths_at ds d \<union> (if fst d = s \<and> snd d \<in> set ts \<and> snd d AND ft \<noteq> 0 then {sto} else {})"
proof (induction ts arbitrary: ds)
  case (Cons t ts)
  define ms where "ms = metas ds (s, t)"
  have at: "paths_at ds (s, t) = storage ` set ms" by (simp add: paths_at_def ms_def)
  consider "t AND ft = 0" | "t AND ft \<noteq> 0" "list_ex (\<lambda>m. storage m = sto) ms" | "t AND ft \<noteq> 0" "\<not> list_ex (\<lambda>m. storage m = sto) ms"
    by blast
  then show ?case
  proof cases
    case 1
    then show ?thesis using Cons by auto
  next
    case 2
    then have "sto \<in> storage ` set ms" by (auto simp: list_ex_iff)
    then show ?thesis
      using 2 Cons at by (cases d) (auto simp: ms_def[symmetric] Let_def paths_at_update paths_promote)
  next
    case 3
    then show ?thesis
      using Cons at by (cases d) (auto simp: ms_def[symmetric] Let_def paths_at_update)
  qed
qed simp

lemma declare_loop_wf: "table_wf ds \<Longrightarrow> table_wf (declare_loop sto s ft prim ts ds)"
proof (induction ts arbitrary: ds)
  case (Cons t ts)
  define ms where "ms = metas ds (s, t)"
  have d: "distinct (map storage ms)" using table_wf_metas[OF Cons.prems] by (simp add: ms_def)
  have "table_wf (AList.update (s, t) (promote sto prim ms) ds)" if "list_ex (\<lambda>m. storage m = sto) ms"
    using that d Cons.prems by (intro table_wf_update) auto
  moreover have "table_wf (AList.update (s, t) (ms @ [\<lparr>storage = sto, primary = prim\<rparr>]) ds)"
    if "\<not> list_ex (\<lambda>m. storage m = sto) ms"
    using that d Cons.prems by (intro table_wf_update) (auto simp: list_ex_iff)
  ultimately show ?case using Cons by (simp add: ms_def[symmetric] Let_def)
qed simp

lemma drop_loop_paths:
  "paths_at (drop_loop sto s ft ts ds) d =
    paths_at ds d - (if fst d = s \<and> snd d \<in> set ts \<and> snd d AND ft \<noteq> 0 then {sto} else {})"
proof (induction ts arbitrary: ds)
  case (Cons t ts)
  define ms where "ms = metas ds (s, t)"
  let ?ms' = "filter (\<lambda>m. storage m \<noteq> sto) ms"
  have at: "paths_at ds (s, t) = storage ` set ms" by (simp add: paths_at_def ms_def)
  have new: "paths_at (if ?ms' = [] then AList.delete (s, t) ds else AList.update (s, t) ?ms' ds) d
      = paths_at ds d - (if d = (s, t) then {sto} else {})"
  proof (cases "d = (s, t)")
    case True
    have "storage ` set ?ms' = storage ` set ms - {sto}" by auto
    then show ?thesis using True at by (cases "?ms' = []") (simp_all add: paths_at_update paths_at_delete)
  qed (simp add: paths_at_update paths_at_delete)
  consider "t AND ft = 0" | "t AND ft \<noteq> 0" "ms = []" | "t AND ft \<noteq> 0" "ms \<noteq> []" by blast
  then show ?case
  proof cases
    case 1
    then show ?thesis using Cons by auto
  next
    case 2
    then show ?thesis using Cons at by (cases d) (auto simp: ms_def[symmetric])
  next
    case 3
    then have eq: "drop_loop sto s ft (t # ts) ds
        = drop_loop sto s ft ts (if ?ms' = [] then AList.delete (s, t) ds else AList.update (s, t) ?ms' ds)"
      by (simp add: ms_def[symmetric] Let_def)
    show ?thesis unfolding eq Cons.IH new using 3 by (cases d) auto
  qed
qed simp

lemma drop_loop_wf: "table_wf ds \<Longrightarrow> table_wf (drop_loop sto s ft ts ds)"
proof (induction ts arbitrary: ds)
  case (Cons t ts)
  define ms where "ms = metas ds (s, t)"
  have "distinct (map storage ms)" using table_wf_metas[OF Cons.prems] by (simp add: ms_def)
  then have "distinct (map storage (filter (\<lambda>m. storage m \<noteq> sto) ms))" by (simp add: distinct_map_filter)
  then show ?case
    using Cons by (simp add: ms_def[symmetric] Let_def table_wf_update table_wf_delete)
qed simp

text \<open>Detaching a path drops its declarations.\<close>

lemma dropDecls_simps [simp]:
  "dropDecls sto [] = []"
  "dropDecls sto ((d, ms) # ds) =
    (if \<not> list_ex (\<lambda>m. storage m = sto) ms then [(d, ms)]
     else if length ms \<le> 1 then [] else [(d, filter (\<lambda>m. storage m \<noteq> sto) ms)]) @ dropDecls sto ds"
  by (simp_all add: dropDecls_def)

lemma dropDecls_keys_sub: "fst ` set (dropDecls sto ds) \<subseteq> fst ` set ds"
proof (induction ds)
  case (Cons x ds)
  then show ?case by (cases x) auto
qed simp

lemma map_of_dropDecls:
  assumes "distinct (map fst ds)"
  shows "map_of (dropDecls sto ds) d =
    (case map_of ds d of
       None \<Rightarrow> None
     | Some ms \<Rightarrow> if \<not> list_ex (\<lambda>m. storage m = sto) ms then Some ms
         else if length ms \<le> 1 then None else Some (filter (\<lambda>m. storage m \<noteq> sto) ms))"
  using assms
proof (induction ds)
  case (Cons x ds)
  obtain k ms where x: "x = (k, ms)" by fastforce
  have "k \<notin> fst ` set ds" "distinct (map fst ds)" using Cons.prems x by simp_all
  then have none: "map_of (dropDecls sto ds) k = None"
    using dropDecls_keys_sub[of sto ds] by (auto simp: map_of_eq_None_iff)
  show ?case
  proof (cases "d = k")
    case True
    then show ?thesis using none by (simp add: x)
  next
    case False
    then show ?thesis using Cons by (simp add: x)
  qed
qed simp

lemma dropDecls_keys: "distinct (map fst ds) \<Longrightarrow> distinct (map fst (dropDecls sto ds))"
proof (induction ds)
  case (Cons x ds)
  then show ?case using dropDecls_keys_sub[of sto ds] by (cases x) auto
qed simp

lemma dropDecls_paths:
  assumes "table_wf ds"
  shows "paths_at (dropDecls sto ds) d = paths_at ds d - {sto}"
proof (cases "map_of ds d")
  case (Some ms)
  have "storage ` set ms - {sto} = {}" if "list_ex (\<lambda>m. storage m = sto) ms" "length ms \<le> 1"
    using that by (cases ms) (auto simp: list_ex_iff)
  moreover have "storage ` set ms - {sto} = storage ` set ms" if "\<not> list_ex (\<lambda>m. storage m = sto) ms"
    using that by (auto simp: list_ex_iff)
  moreover have "storage ` set (filter (\<lambda>m. storage m \<noteq> sto) ms) = storage ` set ms - {sto}" by auto
  ultimately show ?thesis
    using Some by (simp add: paths_at_def map_of_dropDecls[OF table_wfD(1)[OF assms]] del: map_of_eq_Some_iff)
qed (simp add: paths_at_def map_of_dropDecls[OF table_wfD(1)[OF assms]])

lemma dropDecls_wf:
  assumes "table_wf ds"
  shows "table_wf (dropDecls sto ds)"
proof -
  have d: "distinct (map fst ds)" using table_wfD(1)[OF assms] .
  have "ms' \<noteq> [] \<and> distinct (map storage ms')" if m: "map_of (dropDecls sto ds) k = Some ms'" for k ms'
  proof -
    obtain ms where ms: "map_of ds k = Some ms" and
      ms': "ms' = ms \<or> ms' = filter (\<lambda>m. storage m \<noteq> sto) ms \<and> \<not> length ms \<le> 1"
      using m map_of_dropDecls[OF d, of sto k] by (auto split: option.splits if_splits simp del: map_of_eq_Some_iff)
    have wf: "ms \<noteq> []" "distinct (map storage ms)" using table_wfD(2)[OF assms ms] by blast+
    have "filter (\<lambda>m. storage m \<noteq> sto) ms \<noteq> []" if "\<not> length ms \<le> 1"
    proof -
      have "\<exists>a b rest. ms = a # b # rest" using that by (cases ms; cases "tl ms") auto
      then obtain a b rest where "ms = a # b # rest" by blast
      then show ?thesis using wf(2) by auto
    qed
    then show ?thesis using ms' wf by (auto simp: distinct_map_filter)
  qed
  then show ?thesis using dropDecls_keys[OF d] by (intro table_wfI)
qed


subsection \<open>Every operation keeps the index well-formed\<close>

inductive index_step :: "urls \<Rightarrow> Index \<Rightarrow> Index \<Rightarrow> bool" for ue where
  attach: "StorageAttach ue now ix si st = (ix', e) \<Longrightarrow> index_step ue ix ix'"
| detach: "StorageDetach now ix sto url = (ix', e) \<Longrightarrow> index_step ue ix ix'"
| report: "StorageReportHealth now ix sto stat err = (ix', e) \<Longrightarrow> index_step ue ix ix'"
| announce: "index_step ue ix (StorageDeclareSector ix sto s ft prim)"
| forget: "index_step ue ix (StorageDropSector ix sto s ft)"
| reweigh: "StorageSetWeight ix sto = (ix', e) \<Longrightarrow> index_step ue ix ix'"
| lock: "StorageLockByID now ix sto u = (ix', n, e) \<Longrightarrow> index_step ue ix ix'"
| unlock: "StorageUnLockByID ix sto u = (ix', e) \<Longrightarrow> index_step ue ix ix'"

inductive index_reachable :: "urls \<Rightarrow> Index \<Rightarrow> bool" for ue where
  init: "index_reachable ue (NewIndex al)"
| step: "index_reachable ue ix \<Longrightarrow> index_step ue ix ix' \<Longrightarrow> index_reachable ue ix'"

lemma attach_alert_same [simp]:
  "sectors (attach_alert ix sto) = sectors ix" "stores (attach_alert ix sto) = stores ix"
  by (simp_all add: attach_alert_def split: option.splits prod.splits)

lemma attach_types_same:
  assumes "attach_types now ix si = (ix', allow, deny)"
  shows "sectors ix' = sectors ix \<and> stores ix' = stores ix"
  using assms by (auto simp: attach_types_def Let_def split: prod.splits)

lemma attach_sectors:
  assumes "StorageAttach ue now ix si st = (ix', e)"
  shows "sectors ix' = sectors ix \<and> (distinct (map fst (stores ix)) \<longrightarrow> distinct (map fst (stores ix')))"
proof -
  obtain ix1 allow deny where 1: "attach_types now (attach_alert ix (siID si)) si = (ix1, allow, deny)"
    by (metis prod_cases3)
  then show ?thesis
    using assms attach_types_same[OF 1]
    by (auto simp: StorageAttach_def Let_def distinct_update split: option.splits if_splits)
qed

lemma detach_ok:
  assumes "StorageDetach now ix sto url = (ix', e)" and "index_ok ix"
  shows "index_ok ix'"
  using assms unfolding StorageDetach_def
  by (auto simp: Let_def index_ok_def distinct_update distinct_delete dropDecls_wf split: option.splits if_splits prod.splits)

lemma index_step_ok:
  assumes "index_step ue ix ix'" and "index_ok ix"
  shows "index_ok ix'"
  using assms
proof cases
  case (attach now si st e)
  then show ?thesis using assms(2) attach_sectors[OF attach] by (simp add: index_ok_def)
next
  case (detach now sto url e)
  then show ?thesis using assms(2) detach_ok by blast
qed (use assms(2) in \<open>auto simp: index_ok_def StorageReportHealth_def StorageDeclareSector_def StorageDropSector_def
    StorageSetWeight_def StorageLockByID_def StorageUnLockByID_def Let_def distinct_update declare_loop_wf drop_loop_wf
    split: option.splits if_splits prod.splits\<close>)

lemma index_reachable_ok: "index_reachable ue ix \<Longrightarrow> index_ok ix"
proof (induction rule: index_reachable.induct)
  case (init al)
  show ?case by (simp add: index_ok_def NewIndex_def table_wf_def)
next
  case (step ix ix')
  then show ?case using index_step_ok by blast
qed

lemma declared_iff: "(s, t, sto) \<in> declared ix \<longleftrightarrow> sto \<in> paths_at (sectors ix) (s, t)"
  by (simp add: declared_def)

lemma AllSet_iff: "t \<in> set (AllSet ft) \<longleftrightarrow> t \<in> set PathTypes \<and> t AND ft \<noteq> 0"
  by (simp add: AllSet_def)

lemma declared_declare:
  "declared (StorageDeclareSector ix sto s ft prim) = declared ix \<union> {s} \<times> set (AllSet ft) \<times> {sto}"
  by (auto simp: declared_def StorageDeclareSector_def declare_loop_paths AllSet_iff split: if_splits)

lemma declared_drop:
  "declared (StorageDropSector ix sto s ft) = declared ix - {s} \<times> set (AllSet ft) \<times> {sto}"
  by (auto simp: declared_def StorageDropSector_def drop_loop_paths AllSet_iff split: if_splits)

lemma declared_detach:
  assumes "index_ok ix" and "StorageDetach now ix sto url = (ix', e)"
  shows "declared ix' = (if map_of (stores ix) sto \<noteq> None \<and> map_of (stores ix') sto = None
    then declared ix - UNIV \<times> UNIV \<times> {sto} else declared ix)"
proof -
  have wf: "table_wf (sectors ix)" using assms(1) by (simp add: index_ok_def)
  have "(sectors ix' = sectors ix \<and> (map_of (stores ix) sto \<noteq> None \<longrightarrow> map_of (stores ix') sto \<noteq> None))
      \<or> (map_of (stores ix) sto \<noteq> None \<and> map_of (stores ix') sto = None \<and> sectors ix' = dropDecls sto (sectors ix))"
    using assms(2) unfolding StorageDetach_def
    by (auto simp: Let_def delete_conv' update_conv' split: option.splits if_splits prod.splits)
  then show ?thesis
    using dropDecls_paths[OF wf] by (elim disjE) (auto simp: declared_def)
qed

subsection \<open>What the queries return\<close>

text \<open>Counting the declarations of one file type.\<close>

definition counted :: "(string \<times> (int \<times> bool)) list \<Rightarrow> string \<Rightarrow> int \<times> bool" where
  "counted acc sto = (case map_of acc sto of None \<Rightarrow> (0, False) | Some x \<Rightarrow> x)"

lemma count_decl_map:
  "map_of (count_decl acc m) sto =
    (if sto = storage m then Some (wrapu64 (fst (counted acc sto) + 1), snd (counted acc sto) \<or> primary m) else map_of acc sto)"
  by (auto simp: count_decl_def counted_def update_conv' Let_def split: prod.splits)

lemma count_metas:
  assumes "distinct (map storage ms)"
  shows "map_of (fold (\<lambda>m acc. count_decl acc m) ms acc) sto =
    (if sto \<in> storage ` set ms
     then Some (wrapu64 (fst (counted acc sto) + 1), snd (counted acc sto) \<or> (\<exists>m\<in>set ms. storage m = sto \<and> primary m))
     else map_of acc sto)"
  using assms
proof (induction ms arbitrary: acc)
  case (Cons m ms)
  show ?case
  proof (cases "sto = storage m")
    case True
    then have new: "sto \<notin> storage ` set ms" using Cons.prems by simp
    then have "\<not> (\<exists>x\<in>set ms. storage x = sto \<and> primary x)" by blast
    then show ?thesis using Cons True new by (auto simp: count_decl_map)
  next
    case False
    then have "counted (count_decl acc m) sto = counted acc sto" by (simp add: counted_def count_decl_map)
    then show ?thesis using Cons False by (auto simp: count_decl_map)
  qed
qed simp

text \<open>All types: how many of them are declared in a path, and whether one is primary there.\<close>

definition has_types :: "Index \<Rightarrow> nat \<times> nat \<Rightarrow> file_type \<Rightarrow> string \<Rightarrow> file_type list" where
  "has_types ix s ft sto = filter (\<lambda>t. (s, t, sto) \<in> declared ix) (AllSet ft)"

definition is_primary :: "Index \<Rightarrow> nat \<times> nat \<Rightarrow> file_type list \<Rightarrow> string \<Rightarrow> bool" where
  "is_primary ix s ts sto \<longleftrightarrow> (\<exists>t\<in>set ts. \<exists>m\<in>set (decls ix (s, t)). storage m = sto \<and> primary m)"

lemma is_primary_none: "\<forall>t\<in>set ts. (s, t, sto) \<notin> declared ix \<Longrightarrow> \<not> is_primary ix s ts sto"
  by (auto simp: is_primary_def declared_def paths_at_def)

lemma is_primary_Cons: "is_primary ix s (t # ts) sto \<longleftrightarrow> is_primary ix s [t] sto \<or> is_primary ix s ts sto"
  by (simp add: is_primary_def)

abbreviation count_type :: "Index \<Rightarrow> nat \<times> nat \<Rightarrow> file_type \<Rightarrow> file_type \<Rightarrow> (string \<times> (int \<times> bool)) list \<Rightarrow> (string \<times> (int \<times> bool)) list" where
  "count_type ix s ft t acc \<equiv> (if ft AND t = 0 then acc else fold (\<lambda>m acc. count_decl acc m) (decls ix (s, t)) acc)"

lemma count_types:
  assumes "index_ok ix"
  shows "map_of (fold (count_type ix s ft) ts acc) sto =
    (let n = length (filter (\<lambda>t. ft AND t \<noteq> 0 \<and> (s, t, sto) \<in> declared ix) ts)
     in if n = 0 then map_of acc sto
        else Some (wrapu64 (fst (counted acc sto) + int n),
          snd (counted acc sto) \<or> is_primary ix s (filter (\<lambda>t. ft AND t \<noteq> 0) ts) sto))"
proof (induction ts arbitrary: acc)
  case (Cons t ts)
  define ms where "ms = decls ix (s, t)"
  define acc' where "acc' = (if ft AND t = 0 then acc else fold (\<lambda>m acc. count_decl acc m) ms acc)"
  have unf: "fold (count_type ix s ft) (t # ts) acc = fold (count_type ix s ft) ts acc'"
    by (simp add: acc'_def ms_def)
  have wf: "distinct (map storage ms)" using assms table_wf_metas by (simp add: index_ok_def ms_def)
  have d: "(s, t, sto) \<in> declared ix \<longleftrightarrow> sto \<in> storage ` set ms" by (simp add: declared_def paths_at_def ms_def)
  show ?case
  proof (cases "ft AND t \<noteq> 0 \<and> (s, t, sto) \<in> declared ix")
    case True
    then have "map_of acc' sto = Some (wrapu64 (fst (counted acc sto) + 1),
        snd (counted acc sto) \<or> (\<exists>m\<in>set ms. storage m = sto \<and> primary m))"
      using d by (auto simp: acc'_def count_metas[OF wf])
    then have c: "counted acc' sto = (wrapu64 (fst (counted acc sto) + 1),
        snd (counted acc sto) \<or> (\<exists>m\<in>set ms. storage m = sto \<and> primary m))"
      and m: "map_of acc' sto = Some (counted acc' sto)"
      by (simp_all add: counted_def)
    let ?n = "length (filter (\<lambda>t. ft AND t \<noteq> 0 \<and> (s, t, sto) \<in> declared ix) ts)"
    have p: "is_primary ix s (filter (\<lambda>t. ft AND t \<noteq> 0) (t # ts)) sto \<longleftrightarrow>
        (\<exists>m\<in>set ms. storage m = sto \<and> primary m) \<or> is_primary ix s (filter (\<lambda>t. ft AND t \<noteq> 0) ts) sto"
      using True by (simp add: is_primary_def ms_def)
    have "\<not> is_primary ix s (filter (\<lambda>t. ft AND t \<noteq> 0) ts) sto" if "?n = 0"
      using that by (intro is_primary_none) (auto simp: filter_empty_conv)
    then show ?thesis
      using Cons[of acc'] True m p unfolding c unf by (auto simp: Let_def wrapu64_add algebra_simps)
  next
    case False
    then have "map_of acc' sto = map_of acc sto" using d by (auto simp: acc'_def count_metas[OF wf])
    then have "counted acc' sto = counted acc sto" by (simp add: counted_def)
    moreover have "is_primary ix s (filter (\<lambda>t. ft AND t \<noteq> 0) (t # ts)) sto = is_primary ix s (filter (\<lambda>t. ft AND t \<noteq> 0) ts) sto"
      using False is_primary_none[of "[t]" s sto ix] is_primary_Cons[of ix s t "filter (\<lambda>t. ft AND t \<noteq> 0) ts" sto]
      by (cases "ft AND t = 0") simp_all
    ultimately show ?thesis using Cons[of acc'] False \<open>map_of acc' sto = map_of acc sto\<close> unfolding unf by (auto simp: Let_def)
  qed
qed simp

lemma count_decls_map:
  assumes "index_ok ix"
  shows "map_of (count_decls ix s ft) sto =
    (if has_types ix s ft sto = [] then None
     else Some (int (length (has_types ix s ft sto)), is_primary ix s (AllSet ft) sto))"
proof -
  have eq: "filter (\<lambda>t. ft AND t \<noteq> 0 \<and> (s, t, sto) \<in> declared ix) PathTypes = has_types ix s ft sto"
      "filter (\<lambda>t. ft AND t \<noteq> 0) PathTypes = AllSet ft"
    by (simp_all add: has_types_def AllSet_def and.commute conj_commute)
  have "length (has_types ix s ft sto) \<le> length PathTypes"
    unfolding eq(1)[symmetric] by (rule length_filter_le)
  then have "int (length (has_types ix s ft sto)) \<le> 5" by (simp add: PathTypes_def)
  then have "wrapu64 (int (length (has_types ix s ft sto))) = int (length (has_types ix s ft sto))"
    by (simp add: wrapu64_def)
  then show ?thesis
    using count_types[OF assms, where s = s and ft = ft and ts = PathTypes and acc = "[]" and sto = sto] unfolding eq
    by (simp add: count_decls_def counted_def Let_def)
qed

lemma count_decls_keys: "distinct (map fst (count_decls ix s ft))"
proof -
  have 1: "distinct (map fst acc) \<Longrightarrow> distinct (map fst (fold (\<lambda>m acc. count_decl acc m) ms acc))" for ms acc
    by (induction ms arbitrary: acc) (auto simp: count_decl_def Let_def distinct_update split: prod.splits)
  have "distinct (map fst acc) \<Longrightarrow> distinct (map fst (fold (count_type ix s ft) ts acc))" for ts acc
    by (induction ts arbitrary: acc) (simp_all add: 1)
  then show ?thesis by (simp add: count_decls_def)
qed

lemma find_loop_Inr:
  "find_loop ue ix s ft xs = Inr out \<Longrightarrow>
    out = map (\<lambda>(sto, np). find_info ue s ft sto (info (the (map_of (stores ix) sto))) np)
      (filter (\<lambda>(sto, np). map_of (stores ix) sto \<noteq> None) xs)"
  by (induction xs arbitrary: out) (auto split: option.splits if_splits sum.splits)

lemma find_loop_Inl:
  "(\<exists>e. find_loop ue ix s ft xs = Inl e) \<longleftrightarrow>
    (\<exists>(sto, np)\<in>set xs. \<exists>st. map_of (stores ix) sto = Some st \<and> \<not> list_all (urlOk ue) (URLs (info st)))"
  by (induction xs) (auto split: option.splits sum.splits)

subsection \<open>Properties\<close>

text \<open>
  C40. The operations of the index are those of a relation between sectors, file types and paths: declaring adds
  the pairs for the types asked for, dropping removes them, detaching a path for good removes the path, and
  \<open>FindSector\<close> looks the relation up. This holds in every state the operations lead to.
\<close>

theorem index_refines_declarations:
  assumes "index_reachable ue ix"
  shows "declared (StorageDeclareSector ix sto s ft prim) = declared ix \<union> {s} \<times> set (AllSet ft) \<times> {sto}
    \<and> declared (StorageDropSector ix sto s ft) = declared ix - {s} \<times> set (AllSet ft) \<times> {sto}
    \<and> (let ix' = fst (StorageDetach now ix sto url) in
       declared ix' = (if map_of (stores ix) sto \<noteq> None \<and> map_of (stores ix') sto = None
         then declared ix - UNIV \<times> UNIV \<times> {sto} else declared ix))
    \<and> set (FindSector ix s t) = {sto. (s, t, sto) \<in> declared ix} \<and> distinct (FindSector ix s t)"
proof -
  have ok: "index_ok ix" using index_reachable_ok[OF assms] .
  have "set (FindSector ix s t) = {sto. (s, t, sto) \<in> declared ix}"
    by (cases "map_of (sectors ix) (s, t)") (simp_all add: FindSector_def declared_def paths_at_def)
  moreover have "distinct (FindSector ix s t)"
    using ok table_wf_metas[of "sectors ix" "(s, t)"] by (simp add: FindSector_def index_ok_def split: option.splits)
  moreover note declared_detach[OF ok prod.collapse[symmetric], of now sto url]
  ultimately show ?thesis
    unfolding Let_def declared_declare declared_drop by blast
qed

definition example_urls :: urls where
  "example_urls = \<lparr>urlOk = (\<lambda>u. u \<noteq> []), urlJoin = (\<lambda>u t n. u @ ''/'' @ t @ ''/'' @ n)\<rparr>"

definition example_store :: "string \<Rightarrow> int \<Rightarrow> StorageInfo" where
  "example_store sto wt = \<lparr>siID = sto, URLs = [''http://a''], Weight = wt, MaxStorage = 0, CanSeal = True, CanStore = True,
     Groups = [], AllowTo = [], AllowTypes = [''sealed'', ''bogus''], DenyTypes = [], LocalPath = ''/mnt''\<rparr>"

definition example_stat :: FsStat where
  "example_stat = \<lparr>Capacity = 10 ^ 12, Available = 5 * 10 ^ 11, FSAvailable = 5 * 10 ^ 11, Reserved = 0, Max = 0, Used = 0\<rparr>"

definition example_index :: Index where
  "example_index = StorageDeclareSector (StorageDeclareSector
     (fst (StorageAttach example_urls 2 (fst (StorageAttach example_urls 1 (NewIndex None) (example_store ''A'' 10) example_stat))
        (example_store ''B'' 5) example_stat))
     ''A'' (1000, 7) (FTSealed OR FTCache) True) ''B'' (1000, 7) FTSealed False"

lemma example_index_reachable: "index_reachable example_urls example_index"
proof -
  have attach: "index_reachable example_urls (fst (StorageAttach example_urls n ix si st))"
    if "index_reachable example_urls ix" for n ix si st
    using that index_step.attach[of example_urls n ix si st] by (metis index_reachable.step prod.collapse)
  have decl: "index_reachable example_urls (StorageDeclareSector ix sto s ft prim)" if "index_reachable example_urls ix" for ix sto s ft prim
    using that index_step.announce by (rule index_reachable.step)
  show ?thesis unfolding example_index_def by (intro decl attach index_reachable.init)
qed

theorem index_refines_declarations_witness:
  "declared (StorageDropSector example_index ''A'' (1000, 7) FTCache)
    = declared example_index - {(1000, 7)} \<times> set (AllSet FTCache) \<times> {''A''}
   \<and> FindSector example_index (1000, 7) FTSealed = [''A'', ''B'']"
proof -
  have "FindSector example_index (1000, 7) FTSealed = [''A'', ''B'']" by code_simp
  then show ?thesis using index_refines_declarations[OF example_index_reachable] by blast
qed

text \<open>
  \<open>StorageFindSector\<close> lists exactly the attached paths in which a file of one of the types is declared, each
  once; the weight of a path is multiplied by the number of types found there, and it is primary if it is so
  for one of them. It fails exactly if a URL of such a path does not parse. Whether fetching is allowed and the
  size of the sector make no difference.
\<close>

theorem find_sector_lists_paths:
  assumes "index_reachable ue ix"
  shows "(case StorageFindSector ue ix s ft ssize allowFetch of
      Inr out \<Rightarrow> distinct (map ssID out) \<and> set (map ssID out) = {sto. has_types ix s ft sto \<noteq> [] \<and> map_of (stores ix) sto \<noteq> None}
        \<and> (\<forall>x\<in>set out. ssWeight x = wrapu64 (Weight (info (the (map_of (stores ix) (ssID x)))) * int (length (has_types ix s ft (ssID x))))
            \<and> Primary x = is_primary ix s (AllSet ft) (ssID x))
    | Inl e \<Rightarrow> \<exists>sto st. has_types ix s ft sto \<noteq> [] \<and> map_of (stores ix) sto = Some st \<and> \<not> list_all (urlOk ue) (URLs (info st)))"
proof -
  have ok: "index_ok ix" using index_reachable_ok[OF assms] .
  define xs where "xs = count_decls ix s ft"
  have keys: "distinct (map fst xs)" unfolding xs_def by (rule count_decls_keys)
  have mem: "(sto, np) \<in> set xs \<longleftrightarrow> has_types ix s ft sto \<noteq> [] \<and> np = (int (length (has_types ix s ft sto)), is_primary ix s (AllSet ft) sto)" for sto np
  proof -
    have "(sto, np) \<in> set xs \<longleftrightarrow> map_of xs sto = Some np" using map_of_eq_Some_iff[OF keys] by (rule sym)
    then show ?thesis unfolding xs_def count_decls_map[OF ok, of s ft sto] by (cases np) auto
  qed
  show ?thesis
  proof (cases "StorageFindSector ue ix s ft ssize allowFetch")
    case (Inr out)
    let ?f = "filter (\<lambda>(sto, np). map_of (stores ix) sto \<noteq> None) xs"
    have out: "out = map (\<lambda>(sto, np). find_info ue s ft sto (info (the (map_of (stores ix) sto))) np) ?f"
      using Inr find_loop_Inr unfolding StorageFindSector_def xs_def by blast
    have ids: "map ssID out = map fst ?f" by (simp add: out find_info_def case_prod_beta comp_def)
    moreover have "distinct (map fst ?f)" using keys by (rule distinct_map_filter)
    moreover have "set (map fst ?f) = {sto. has_types ix s ft sto \<noteq> [] \<and> map_of (stores ix) sto \<noteq> None}"
    proof -
      have "set (map fst ?f) = {sto. \<exists>np. (sto, np) \<in> set xs \<and> map_of (stores ix) sto \<noteq> None}" by force
      then show ?thesis by (simp add: mem)
    qed
    moreover have "ssWeight x = wrapu64 (Weight (info (the (map_of (stores ix) (ssID x)))) * int (length (has_types ix s ft (ssID x))))
        \<and> Primary x = is_primary ix s (AllSet ft) (ssID x)" if mx: "x \<in> set out" for x
    proof -
      obtain sto np where x: "(sto, np) \<in> set xs" "x = find_info ue s ft sto (info (the (map_of (stores ix) sto))) np"
        using mx unfolding out by auto
      then show ?thesis unfolding x(2) mem by (simp add: find_info_def)
    qed
    ultimately show ?thesis unfolding Inr sum.case by (intro conjI ballI) simp_all
  next
    case (Inl e)
    then have "\<exists>e. find_loop ue ix s ft xs = Inl e" by (simp add: StorageFindSector_def xs_def)
    then obtain sto np st where "(sto, np) \<in> set xs" "map_of (stores ix) sto = Some st" "\<not> list_all (urlOk ue) (URLs (info st))"
      unfolding find_loop_Inl by blast
    then show ?thesis unfolding Inl sum.case mem by blast
  qed
qed

theorem find_sector_lists_paths_witness:
  "\<exists>out. StorageFindSector example_urls example_index (1000, 7) (FTSealed OR FTCache) 0 False = Inr out
     \<and> set (map ssID out) = {sto. has_types example_index (1000, 7) (FTSealed OR FTCache) sto \<noteq> [] \<and> map_of (stores example_index) sto \<noteq> None}
     \<and> map (\<lambda>x. (ssID x, ssWeight x, Primary x)) out = [(''A'', 20, True), (''B'', 5, False)]"
proof -
  have "(case StorageFindSector example_urls example_index (1000, 7) (FTSealed OR FTCache) 0 False of
      Inr out \<Rightarrow> map (\<lambda>x. (ssID x, ssWeight x, Primary x)) out = [(''A'', 20, True), (''B'', 5, False)] | Inl e \<Rightarrow> False)"
    by code_simp
  then obtain out where out: "StorageFindSector example_urls example_index (1000, 7) (FTSealed OR FTCache) 0 False = Inr out"
    "map (\<lambda>x. (ssID x, ssWeight x, Primary x)) out = [(''A'', 20, True), (''B'', 5, False)]"
    by (auto split: sum.splits)
  note spec = find_sector_lists_paths[OF example_index_reachable, of "(1000, 7)" "FTSealed OR FTCache" 0 False,
      unfolded out(1) sum.case]
  show ?thesis using out(1) spec[THEN conjunct2, THEN conjunct1] out(2) by (intro exI[of _ out] conjI)
qed

text \<open>
  \<open>StorageBestAlloc\<close> returns all paths for the purpose that have room and no heartbeat error, those of the
  smallest weight first, and an error exactly if there is none.
\<close>

theorem best_alloc_sorted:
  "case StorageBestAlloc ix allocate ssize pt of
     Inr out \<Rightarrow> mset out = mset (map info (filter (alloc_candidate pt) (map snd (stores ix)))) \<and> out \<noteq> []
       \<and> sorted (map (\<lambda>i. wrap64 (Weight i)) out)
   | Inl e \<Rightarrow> \<not> (\<exists>ent\<in>snd ` set (stores ix). alloc_candidate pt ent)"
proof -
  let ?c = "filter (alloc_candidate pt) (map snd (stores ix))"
  have "sorted (map (\<lambda>i. wrap64 (Weight i)) (map info (sort_key (\<lambda>c. wrap64 (Weight (info c))) ?c)))"
    by (simp add: comp_def)
  moreover have "mset (map info (sort_key (\<lambda>c. wrap64 (Weight (info c))) ?c)) = mset (map info ?c)" by simp
  moreover have "sort_key (\<lambda>c. wrap64 (Weight (info c))) ?c = [] \<longleftrightarrow> ?c = []"
    by (metis length_0_conv length_sort)
  moreover have "?c = [] \<longleftrightarrow> \<not> (\<exists>ent\<in>snd ` set (stores ix). alloc_candidate pt ent)"
    by (auto simp: filter_empty_conv)
  ultimately show ?thesis
    by (simp only: StorageBestAlloc_def Let_def map_is_Nil_conv split: if_split) simp
qed

text \<open>The place of a request in a queue.\<close>

lemma find_uid_spec:
  "find_uid u vs k = (if u \<in> uid ` set vs then (k + length (takeWhile (\<lambda>v. uid v \<noteq> u) vs), True) else (k + length vs, False))"
  by (induction vs arbitrary: k) auto

lemma takeWhile_split:
  assumes "u \<in> uid ` set vs"
  obtains pre v post where "vs = pre @ v # post" and "uid v = u" and "u \<notin> uid ` set pre"
    and "takeWhile (\<lambda>v. uid v \<noteq> u) vs = pre"
proof -
  have "\<exists>pre v post. vs = pre @ v # post \<and> uid v = u \<and> u \<notin> uid ` set pre"
    using assms split_list_first_prop[of vs "\<lambda>v. uid v = u"] by (fastforce simp: image_iff)
  then obtain pre v post where d: "vs = pre @ v # post" "uid v = u" "u \<notin> uid ` set pre" by blast
  moreover have "takeWhile (\<lambda>v. uid v \<noteq> u) vs = pre" using d by (auto simp: takeWhile_tail image_iff)
  ultimately show ?thesis by (rule that)
qed

definition queue_of :: "Index \<Rightarrow> string \<Rightarrow> string list" where
  "queue_of ix sto = (case map_of (stores ix) sto of None \<Rightarrow> [] | Some ent \<Rightarrow> map uid (rw ent))"

definition live_queue :: "nat \<Rightarrow> Index \<Rightarrow> string \<Rightarrow> string list" where
  "live_queue now ix sto = (case map_of (stores ix) sto of None \<Rightarrow> [] | Some ent \<Rightarrow> map uid (live now (rw ent)))"

text \<open>
  The requests to move files into a path form a queue: a request that asks for the lock is told how many
  of the requests active in the last five minutes are before it; it keeps its place when it asks again and is
  put at the end when it is new. Giving the lock back takes out its first entry only.
\<close>

theorem storage_queue_is_fifo:
  assumes "map_of (stores ix) sto \<noteq> None" and "StorageLockByID now ix sto u = (ix', num, e)"
  shows "e = None \<and> num = length (takeWhile (\<lambda>v. v \<noteq> u) (live_queue now ix sto))
    \<and> queue_of ix' sto = (if u \<in> set (live_queue now ix sto) then live_queue now ix sto else live_queue now ix sto @ [u])
    \<and> queue_of (fst (StorageUnLockByID ix sto u)) sto = remove1 u (queue_of ix sto)"
proof -
  obtain ent where ent: "map_of (stores ix) sto = Some ent" using assms(1) by blast
  define q where "q = live now (rw ent)"
  have tw: "length (takeWhile (\<lambda>v. uid v \<noteq> u) vs) = length (takeWhile (\<lambda>v. v \<noteq> u) (map uid vs))" for vs
    by (simp add: takeWhile_map comp_def)
  have same: "map uid (vs[n := (vs ! n)\<lparr>requestTime := t\<rparr>]) = map uid vs" for vs n t
    by (cases "n < length vs") (simp_all add: map_update list_update_same_conv list_update_beyond)
  have rm: "map uid (take n vs @ drop (Suc n) vs) = remove1 u (map uid vs)"
    if "u \<in> uid ` set vs" "n = length (takeWhile (\<lambda>v. uid v \<noteq> u) vs)" for n vs
    using that(1) that(2) by (elim takeWhile_split) (auto simp: remove1_append)
  have none: "length (takeWhile (\<lambda>v. v \<noteq> u) (map uid vs)) = length vs" if "u \<notin> uid ` set vs" for vs
  proof -
    have "takeWhile (\<lambda>v. v \<noteq> u) (map uid vs) = map uid vs" using that by (auto simp: takeWhile_eq_all_conv)
    then show ?thesis by (metis length_map)
  qed
  have "remove1 u (map uid (rw ent)) = map uid (rw ent)" if "u \<notin> uid ` set (rw ent)"
    using that by (intro remove1_idem) simp
  then show ?thesis
    using assms(2) ent rm[of "rw ent"]
    by (auto simp: StorageLockByID_def StorageUnLockByID_def live_queue_def queue_of_def q_def[symmetric] Let_def
        find_uid_spec update_conv' same tw none split: if_splits)
qed

definition example_queue :: Index where
  "example_queue = (NewIndex None)\<lparr>stores := [(''A'', \<lparr>info = example_store ''A'' 10, fsi = example_stat, lastHeartbeat = 1,
     heartbeatErr = None, rw = [\<lparr>uid = ''u0'', requestTime = 1\<rparr>, \<lparr>uid = ''u1'', requestTime = 100000000000\<rparr>]\<rparr>)]\<rparr>"

theorem storage_queue_is_fifo_witness:
  "\<exists>ix'. StorageLockByID 310000000000 example_queue ''A'' ''u2'' = (ix', 1, None) \<and> queue_of ix' ''A'' = [''u1'', ''u2'']
     \<and> queue_of (fst (StorageUnLockByID example_queue ''A'' ''u2'')) ''A'' = [''u0'', ''u1'']"
proof -
  obtain ix' num e where l: "StorageLockByID 310000000000 example_queue ''A'' ''u2'' = (ix', num, e)" by (metis prod_cases3)
  have "map_of (stores example_queue) ''A'' \<noteq> None" "live_queue 310000000000 example_queue ''A'' = [''u1'']"
    "queue_of example_queue ''A'' = [''u0'', ''u1'']"
    by (simp_all add: example_queue_def live_queue_def queue_of_def live_def storageTime_def)
  then show ?thesis using storage_queue_is_fifo[OF _ l] l by (simp only:) simp
qed

subsection \<open>The list of everything\<close>

definition listed :: "(string \<times> ((nat \<times> nat) \<times> file_type) list) list \<Rightarrow> string \<Rightarrow> nat \<times> nat \<Rightarrow> file_type" where
  "listed L sto s = (case map_of L sto of None \<Rightarrow> 0 | Some mp \<Rightarrow> (case map_of mp s of None \<Rightarrow> 0 | Some t \<Rightarrow> t))"

lemma list_decls_spec:
  "case list_decls L sid ft ms of
     None \<Rightarrow> \<exists>m\<in>set ms. map_of L (storage m) = None
   | Some L' \<Rightarrow> dom (map_of L') = dom (map_of L) \<and> storage ` set ms \<subseteq> dom (map_of L)
       \<and> (\<forall>sto s. listed L' sto s = (if s = sid \<and> sto \<in> storage ` set ms then listed L sto s OR ft else listed L sto s))"
proof (induction ms arbitrary: L)
  case (Cons m ms)
  show ?case
  proof (cases "map_of L (storage m)")
    case (Some mp)
    define L1 where "L1 = AList.update (storage m) (AList.update sid ((case map_of mp sid of None \<Rightarrow> 0 | Some t \<Rightarrow> t) OR ft) mp) L"
    have 1: "list_decls L sid ft (m # ms) = list_decls L1 sid ft ms" using Some by (simp add: L1_def)
    have 2: "dom (map_of L1) = dom (map_of L)" using Some by (auto simp: L1_def update_conv')
    have 3: "listed L1 sto s = (if s = sid \<and> sto = storage m then listed L sto s OR ft else listed L sto s)" for sto s
      using Some by (simp add: L1_def listed_def update_conv')
    have 4: "map_of L1 a = None \<longleftrightarrow> map_of L a = None" for a using 2 by (metis domIff)
    have 5: "(x OR ft) OR ft = x OR ft" for x by (simp add: or.assoc)
    show ?thesis
    proof (cases "list_decls L1 sid ft ms")
      case None
      then show ?thesis using Cons.IH[of L1] by (simp only: 1 4) auto
    next
      case (Some L')
      have m: "storage m \<in> dom (map_of L)" using \<open>map_of L (storage m) = Some mp\<close> by blast
      have IH: "dom (map_of L') = dom (map_of L)" "storage ` set ms \<subseteq> dom (map_of L)"
        "listed L' sto s = (if s = sid \<and> sto \<in> storage ` set ms then listed L1 sto s OR ft else listed L1 sto s)" for sto s
        using Cons.IH[of L1] Some 2 by (simp_all del: split_paired_All)
      have "listed L' sto s = (if s = sid \<and> sto \<in> storage ` set (m # ms) then listed L sto s OR ft else listed L sto s)" for sto s
        by (auto simp: IH(3) 3 5)
      then show ?thesis unfolding 1 Some option.case using IH(1,2) m by auto
    qed
  qed simp
qed simp

lemma list_sectors_spec:
  "case list_sectors L ds of
     None \<Rightarrow> \<exists>(d, ms)\<in>set ds. \<exists>m\<in>set ms. map_of L (storage m) = None
   | Some L' \<Rightarrow> dom (map_of L') = dom (map_of L) \<and> (\<forall>(d, ms)\<in>set ds. storage ` set ms \<subseteq> dom (map_of L))
       \<and> (\<forall>sto s b. bit (listed L' sto s) b \<longleftrightarrow> bit (listed L sto s) b
             \<or> (\<exists>t ms. ((s, t), ms) \<in> set ds \<and> sto \<in> storage ` set ms \<and> bit t b))"
proof (induction ds arbitrary: L)
  case (Cons x ds)
  obtain sid ft ms where x: "x = ((sid, ft), ms)" by (metis surj_pair)
  show ?case
  proof (cases "list_decls L sid ft ms")
    case None
    then show ?thesis using list_decls_spec[where L = L and sid = sid and ft = ft and ms = ms] by (simp add: x)
  next
    case (Some L1)
    have 1: "list_sectors L (x # ds) = list_sectors L1 ds" using Some by (simp add: x)
    have 2: "dom (map_of L1) = dom (map_of L)" "storage ` set ms \<subseteq> dom (map_of L)"
      "listed L1 sto s = (if s = sid \<and> sto \<in> storage ` set ms then listed L sto s OR ft else listed L sto s)" for sto s
      using list_decls_spec[where L = L and sid = sid and ft = ft and ms = ms] Some by (simp_all del: split_paired_All)
    have 4: "map_of L1 a = None \<longleftrightarrow> map_of L a = None" for a using 2(1) by (metis domIff)
    show ?thesis
    proof (cases "list_sectors L1 ds")
      case None
      then show ?thesis using Cons.IH[of L1] by (simp only: 1 4) auto
    next
      case (Some L')
      note IH = Cons.IH[of L1, unfolded Some option.case 2(1)]
      have split: "(\<exists>t ms'. ((s, t), ms') \<in> set (x # ds) \<and> sto \<in> storage ` set ms' \<and> bit t b)
          \<longleftrightarrow> (s = sid \<and> sto \<in> storage ` set ms \<and> bit ft b) \<or> (\<exists>t ms'. ((s, t), ms') \<in> set ds \<and> sto \<in> storage ` set ms' \<and> bit t b)"
        for sto s b unfolding x by auto
      have old: "bit (listed L1 sto s) b \<longleftrightarrow> bit (listed L sto s) b \<or> (s = sid \<and> sto \<in> storage ` set ms \<and> bit ft b)" for sto s b
        unfolding 2(3) by (auto simp: bit_or_iff)
      have bits: "bit (listed L' sto s) b \<longleftrightarrow> bit (listed L sto s) b
          \<or> (\<exists>t ms'. ((s, t), ms') \<in> set (x # ds) \<and> sto \<in> storage ` set ms' \<and> bit t b)" for sto s b
        unfolding split using IH[THEN conjunct2, THEN conjunct2, rule_format, of sto s b] unfolding old by blast
      have "\<forall>(d, ms')\<in>set (x # ds). storage ` set ms' \<subseteq> dom (map_of L)" using IH 2(2) by (simp add: x)
      then show ?thesis unfolding 1 Some option.case using IH[THEN conjunct1] bits by (intro conjI allI)
    qed
  qed
qed simp

lemma declared_entries:
  assumes "index_ok ix"
  shows "(s, t, sto) \<in> declared ix \<longleftrightarrow> (\<exists>ms. ((s, t), ms) \<in> set (sectors ix) \<and> sto \<in> storage ` set ms)"
proof -
  have "distinct (map fst (sectors ix))" using assms by (simp add: index_ok_def table_wf_def)
  then have e: "((s, t), ms) \<in> set (sectors ix) \<longleftrightarrow> map_of (sectors ix) (s, t) = Some ms" for ms by simp
  show ?thesis unfolding declared_iff paths_at_def e by (cases "map_of (sectors ix) (s, t)") auto
qed

text \<open>
  \<open>StorageList\<close> gives for every attached path and every sector the union of the file types that are declared
  there, and for no other path anything. It panics, by a write to a nil map, exactly if a sector is declared in a
  path that is not attached.
\<close>

theorem storage_list_is_union:
  assumes "index_reachable ue ix"
  shows "case StorageList ix of
     None \<Rightarrow> \<exists>(s, t, sto)\<in>declared ix. map_of (stores ix) sto = None
   | Some L \<Rightarrow> dom (map_of L) = dom (map_of (stores ix)) \<and> (\<forall>(s, t, sto)\<in>declared ix. map_of (stores ix) sto \<noteq> None)
       \<and> (\<forall>sto s b. bit (listed L sto s) b \<longleftrightarrow> (\<exists>t. (s, t, sto) \<in> declared ix \<and> bit t b))"
proof -
  let ?L = "map (\<lambda>(id, _). (id, [] :: ((nat \<times> nat) \<times> file_type) list)) (stores ix)"
  have dm: "map_of ?L sto = map_option (\<lambda>_. []) (map_of (stores ix) sto)" for sto
    unfolding map_of_map by (cases "map_of (stores ix) sto") auto
  have 0: "listed ?L sto s = 0" for sto s by (simp add: listed_def dm split: option.splits)
  have dom: "dom (map_of ?L) = dom (map_of (stores ix))" by (auto simp: dm)
  note e = declared_entries[OF index_reachable_ok[OF assms]]
  note spec = list_sectors_spec[where L = ?L and ds = "sectors ix", folded StorageList_def, unfolded dom 0]
  show ?thesis
  proof (cases "StorageList ix")
    case None
    then obtain s t ms m where m: "((s, t), ms) \<in> set (sectors ix)" "m \<in> set ms" "map_of ?L (storage m) = None"
      using spec by auto
    have "(s, t, storage m) \<in> declared ix" using m(1,2) e by blast
    moreover have "map_of (stores ix) (storage m) = None" using m(3) by (simp add: dm)
    ultimately show ?thesis unfolding None by auto
  next
    case (Some L)
    note L = spec[unfolded Some option.case]
    have L2: "storage ` set ms \<subseteq> dom (map_of (stores ix))" if "(d, ms) \<in> set (sectors ix)" for d ms
      using bspec[OF L[THEN conjunct2, THEN conjunct1] that] by simp
    have L3: "bit (listed L sto s) b \<longleftrightarrow> (\<exists>t ms. ((s, t), ms) \<in> set (sectors ix) \<and> sto \<in> storage ` set ms \<and> bit t b)" for sto s b
      using L[THEN conjunct2, THEN conjunct2, rule_format, of sto s b] by simp
    have 1: "map_of (stores ix) sto \<noteq> None" if d: "(s, t, sto) \<in> declared ix" for s t sto
    proof -
      obtain ms where "((s, t), ms) \<in> set (sectors ix)" "sto \<in> storage ` set ms" using d[unfolded e] by blast
      then show ?thesis using L2[of "(s, t)" ms] by blast
    qed
    have 2: "bit (listed L sto s) b \<longleftrightarrow> (\<exists>t. (s, t, sto) \<in> declared ix \<and> bit t b)" for sto s b
      unfolding L3 e by blast
    show ?thesis unfolding Some option.case using L[THEN conjunct1] 1 2 by (intro conjI allI ballI) (auto simp del: split_paired_All)
  qed
qed

theorem storage_list_is_union_witness:
  "\<exists>L. StorageList example_index = Some L \<and> listed L ''A'' (1000, 7) = FTSealed OR FTCache
     \<and> (\<forall>sto s b. bit (listed L sto s) b \<longleftrightarrow> (\<exists>t. (s, t, sto) \<in> declared example_index \<and> bit t b))"
proof -
  have "(case StorageList example_index of None \<Rightarrow> False | Some L \<Rightarrow> listed L ''A'' (1000, 7) = FTSealed OR FTCache)" by code_simp
  then obtain L where L: "StorageList example_index = Some L" "listed L ''A'' (1000, 7) = FTSealed OR FTCache"
    by (auto split: option.splits)
  note spec = storage_list_is_union[OF example_index_reachable, unfolded L(1) option.case]
  show ?thesis using L spec[THEN conjunct2, THEN conjunct2] by (intro exI[of _ L] conjI)
qed


subsection \<open>Bad type names\<close>

text \<open>
  If every name of \<open>AllowTypes\<close> is bad, none is left after \<open>StorageAttach\<close>, and an empty list allows every type: the
  path is open to all files, where the comment in \<open>StorageAttach\<close> says that it is closed to all.
\<close>

lemma checkTypes_all_bad:
  "\<forall>n\<in>set ns. isl (TypeFromString n) \<Longrightarrow> fst (checkTypes now path msg at i ns ai) = []"
proof (induction ns arbitrary: i ai)
  case (Cons n ns)
  then obtain err where "TypeFromString n = Inl err" by (auto simp: isl_def)
  then show ?case using Cons by (cases ai) simp
qed (metis checkTypes.simps(1) fst_conv surj_pair)

lemma attach_types_all_bad:
  assumes "\<forall>n\<in>set (AllowTypes si). isl (TypeFromString n)" and "DenyTypes si = []"
  shows "snd (attach_types now ix si) = ([], [])"
  using checkTypes_all_bad[OF assms(1)] assms(2)
  by (simp add: attach_types_def Let_def case_prod_beta)

lemma bad_allow_types_allow_all:
  assumes "\<forall>n\<in>set (AllowTypes si). isl (TypeFromString n)" and "DenyTypes si = []"
    and "map_of (stores ix) (siID si) = None" and "StorageAttach ue now ix si st = (ix', e)"
  shows "\<exists>ent. map_of (stores ix') (siID si) = Some ent \<and> Allowed t (AllowTypes (info ent)) (DenyTypes (info ent))"
proof -
  obtain ix1 where 1: "attach_types now (attach_alert ix (siID si)) si = (ix1, [], [])"
    using attach_types_all_bad[OF assms(1,2)] by (metis prod.collapse)
  have new: "map_of (stores ix1) (siID si) = None" using attach_types_same[OF 1] assms(3) by simp
  have "ix' = ix1\<lparr>stores := AList.update (siID si)
      \<lparr>info = si\<lparr>AllowTypes := [], DenyTypes := []\<rparr>, fsi = st, lastHeartbeat = now, heartbeatErr = None, rw = []\<rparr> (stores ix1)\<rparr>"
    using assms(4) new by (simp add: StorageAttach_def 1)
  then show ?thesis by (simp add: update_conv' Allowed_def SubAllowed_def)
qed

end
