(* ===== verification/MsgSet.thy ===== *)
theory MsgSet
  imports ChainMessage Gas "HOL-Library.AList"
begin

section \<open>Message pool: the pending messages of a sender\<close>

text \<open>
  Models \<open>msgSet\<close> of \<open>src/chain/messagepool/messagepool.go\<close> and \<open>src/chain/types/signedmessage.go\<close>: the messages
  of one sender by nonce, the nonce that comes next, and the funds all of them need.

  The serialization of messages, which is generated code, and the hash that makes CIDs are parameters.
  Serialization is taken to succeed: the generated code refuses byte strings above 2 MiB only.
  A nil amount, on which Go's big integers panic, is the error \<open>Panic\<close>.
\<close>

subsection \<open>Signed messages\<close>

record Signature =
  Type :: SigType
  Data :: bytes

record SignedMessage =
  Message :: Message
  Signature :: Signature

record codec =
  msgLen :: "Message \<Rightarrow> int"
  smLen :: "SignedMessage \<Rightarrow> int"
  msgCid :: "Message \<Rightarrow> cid"
  sumCid :: "SignedMessage \<Rightarrow> cid"

definition Cid :: "codec \<Rightarrow> SignedMessage \<Rightarrow> cid" where
  "Cid cd sm = (if Type (Signature sm) = SigTypeBLS then msgCid cd (Message sm) else sumCid cd sm)"

definition ChainLength :: "codec \<Rightarrow> SignedMessage \<Rightarrow> int" where
  "ChainLength cd sm = (if Type (Signature sm) = SigTypeBLS then msgLen cd (Message sm) else smLen cd sm)"

definition Size :: "codec \<Rightarrow> SignedMessage \<Rightarrow> int" where
  "Size cd sm = smLen cd sm"

abbreviation nonce_of :: "SignedMessage \<Rightarrow> int" where
  "nonce_of sm \<equiv> MsgNonce (Message sm)"

subsection \<open>The set\<close>

datatype mpool_error =
    ErrMessageTooBig | ErrMessageValueTooHigh | ErrNonceTooLow | ErrGasFeeCapTooLow | ErrNotEnoughFunds
  | ErrInvalidToAddr | ErrSoftValidationFailure | ErrRBFTooLowPremium | ErrTooManyPendingMessages | ErrNonceGap
  | ErrNotValid msg_error | ErrOther string | Panic

text \<open>The steps of a function that may return an error; a nil amount panics.\<close>

definition andThen :: "'e + 'a \<Rightarrow> ('a \<Rightarrow> 'e + 'b) \<Rightarrow> 'e + 'b" where
  "andThen r k = (case r of Inl e \<Rightarrow> Inl e | Inr x \<Rightarrow> k x)"

definition notNil :: "'a option \<Rightarrow> mpool_error + 'a" where
  "notNil x = (case x of None \<Rightarrow> Inl Panic | Some v \<Rightarrow> Inr v)"

lemma andThen_Inr [simp]: "andThen r k = Inr y \<longleftrightarrow> (\<exists>x. r = Inr x \<and> k x = Inr y)"
  by (cases r) (simp_all add: andThen_def)

lemma notNil_Inr [simp]: "notNil x = Inr v \<longleftrightarrow> x = Some v"
  by (cases x) (simp_all add: notNil_def)

definition RbfDenom :: int where
  "RbfDenom = 256"

text \<open>\<open>uint64((ReplaceByFeeRatioDefault - 1) * RbfDenom)\<close> for the ratio 1.25.\<close>

definition rbfNumBig :: int where
  "rbfNumBig = 64"

definition MaxActorPendingMessages :: nat where
  "MaxActorPendingMessages = 1000"

definition MaxUntrustedActorPendingMessages :: nat where
  "MaxUntrustedActorPendingMessages = 10"

definition MaxNonceGap :: int where
  "MaxNonceGap = 4"

definition ComputeMinRBF :: "token \<Rightarrow> token" where
  "ComputeMinRBF curPrem = curPrem + curPrem * rbfNumBig div RbfDenom + 1"

record msgSet =
  msgs :: "(int \<times> SignedMessage) list"
  nextNonce :: int
  requiredFunds :: int

definition newMsgSet :: "int \<Rightarrow> msgSet" where
  "newMsgSet nonce = \<lparr>msgs = [], nextNonce = nonce, requiredFunds = 0\<rparr>"

text \<open>
  The loop that skips nonces that are taken. A nonce is free after as many steps as there are messages, so
  that is the fuel.
\<close>

fun fill_gap :: "nat \<Rightarrow> (int \<times> SignedMessage) list \<Rightarrow> int \<Rightarrow> int" where
  "fill_gap 0 ms n = n"
| "fill_gap (Suc k) ms n = (if map_of ms n \<noteq> None then fill_gap k ms (wrapu64 (n + 1)) else n)"

definition fillGap :: "(int \<times> SignedMessage) list \<Rightarrow> int \<Rightarrow> int" where
  "fillGap ms n = fill_gap (length ms) ms n"

text \<open>The funds of a message that is in a set; only messages with all amounts get into it.\<close>

definition funds :: "SignedMessage \<Rightarrow> int" where
  "funds m = (case RequiredFunds (Message m) of None \<Rightarrow> 0 | Some f \<Rightarrow> f)"

text \<open>The end of \<open>add\<close>: the message is stored under its nonce.\<close>

definition msgSet_store :: "msgSet \<Rightarrow> int \<Rightarrow> SignedMessage \<Rightarrow> mpool_error + msgSet" where
  "msgSet_store ms nxt m =
    andThen (notNil (RequiredFunds (Message m))) (\<lambda>f.
      Inr \<lparr>msgs = AList.update (nonce_of m) m (msgs ms), nextNonce = nxt, requiredFunds = requiredFunds ms + f\<rparr>)"

definition msgSet_add :: "codec \<Rightarrow> msgSet \<Rightarrow> SignedMessage \<Rightarrow> bool \<Rightarrow> bool \<Rightarrow> mpool_error + msgSet \<times> bool" where
  "msgSet_add cd ms m strict untrusted =
    (let maxNonceGap = (if untrusted then 0 else MaxNonceGap);
         maxActorPendingMessages = (if untrusted then MaxUntrustedActorPendingMessages else MaxActorPendingMessages);
         n = nonce_of m
     in if n \<noteq> nextNonce ms \<and> strict \<and> n > wrapu64 (nextNonce ms + maxNonceGap) then Inl ErrNonceGap
        else
          let nxt = (if n = nextNonce ms then fillGap (msgs ms) (wrapu64 (nextNonce ms + 1)) else nextNonce ms);
              nonceGap = (n > nextNonce ms)
          in case map_of (msgs ms) n of
               Some exms \<Rightarrow>
                 if strict \<and> nonceGap then Inl ErrNonceGap
                 else if Cid cd m = Cid cd exms then Inl ErrSoftValidationFailure
                 else
                   andThen (notNil (GasPremium (Message exms))) (\<lambda>old.
                   andThen (notNil (GasPremium (Message m))) (\<lambda>new.
                     if new < ComputeMinRBF old then Inl ErrRBFTooLowPremium
                     else andThen (msgSet_store (ms\<lparr>requiredFunds := requiredFunds ms - funds exms\<rparr>) nxt m) (\<lambda>ms. Inr (ms, False))))
             | None \<Rightarrow>
                 if strict \<and> length (msgs ms) \<ge> maxActorPendingMessages then Inl ErrTooManyPendingMessages
                 else andThen (msgSet_store ms nxt m) (\<lambda>ms. Inr (ms, True)))"

definition msgSet_rm :: "msgSet \<Rightarrow> int \<Rightarrow> bool \<Rightarrow> msgSet" where
  "msgSet_rm ms nonce applied =
    (case map_of (msgs ms) nonce of
       None \<Rightarrow>
         if applied \<and> nonce \<ge> nextNonce ms then ms\<lparr>nextNonce := fillGap (msgs ms) (wrapu64 (nonce + 1))\<rparr> else ms
     | Some m \<Rightarrow>
         let ms = ms\<lparr>requiredFunds := requiredFunds ms - funds m, msgs := AList.delete nonce (msgs ms)\<rparr>
         in if applied then (if nonce \<ge> nextNonce ms then ms\<lparr>nextNonce := wrapu64 (nonce + 1)\<rparr> else ms)
            else (if nonce < nextNonce ms then ms\<lparr>nextNonce := nonce\<rparr> else ms))"

definition getRequiredFunds :: "msgSet \<Rightarrow> int \<Rightarrow> token" where
  "getRequiredFunds ms nonce =
    (case map_of (msgs ms) nonce of
       None \<Rightarrow> requiredFunds ms
     | Some m \<Rightarrow> requiredFunds ms - funds m)"

definition toSlice :: "msgSet \<Rightarrow> SignedMessage list" where
  "toSlice ms = sort_key nonce_of (map snd (msgs ms))"

subsection \<open>What a set promises\<close>

definition set_ok :: "msgSet \<Rightarrow> bool" where
  "set_ok ms \<longleftrightarrow> distinct (map fst (msgs ms))
    \<and> (\<forall>n m. map_of (msgs ms) n = Some m \<longrightarrow> nonce_of m = n \<and> RequiredFunds (Message m) \<noteq> None)
    \<and> requiredFunds ms = sum_list (map (funds \<circ> snd) (msgs ms))"

lemma set_okD:
  assumes "set_ok ms"
  shows "distinct (map fst (msgs ms))" and "map_of (msgs ms) n = Some m \<Longrightarrow> nonce_of m = n \<and> RequiredFunds (Message m) \<noteq> None"
    and "requiredFunds ms = sum_list (map (funds \<circ> snd) (msgs ms))"
  using assms by (auto simp: set_ok_def)

lemma new_set_ok [simp]: "set_ok (newMsgSet n)"
  by (simp add: set_ok_def newMsgSet_def)

text \<open>Sums over an association list that is updated.\<close>

lemma sum_alist_update:
  fixes f :: "'b \<Rightarrow> int"
  shows "sum_list (map (f \<circ> snd) (AList.update k v xs)) =
    sum_list (map (f \<circ> snd) xs) + f v - (case map_of xs k of None \<Rightarrow> 0 | Some w \<Rightarrow> f w)"
  by (induction xs) auto

lemma sum_alist_delete:
  fixes f :: "'b \<Rightarrow> int"
  assumes "distinct (map fst xs)"
  shows "sum_list (map (f \<circ> snd) (AList.delete k xs)) =
    sum_list (map (f \<circ> snd) xs) - (case map_of xs k of None \<Rightarrow> 0 | Some w \<Rightarrow> f w)"
  using assms
proof (induction xs)
  case (Cons x xs)
  show ?case
  proof (cases "fst x = k")
    case True
    then have "map_of xs k = None" using Cons.prems by (auto simp: map_of_eq_None_iff)
    then have "AList.delete k xs = xs" by (intro delete_id) (simp add: map_of_eq_None_iff)
    then show ?thesis using True by (cases x) simp
  next
    case False
    then show ?thesis using Cons by (cases x) simp
  qed
qed simp

lemma wrapu64_range [simp]: "0 \<le> wrapu64 x" "wrapu64 x < 2 ^ 64"
  unfolding wrapu64_def by simp_all

lemma inu64_wrapu64 [simp]: "inu64 (wrapu64 x)"
  by (simp add: inu64_def wrapu64_def)

text \<open>The loop ends at the first nonce that is free.\<close>

lemma fill_gap_steps:
  "\<exists>j\<le>k. fill_gap k ms (wrapu64 n) = wrapu64 (n + int j) \<and> (\<forall>i<j. map_of ms (wrapu64 (n + int i)) \<noteq> None)
     \<and> (j < k \<longrightarrow> map_of ms (wrapu64 (n + int j)) = None)"
proof (induction k arbitrary: n)
  case (Suc k)
  show ?case
  proof (cases "map_of ms (wrapu64 n) = None")
    case True
    then show ?thesis by (intro exI[of _ 0]) simp
  next
    case False
    have w: "wrapu64 (wrapu64 n + 1) = wrapu64 (n + 1)" by (simp add: wrapu64_def mod_add_left_eq)
    obtain j where j: "j \<le> k" "fill_gap k ms (wrapu64 (n + 1)) = wrapu64 (n + 1 + int j)"
      "\<forall>i<j. map_of ms (wrapu64 (n + 1 + int i)) \<noteq> None" "j < k \<longrightarrow> map_of ms (wrapu64 (n + 1 + int j)) = None"
      using Suc[of "n + 1"] by blast
    have e: "n + 1 + int i = n + int (Suc i)" for i by simp
    have "\<forall>i<Suc j. map_of ms (wrapu64 (n + int i)) \<noteq> None"
    proof (intro allI impI)
      fix i assume "i < Suc j"
      then show "map_of ms (wrapu64 (n + int i)) \<noteq> None"
        using False j(3)[unfolded e] by (cases i) (simp_all del: of_nat_Suc)
    qed
    moreover have "fill_gap (Suc k) ms (wrapu64 n) = wrapu64 (n + int (Suc j))"
      using False w j(2)[unfolded e] by (simp del: of_nat_Suc)
    ultimately show ?thesis using j(1,4) unfolding e by (intro exI[of _ "Suc j"]) (simp del: of_nat_Suc)
  qed
qed simp

lemma fillGap_first_free:
  assumes "distinct (map fst ms)" and "length ms < 2 ^ 64"
  obtains j where "fillGap ms (wrapu64 n) = wrapu64 (n + int j)" and "map_of ms (wrapu64 (n + int j)) = None"
    and "j \<le> length ms"
proof -
  obtain j where j: "j \<le> length ms" "fillGap ms (wrapu64 n) = wrapu64 (n + int j)"
    "\<forall>i<j. map_of ms (wrapu64 (n + int i)) \<noteq> None" "j < length ms \<longrightarrow> map_of ms (wrapu64 (n + int j)) = None"
    using fill_gap_steps[of "length ms" ms n] by (auto simp: fillGap_def)
  have "map_of ms (wrapu64 (n + int j)) = None"
  proof (rule ccontr)
    assume taken: "map_of ms (wrapu64 (n + int j)) \<noteq> None"
    then have all: "\<forall>i\<le>length ms. map_of ms (wrapu64 (n + int i)) \<noteq> None"
    proof (intro allI impI)
      fix i assume "i \<le> length ms"
      moreover have "j = length ms" using taken j(1,4) by auto
      ultimately show "map_of ms (wrapu64 (n + int i)) \<noteq> None" using taken j(3) by (cases "i = j") simp_all
    qed
    have "inj_on (\<lambda>i. wrapu64 (n + int i)) {..length ms}"
    proof (rule inj_onI)
      fix a b assume ab: "a \<in> {..length ms}" "b \<in> {..length ms}" "wrapu64 (n + int a) = wrapu64 (n + int b)"
      have d: "(2::int) ^ 64 dvd int a - int b"
        using ab(3) mod_eq_dvd_iff[of "n + int a" "2 ^ 64" "n + int b"] unfolding wrapu64_def by simp
      have "\<bar>int a - int b\<bar> < 2 ^ 64" using ab(1,2) assms(2) by auto
      then have "int a - int b = 0" using dvd_imp_le_int[OF _ d] by fastforce
      then show "a = b" by simp
    qed
    then have "Suc (length ms) \<le> card ((\<lambda>i. wrapu64 (n + int i)) ` {..length ms})" by (simp add: card_image)
    also have "\<dots> \<le> card (fst ` set ms)"
    proof (rule card_mono)
      show "(\<lambda>i. wrapu64 (n + int i)) ` {..length ms} \<subseteq> fst ` set ms"
        using all unfolding map_of_eq_None_iff by blast
    qed simp
    also have "\<dots> \<le> length ms" by (metis card_length length_map list.set_map)
    finally show False by simp
  qed
  then show thesis using j that by blast
qed

subsection \<open>Adding and removing\<close>

lemma msgSet_store_Inr:
  "msgSet_store ms nxt m = Inr ms' \<longleftrightarrow> RequiredFunds (Message m) \<noteq> None
    \<and> ms' = \<lparr>msgs = AList.update (nonce_of m) m (msgs ms), nextNonce = nxt, requiredFunds = requiredFunds ms + funds m\<rparr>"
  by (auto simp: msgSet_store_def funds_def)

lemma msgSet_add_Inr:
  assumes "msgSet_add cd ms m strict untrusted = Inr (ms', new)"
  shows "msgs ms' = AList.update (nonce_of m) m (msgs ms)" and "new \<longleftrightarrow> map_of (msgs ms) (nonce_of m) = None"
    and "requiredFunds ms' = requiredFunds ms + funds m - (case map_of (msgs ms) (nonce_of m) of None \<Rightarrow> 0 | Some ex \<Rightarrow> funds ex)"
    and "nextNonce ms' = (if nonce_of m = nextNonce ms then fillGap (msgs ms) (wrapu64 (nextNonce ms + 1)) else nextNonce ms)"
    and "RequiredFunds (Message m) \<noteq> None"
  using assms
  by (auto simp: msgSet_add_def Let_def msgSet_store_Inr split: if_splits option.splits)

lemma msgSet_add_replaces:
  assumes "msgSet_add cd ms m strict untrusted = Inr (ms', new)" and "map_of (msgs ms) (nonce_of m) = Some ex"
  shows "\<exists>old p. GasPremium (Message ex) = Some old \<and> GasPremium (Message m) = Some p \<and> ComputeMinRBF old \<le> p"
    and "Cid cd m \<noteq> Cid cd ex"
  using assms by (auto simp: msgSet_add_def Let_def split: if_splits)

lemma msgSet_add_strict:
  assumes "msgSet_add cd ms m True untrusted = Inr (ms', new)"
  shows "nonce_of m \<le> nextNonce ms \<or> nonce_of m \<le> wrapu64 (nextNonce ms + (if untrusted then 0 else MaxNonceGap))"
    and "new \<Longrightarrow> length (msgs ms) < (if untrusted then MaxUntrustedActorPendingMessages else MaxActorPendingMessages)"
  using assms by (auto simp: msgSet_add_def Let_def split: if_splits option.splits)

lemma add_set_ok:
  assumes "msgSet_add cd ms m strict untrusted = Inr (ms', new)" and "set_ok ms"
  shows "set_ok ms'"
  using msgSet_add_Inr[OF assms(1)] assms(2)
  by (auto simp: set_ok_def distinct_update update_conv' sum_alist_update split: if_splits)

lemma rm_set_ok:
  assumes "set_ok ms"
  shows "set_ok (msgSet_rm ms nonce applied)"
proof (cases "map_of (msgs ms) nonce")
  case None
  then show ?thesis using assms by (simp add: msgSet_rm_def set_ok_def)
next
  case (Some m)
  have "sum_list (map (funds \<circ> snd) (AList.delete nonce (msgs ms))) = requiredFunds ms - funds m"
    using sum_alist_delete[OF set_okD(1)[OF assms], of funds nonce] set_okD(3)[OF assms] Some by simp
  then show ?thesis
    using assms Some by (auto simp: msgSet_rm_def set_ok_def Let_def distinct_delete delete_conv' simp del: map_of_eq_Some_iff split: if_splits)
qed

lemma msgs_rm: "msgs (msgSet_rm ms nonce applied) = AList.delete nonce (msgs ms)"
proof (cases "map_of (msgs ms) nonce")
  case None
  then have "AList.delete nonce (msgs ms) = msgs ms" by (intro delete_id) (simp add: map_of_eq_None_iff)
  then show ?thesis using None by (simp add: msgSet_rm_def)
qed (simp add: msgSet_rm_def Let_def)

lemma alist_length_update:
  "length (AList.update k v xs) = (if map_of xs k = None then Suc (length xs) else length xs)"
  by (induction xs) auto

lemma length_delete:
  assumes "distinct (map fst xs)"
  shows "length (AList.delete k xs) = (if map_of xs k = None then length xs else length xs - 1)"
proof -
  have "sum_list (map ((\<lambda>_. 1) \<circ> snd) (AList.delete k xs)) = sum_list (map ((\<lambda>_. 1) \<circ> snd) xs)
      - (case map_of xs k of None \<Rightarrow> 0 | Some w \<Rightarrow> (1::int))"
    using sum_alist_delete[OF assms, of "\<lambda>_. 1" k] .
  then show ?thesis by (simp add: comp_def sum_list_triv split: option.splits)
qed

text \<open>
  The next nonce is free. A message that is known, beyond the next nonce, and removed as applied breaks this,
  against the comment in \<open>rm\<close>: the messages after it are not skipped.
\<close>

definition next_free :: "msgSet \<Rightarrow> bool" where
  "next_free ms \<longleftrightarrow> map_of (msgs ms) (nextNonce ms) = None"

lemma add_next_free:
  assumes "msgSet_add cd ms m strict untrusted = Inr (ms', new)" and "set_ok ms" and "next_free ms" and "length (msgs ms) < 2 ^ 64 - 1"
    and "inu64 (nextNonce ms)"
  shows "next_free ms'"
proof (cases "nonce_of m = nextNonce ms")
  case True
  have len: "length (msgs ms) < 2 ^ 64" and d: "distinct (map fst (msgs ms))" using assms(2,4) by (auto simp: set_ok_def)
  obtain j where j: "fillGap (msgs ms) (wrapu64 (nextNonce ms + 1)) = wrapu64 (nextNonce ms + 1 + int j)"
    "map_of (msgs ms) (wrapu64 (nextNonce ms + 1 + int j)) = None" "j \<le> length (msgs ms)"
    using fillGap_first_free[OF d len] by metis
  have "wrapu64 (nextNonce ms + 1 + int j) \<noteq> nextNonce ms"
  proof
    assume "wrapu64 (nextNonce ms + 1 + int j) = nextNonce ms"
    then have "(nextNonce ms + (1 + int j)) mod 2 ^ 64 = nextNonce ms mod 2 ^ 64"
      using assms(5) by (simp add: wrapu64_def inu64_def add.assoc)
    then have "(2::int) ^ 64 dvd 1 + int j"
      using mod_eq_dvd_iff[of "nextNonce ms + (1 + int j)" "2 ^ 64" "nextNonce ms"] by simp
    then have "2 ^ 64 \<le> 1 + int j" by (rule zdvd_imp_le) simp
    then show False using j(3) assms(4) by simp
  qed
  then show ?thesis
    using msgSet_add_Inr[OF assms(1)] True j by (simp add: next_free_def update_conv')
next
  case False
  then show ?thesis using msgSet_add_Inr[OF assms(1)] assms(3) by (simp add: next_free_def update_conv')
qed

lemma rm_next_free:
  assumes "set_ok ms" and "next_free ms" and "length (msgs ms) < 2 ^ 64"
    and "applied \<Longrightarrow> map_of (msgs ms) nonce \<noteq> None \<Longrightarrow> nonce < nextNonce ms"
  shows "next_free (msgSet_rm ms nonce applied)"
proof (cases "map_of (msgs ms) nonce")
  case None
  obtain j where "fillGap (msgs ms) (wrapu64 (nonce + 1)) = wrapu64 (nonce + 1 + int j)"
    "map_of (msgs ms) (wrapu64 (nonce + 1 + int j)) = None"
    using fillGap_first_free[OF set_okD(1)[OF assms(1)] assms(3)] by metis
  then show ?thesis using None assms(2) by (simp add: msgSet_rm_def next_free_def)
next
  case (Some m)
  then show ?thesis using assms(2,4) by (auto simp: msgSet_rm_def next_free_def Let_def delete_conv')
qed

lemma applied_removal_skips_pending:
  "next_free ms \<Longrightarrow> map_of (msgs ms) 3 = Some m \<Longrightarrow> map_of (msgs ms) 2 \<noteq> None \<Longrightarrow> nextNonce ms = 0 \<Longrightarrow>
    nextNonce (msgSet_rm ms 2 True) = 3 \<and> \<not> next_free (msgSet_rm ms 2 True)"
  by (auto simp: msgSet_rm_def next_free_def wrapu64_def Let_def delete_conv')

subsection \<open>Replacing a message\<close>

inductive add_step :: "codec \<Rightarrow> msgSet \<Rightarrow> msgSet \<Rightarrow> bool" for cd where
  added: "msgSet_add cd ms m strict untrusted = Inr (ms', new) \<Longrightarrow> add_step cd ms ms'"

definition premium :: "SignedMessage \<Rightarrow> int" where
  "premium m = (case GasPremium (Message m) of None \<Rightarrow> 0 | Some p \<Rightarrow> p)"

lemma ComputeMinRBF_bound: "ComputeMinRBF p \<le> q \<Longrightarrow> 5 * p < 4 * q"
  by (simp add: ComputeMinRBF_def rbfNumBig_def RbfDenom_def)

text \<open>
  C29. As long as nothing is removed, the message of a nonce stays the same or is replaced by one that pays a
  premium higher by more than a quarter, however often and in whatever way messages are added.
\<close>

theorem replacement_pays_more:
  assumes "rtranclp (add_step cd) ms ms'" and "map_of (msgs ms) n = Some m" and "0 \<le> premium m"
    and "set_ok ms"
  shows "\<exists>m'. map_of (msgs ms') n = Some m' \<and> (m' = m \<or> 5 * premium m < 4 * premium m')"
proof -
  have "set_ok ms' \<and> (\<exists>m'. map_of (msgs ms') n = Some m' \<and> (m' = m \<or> 5 * premium m < 4 * premium m'))"
    using assms(1)
  proof (induction rule: rtranclp_induct)
    case base
    show ?case using assms(2,4) by blast
  next
    case (step ms1 ms2)
    obtain m1 where m1: "map_of (msgs ms1) n = Some m1" "m1 = m \<or> 5 * premium m < 4 * premium m1" using step.IH by blast
    from step.hyps(2) obtain x strict untrusted new where a: "msgSet_add cd ms1 x strict untrusted = Inr (ms2, new)"
      by (rule add_step.cases) blast
    show ?case
    proof (cases "nonce_of x = n")
      case True
      have "5 * premium m1 < 4 * premium x"
        using msgSet_add_replaces(1)[OF a] m1(1) True ComputeMinRBF_bound by (auto simp: premium_def)
      then have "5 * premium m < 4 * premium x" using m1(2) assms(3) by auto
      then show ?thesis using True msgSet_add_Inr(1)[OF a] add_set_ok[OF a] step.IH by (auto simp: update_conv')
    next
      case False
      then show ?thesis using m1 msgSet_add_Inr(1)[OF a] add_set_ok[OF a] step.IH by (auto simp: update_conv')
    qed
  qed
  then show ?thesis by blast
qed

definition example_codec :: codec where
  "example_codec = \<lparr>msgLen = (\<lambda>m. 100 + int (length (Params m))), smLen = (\<lambda>m. 166 + int (length (Params (Message m)))),
     msgCid = (\<lambda>m. ''m'' @ (if GasPremium m = Some 10 then ''a'' else ''b'')),
     sumCid = (\<lambda>m. ''s'' @ (if GasPremium (Message m) = Some 10 then ''a'' else ''b''))\<rparr>"

definition example_msg :: "int \<Rightarrow> int \<Rightarrow> SignedMessage" where
  "example_msg n p = \<lparr>Message = \<lparr>Version = 0, To = AddrID 1000, From = AddrSecp ''alice'', MsgNonce = n, Value = Some 0,
     GasLimit = 2000000, GasFeeCap = Some 200, GasPremium = Some p, Method = 0, Params = []\<rparr>,
     Signature = \<lparr>Type = SigTypeSecp256k1, Data = []\<rparr>\<rparr>"

definition example_set :: msgSet where
  "example_set = \<lparr>msgs = [(5, example_msg 5 10)], nextNonce = 6, requiredFunds = 400000000\<rparr>"

theorem replacement_pays_more_witness:
  "\<exists>ms' m'. add_step example_codec example_set ms' \<and> map_of (msgs ms') 5 = Some m' \<and> 5 * premium (example_msg 5 10) < 4 * premium m'"
proof -
  have "isl (msgSet_add example_codec example_set (example_msg 5 13) True False) = False" by code_simp
  then obtain ms' new where a: "msgSet_add example_codec example_set (example_msg 5 13) True False = Inr (ms', new)"
    by (cases "msgSet_add example_codec example_set (example_msg 5 13) True False") auto
  have "map_of (msgs ms') 5 = Some (example_msg 5 13)"
    using msgSet_add_Inr(1)[OF a] by (simp add: update_conv' example_msg_def)
  moreover have "set_ok example_set" "map_of (msgs example_set) 5 = Some (example_msg 5 10)" "0 \<le> premium (example_msg 5 10)"
    by (auto simp: set_ok_def example_set_def example_msg_def funds_def RequiredFunds_def wrapu64_def premium_def)
  moreover have "rtranclp (add_step example_codec) example_set ms'" using a by (blast intro: add_step.added)
  ultimately show ?thesis
    using replacement_pays_more[of example_codec example_set ms' 5 "example_msg 5 10"] add_step.added[OF a]
    by (auto simp: example_msg_def)
qed

text \<open>
  Messages that are added strictly, as those from the network are, keep the set of a sender small: at most
  1000 messages, 10 from a source that is not trusted, with nonces at most 4, or 0, beyond the next one.
\<close>

theorem strict_set_bounded:
  assumes "msgSet_add cd ms m True untrusted = Inr (ms', new)" and "0 \<le> nextNonce ms" and "nextNonce ms < 2 ^ 64 - 4"
  shows "length (msgs ms') \<le> max (length (msgs ms)) (if untrusted then 10 else 1000)
    \<and> nonce_of m \<le> nextNonce ms + (if untrusted then 0 else 4)"
proof -
  have "wrapu64 (nextNonce ms + (if untrusted then 0 else MaxNonceGap)) = nextNonce ms + (if untrusted then 0 else 4)"
    using assms(2,3) by (simp add: MaxNonceGap_def wrapu64_def)
  then show ?thesis
    using msgSet_add_strict[OF assms(1)] msgSet_add_Inr(1,2)[OF assms(1)]
    by (auto simp: alist_length_update MaxActorPendingMessages_def MaxUntrustedActorPendingMessages_def split: if_splits)
qed

theorem strict_set_bounded_witness:
  "\<exists>ms' new. msgSet_add example_codec example_set (example_msg 6 10) True True = Inr (ms', new)
     \<and> length (msgs ms') \<le> max (length (msgs example_set)) 10 \<and> nonce_of (example_msg 6 10) \<le> nextNonce example_set"
proof -
  have "isl (msgSet_add example_codec example_set (example_msg 6 10) True True) = False" by code_simp
  then obtain ms' new where a: "msgSet_add example_codec example_set (example_msg 6 10) True True = Inr (ms', new)"
    by (cases "msgSet_add example_codec example_set (example_msg 6 10) True True") auto
  show ?thesis using strict_set_bounded[OF a] a by (simp add: example_set_def)
qed

end
