(* ===== verification/ChainStore.thy ===== *)
theory ChainStore
  imports MsgSet "HOL-Library.Monad_Syntax"
begin

section \<open>The chain of tipsets\<close>

text \<open>
  Models tipsets and their keys (\<open>src/chain/types/tipset.go\<close>, \<open>tipset_key.go\<close>) and the index of the chain by height
  (\<open>src/chain/store/index.go\<close>). A tipset has at least one block, as \<open>NewTipSet\<close> requires.

  The store that loads a tipset by its key is a parameter. Loops that follow parents are partial functions:
  \<^term>\<open>None\<close> is a panic or a loop that does not end; the properties show that the loops end.
\<close>

subsection \<open>Tipsets and their keys\<close>

record BlockHeader =
  blkCid :: cid
  Miner :: address
  bhParents :: "cid list"
  bhHeight :: epoch
  ParentBaseFee :: token
  Ticket :: "bytes option"
  ParentStateRoot :: cid
  Messages :: cid

record TipSet =
  cids :: "cid list"
  blks :: "BlockHeader list"
  height :: epoch

text \<open>
  A key is the concatenation of the bytes of its CIDs. The CID library is a parameter: the bytes of a CID and
  the decoder, which returns how many bytes it has read.
\<close>

record cid_codec =
  cidBytes :: "cid \<Rightarrow> bytes"
  CidFromBytes :: "bytes \<Rightarrow> string + nat \<times> cid"

definition encodeKey :: "cid_codec \<Rightarrow> cid list \<Rightarrow> bytes" where
  "encodeKey cc cs = concat (map (cidBytes cc) cs)"

partial_function (option) decodeKey :: "cid_codec \<Rightarrow> bytes \<Rightarrow> (string + cid list) option" where
  "decodeKey cc encoded =
    (if encoded = [] then Some (Inr [])
     else case CidFromBytes cc encoded of
            Inl e \<Rightarrow> Some (Inl e)
          | Inr (nr, c) \<Rightarrow> do {
              rest \<leftarrow> decodeKey cc (drop nr encoded);
              Some (case rest of Inl e \<Rightarrow> Inl e | Inr cs \<Rightarrow> Inr (c # cs))
            })"

text \<open>CIDs are self-describing: the decoder finds the end of the first one, whatever follows.\<close>

definition cids_self_describing :: "cid_codec \<Rightarrow> bool" where
  "cids_self_describing cc \<longleftrightarrow> (\<forall>c rest. cidBytes cc c \<noteq> [] \<and> CidFromBytes cc (cidBytes cc c @ rest) = Inr (length (cidBytes cc c), c))"

lemma decodeKey_Cons:
  assumes "cids_self_describing cc" and "decodeKey cc e = Some (Inr cs)"
  shows "decodeKey cc (cidBytes cc c @ e) = Some (Inr (c # cs))"
proof -
  have "cidBytes cc c \<noteq> []" "CidFromBytes cc (cidBytes cc c @ e) = Inr (length (cidBytes cc c), c)"
    using assms(1) unfolding cids_self_describing_def by blast+
  then show ?thesis using assms(2) by (subst decodeKey.simps) simp
qed

lemma decodeKey_encodeKey:
  assumes "cids_self_describing cc"
  shows "decodeKey cc (encodeKey cc cs) = Some (Inr cs)"
proof (induction cs)
  case Nil
  show ?case by (subst decodeKey.simps) (simp add: encodeKey_def)
next
  case (Cons c cs)
  then show ?case using decodeKey_Cons[OF assms Cons] by (simp add: encodeKey_def)
qed

text \<open>
  Decoding an encoded tipset key gives back its CIDs, and keys are equal only for equal lists of CIDs.
\<close>

theorem tipset_key_roundtrip:
  assumes "cids_self_describing cc"
  shows "decodeKey cc (encodeKey cc cs) = Some (Inr cs) \<and> (encodeKey cc cs = encodeKey cc cs' \<longrightarrow> cs = cs')"
proof -
  note dec = decodeKey_encodeKey[OF assms]
  show ?thesis
  proof (intro conjI impI)
    assume "encodeKey cc cs = encodeKey cc cs'"
    then have "Some (Inr cs) = (Some (Inr cs') :: (string + cid list) option)" using dec[of cs] dec[of cs'] by metis
    then show "cs = cs'" by simp
  qed (rule dec)
qed

definition example_cids :: cid_codec where
  "example_cids = \<lparr>cidBytes = (\<lambda>c. length c # map of_char c),
     CidFromBytes = (\<lambda>b. case b of [] \<Rightarrow> Inl ''too short''
       | n # rest \<Rightarrow> if length rest < n then Inl ''too short'' else Inr (Suc n, map char_of (take n rest)))\<rparr>"

lemma example_cids_ok: "cids_self_describing example_cids"
  by (simp add: cids_self_describing_def example_cids_def comp_def)

theorem tipset_key_roundtrip_witness:
  "decodeKey example_cids (encodeKey example_cids [''ab'', ''c'']) = Some (Inr [''ab'', ''c''])"
  using tipset_key_roundtrip[OF example_cids_ok, of "[''ab'', ''c'']"] by blast

text \<open>Keys identify lists of CIDs, so a key is the list from here on.\<close>

type_synonym TipSetKey = "cid list"

definition Key :: "TipSet \<Rightarrow> TipSetKey" where
  "Key ts = cids ts"

definition Parents :: "TipSet \<Rightarrow> TipSetKey" where
  "Parents ts = bhParents (blks ts ! 0)"

definition TipSet_Equals :: "TipSet \<Rightarrow> TipSet \<Rightarrow> bool" where
  "TipSet_Equals ts ots \<longleftrightarrow> height ts = height ots \<and> cids ts = cids ots"

text \<open>The comparison with pointers that may be nil.\<close>

definition Equals :: "TipSet option \<Rightarrow> TipSet option \<Rightarrow> bool" where
  "Equals ts ots = (case (ts, ots) of
     (None, None) \<Rightarrow> True
   | (Some t, Some u) \<Rightarrow> TipSet_Equals t u
   | _ \<Rightarrow> False)"

type_synonym loader = "TipSetKey \<Rightarrow> string + TipSet"

subsection \<open>The index by height\<close>

partial_function (option) walkBack_loop :: "loader \<Rightarrow> TipSet \<Rightarrow> epoch \<Rightarrow> (string + TipSet) option" where
  "walkBack_loop lts ts to =
    (case lts (Parents ts) of
       Inl e \<Rightarrow> Some (Inl e)
     | Inr pts \<Rightarrow>
         if to > height pts then Some (Inr ts)
         else if to = height pts then Some (Inr pts)
         else walkBack_loop lts pts to)"

definition walkBack :: "loader \<Rightarrow> TipSet \<Rightarrow> epoch \<Rightarrow> (string + TipSet) option" where
  "walkBack lts fr to =
    (if to > height fr then Some (Inl ''looking for tipset with height greater than start point'')
     else if to = height fr then Some (Inr fr)
     else walkBack_loop lts fr to)"

record lbEntry =
  lbts :: TipSet
  parentHeight :: epoch
  targetHeight :: epoch
  target :: TipSetKey

text \<open>The index: the cache, and what the cache keeps after an entry was added (it is a third-party cache).\<close>

record ChainIndex =
  skipCache :: "(TipSetKey \<times> lbEntry) list"
  keeps :: "(TipSetKey \<times> lbEntry) list \<Rightarrow> (TipSetKey \<times> lbEntry) list"

definition skipLength :: epoch where
  "skipLength = 20"

definition NewChainIndex :: "((TipSetKey \<times> lbEntry) list \<Rightarrow> (TipSetKey \<times> lbEntry) list) \<Rightarrow> ChainIndex" where
  "NewChainIndex kp = \<lparr>skipCache = [], keeps = kp\<rparr>"

definition roundHeight :: "epoch \<Rightarrow> epoch" where
  "roundHeight h = mul64 (quot64 h skipLength) skipLength"

definition roundDown :: "loader \<Rightarrow> TipSet \<Rightarrow> (string + TipSet) option" where
  "roundDown lts ts = walkBack lts ts (roundHeight (height ts))"

text \<open>The tipset an entry points to: at or above the last multiple of the skip length that is a whole step below.\<close>

definition skipTarget_of :: "loader \<Rightarrow> TipSet \<Rightarrow> TipSet \<Rightarrow> (string + TipSet) option" where
  "skipTarget_of lts ts parent =
    (let rheight = sub64 (roundHeight (height ts)) skipLength;
         rheight = (if rheight < 0 then 0 else rheight)
     in if height parent < rheight then Some (Inr parent) else walkBack lts parent rheight)"

definition fillCache :: "loader \<Rightarrow> ChainIndex \<Rightarrow> TipSetKey \<Rightarrow> (ChainIndex \<times> (string + lbEntry)) option" where
  "fillCache lts ci tsk =
    (case lts tsk of
       Inl e \<Rightarrow> Some (ci, Inl e)
     | Inr ts \<Rightarrow>
         if height ts = 0 then Some (ci, Inr \<lparr>lbts = ts, parentHeight = 0, targetHeight = 0, target = []\<rparr>)
         else case lts (Parents ts) of
           Inl e \<Rightarrow> Some (ci, Inl e)
         | Inr parent \<Rightarrow> do {
             skip \<leftarrow> skipTarget_of lts ts parent;
             Some (case skip of
               Inl e \<Rightarrow> (ci, Inl e)
             | Inr skipTarget \<Rightarrow>
                 let lbe = \<lparr>lbts = ts, parentHeight = height parent, targetHeight = height skipTarget, target = Key skipTarget\<rparr>
                 in (ci\<lparr>skipCache := keeps ci (AList.update tsk lbe (skipCache ci))\<rparr>, Inr lbe))
           })"

partial_function (option) index_loop :: "loader \<Rightarrow> ChainIndex \<Rightarrow> TipSetKey \<Rightarrow> epoch \<Rightarrow> (ChainIndex \<times> (string + TipSet)) option" where
  "index_loop lts ci cur to = do {
     (ci, lbe) \<leftarrow> (case map_of (skipCache ci) cur of Some e \<Rightarrow> Some (ci, Inr e) | None \<Rightarrow> fillCache lts ci cur);
     case lbe of
       Inl e \<Rightarrow> Some (ci, Inl e)
     | Inr lbe \<Rightarrow>
         if height (lbts lbe) = to \<or> parentHeight lbe < to then Some (ci, Inr (lbts lbe))
         else if to > targetHeight lbe then do { r \<leftarrow> walkBack lts (lbts lbe) to; Some (ci, r) }
         else index_loop lts ci (target lbe) to
   }"

definition GetTipsetByHeight :: "loader \<Rightarrow> ChainIndex \<Rightarrow> TipSet \<Rightarrow> epoch \<Rightarrow> (ChainIndex \<times> (string + TipSet)) option" where
  "GetTipsetByHeight lts ci fr to =
    (if sub64 (height fr) to \<le> skipLength then do { r \<leftarrow> walkBack lts fr to; Some (ci, r) }
     else do {
       rounded \<leftarrow> roundDown lts fr;
       case rounded of
         Inl e \<Rightarrow> Some (ci, Inl e)
       | Inr rounded \<Rightarrow> index_loop lts ci (Key rounded) to
     })"

definition GetTipsetByHeightWithoutCache :: "loader \<Rightarrow> TipSet \<Rightarrow> epoch \<Rightarrow> (string + TipSet) option" where
  "GetTipsetByHeightWithoutCache lts fr to = walkBack lts fr to"

text \<open>A tipset with all its ancestors in the store, down to genesis, newest first.\<close>

inductive chain_of :: "loader \<Rightarrow> TipSet \<Rightarrow> TipSet list \<Rightarrow> bool" for lts where
  genesis: "lts (Key ts) = Inr ts \<Longrightarrow> height ts = 0 \<Longrightarrow> chain_of lts ts [ts]"
| child: "lts (Key ts) = Inr ts \<Longrightarrow> lts (Parents ts) = Inr p \<Longrightarrow> height p < height ts \<Longrightarrow> height ts < 2 ^ 62
    \<Longrightarrow> chain_of lts p us \<Longrightarrow> chain_of lts ts (ts # us)"

inductive_cases chain_ofE: "chain_of lts ts us"

text \<open>The lowest tipset of a chain that is not below a height.\<close>

definition lowest_from :: "TipSet list \<Rightarrow> epoch \<Rightarrow> TipSet" where
  "lowest_from us to = last (takeWhile (\<lambda>t. to \<le> height t) us)"

lemma chain_of_hd:
  assumes "chain_of lts ts us"
  shows "\<exists>vs. us = ts # vs" and "lts (Key ts) = Inr ts" and "0 \<le> height ts" and "height ts < 2 ^ 62"
  using assms by (induction rule: chain_of.induct) auto

lemma takeWhile_top:
  assumes "chain_of lts ts us"
  shows "takeWhile (\<lambda>t. height ts \<le> height t) us = [ts]"
  using assms
proof cases
  case (child p vs)
  then obtain ws where "vs = p # ws" using chain_of_hd(1) by blast
  then show ?thesis using child by simp
qed simp

lemma walkBack_loop_lowest:
  assumes "chain_of lts ts us" and "0 \<le> to" and "to < height ts"
  shows "walkBack_loop lts ts to = Some (Inr (lowest_from us to))"
  using assms
proof (induction rule: chain_of.induct)
  case (child ts p us)
  obtain vs where us: "us = p # vs" using chain_of_hd(1)[OF child.hyps(5)] by blast
  show ?case
  proof (cases "to < height p")
    case True
    then have "walkBack_loop lts ts to = walkBack_loop lts p to"
      using child.hyps(2) by (subst walkBack_loop.simps) simp
    then show ?thesis using child.IH[OF child.prems(1) True] child.prems(2) True by (simp add: lowest_from_def us)
  next
    case False
    have step: "walkBack_loop lts ts to = Some (Inr (if to > height p then ts else p))"
      using False child.hyps(2) by (subst walkBack_loop.simps) simp
    show ?thesis
    proof (cases "to = height p")
      case True
      then have "takeWhile (\<lambda>t. to \<le> height t) us = [p]" using takeWhile_top[OF child.hyps(5)] by simp
      then show ?thesis using True child.hyps(3) step by (simp add: lowest_from_def)
    next
      case above: False
      then show ?thesis using False step child.prems(2) us by (simp add: lowest_from_def)
    qed
  qed
qed simp

lemma walkBack_lowest:
  assumes "chain_of lts ts us" and "0 \<le> to" and "to \<le> height ts"
  shows "walkBack lts ts to = Some (Inr (lowest_from us to))"
proof (cases "to = height ts")
  case True
  have "lowest_from us to = ts" using takeWhile_top[OF assms(1)] True by (simp add: lowest_from_def)
  then show ?thesis using True by (simp add: walkBack_def)
next
  case False
  then show ?thesis using walkBack_loop_lowest[OF assms(1,2)] assms(3) by (simp add: walkBack_def)
qed

lemma chain_of_heights:
  assumes "chain_of lts ts us" and "t \<in> set us"
  shows "height t \<le> height ts" and "t \<noteq> ts \<Longrightarrow> height t < height ts" and "0 \<le> height t"
  using assms
proof (induction rule: chain_of.induct)
  case (child ts p us)
  { case 1 then show ?case using child by fastforce }
  { case 2 then show ?case using child by fastforce }
  { case 3 then show ?case using child chain_of_hd(3)[OF child.hyps(5)] by fastforce }
qed simp_all

lemma chain_of_unique: "chain_of lts ts us \<Longrightarrow> chain_of lts ts vs \<Longrightarrow> us = vs"
proof (induction arbitrary: vs rule: chain_of.induct)
  case (genesis ts)
  from genesis.prems show ?case using genesis.hyps by cases (auto dest: chain_of_hd(3))
next
  case (child ts p us)
  from child.prems show ?case
  proof cases
    case genesis
    then show ?thesis using child.hyps(3) chain_of_hd(3)[OF child.hyps(5)] by simp
  next
    case (child q ws)
    then show ?thesis using \<open>lts (Parents ts) = Inr p\<close> \<open>\<And>vs. chain_of lts p vs \<Longrightarrow> us = vs\<close> by simp
  qed
qed

lemma set_update_subset: "set (AList.update k v xs) \<subseteq> insert (k, v) (set xs)"
  by (induction xs) auto

lemma chain_of_in:
  assumes "chain_of lts ts us" and "t \<in> set us" and "to \<le> height t"
  shows "\<exists>vs. chain_of lts t vs \<and> lowest_from us to = lowest_from vs to"
  using assms
proof (induction rule: chain_of.induct)
  case (genesis ts)
  then show ?case using chain_of.genesis by (intro exI[of _ "[ts]"]) simp
next
  case (child ts p us)
  show ?case
  proof (cases "t = ts")
    case True
    then show ?thesis using child.hyps by (intro exI[of _ "ts # us"]) (simp add: chain_of.child)
  next
    case False
    then have t: "t \<in> set us" using child.prems(1) by simp
    have "to \<le> height p"
      using chain_of_heights[OF child.hyps(5) t] child.prems(2) by simp
    moreover obtain ws where "us = p # ws" using chain_of_hd(1)[OF child.hyps(5)] by blast
    ultimately have "lowest_from (ts # us) to = lowest_from us to"
      using child.hyps(3) by (simp add: lowest_from_def)
    then show ?thesis using child.IH[OF t child.prems(2)] by simp
  qed
qed

lemma lowest_from_in:
  assumes "chain_of lts ts us" and "to \<le> height ts"
  shows "lowest_from us to \<in> set us" and "to \<le> height (lowest_from us to)"
proof -
  obtain vs where "us = ts # vs" using chain_of_hd(1)[OF assms(1)] by blast
  then have "takeWhile (\<lambda>t. to \<le> height t) us \<noteq> []" using assms(2) by simp
  then have "lowest_from us to \<in> set (takeWhile (\<lambda>t. to \<le> height t) us)" unfolding lowest_from_def by (rule last_in_set)
  then show "lowest_from us to \<in> set us" and "to \<le> height (lowest_from us to)" by (auto dest: set_takeWhileD)
qed

text \<open>What the entries of the cache promise: the target is some ancestor.\<close>

definition entry_ok :: "loader \<Rightarrow> lbEntry \<Rightarrow> bool" where
  "entry_ok lts e \<longleftrightarrow> (\<exists>us. chain_of lts (lbts e) us \<and> (height (lbts e) \<noteq> 0 \<longrightarrow>
     (\<exists>p t. lts (Parents (lbts e)) = Inr p \<and> parentHeight e = height p \<and> t \<in> set (tl us) \<and> target e = Key t \<and> targetHeight e = height t)))"

definition cache_ok :: "loader \<Rightarrow> ChainIndex \<Rightarrow> bool" where
  "cache_ok lts ci \<longleftrightarrow> (\<forall>(k, e)\<in>set (skipCache ci). lts k = Inr (lbts e) \<and> entry_ok lts e) \<and> (\<forall>c. set (keeps ci c) \<subseteq> set c)"

lemma new_index_ok: "(\<forall>c. set (kp c) \<subseteq> set c) \<Longrightarrow> cache_ok lts (NewChainIndex kp)"
  by (simp add: cache_ok_def NewChainIndex_def)

lemma roundHeight_le:
  assumes "0 \<le> h" and "h < 2 ^ 62"
  shows "roundHeight h \<le> h" and "h - 20 < roundHeight h" and "0 \<le> roundHeight h"
proof -
  have "in64 h" using assms by (simp add: in64_def)
  then have q: "quot64 h skipLength = h div 20" using assms(1) by (simp add: skipLength_def quot64_exact)
  have "h div 20 * 20 \<le> h" "h - 20 < h div 20 * 20" "0 \<le> h div 20 * 20"
    using assms(1) by (simp_all add: pos_imp_zdiv_nonneg_iff)
  moreover have "in64 (h div 20 * 20)" using calculation assms by (simp add: in64_def)
  moreover have "roundHeight h = mul64 (h div 20) 20" unfolding roundHeight_def q by (simp add: skipLength_def)
  ultimately show "roundHeight h \<le> h" "h - 20 < roundHeight h" "0 \<le> roundHeight h"
    by (simp_all add: mul64_exact)
qed

lemma fillCache_ok:
  assumes "chain_of lts ts us" and "cache_ok lts ci"
  obtains ci' e where "fillCache lts ci (Key ts) = Some (ci', Inr e)" and "lbts e = ts" and "entry_ok lts e" and "cache_ok lts ci'"
proof (cases "height ts = 0")
  case True
  have "fillCache lts ci (Key ts) = Some (ci, Inr \<lparr>lbts = ts, parentHeight = 0, targetHeight = 0, target = []\<rparr>)"
    using True chain_of_hd(2)[OF assms(1)] by (simp add: fillCache_def)
  then show thesis using assms True by (intro that[of ci]) (auto simp: entry_ok_def)
next
  case False
  from assms(1) False obtain p vs where ch: "us = ts # vs" "lts (Parents ts) = Inr p" "height p < height ts" "chain_of lts p vs"
    by (auto elim: chain_of.cases)
  obtain t where t: "t \<in> set vs" "skipTarget_of lts ts p = Some (Inr t)"
  proof (cases "skipTarget_of lts ts p = Some (Inr p)")
    case True
    then show thesis using that[of p] chain_of_hd(1)[OF ch(4)] by auto
  next
    case walk: False
    define rh where "rh = (if sub64 (roundHeight (height ts)) skipLength < 0 then 0 else sub64 (roundHeight (height ts)) skipLength)"
    have "0 \<le> rh" "skipTarget_of lts ts p = (if height p < rh then Some (Inr p) else walkBack lts p rh)"
      by (simp_all add: rh_def skipTarget_of_def Let_def)
    then show thesis
      using walk that[of "lowest_from vs rh"] walkBack_lowest[OF ch(4)] lowest_from_in(1)[OF ch(4)] by (auto split: if_splits)
  qed
  define e where "e = \<lparr>lbts = ts, parentHeight = height p, targetHeight = height t, target = Key t\<rparr>"
  define ci' where "ci' = ci\<lparr>skipCache := keeps ci (AList.update (Key ts) e (skipCache ci))\<rparr>"
  have fill: "fillCache lts ci (Key ts) = Some (ci', Inr e)"
    using False chain_of_hd(2)[OF assms(1)] ch(2) t(2) by (simp add: fillCache_def Let_def e_def ci'_def)
  have e: "entry_ok lts e" using assms(1) ch(1,2) t(1) by (auto simp: entry_ok_def e_def intro!: exI[of _ us])
  have "cache_ok lts ci'"
  proof -
    have "lts k = Inr (lbts x) \<and> entry_ok lts x" if "(k, x) \<in> set (skipCache ci')" for k x
    proof -
      have "(k, x) \<in> set (AList.update (Key ts) e (skipCache ci))" using that assms(2) by (auto simp: ci'_def cache_ok_def)
      then have "(k, x) = (Key ts, e) \<or> (k, x) \<in> set (skipCache ci)" using set_update_subset by fastforce
      then show ?thesis using assms(2) e chain_of_hd(2)[OF assms(1)] by (auto simp: cache_ok_def e_def)
    qed
    then show ?thesis using assms(2) by (auto simp: cache_ok_def ci'_def)
  qed
  then show thesis using that[OF fill _ e] by (simp add: e_def)
qed

lemma index_loop_lowest:
  assumes "chain_of lts ts us" and "cache_ok lts ci" and "0 \<le> to" and "to \<le> height ts"
  shows "\<exists>ci'. index_loop lts ci (Key ts) to = Some (ci', Inr (lowest_from us to)) \<and> cache_ok lts ci'"
  using assms
proof (induction "nat (height ts)" arbitrary: ts us ci rule: less_induct)
  case less
  obtain ci1 e where e: "(case map_of (skipCache ci) (Key ts) of Some e \<Rightarrow> Some (ci, Inr e) | None \<Rightarrow> fillCache lts ci (Key ts)) = Some (ci1, Inr e)"
    "lbts e = ts" "entry_ok lts e" "cache_ok lts ci1"
  proof (cases "map_of (skipCache ci) (Key ts)")
    case None
    obtain ci1 e where "fillCache lts ci (Key ts) = Some (ci1, Inr e)" "lbts e = ts" "entry_ok lts e" "cache_ok lts ci1"
      by (rule fillCache_ok[OF less.prems(1,2)])
    then show thesis using that[of ci1 e] None by simp
  next
    case (Some e)
    then have "(Key ts, e) \<in> set (skipCache ci)" by (rule map_of_SomeD)
    then have 1: "lts (Key ts) = Inr (lbts e)" "entry_ok lts e" using less.prems(2) by (auto simp: cache_ok_def)
    then have "lbts e = ts" using chain_of_hd(2)[OF less.prems(1)] by simp
    then show thesis using Some 1(2) less.prems(2) by (intro that[of ci e]) simp_all
  qed
  have step: "index_loop lts ci (Key ts) to =
     (if height ts = to \<or> parentHeight e < to then Some (ci1, Inr ts)
      else if to > targetHeight e then do { r \<leftarrow> walkBack lts ts to; Some (ci1, r) }
      else index_loop lts ci1 (target e) to)"
    by (subst index_loop.simps, subst e(1)) (simp add: e(2))
  show ?case
  proof (cases "height ts = to")
    case True
    then show ?thesis using step e(4) takeWhile_top[OF less.prems(1)] by (simp add: lowest_from_def)
  next
    case False
    then have pos: "height ts \<noteq> 0" using less.prems(3,4) by auto
    from less.prems(1) pos obtain p vs where ch: "us = ts # vs" "lts (Parents ts) = Inr p" "height p < height ts" "chain_of lts p vs"
      by (auto elim: chain_of.cases)
    obtain t where t: "parentHeight e = height p" "t \<in> set vs" "target e = Key t" "targetHeight e = height t"
    proof -
      obtain us' where us': "chain_of lts ts us'" "height ts \<noteq> 0 \<longrightarrow>
          (\<exists>p t. lts (Parents ts) = Inr p \<and> parentHeight e = height p \<and> t \<in> set (tl us') \<and> target e = Key t \<and> targetHeight e = height t)"
        using e(3) unfolding entry_ok_def e(2) by blast
      have "us' = us" using chain_of_unique[OF us'(1) less.prems(1)] .
      then show thesis using us'(2) pos ch(1,2) that by auto
    qed
    consider (here) "height p < to" | (walk) "to \<le> height p" "height t < to" | (skip) "to \<le> height p" "to \<le> height t" by linarith
    then show ?thesis
    proof cases
      case here
      obtain ws where "vs = p # ws" using chain_of_hd(1)[OF ch(4)] by blast
      then have "lowest_from us to = ts" using here ch(1) less.prems(4) by (simp add: lowest_from_def)
      then show ?thesis using here step t(1) e(4) by simp
    next
      case walk
      then show ?thesis using step t False walkBack_lowest[OF less.prems(1,3,4)] e(4) by simp
    next
      case skip
      have "t \<in> set us" using t(2) ch(1) by simp
      then obtain ws where ws: "chain_of lts t ws" "lowest_from us to = lowest_from ws to"
        using chain_of_in[OF less.prems(1) _ skip(2)] by blast
      have "height t < height ts" using chain_of_heights(1)[OF ch(4) t(2)] ch(3) by simp
      then have "nat (height t) < nat (height ts)" using less.prems(3,4) skip(2) by simp
      from less.hyps[OF this ws(1) e(4) less.prems(3) skip(2)] show ?thesis using step t False skip ws(2) by simp
    qed
  qed
qed

text \<open>
  C19. Looking up a tipset by height through the index of skips, whatever is in its cache, gives what walking
  back the parents one by one gives: the lowest tipset of the chain that is not below the height. The lookup
  always ends.
\<close>

theorem index_lookup_is_walk_back:
  assumes "chain_of lts fr us" and "cache_ok lts ci" and "0 \<le> to" and "to \<le> height fr"
  shows "\<exists>ci'. GetTipsetByHeight lts ci fr to = Some (ci', Inr (lowest_from us to)) \<and> cache_ok lts ci'
    \<and> GetTipsetByHeightWithoutCache lts fr to = Some (Inr (lowest_from us to))"
proof -
  have walk: "walkBack lts fr to = Some (Inr (lowest_from us to))" using walkBack_lowest[OF assms(1,3,4)] .
  note h = chain_of_hd(3,4)[OF assms(1)]
  have d: "sub64 (height fr) to = height fr - to" using h assms(3,4) by (intro sub64_exact) (simp add: in64_def)
  show ?thesis
  proof (cases "height fr - to \<le> 20")
    case True
    then show ?thesis using walk assms(2) by (simp add: GetTipsetByHeight_def GetTipsetByHeightWithoutCache_def d skipLength_def)
  next
    case False
    define rh where "rh = roundHeight (height fr)"
    have rh: "rh \<le> height fr" "0 \<le> rh" "to \<le> rh" using roundHeight_le[OF h] False by (simp_all add: rh_def)
    define r where "r = lowest_from us rh"
    have r: "r \<in> set us" "rh \<le> height r" using lowest_from_in[OF assms(1) rh(1)] by (simp_all add: r_def)
    obtain vs where vs: "chain_of lts r vs" "lowest_from us to = lowest_from vs to"
      using chain_of_in[OF assms(1) r(1)] r(2) rh(3) by (metis order_trans)
    have "roundDown lts fr = Some (Inr r)" using walkBack_lowest[OF assms(1) rh(2,1)] by (simp add: roundDown_def rh_def r_def)
    then have "GetTipsetByHeight lts ci fr to = index_loop lts ci (Key r) to"
      using False by (simp add: GetTipsetByHeight_def d skipLength_def)
    moreover have "to \<le> height r" using r(2) rh(3) by simp
    ultimately show ?thesis
      using index_loop_lowest[OF vs(1) assms(2,3)] vs(2) walk by (simp add: GetTipsetByHeightWithoutCache_def)
  qed
qed

definition example_ts :: "cid \<Rightarrow> cid list \<Rightarrow> epoch \<Rightarrow> TipSet" where
  "example_ts c ps h = \<lparr>cids = [c], blks = [\<lparr>blkCid = c, Miner = AddrID 1000, bhParents = ps, bhHeight = h, ParentBaseFee = 100,
     Ticket = Some [1], ParentStateRoot = ''root'', Messages = ''msgs''\<rparr>], height = h\<rparr>"

text \<open>A store with a fork: genesis, then \<open>a\<close>, and on top of \<open>a\<close> the two tipsets \<open>b\<close> and \<open>c\<close>.\<close>

definition example_store :: loader where
  "example_store k =
    (if k = [''g''] then Inr (example_ts ''g'' [] 0)
     else if k = [''a''] then Inr (example_ts ''a'' [''g''] 25)
     else if k = [''b''] then Inr (example_ts ''b'' [''a''] 50)
     else if k = [''c''] then Inr (example_ts ''c'' [''a''] 60)
     else Inl ''not found'')"

lemma example_chains:
  shows "chain_of example_store (example_ts ''g'' [] 0) [example_ts ''g'' [] 0]"
    and "chain_of example_store (example_ts ''a'' [''g''] 25) [example_ts ''a'' [''g''] 25, example_ts ''g'' [] 0]"
    and "chain_of example_store (example_ts ''b'' [''a''] 50) [example_ts ''b'' [''a''] 50, example_ts ''a'' [''g''] 25, example_ts ''g'' [] 0]"
    and "chain_of example_store (example_ts ''c'' [''a''] 60) [example_ts ''c'' [''a''] 60, example_ts ''a'' [''g''] 25, example_ts ''g'' [] 0]"
proof -
  show g: "chain_of example_store (example_ts ''g'' [] 0) [example_ts ''g'' [] 0]"
    by (rule chain_of.genesis) (simp_all add: example_store_def example_ts_def Key_def)
  show a: "chain_of example_store (example_ts ''a'' [''g''] 25) [example_ts ''a'' [''g''] 25, example_ts ''g'' [] 0]"
    by (rule chain_of.child[OF _ _ _ _ g]) (simp_all add: example_store_def example_ts_def Key_def Parents_def)
  show "chain_of example_store (example_ts ''b'' [''a''] 50) [example_ts ''b'' [''a''] 50, example_ts ''a'' [''g''] 25, example_ts ''g'' [] 0]"
    by (rule chain_of.child[OF _ _ _ _ a]) (simp_all add: example_store_def example_ts_def Key_def Parents_def)
  show "chain_of example_store (example_ts ''c'' [''a''] 60) [example_ts ''c'' [''a''] 60, example_ts ''a'' [''g''] 25, example_ts ''g'' [] 0]"
    by (rule chain_of.child[OF _ _ _ _ a]) (simp_all add: example_store_def example_ts_def Key_def Parents_def)
qed

theorem index_lookup_is_walk_back_witness:
  "\<exists>ci. GetTipsetByHeight example_store (NewChainIndex id) (example_ts ''b'' [''a''] 50) 10 = Some (ci, Inr (example_ts ''a'' [''g''] 25))"
proof -
  have "cache_ok example_store (NewChainIndex id)" by (rule new_index_ok) simp
  from index_lookup_is_walk_back[OF example_chains(3) this, of 10]
  have "\<exists>ci. GetTipsetByHeight example_store (NewChainIndex id) (example_ts ''b'' [''a''] 50) 10
     = Some (ci, Inr (lowest_from [example_ts ''b'' [''a''] 50, example_ts ''a'' [''g''] 25, example_ts ''g'' [] 0] 10))"
    by (auto simp: example_ts_def)
  moreover have "lowest_from [example_ts ''b'' [''a''] 50, example_ts ''a'' [''g''] 25, example_ts ''g'' [] 0] 10 = example_ts ''a'' [''g''] 25"
    by (simp add: lowest_from_def example_ts_def)
  ultimately show ?thesis by simp
qed

end
