(* ===== verification/ChainHead.thy ===== *)
theory ChainHead
  imports ChainStore
begin

section \<open>The head of the chain\<close>

text \<open>
  Models how \<open>src/chain/store/store.go\<close> moves the head: the paths between two tipsets (\<open>ReorgOps\<close>, \<open>IsAncestorOf\<close>,
  \<open>NearestCommonAncestor\<close>, \<open>GetPath\<close>), the fork choice with its fork limit and checkpoint
  (\<open>MaybeTakeHeavierTipSet\<close>, \<open>exceedsForkLength\<close>, \<open>SetCheckpoint\<close>, \<open>SetHead\<close>), the worker that tells the
  observers of head changes (\<open>reorgWorker\<close>), and the observer that merges head changes (\<open>coalescer.go\<close>).

  The weight function is a field of the store in the code and an argument here; the metadata store is a
  third-party store, of which the outcome of each write is an argument. \<^term>\<open>None\<close> is a nil dereference, an index
  out of range, or a wait that does not end.
\<close>

subsection \<open>Paths between tipsets\<close>

partial_function (option) ReorgOps_loop ::
  "loader \<Rightarrow> TipSet \<Rightarrow> TipSet \<Rightarrow> TipSet list \<Rightarrow> TipSet list \<Rightarrow> (string + TipSet list \<times> TipSet list) option" where
  "ReorgOps_loop lts left right leftChain rightChain =
    (if TipSet_Equals left right then Some (Inr (leftChain, rightChain))
     else if height left > height right then
       (case lts (Parents left) of
          Inl e \<Rightarrow> Some (Inl e)
        | Inr par \<Rightarrow> ReorgOps_loop lts par right (leftChain @ [left]) rightChain)
     else
       (case lts (Parents right) of
          Inl e \<Rightarrow> Some (Inl e)
        | Inr par \<Rightarrow> ReorgOps_loop lts left par leftChain (rightChain @ [right])))"

definition ReorgOps :: "loader \<Rightarrow> TipSet \<Rightarrow> TipSet \<Rightarrow> (string + TipSet list \<times> TipSet list) option" where
  "ReorgOps lts a b = ReorgOps_loop lts a b [] []"

partial_function (option) IsAncestorOf_loop :: "loader \<Rightarrow> TipSet \<Rightarrow> TipSet \<Rightarrow> (string + bool) option" where
  "IsAncestorOf_loop lts a cur =
    (if \<not> TipSet_Equals a cur \<and> height cur > height a then
       (case lts (Parents cur) of
          Inl e \<Rightarrow> Some (Inl e)
        | Inr nxt \<Rightarrow> IsAncestorOf_loop lts a nxt)
     else Some (Inr (TipSet_Equals cur a)))"

definition IsAncestorOf :: "loader \<Rightarrow> TipSet \<Rightarrow> TipSet \<Rightarrow> (string + bool) option" where
  "IsAncestorOf lts a b = (if height b \<le> height a then Some (Inr False) else IsAncestorOf_loop lts a b)"

definition NearestCommonAncestor :: "loader \<Rightarrow> TipSet \<Rightarrow> TipSet \<Rightarrow> (string + TipSet) option" where
  "NearestCommonAncestor lts a b = do {
     ops \<leftarrow> ReorgOps lts a b;
     case ops of
       Inl e \<Rightarrow> Some (Inl e)
     | Inr (l, _) \<Rightarrow> if l = [] then None else Some (lts (Parents (l ! (length l - 1))))
   }"

datatype HeadChange = HCRevert TipSet | HCApply TipSet

definition GetPath :: "loader \<Rightarrow> TipSetKey \<Rightarrow> TipSetKey \<Rightarrow> (string + HeadChange list) option" where
  "GetPath lts fr to =
    (case lts fr of
       Inl e \<Rightarrow> Some (Inl e)
     | Inr fts \<Rightarrow> (case lts to of
         Inl e \<Rightarrow> Some (Inl e)
       | Inr tts \<Rightarrow> do {
           ops \<leftarrow> ReorgOps lts fts tts;
           Some (case ops of
             Inl e \<Rightarrow> Inl e
           | Inr (revert, app) \<Rightarrow> Inr (map HCRevert revert @ map HCApply (rev app)))
         }))"

subsection \<open>The paths are the branches up to the fork\<close>

text \<open>The tipsets of a chain above another chain, newest first.\<close>

definition branch :: "TipSet list \<Rightarrow> TipSet list \<Rightarrow> TipSet list" where
  "branch us vs = takeWhile (\<lambda>t. t \<notin> set vs) us"

lemma chain_of_Equals:
  assumes "chain_of lts a us" and "chain_of lts b vs"
  shows "TipSet_Equals a b \<longleftrightarrow> a = b"
proof
  assume "TipSet_Equals a b"
  then have "lts (Key a) = lts (Key b)" by (simp add: TipSet_Equals_def Key_def)
  then show "a = b" using chain_of_hd(2)[OF assms(1)] chain_of_hd(2)[OF assms(2)] by simp
qed (simp add: TipSet_Equals_def)

lemma chain_of_below:
  assumes "chain_of lts a us" and "height a \<noteq> 0"
  obtains p vs where "us = a # vs" and "lts (Parents a) = Inr p" and "chain_of lts p vs" and "height p < height a"
  using assms by (auto elim: chain_of.cases)

lemma higher_not_in_chain: "chain_of lts b vs \<Longrightarrow> height b < height a \<Longrightarrow> a \<notin> set vs"
  using chain_of_heights(1) by fastforce

lemma same_height_not_in_chain: "chain_of lts b vs \<Longrightarrow> height b \<le> height a \<Longrightarrow> a \<noteq> b \<Longrightarrow> a \<notin> set vs"
  using chain_of_heights(2) by fastforce

lemma chain_of_low: "chain_of lts a us \<Longrightarrow> height a = 0 \<Longrightarrow> us = [a]"
  by (erule chain_of.cases) (auto dest: chain_of_hd(3))

lemma branch_self: "chain_of lts a us \<Longrightarrow> branch us us = []"
  using chain_of_hd(1)[of lts a us] by (auto simp: branch_def)

lemma branch_Cons: "a \<notin> set vs \<Longrightarrow> branch (a # us) vs = a # branch us vs"
  by (simp add: branch_def)

lemma branch_drop: "a \<notin> set vs \<Longrightarrow> branch vs (a # us) = branch vs us"
  unfolding branch_def by (rule takeWhile_cong) auto

text \<open>
  The two chains meet: what follows the two branches is the same list. This is the induction along the loop.
\<close>

lemma chains_meet_induct [consumes 3, case_names same left right]:
  assumes a: "chain_of lts a us" and b: "chain_of lts b vs" and g: "last us = last vs"
    and same: "\<And>a us. chain_of lts a us \<Longrightarrow> P a us a us"
    and left: "\<And>a us p b vs. height b < height a \<Longrightarrow> chain_of lts a (a # us) \<Longrightarrow> lts (Parents a) = Inr p
        \<Longrightarrow> chain_of lts p us \<Longrightarrow> chain_of lts b vs \<Longrightarrow> a \<notin> set vs \<Longrightarrow> P p us b vs \<Longrightarrow> P a (a # us) b vs"
    and right: "\<And>a us b p vs. height a \<le> height b \<Longrightarrow> a \<noteq> b \<Longrightarrow> chain_of lts a us \<Longrightarrow> chain_of lts b (b # vs) \<Longrightarrow> lts (Parents b) = Inr p
        \<Longrightarrow> chain_of lts p vs \<Longrightarrow> b \<notin> set us \<Longrightarrow> P a us p vs \<Longrightarrow> P a us b (b # vs)"
  shows "P a us b vs"
  using a b g
proof (induction "length us + length vs" arbitrary: a us b vs rule: less_induct)
  case less
  consider (eq) "a = b" | (l) "height b < height a" | (r) "height a \<le> height b" "a \<noteq> b" by linarith
  then show ?case
  proof cases
    case eq
    then have "us = vs" using chain_of_unique less.prems(1,2) by blast
    then show ?thesis using same eq less.prems(1) by simp
  next
    case l
    then have "height a \<noteq> 0" using chain_of_hd(3)[OF less.prems(2)] by simp
    then obtain p us' where p: "us = a # us'" "lts (Parents a) = Inr p" "chain_of lts p us'"
      using chain_of_below[OF less.prems(1)] by metis
    have "last us' = last vs" using less.prems(3) p(1) chain_of_hd(1)[OF p(3)] by auto
    then have "P p us' b vs" using less.hyps[OF _ p(3) less.prems(2)] p(1) by simp
    then show ?thesis using left[OF l _ p(2,3) less.prems(2) higher_not_in_chain[OF less.prems(2) l]] less.prems(1) p(1) by simp
  next
    case r
    have "height b \<noteq> 0"
    proof
      assume "height b = 0"
      then have "us = [a]" "vs = [b]" using r chain_of_low less.prems(1,2) chain_of_hd(3)[OF less.prems(1)] by (metis antisym)+
      then show False using less.prems(3) r(2) by simp
    qed
    then obtain p vs' where p: "vs = b # vs'" "lts (Parents b) = Inr p" "chain_of lts p vs'"
      using chain_of_below[OF less.prems(2)] by metis
    have "last us = last vs'" using less.prems(3) p(1) chain_of_hd(1)[OF p(3)] by auto
    then have "P a us p vs'" using less.hyps[OF _ less.prems(1) p(3)] p(1) by simp
    moreover have "b \<notin> set us" using same_height_not_in_chain[OF less.prems(1) r(1)] r(2) by simp
    ultimately show ?thesis using right[OF r less.prems(1) _ p(2,3)] less.prems(2) p(1) by simp
  qed
qed

lemma branches_meet:
  assumes "chain_of lts a us" and "chain_of lts b vs" and "last us = last vs"
  shows "\<exists>c. us = branch us vs @ c \<and> vs = branch vs us @ c \<and> c \<noteq> [] \<and> chain_of lts (hd c) c"
  using assms
proof (induction rule: chains_meet_induct)
  case (same a us)
  then show ?case using branch_self[OF same] chain_of_hd(1)[OF same] by auto
next
  case (left a us p b vs)
  then show ?case by (auto simp: branch_Cons branch_drop)
next
  case (right a us b p vs)
  then show ?case by (auto simp: branch_Cons branch_drop)
qed

lemma ReorgOps_loop_branches:
  assumes "chain_of lts a us" and "chain_of lts b vs" and "last us = last vs"
  shows "ReorgOps_loop lts a b l r = Some (Inr (l @ branch us vs, r @ branch vs us))"
  using assms
proof (induction arbitrary: l r rule: chains_meet_induct)
  case (same a us)
  then show ?case by (subst ReorgOps_loop.simps) (simp add: TipSet_Equals_def branch_self)
next
  case (left a us p b vs)
  have "\<not> TipSet_Equals a b" using left(1) by (simp add: TipSet_Equals_def)
  then show ?case using left by (subst ReorgOps_loop.simps) (simp add: branch_Cons branch_drop)
next
  case (right a us b p vs)
  have "\<not> TipSet_Equals a b" using right chain_of_Equals by blast
  then show ?case using right by (subst ReorgOps_loop.simps) (simp add: branch_Cons branch_drop)
qed




lemma ReorgOps_branches:
  assumes "chain_of lts a us" and "chain_of lts b vs" and "last us = last vs"
  shows "ReorgOps lts a b = Some (Inr (branch us vs, branch vs us))"
  using ReorgOps_loop_branches[OF assms] by (simp add: ReorgOps_def)

lemma IsAncestorOf_loop_in:
  assumes "chain_of lts b vs" and "chain_of lts a us"
  shows "IsAncestorOf_loop lts a b = Some (Inr (a \<in> set vs))"
  using assms(1)
proof (induction rule: chain_of.induct)
  case (genesis b)
  have "chain_of lts b [b]" using chain_of.genesis genesis .
  from chain_of_Equals[OF this assms(2)] chain_of_Equals[OF assms(2) this] genesis(2) show ?case
    using chain_of_hd(3)[OF assms(2)] by (subst IsAncestorOf_loop.simps) auto
next
  case (child b p vs)
  have b: "chain_of lts b (b # vs)" using chain_of.child child.hyps .
  note eq = chain_of_Equals[OF b assms(2)] chain_of_Equals[OF assms(2) b]
  show ?case
  proof (cases "a \<noteq> b \<and> height a < height b")
    case True
    then show ?thesis using child.IH child.hyps(2) eq by (subst IsAncestorOf_loop.simps) auto
  next
    case False
    then have "a \<in> set (b # vs) \<longleftrightarrow> a = b"
      using same_height_not_in_chain[OF b, of a] by (metis linorder_not_less list.set_intros(1))
    then show ?thesis using False eq by (subst IsAncestorOf_loop.simps) auto
  qed
qed

lemma IsAncestorOf_in:
  assumes "chain_of lts b vs" and "chain_of lts a us"
  shows "IsAncestorOf lts a b = Some (Inr (a \<noteq> b \<and> a \<in> set vs))"
proof (cases "height b \<le> height a")
  case True
  then have "\<not> (a \<noteq> b \<and> a \<in> set vs)" using same_height_not_in_chain[OF assms(1), of a] by auto
  then show ?thesis using True by (simp add: IsAncestorOf_def)
next
  case False
  then have "a \<noteq> b" by auto
  then show ?thesis using False IsAncestorOf_loop_in[OF assms] by (simp add: IsAncestorOf_def)
qed

lemma chain_of_join:
  assumes "chain_of lts a us" and "us = l @ c" and "l \<noteq> []" and "c \<noteq> []"
  shows "lts (Parents (last l)) = Inr (hd c)"
  using assms
proof (induction arbitrary: l rule: chain_of.induct)
  case (genesis ts)
  then show ?case by (cases l) auto
next
  case (child ts p us)
  then obtain l' where l: "l = ts # l'" "us = l' @ c" by (cases l) auto
  show ?case
  proof (cases "l' = []")
    case True
    then have "hd c = p" using l(2) chain_of_hd(1)[OF child.hyps(5)] by auto
    then show ?thesis using True l(1) child.hyps(2) by simp
  next
    case False
    then show ?thesis using child.IH[OF l(2) False child.prems(3)] l(1) by simp
  qed
qed

text \<open>
  \<open>NearestCommonAncestor\<close> returns the first tipset of the chain of \<open>a\<close> that is on the chain of \<open>b\<close>, except when
  \<open>a\<close> itself is on the chain of \<open>b\<close>, where it indexes an empty slice and panics.
\<close>

theorem nearest_common_ancestor_exact:
  assumes "chain_of lts a us" and "chain_of lts b vs" and "last us = last vs"
  shows "NearestCommonAncestor lts a b =
    (if a \<in> set vs then None else Some (Inr (hd (dropWhile (\<lambda>t. t \<notin> set vs) us))))"
proof -
  obtain us' where us: "us = a # us'" using chain_of_hd(1)[OF assms(1)] by blast
  obtain c where c: "us = branch us vs @ c" "c \<noteq> []" using branches_meet[OF assms] by blast
  have "dropWhile (\<lambda>t. t \<notin> set vs) us = c"
    using c(1) takeWhile_dropWhile_id[of "\<lambda>t. t \<notin> set vs" us] unfolding branch_def by (metis same_append_eq)
  moreover have "branch us vs = [] \<longleftrightarrow> a \<in> set vs" by (simp add: branch_def us)
  ultimately show ?thesis
    using ReorgOps_branches[OF assms] chain_of_join[OF assms(1) c(1) _ c(2)]
    by (auto simp: NearestCommonAncestor_def last_conv_nth)
qed

theorem nearest_common_ancestor_exact_witness:
  "NearestCommonAncestor example_store (example_ts ''b'' [''a''] 50) (example_ts ''c'' [''a''] 60) = Some (Inr (example_ts ''a'' [''g''] 25))
   \<and> NearestCommonAncestor example_store (example_ts ''a'' [''g''] 25) (example_ts ''c'' [''a''] 60) = None"
  using nearest_common_ancestor_exact[OF example_chains(3,4)] nearest_common_ancestor_exact[OF example_chains(2,4)]
  by (simp add: example_ts_def)


subsection \<open>The head, the checkpoint and the fork choice\<close>

text \<open>
  The store's head and checkpoint, the channel of reorganisations (oldest first), the two records of the metadata
  store, and the observers of head changes.
\<close>

record chain_state =
  heaviest :: "TipSet option"
  checkpoint :: "TipSet option"
  reorgCh :: "(TipSet \<times> TipSet) list"
  chainHeadKey :: "TipSetKey option"
  checkpointKey :: "TipSetKey option"
  notifees :: "nat list"

record chain_env =
  LoadTipSet :: loader
  weight :: "TipSet option \<Rightarrow> string + int"
  blake2b :: "bytes \<Rightarrow> bytes"
  ForkLengthThreshold :: epoch

definition reorgChBuf :: nat where
  "reorgChBuf = 32"

fun bytes_less :: "bytes \<Rightarrow> bytes \<Rightarrow> bool" where
  "bytes_less _ [] = False"
| "bytes_less [] (y # ys) = True"
| "bytes_less (x # xs) (y # ys) = (x < y \<or> x = y \<and> bytes_less xs ys)"

definition Ticket_Less :: "chain_env \<Rightarrow> bytes \<Rightarrow> bytes \<Rightarrow> bool" where
  "Ticket_Less env t u = bytes_less (blake2b env t) (blake2b env u)"

fun tie_loop :: "chain_env \<Rightarrow> BlockHeader list \<Rightarrow> BlockHeader list \<Rightarrow> bool option" where
  "tie_loop env (b1 # bs1) (b2 # bs2) =
    (case (Ticket b1, Ticket b2) of
       (Some t1, Some t2) \<Rightarrow> if Ticket_Less env t1 t2 then Some True else tie_loop env bs1 bs2
     | _ \<Rightarrow> None)"
| "tie_loop env _ _ = Some False"

definition breakWeightTie :: "chain_env \<Rightarrow> TipSet \<Rightarrow> TipSet option \<Rightarrow> bool option" where
  "breakWeightTie env ts1 ts2 = (case ts2 of None \<Rightarrow> None | Some ts2 \<Rightarrow> tie_loop env (blks ts1) (blks ts2))"

text \<open>
  The inner loop of the fork limit walks the other chain down to the height of ours. \<^term>\<open>None\<close> within the result
  is the early return of \<^term>\<open>True\<close> at the genesis of the other chain.
\<close>

partial_function (option) rewind_external :: "loader \<Rightarrow> TipSet \<Rightarrow> TipSet \<Rightarrow> (string + TipSet option) option" where
  "rewind_external lts synced ext =
    (if height ext > height synced then
       if height ext = 0 then Some (Inr None)
       else (case lts (Parents ext) of
               Inl e \<Rightarrow> Some (Inl e)
             | Inr p \<Rightarrow> rewind_external lts synced p)
     else Some (Inr (Some ext)))"

text \<open>The outer loop, by the number of iterations that are left.\<close>

fun fork_loop :: "loader \<Rightarrow> TipSet option \<Rightarrow> nat \<Rightarrow> TipSet \<Rightarrow> TipSet \<Rightarrow> (string + bool) option" where
  "fork_loop lts cp 0 synced ext = Some (Inr True)"
| "fork_loop lts cp (Suc n) synced ext = do {
     r \<leftarrow> rewind_external lts synced ext;
     case r of
       Inl e \<Rightarrow> Some (Inl e)
     | Inr None \<Rightarrow> Some (Inr True)
     | Inr (Some ext) \<Rightarrow>
         if TipSet_Equals synced ext then Some (Inr False)
         else if Equals (Some synced) cp then Some (Inr True)
         else if height synced = 0 then Some (Inr True)
         else (case lts (Parents synced) of
                 Inl e \<Rightarrow> Some (Inl e)
               | Inr p \<Rightarrow> fork_loop lts cp n p ext)
   }"

definition exceedsForkLength :: "chain_env \<Rightarrow> chain_state \<Rightarrow> TipSet option \<Rightarrow> TipSet option \<Rightarrow> (string + bool) option" where
  "exceedsForkLength env cs synced ext =
    (case (synced, ext) of
       (Some s, Some x) \<Rightarrow> fork_loop (LoadTipSet env) (checkpoint cs) (nat (ForkLengthThreshold env)) s x
     | _ \<Rightarrow> Some (Inr False))"

text \<open>Each write to the metadata store takes its outcome as an argument: the error, if it fails.\<close>

definition writeHead :: "string option \<Rightarrow> chain_state \<Rightarrow> TipSet \<Rightarrow> chain_state \<times> (string + unit)" where
  "writeHead put cs ts = (case put of
     Some e \<Rightarrow> (cs, Inl e)
   | None \<Rightarrow> (cs\<lparr>chainHeadKey := Some (cids ts)\<rparr>, Inr ()))"

definition takeHeaviestTipSet :: "string option \<Rightarrow> chain_state \<Rightarrow> TipSet \<Rightarrow> (chain_state \<times> (string + unit)) option" where
  "takeHeaviestTipSet put cs ts = do {
     cs \<leftarrow> (case heaviest cs of
              None \<Rightarrow> Some cs
            | Some old \<Rightarrow> if length (reorgCh cs) < reorgChBuf then Some (cs\<lparr>reorgCh := reorgCh cs @ [(old, ts)]\<rparr>) else None);
     Some (fst (writeHead put (cs\<lparr>heaviest := Some ts\<rparr>) ts), Inr ())
   }"

definition removeCheckpoint :: "string option \<Rightarrow> chain_state \<Rightarrow> chain_state \<times> (string + unit)" where
  "removeCheckpoint del cs = (case del of
     Some e \<Rightarrow> (cs, Inl e)
   | None \<Rightarrow> (cs\<lparr>checkpointKey := None, checkpoint := None\<rparr>, Inr ()))"

definition SetHead :: "string option \<Rightarrow> string option \<Rightarrow> chain_state \<Rightarrow> TipSet \<Rightarrow> (chain_state \<times> (string + unit)) option" where
  "SetHead del put cs ts = (case removeCheckpoint del cs of
     (cs, Inl e) \<Rightarrow> Some (cs, Inl e)
   | (cs, Inr _) \<Rightarrow> takeHeaviestTipSet put cs ts)"

definition ForceHeadSilent :: "string option \<Rightarrow> string option \<Rightarrow> chain_state \<Rightarrow> TipSet \<Rightarrow> chain_state \<times> (string + unit)" where
  "ForceHeadSilent del put cs ts = (case removeCheckpoint del cs of
     (cs, Inl e) \<Rightarrow> (cs, Inl e)
   | (cs, Inr _) \<Rightarrow> writeHead put (cs\<lparr>heaviest := Some ts\<rparr>) ts)"

definition SetCheckpoint :: "chain_env \<Rightarrow> string option \<Rightarrow> chain_state \<Rightarrow> TipSet \<Rightarrow> (chain_state \<times> (string + unit)) option" where
  "SetCheckpoint env put cs ts = (case heaviest cs of
     None \<Rightarrow> None
   | Some head \<Rightarrow>
       if height ts > height head then Some (cs, Inl ''cannot set a checkpoint in the future'')
       else if sub64 (height head) (height ts) > ForkLengthThreshold env then Some (cs, Inl ''cannot set a checkpoint before the fork threshold'')
       else do {
         anc \<leftarrow> (if TipSet_Equals ts head then Some (Inr True) else IsAncestorOf (LoadTipSet env) ts head);
         Some (case anc of
           Inl e \<Rightarrow> (cs, Inl e)
         | Inr False \<Rightarrow> (cs, Inl ''cannot mark tipset as checkpoint, since it is not in the main-chain'')
         | Inr True \<Rightarrow> (case put of
             Some e \<Rightarrow> (cs, Inl e)
           | None \<Rightarrow> (cs\<lparr>checkpointKey := Some (Key ts), checkpoint := Some ts\<rparr>, Inr ())))
       })"

text \<open>
  \<open>canceled\<close> says whether the caller's context is cancelled while it waits for the channel to empty; a call that
  waits is \<^term>\<open>None\<close> and can be made again after the worker has taken a reorganisation.
\<close>

definition MaybeTakeHeavierTipSet ::
  "chain_env \<Rightarrow> bool \<Rightarrow> string option \<Rightarrow> chain_state \<Rightarrow> TipSet \<Rightarrow> (chain_state \<times> (string + unit)) option" where
  "MaybeTakeHeavierTipSet env canceled put cs ts =
    (if length (reorgCh cs) \<ge> reorgChBuf div 2 then if canceled then Some (cs, Inl ''context canceled'') else None
     else case weight env (Some ts) of
       Inl e \<Rightarrow> Some (cs, Inl e)
     | Inr w \<Rightarrow> (case weight env (heaviest cs) of
         Inl e \<Rightarrow> Some (cs, Inl e)
       | Inr heaviestW \<Rightarrow> do {
           heavier \<leftarrow> (if w = heaviestW \<and> \<not> Equals (Some ts) (heaviest cs) then breakWeightTie env ts (heaviest cs)
                      else Some (w > heaviestW));
           if heavier then do {
             exceeds \<leftarrow> exceedsForkLength env cs (heaviest cs) (Some ts);
             case exceeds of
               Inl e \<Rightarrow> Some (cs, Inl e)
             | Inr True \<Rightarrow> Some (cs, Inr ())
             | Inr False \<Rightarrow> takeHeaviestTipSet put cs ts
           } else Some (cs, Inr ())
         }))"

text \<open>Restarting: the head and the checkpoint are read back from the metadata store.\<close>

definition loadHead :: "chain_env \<Rightarrow> chain_state \<Rightarrow> chain_state \<times> (string + unit)" where
  "loadHead env cs = (case chainHeadKey cs of
     None \<Rightarrow> (cs, Inr ())
   | Some k \<Rightarrow> (case LoadTipSet env k of Inl e \<Rightarrow> (cs, Inl e) | Inr ts \<Rightarrow> (cs\<lparr>heaviest := Some ts\<rparr>, Inr ())))"

definition loadCheckpoint :: "chain_env \<Rightarrow> chain_state \<Rightarrow> chain_state \<times> (string + unit)" where
  "loadCheckpoint env cs = (case checkpointKey cs of
     None \<Rightarrow> (cs, Inr ())
   | Some k \<Rightarrow> (case LoadTipSet env k of Inl e \<Rightarrow> (cs, Inl e) | Inr ts \<Rightarrow> (cs\<lparr>checkpoint := Some ts\<rparr>, Inr ())))"

definition chain_Load :: "chain_env \<Rightarrow> chain_state \<Rightarrow> chain_state \<times> (string + unit)" where
  "chain_Load env cs = (case loadHead env cs of
     (cs, Inl e) \<Rightarrow> (cs, Inl e)
   | (cs, Inr _) \<Rightarrow> loadCheckpoint env cs)"

subsection \<open>The worker that notifies the observers\<close>

text \<open>What an observer answers: nothing, that it is done, or another error (which is logged).\<close>

datatype notify_outcome = NotifyOk | ErrNotifeeDone | NotifyFailed

text \<open>The in-place reversal of the applied tipsets.\<close>

fun reverse_loop :: "nat \<Rightarrow> 'a list \<Rightarrow> 'a list" where
  "reverse_loop 0 xs = xs"
| "reverse_loop (Suc i) xs = (let opp = length xs - 1 - i in reverse_loop i (xs[i := xs ! opp, opp := xs ! i]))"

definition reverse_apply :: "'a list \<Rightarrow> 'a list" where
  "reverse_apply xs = reverse_loop (length xs div 2) xs"

text \<open>
  One turn of the worker: it takes the oldest reorganisation and tells every observer, then drops those that are
  done. The result has what was delivered, if anything.
\<close>

definition reorgWorker :: "chain_env \<Rightarrow> (nat \<Rightarrow> notify_outcome) \<Rightarrow> chain_state
    \<Rightarrow> (chain_state \<times> (TipSet list \<times> TipSet list) option) option" where
  "reorgWorker env outcome cs = (case reorgCh cs of
     [] \<Rightarrow> None
   | (old, new) # rest \<Rightarrow> do {
       ops \<leftarrow> ReorgOps (LoadTipSet env) old new;
       Some (case ops of
         Inl e \<Rightarrow> (cs\<lparr>reorgCh := rest\<rparr>, None)
       | Inr (revert, app) \<Rightarrow>
           (cs\<lparr>reorgCh := rest, notifees := filter (\<lambda>n. outcome n \<noteq> ErrNotifeeDone) (notifees cs)\<rparr>, Some (revert, reverse_apply app)))
     })"

definition SubscribeHeadChanges :: "nat \<Rightarrow> chain_state \<Rightarrow> chain_state" where
  "SubscribeHeadChanges f cs = cs\<lparr>notifees := notifees cs @ [f]\<rparr>"


subsection \<open>The fork limit\<close>

lemma rewind_external_chain:
  assumes "chain_of lts x vs" and "0 \<le> height s"
  shows "\<exists>y ws. rewind_external lts s x = Some (Inr (Some y)) \<and> chain_of lts y ws \<and> last ws = last vs \<and> height y \<le> height s
    \<and> (\<forall>t. height t \<le> height s \<longrightarrow> (t \<in> set ws \<longleftrightarrow> t \<in> set vs))"
  using assms
proof (induction rule: chain_of.induct)
  case (genesis x)
  then have "rewind_external lts s x = Some (Inr (Some x))" by (subst rewind_external.simps) simp
  moreover have "chain_of lts x [x]" using chain_of.genesis genesis(1,2) .
  ultimately show ?case using genesis by auto
next
  case (child x p vs)
  have x: "chain_of lts x (x # vs)" using chain_of.child child.hyps .
  obtain ws' where vs: "vs = p # ws'" using chain_of_hd(1)[OF child.hyps(5)] by blast
  show ?case
  proof (cases "height s < height x")
    case True
    have "rewind_external lts s x = rewind_external lts s p"
      using True child.prems child.hyps(2) by (subst rewind_external.simps) simp
    moreover have "t \<noteq> x" if "height t \<le> height s" for t using that True by auto
    ultimately show ?thesis using child.IH[OF child.prems] vs by fastforce
  next
    case False
    then have "rewind_external lts s x = Some (Inr (Some x))" by (subst rewind_external.simps) simp
    then show ?thesis using False x by (intro exI[of _ x] exI[of _ "x # vs"]) simp
  qed
qed

lemma branch_cong: "(\<And>t. t \<in> set us \<Longrightarrow> t \<in> set vs \<longleftrightarrow> t \<in> set ws) \<Longrightarrow> branch us vs = branch us ws"
  unfolding branch_def by (rule takeWhile_cong) auto

lemma fork_loop_exact:
  assumes "chain_of lts s us" and "chain_of lts x vs" and "last us = last vs"
  shows "fork_loop lts cp n s x = Some (Inr (\<not> (length (branch us vs) < n \<and> (\<forall>t\<in>set (branch us vs). \<not> Equals (Some t) cp))))"
  using assms
proof (induction arbitrary: x vs n rule: chain_of.induct)
  case (genesis s)
  obtain y ws where y: "rewind_external lts s x = Some (Inr (Some y))" "chain_of lts y ws" "last ws = last vs" "height y \<le> height s"
    "\<forall>t. height t \<le> height s \<longrightarrow> (t \<in> set ws \<longleftrightarrow> t \<in> set vs)"
    using rewind_external_chain[OF genesis(3), of s] genesis(2) by auto
  have "height y = 0" using y(4) chain_of_hd(3)[OF y(2)] genesis(2) by simp
  then have "y = s" using chain_of_low[OF y(2)] y(3) genesis(4) by simp
  moreover have "s \<in> set vs" using genesis(4) chain_of_hd(1)[OF genesis(3)] by (metis last.simps last_in_set list.discI)
  ultimately show ?case using y(1) by (cases n) (simp_all add: branch_def TipSet_Equals_def)
next
  case (child s p us)
  have s: "chain_of lts s (s # us)" using chain_of.child child.hyps .
  have us: "us \<noteq> []" using chain_of_hd(1)[OF child.hyps(5)] by auto
  obtain y ws where y: "rewind_external lts s x = Some (Inr (Some y))" "chain_of lts y ws" "last ws = last vs" "height y \<le> height s"
    "\<forall>t. height t \<le> height s \<longrightarrow> (t \<in> set ws \<longleftrightarrow> t \<in> set vs)"
    using rewind_external_chain[OF child.prems(1) chain_of_hd(3)[OF s]] by blast
  have br: "branch (s # us) vs = branch (s # us) ws"
    using chain_of_heights(1)[OF s] y(5) by (intro branch_cong) blast
  show ?case
  proof (cases "s = y")
    case True
    then have "branch (s # us) ws = []" using chain_of_hd(1)[OF y(2)] by (auto simp: branch_def)
    then show ?thesis using y(1) True br by (cases n) (simp_all add: TipSet_Equals_def)
  next
    case False
    then have "s \<notin> set ws" using same_height_not_in_chain[OF y(2,4)] by simp
    then have b: "branch (s # us) vs = s # branch us ws" using br by (simp add: branch_Cons)
    have neq: "\<not> TipSet_Equals s y" using False chain_of_Equals[OF s y(2)] by simp
    have pos: "height s \<noteq> 0" using child.hyps(3) chain_of_hd(3)[OF child.hyps(5)] by simp
    have "last us = last ws" using child.prems(2) y(3) us by simp
    from child.IH[OF y(2) this] show ?thesis
      using y(1) neq pos child.hyps(2) by (cases n) (auto simp: b)
  qed
qed

text \<open>
  A fork is within the limit exactly when fewer tipsets than the threshold leave our chain and none of them is the
  checkpoint; the check ends without an error.
\<close>

theorem fork_limit_exact:
  assumes "chain_of (LoadTipSet env) s us" and "chain_of (LoadTipSet env) x vs" and "last us = last vs"
  shows "exceedsForkLength env cs (Some s) (Some x) = Some (Inr (\<not> (int (length (branch us vs)) < ForkLengthThreshold env
    \<and> (\<forall>c. checkpoint cs = Some c \<longrightarrow> (\<forall>t\<in>set (branch us vs). \<not> TipSet_Equals t c)))))"
proof -
  have "length (branch us vs) < nat (ForkLengthThreshold env) \<longleftrightarrow> int (length (branch us vs)) < ForkLengthThreshold env"
    by (rule zless_nat_eq_int_zless)
  then show ?thesis using fork_loop_exact[OF assms, of "checkpoint cs"]
    by (cases "checkpoint cs") (simp_all add: exceedsForkLength_def Equals_def)
qed


definition example_env :: chain_env where
  "example_env = \<lparr>LoadTipSet = example_store, weight = (\<lambda>ts. Inr (case ts of None \<Rightarrow> 0 | Some t \<Rightarrow> height t)),
     blake2b = id, ForkLengthThreshold = 900\<rparr>"

definition example_state :: "TipSet option \<Rightarrow> TipSet option \<Rightarrow> chain_state" where
  "example_state h c = \<lparr>heaviest = h, checkpoint = c, reorgCh = [], chainHeadKey = map_option Key h, checkpointKey = map_option Key c, notifees = [0]\<rparr>"

theorem fork_limit_exact_witness:
  "exceedsForkLength example_env (example_state None None) (Some (example_ts ''b'' [''a''] 50)) (Some (example_ts ''c'' [''a''] 60)) = Some (Inr False)
   \<and> exceedsForkLength example_env (example_state None (Some (example_ts ''b'' [''a''] 50))) (Some (example_ts ''b'' [''a''] 50))
      (Some (example_ts ''c'' [''a''] 60)) = Some (Inr True)"
proof -
  let ?us = "[example_ts ''b'' [''a''] 50, example_ts ''a'' [''g''] 25, example_ts ''g'' [] 0]"
  let ?vs = "[example_ts ''c'' [''a''] 60, example_ts ''a'' [''g''] 25, example_ts ''g'' [] 0]"
  have br: "branch ?us ?vs = [example_ts ''b'' [''a''] 50]" by (simp add: branch_def example_ts_def)
  have c: "chain_of (LoadTipSet example_env) (example_ts ''b'' [''a''] 50) ?us" "chain_of (LoadTipSet example_env) (example_ts ''c'' [''a''] 60) ?vs"
    using example_chains by (simp_all add: example_env_def)
  have l: "last ?us = last ?vs" by simp
  show ?thesis unfolding fork_limit_exact[OF c l] br
    by (simp add: example_env_def example_state_def TipSet_Equals_def)
qed

subsection \<open>Runs of the store\<close>

text \<open>
  A tipset is in the store when its whole chain is, down to the genesis. The syncer only offers such tipsets to the
  store. A step of the store is one of its operations, with every outcome of the metadata writes; what the worker
  delivers to the observers is the label of the step. \<open>ForceHeadSilent\<close> has a label of its own, as it moves the head
  without telling the observers.
\<close>

definition in_store :: "chain_env \<Rightarrow> TipSet \<Rightarrow> TipSet \<Rightarrow> bool" where
  "in_store env g ts \<longleftrightarrow> (\<exists>us. chain_of (LoadTipSet env) ts us \<and> last us = g)"

datatype head_event = Quiet | Forced | Delivered "TipSet list" "TipSet list"

inductive head_step :: "chain_env \<Rightarrow> TipSet \<Rightarrow> chain_state \<Rightarrow> head_event \<Rightarrow> chain_state \<Rightarrow> bool" for env g where
  offer: "in_store env g ts \<Longrightarrow> MaybeTakeHeavierTipSet env canceled put cs ts = Some (cs', r) \<Longrightarrow> head_step env g cs Quiet cs'"
| set_head: "in_store env g ts \<Longrightarrow> SetHead del put cs ts = Some (cs', r) \<Longrightarrow> head_step env g cs Quiet cs'"
| force_head: "in_store env g ts \<Longrightarrow> ForceHeadSilent del put cs ts = (cs', r) \<Longrightarrow> head_step env g cs Forced cs'"
| set_checkpoint: "in_store env g ts \<Longrightarrow> SetCheckpoint env put cs ts = Some (cs', r) \<Longrightarrow> head_step env g cs Quiet cs'"
| remove_checkpoint: "removeCheckpoint del cs = (cs', r) \<Longrightarrow> head_step env g cs Quiet cs'"
| subscribe: "head_step env g cs Quiet (SubscribeHeadChanges f cs)"
| worker: "reorgWorker env outcome cs = Some (cs', d)
    \<Longrightarrow> head_step env g cs (case d of None \<Rightarrow> Quiet | Some (r, a) \<Rightarrow> Delivered r a) cs'"

inductive head_run :: "chain_env \<Rightarrow> TipSet \<Rightarrow> chain_state \<Rightarrow> head_event list \<Rightarrow> chain_state \<Rightarrow> bool" for env g cs0 where
  start: "head_run env g cs0 [] cs0"
| more: "head_run env g cs0 es cs \<Longrightarrow> head_step env g cs e cs' \<Longrightarrow> head_run env g cs0 (es @ [e]) cs'"

text \<open>The checkpoint is on the chain of the head.\<close>

definition checkpoint_ok :: "chain_env \<Rightarrow> TipSet \<Rightarrow> chain_state \<Rightarrow> bool" where
  "checkpoint_ok env g cs \<longleftrightarrow> (\<forall>h. heaviest cs = Some h \<longrightarrow> in_store env g h) \<and>
     (\<forall>c. checkpoint cs = Some c \<longrightarrow> (\<exists>h us. heaviest cs = Some h \<and> chain_of (LoadTipSet env) h us \<and> c \<in> set us))"

lemma writeHead_fields:
  "heaviest (fst (writeHead put cs ts)) = heaviest cs" "checkpoint (fst (writeHead put cs ts)) = checkpoint cs"
  "reorgCh (fst (writeHead put cs ts)) = reorgCh cs"
  by (simp_all add: writeHead_def split: option.splits)

lemma takeHeaviest_fields:
  assumes "takeHeaviestTipSet put cs ts = Some (cs', r)"
  shows "heaviest cs' = Some ts" and "checkpoint cs' = checkpoint cs"
    and "reorgCh cs' = reorgCh cs @ (case heaviest cs of None \<Rightarrow> [] | Some old \<Rightarrow> [(old, ts)])"
  using assms by (auto simp: takeHeaviestTipSet_def writeHead_fields split: option.splits if_splits bind_splits)

text \<open>What an offered tipset can do: nothing, or become the head when the fork is within the limit.\<close>

lemma offer_cases:
  assumes "MaybeTakeHeavierTipSet env canceled put cs ts = Some (cs', r)"
  obtains "cs' = cs"
  | "exceedsForkLength env cs (heaviest cs) (Some ts) = Some (Inr False)" "takeHeaviestTipSet put cs ts = Some (cs', r)"
  using assms
  by (auto simp: MaybeTakeHeavierTipSet_def split: if_splits sum.splits bool.splits bind_splits)

lemma set_head_cases:
  assumes "SetHead del put cs ts = Some (cs', r)"
  obtains "cs' = cs"
  | "takeHeaviestTipSet put (cs\<lparr>checkpointKey := None, checkpoint := None\<rparr>) ts = Some (cs', r)"
  using assms by (auto simp: SetHead_def removeCheckpoint_def split: option.splits)

lemma set_checkpoint_cases:
  assumes "SetCheckpoint env put cs ts = Some (cs', r)"
  obtains "cs' = cs"
  | h where "heaviest cs = Some h" "TipSet_Equals ts h \<or> IsAncestorOf (LoadTipSet env) ts h = Some (Inr True)"
      "cs' = cs\<lparr>checkpointKey := Some (Key ts), checkpoint := Some ts\<rparr>"
  using assms
  by (auto simp: SetCheckpoint_def split: option.splits if_splits sum.splits bool.splits bind_splits)


lemma fork_keeps_checkpoint:
  assumes "chain_of (LoadTipSet env) h us" and "chain_of (LoadTipSet env) ts vs" and "last us = last vs"
    and "exceedsForkLength env cs (Some h) (Some ts) = Some (Inr False)" and "checkpoint cs = Some c" and "c \<in> set us"
  shows "c \<in> set vs"
proof -
  have "\<forall>t\<in>set (branch us vs). \<not> TipSet_Equals t c"
    using assms(4,5) fork_loop_exact[OF assms(1-3)] by (simp add: exceedsForkLength_def Equals_def)
  then have "c \<notin> set (branch us vs)" by (auto simp: TipSet_Equals_def)
  moreover obtain w where "us = branch us vs @ w" "vs = branch vs us @ w" using branches_meet[OF assms(1-3)] by blast
  ultimately show ?thesis using assms(6) by (metis Un_iff set_append)
qed

lemma offer_checkpoint_ok:
  assumes "checkpoint_ok env g cs" and "in_store env g ts" and "MaybeTakeHeavierTipSet env canceled put cs ts = Some (cs', r)"
  shows "checkpoint_ok env g cs'"
  using assms(3)
proof (cases rule: offer_cases)
  case 1
  then show ?thesis using assms(1) by simp
next
  case 2
  obtain vs where vs: "chain_of (LoadTipSet env) ts vs" "last vs = g" using assms(2) unfolding in_store_def by blast
  have "c \<in> set vs" if c: "checkpoint cs = Some c" for c
  proof -
    obtain h us where h: "heaviest cs = Some h" "chain_of (LoadTipSet env) h us" "c \<in> set us"
      using assms(1) c unfolding checkpoint_ok_def by blast
    then have "last us = g" using assms(1) chain_of_unique unfolding checkpoint_ok_def in_store_def by metis
    then show ?thesis using fork_keeps_checkpoint[OF h(2) vs(1) _ _ c h(3)] 2(1) h(1) vs(2) by simp
  qed
  then show ?thesis using vs(1) assms(2) by (auto simp: checkpoint_ok_def takeHeaviest_fields[OF 2(2)])
qed

lemma set_checkpoint_ok:
  assumes "checkpoint_ok env g cs" and "in_store env g ts" and "SetCheckpoint env put cs ts = Some (cs', r)"
  shows "checkpoint_ok env g cs'"
  using assms(3)
proof (cases rule: set_checkpoint_cases)
  case 1
  then show ?thesis using assms(1) by simp
next
  case (2 h)
  obtain us where us: "chain_of (LoadTipSet env) h us" using assms(1) 2(1) by (auto simp: checkpoint_ok_def in_store_def)
  obtain vs where vs: "chain_of (LoadTipSet env) ts vs" using assms(2) by (auto simp: in_store_def)
  have "ts \<in> set us"
    using 2(2) IsAncestorOf_in[OF us vs] chain_of_Equals[OF vs us] chain_of_hd(1)[OF us] by auto
  then show ?thesis using assms(1) 2(1,3) us by (auto simp: checkpoint_ok_def)
qed

lemma head_step_checkpoint_ok:
  assumes "head_step env g cs e cs'" and "checkpoint_ok env g cs"
  shows "checkpoint_ok env g cs'"
  using assms
proof (induction rule: head_step.induct)
  case (offer ts canceled put cs cs' r)
  then show ?case using offer_checkpoint_ok by blast
next
  case (set_head ts del put cs cs' r)
  from set_head(2) show ?case
  proof (cases rule: set_head_cases)
    case 1
    then show ?thesis using set_head(3) by simp
  next
    case 2
    then show ?thesis using set_head(1) takeHeaviest_fields(1,2)[OF 2] by (simp add: checkpoint_ok_def)
  qed
next
  case (force_head ts del put cs cs' r)
  then show ?case
    by (auto simp: ForceHeadSilent_def removeCheckpoint_def writeHead_def checkpoint_ok_def split: option.splits)
next
  case (set_checkpoint ts put cs cs' r)
  then show ?case using set_checkpoint_ok by blast
next
  case (remove_checkpoint del cs cs' r)
  then show ?case by (auto simp: removeCheckpoint_def checkpoint_ok_def split: option.splits)
next
  case (subscribe cs f)
  then show ?case by (simp add: SubscribeHeadChanges_def checkpoint_ok_def)
next
  case (worker outcome cs cs' d)
  then show ?case
    by (auto simp: reorgWorker_def checkpoint_ok_def split: list.splits sum.splits bind_splits)
qed

text \<open>
  C13. In every run the checkpoint stays on the chain of the head: no offered tipset, however heavy, moves the head to
  a chain without the checkpoint, and the operations that move the head by force remove the checkpoint.
\<close>

theorem checkpoint_stays_on_chain:
  assumes "head_run env g cs0 es cs" and "checkpoint_ok env g cs0" and "checkpoint cs = Some c"
  shows "\<exists>h us. heaviest cs = Some h \<and> chain_of (LoadTipSet env) h us \<and> c \<in> set us"
proof -
  from assms(1,2) have "checkpoint_ok env g cs"
    by (induction rule: head_run.induct) (auto intro: head_step_checkpoint_ok)
  then show ?thesis using assms(3) by (simp add: checkpoint_ok_def)
qed

text \<open>With the checkpoint at \<open>b\<close>, the heavier \<open>c\<close> on the other branch is not taken.\<close>

theorem checkpoint_stays_on_chain_witness:
  "\<exists>cs. head_run example_env (example_ts ''g'' [] 0) (example_state (Some (example_ts ''b'' [''a''] 50)) (Some (example_ts ''b'' [''a''] 50)))
      [Quiet] cs \<and> (\<exists>h us. heaviest cs = Some h \<and> chain_of example_store h us \<and> example_ts ''b'' [''a''] 50 \<in> set us)"
proof -
  let ?b = "example_ts ''b'' [''a''] 50" and ?c = "example_ts ''c'' [''a''] 60" and ?g = "example_ts ''g'' [] 0"
  let ?cs = "example_state (Some ?b) (Some ?b)"
  have st: "in_store example_env ?g ?b" "in_store example_env ?g ?c"
    unfolding in_store_def using example_chains(3,4) by (force simp: example_env_def)+
  have "exceedsForkLength example_env ?cs (Some ?b) (Some ?c) = Some (Inr True)"
    using fork_loop_exact[OF example_chains(3,4), of "Some ?b" 900]
    by (simp add: exceedsForkLength_def example_env_def example_state_def branch_def Equals_def TipSet_Equals_def example_ts_def)
  then have "MaybeTakeHeavierTipSet example_env False None ?cs ?c = Some (?cs, Inr ())"
    by (simp add: MaybeTakeHeavierTipSet_def example_env_def example_state_def reorgChBuf_def Equals_def TipSet_Equals_def example_ts_def)
  then have "head_step example_env ?g ?cs Quiet ?cs" using head_step.offer[OF st(2)] by blast
  then have run: "head_run example_env ?g ?cs [Quiet] ?cs" using head_run.more[OF head_run.start] by fastforce
  moreover have "checkpoint_ok example_env ?g ?cs"
    unfolding checkpoint_ok_def using st(1) example_chains(3) by (force simp: example_state_def example_env_def)
  ultimately have "\<exists>h us. heaviest ?cs = Some h \<and> chain_of (LoadTipSet example_env) h us \<and> ?b \<in> set us"
    by (rule checkpoint_stays_on_chain) (simp add: example_state_def)
  then show ?thesis using run by (auto simp: example_env_def)
qed


subsection \<open>What the observers see\<close>

text \<open>
  An observer that keeps the chain of the head, newest first: it takes the reverted tipsets off the front, in order,
  and puts the applied ones on, in order. A revert that is not its current head makes it fail.
\<close>

fun revert_view :: "TipSet list \<Rightarrow> TipSet list \<Rightarrow> TipSet list option" where
  "revert_view [] v = Some v"
| "revert_view (t # ts) [] = None"
| "revert_view (t # ts) (u # v) = (if t = u then revert_view ts v else None)"

definition change_view :: "TipSet list \<Rightarrow> TipSet list \<Rightarrow> TipSet list \<Rightarrow> TipSet list option" where
  "change_view revert app v = map_option (\<lambda>v. fold (#) app v) (revert_view revert v)"

fun replay :: "head_event list \<Rightarrow> TipSet list \<Rightarrow> TipSet list option" where
  "replay [] v = Some v"
| "replay (Delivered r a # es) v = (case change_view r a v of None \<Rightarrow> None | Some v \<Rightarrow> replay es v)"
| "replay (Quiet # es) v = replay es v"
| "replay (Forced # es) v = replay es v"

lemma replay_append: "replay (es @ fs) v = (case replay es v of None \<Rightarrow> None | Some v \<Rightarrow> replay fs v)"
  by (induction es v rule: replay.induct) (auto split: option.splits)

lemma revert_view_append: "revert_view l (l @ c) = Some c"
  by (induction l) auto

lemma reverse_loop_nth:
  assumes "k \<le> length xs div 2" and "i < length xs"
  shows "reverse_loop k xs ! i = (if i < k \<or> length xs - k \<le> i then xs ! (length xs - 1 - i) else xs ! i)"
  using assms
proof (induction k arbitrary: xs)
  case (Suc k)
  define opp where "opp = length xs - 1 - k"
  define ys where "ys = xs[k := xs ! opp, opp := xs ! k]"
  have opp: "opp < length xs" "k < opp" using Suc.prems by (simp_all add: opp_def)
  have nth: "ys ! j = (if j = k then xs ! opp else if j = opp then xs ! k else xs ! j)" if "j < length xs" for j
    using that opp by (auto simp: ys_def nth_list_update)
  have "reverse_loop (Suc k) xs ! i = reverse_loop k ys ! i" by (simp add: ys_def opp_def Let_def)
  also have "\<dots> = (if i < k \<or> length xs - k \<le> i then ys ! (length xs - 1 - i) else ys ! i)"
    using Suc.IH[of ys] Suc.prems by (simp add: ys_def)
  also have "\<dots> = (if i < Suc k \<or> length xs - Suc k \<le> i then xs ! (length xs - 1 - i) else xs ! i)"
  proof (cases "i < k \<or> length xs - k \<le> i")
    case True
    then have "length xs - 1 - i \<noteq> k" "length xs - 1 - i \<noteq> opp" using Suc.prems opp by (auto simp: opp_def)
    then show ?thesis using True nth[of "length xs - 1 - i"] Suc.prems by auto
  next
    case False
    then consider "i = k" | "i = opp" | "k < i" "i < opp" using Suc.prems unfolding opp_def by linarith
    then show ?thesis using False nth[OF Suc.prems(2)] opp Suc.prems by cases (auto simp: opp_def)
  qed
  finally show ?case .
qed simp

lemma length_reverse_loop: "length (reverse_loop k xs) = length xs"
  by (induction k arbitrary: xs) (simp_all add: Let_def)

lemma reverse_apply_rev: "reverse_apply xs = rev xs"
proof (rule nth_equalityI)
  show "length (reverse_apply xs) = length (rev xs)" by (simp add: reverse_apply_def length_reverse_loop)
  fix i assume i: "i < length (reverse_apply xs)"
  then have "i < length xs" by (simp add: reverse_apply_def length_reverse_loop)
  moreover have "2 * i + 1 = length xs" if "\<not> (i < length xs div 2 \<or> length xs - length xs div 2 \<le> i)" using that by linarith
  moreover have "length xs - Suc i = i" if "2 * i + 1 = length xs" using that by simp
  ultimately show "reverse_apply xs ! i = rev xs ! i"
    unfolding reverse_apply_def by (auto simp: reverse_loop_nth rev_nth)
qed

lemma change_view_branches:
  assumes "chain_of lts a us" and "chain_of lts b vs" and "last us = last vs"
  shows "change_view (branch us vs) (rev (branch vs us)) us = Some vs"
proof -
  obtain c where c: "us = branch us vs @ c" "vs = branch vs us @ c" using branches_meet[OF assms] by blast
  have "revert_view (branch us vs) us = Some c" using revert_view_append[of "branch us vs" c] c(1) by simp
  moreover have "fold (#) (rev l) d = l @ d" for l d :: "TipSet list" by (induction l arbitrary: d) auto
  ultimately show ?thesis using c(2) by (simp add: change_view_def)
qed

text \<open>The reorganisations in the channel follow each other and lead to the head; all their tipsets are in the store.\<close>

fun linked :: "chain_env \<Rightarrow> TipSet \<Rightarrow> (TipSet \<times> TipSet) list \<Rightarrow> TipSet \<Rightarrow> TipSet \<Rightarrow> bool" where
  "linked env g [] s h = (s = h \<and> in_store env g h)"
| "linked env g ((old, new) # q) s h = (s = old \<and> in_store env g old \<and> linked env g q new h)"

lemma linked_snoc: "linked env g q s h \<Longrightarrow> in_store env g t \<Longrightarrow> linked env g (q @ [(h, t)]) s t"
  by (induction q arbitrary: s) auto

lemma linked_start: "linked env g q s h \<Longrightarrow> in_store env g s"
  by (cases "(env, g, q, s, h)" rule: linked.cases) auto

text \<open>An observer's view after the delivered head changes is the chain the channel starts from.\<close>

definition observers_ok :: "chain_env \<Rightarrow> TipSet \<Rightarrow> TipSet list \<Rightarrow> head_event list \<Rightarrow> chain_state \<Rightarrow> bool" where
  "observers_ok env g v0 es cs \<longleftrightarrow> (\<exists>s h v. heaviest cs = Some h \<and> linked env g (reorgCh cs) s h
     \<and> replay es v0 = Some v \<and> chain_of (LoadTipSet env) s v)"

lemma observers_ok_quiet:
  assumes "observers_ok env g v0 es cs" and "heaviest cs' = heaviest cs" and "reorgCh cs' = reorgCh cs"
  shows "observers_ok env g v0 (es @ [Quiet]) cs'"
  using assms by (auto simp: observers_ok_def replay_append)

lemma observers_ok_take:
  assumes "observers_ok env g v0 es cs" and "in_store env g ts" and "takeHeaviestTipSet put cs ts = Some (cs', r)"
  shows "observers_ok env g v0 (es @ [Quiet]) cs'"
proof -
  obtain s h v where "heaviest cs = Some h" "linked env g (reorgCh cs) s h" "replay es v0 = Some v" "chain_of (LoadTipSet env) s v"
    using assms(1) unfolding observers_ok_def by blast
  then show ?thesis using linked_snoc[OF _ assms(2)] takeHeaviest_fields[OF assms(3)]
    unfolding observers_ok_def by (intro exI[of _ s] exI[of _ ts] exI[of _ v]) (simp add: replay_append)
qed

lemma observers_ok_worker:
  assumes "observers_ok env g v0 es cs" and "reorgWorker env outcome cs = Some (cs', d)"
  shows "observers_ok env g v0 (es @ [case d of None \<Rightarrow> Quiet | Some (r, a) \<Rightarrow> Delivered r a]) cs'"
proof -
  obtain s h v where i: "heaviest cs = Some h" "linked env g (reorgCh cs) s h" "replay es v0 = Some v" "chain_of (LoadTipSet env) s v"
    using assms(1) unfolding observers_ok_def by blast
  obtain old new q where q: "reorgCh cs = (old, new) # q" using assms(2) by (auto simp: reorgWorker_def split: list.splits)
  then have l: "s = old" "linked env g q new h" "in_store env g old" using i(2) by simp_all
  obtain w where w: "chain_of (LoadTipSet env) new w" "last w = g" using linked_start[OF l(2)] unfolding in_store_def by blast
  have "last v = g" using i(4) l(1,3) chain_of_unique unfolding in_store_def by metis
  then have e: "last v = last w" using w(2) by simp
  have d: "d = Some (branch v w, rev (branch w v))" and cs': "heaviest cs' = heaviest cs" "reorgCh cs' = q"
    using assms(2) ReorgOps_branches[OF i(4) w(1) e] q l(1) by (auto simp: reorgWorker_def reverse_apply_rev)
  have "replay (es @ [Delivered (branch v w) (rev (branch w v))]) v0 = Some w"
    using i(3) change_view_branches[OF i(4) w(1) e] by (simp add: replay_append)
  then show ?thesis using i(1) l(2) w(1) d cs' unfolding observers_ok_def
    by (intro exI[of _ new] exI[of _ h] exI[of _ w]) simp
qed

lemma head_step_observers_ok:
  assumes "head_step env g cs e cs'" and "observers_ok env g v0 es cs" and "e \<noteq> Forced"
  shows "observers_ok env g v0 (es @ [e]) cs'"
  using assms
proof (induction rule: head_step.induct)
  case (offer ts canceled put cs cs' r)
  from offer(2) show ?case
    by (cases rule: offer_cases) (use offer observers_ok_quiet observers_ok_take in blast)+
next
  case (set_head ts del put cs cs' r)
  have cleared: "observers_ok env g v0 es (cs\<lparr>checkpointKey := None, checkpoint := None\<rparr>)"
    using set_head(3) by (simp add: observers_ok_def)
  from set_head(2) show ?case
    by (cases rule: set_head_cases) (use set_head observers_ok_quiet observers_ok_take[OF cleared] in blast)+
next
  case (set_checkpoint ts put cs cs' r)
  from set_checkpoint(2) show ?case
    by (cases rule: set_checkpoint_cases) (rule observers_ok_quiet[OF set_checkpoint(3)]; simp)+
next
  case (remove_checkpoint del cs cs' r)
  then have "heaviest cs' = heaviest cs" "reorgCh cs' = reorgCh cs" by (auto simp: removeCheckpoint_def split: option.splits)
  then show ?case using observers_ok_quiet[OF remove_checkpoint(2)] by blast
next
  case (subscribe cs f)
  show ?case by (rule observers_ok_quiet[OF subscribe(1)]) (simp_all add: SubscribeHeadChanges_def)
next
  case (worker outcome cs cs' d)
  then show ?case using observers_ok_worker by blast
qed simp

text \<open>
  C14. An observer that replays the delivered head changes on the chain of the first head never has to revert a tipset
  that is not its head, and once the channel is empty its chain is that of the store's head.
\<close>

theorem observers_follow_head:
  assumes "head_run env g cs0 es cs" and "Forced \<notin> set es"
    and "heaviest cs0 = Some h0" and "reorgCh cs0 = []" and "chain_of (LoadTipSet env) h0 v0" and "last v0 = g"
  shows "\<exists>s h v. heaviest cs = Some h \<and> (reorgCh cs = [] \<longrightarrow> s = h) \<and> replay es v0 = Some v \<and> chain_of (LoadTipSet env) s v"
proof -
  have "observers_ok env g v0 [] cs0"
    using assms(3-6) by (auto simp: observers_ok_def in_store_def)
  with assms(1,2) have "observers_ok env g v0 es cs"
    by (induction rule: head_run.induct) (auto intro: head_step_observers_ok)
  then obtain s h v where "heaviest cs = Some h" "linked env g (reorgCh cs) s h" "replay es v0 = Some v" "chain_of (LoadTipSet env) s v"
    unfolding observers_ok_def by blast
  then show ?thesis by (intro exI[of _ s] exI[of _ h] exI[of _ v]) auto
qed

text \<open>The heavier \<open>c\<close> replaces \<open>b\<close>; the worker delivers the change.\<close>

theorem observers_follow_head_witness:
  "\<exists>es cs v. head_run example_env (example_ts ''g'' [] 0) (example_state (Some (example_ts ''b'' [''a''] 50)) None) es cs
     \<and> es \<noteq> [] \<and> heaviest cs = Some (example_ts ''c'' [''a''] 60)
     \<and> replay es [example_ts ''b'' [''a''] 50, example_ts ''a'' [''g''] 25, example_ts ''g'' [] 0] = Some v \<and> chain_of example_store (example_ts ''c'' [''a''] 60) v"
proof -
  let ?b = "example_ts ''b'' [''a''] 50" and ?c = "example_ts ''c'' [''a''] 60" and ?g = "example_ts ''g'' [] 0"
  let ?cs = "example_state (Some ?b) None"
  let ?cs1 = "?cs\<lparr>heaviest := Some ?c, reorgCh := [(?b, ?c)], chainHeadKey := Some [''c'']\<rparr>"
  have env: "LoadTipSet example_env = example_store" by (simp add: example_env_def)
  have st: "in_store example_env ?g ?c" unfolding in_store_def env using example_chains(4) by force
  have "exceedsForkLength example_env ?cs (Some ?b) (Some ?c) = Some (Inr False)"
    using fork_loop_exact[OF example_chains(3,4), of None 900]
    by (simp add: exceedsForkLength_def example_env_def example_state_def branch_def Equals_def TipSet_Equals_def example_ts_def)
  then have "MaybeTakeHeavierTipSet example_env False None ?cs ?c = Some (?cs1, Inr ())"
    by (simp add: MaybeTakeHeavierTipSet_def takeHeaviestTipSet_def writeHead_def example_env_def example_state_def reorgChBuf_def
        Equals_def TipSet_Equals_def example_ts_def)
  then have "head_step example_env ?g ?cs Quiet ?cs1" using head_step.offer[OF st] by blast
  then have run1: "head_run example_env ?g ?cs [Quiet] ?cs1" using head_run.more[OF head_run.start] by fastforce
  obtain r a where "reorgWorker example_env (\<lambda>_. NotifyOk) ?cs1 = Some (?cs1\<lparr>reorgCh := []\<rparr>, Some (r, a))"
    using ReorgOps_branches[OF example_chains(3,4)] by (simp add: reorgWorker_def env example_state_def)
  then have "head_step example_env ?g ?cs1 (Delivered r a) (?cs1\<lparr>reorgCh := []\<rparr>)"
    using head_step.worker by fastforce
  then have run2: "head_run example_env ?g ?cs [Quiet, Delivered r a] (?cs1\<lparr>reorgCh := []\<rparr>)" using head_run.more[OF run1] by simp
  have "\<exists>s h v. heaviest (?cs1\<lparr>reorgCh := []\<rparr>) = Some h \<and> (reorgCh (?cs1\<lparr>reorgCh := []\<rparr>) = [] \<longrightarrow> s = h)
     \<and> replay [Quiet, Delivered r a] [?b, example_ts ''a'' [''g''] 25, ?g] = Some v \<and> chain_of (LoadTipSet example_env) s v"
    by (rule observers_follow_head[OF run2]) (use example_chains(3) in \<open>simp_all add: example_state_def env\<close>)
  then show ?thesis using run2 env by (intro exI[of _ "[Quiet, Delivered r a]"] exI[of _ "?cs1\<lparr>reorgCh := []\<rparr>"]) auto
qed

text \<open>
  The tie break compares the tickets position by position and stops at the first one that is smaller on our side, so
  of two tipsets of the same weight each can win over the other.
\<close>

lemma tie_break_both_ways:
  "let env = example_env; blk = (\<lambda>t. \<lparr>blkCid = ''x'', Miner = AddrID 1000, bhParents = [], bhHeight = 1, ParentBaseFee = 100,
           Ticket = Some [t], ParentStateRoot = ''root'', Messages = ''msgs''\<rparr>);
       ts1 = \<lparr>cids = [''x'', ''y''], blks = [blk 1, blk 9], height = 1\<rparr>; ts2 = \<lparr>cids = [''z'', ''w''], blks = [blk 2, blk 3], height = 1\<rparr>
   in breakWeightTie env ts1 (Some ts2) = Some True \<and> breakWeightTie env ts2 (Some ts1) = Some True"
  by (simp add: Let_def breakWeightTie_def Ticket_Less_def example_env_def)

text \<open>After a restart the head and the checkpoint are the ones that were written.\<close>

lemma restart_restores_head:
  assumes "SetHead None None cs ts = Some (cs', Inr ())" and "LoadTipSet env (Key ts) = Inr ts"
  shows "chain_Load env (cs'\<lparr>heaviest := None, checkpoint := None, reorgCh := []\<rparr>)
    = (cs'\<lparr>heaviest := Some ts, checkpoint := None, reorgCh := []\<rparr>, Inr ())"
  using assms
  by (auto simp: SetHead_def removeCheckpoint_def takeHeaviestTipSet_def writeHead_def chain_Load_def loadHead_def loadCheckpoint_def Key_def
      split: option.splits if_splits)

end
