(* ===== verification/MsgPool.thy ===== *)
theory MsgPool
  imports MsgSet ChainHead StateTree
begin

section \<open>The message pool\<close>

text \<open>
  Models \<open>src/chain/messagepool/messagepool.go\<close>: the pool of pending messages, with the checks a message passes
  before it is added, the caches, removal, and what a change of the head does to the pool.

  The provider (\<open>provider.go\<close>: the state manager, the chain store and the network), signature verification, hashing and
  the data store of local messages are the fields of \<open>mpool_api\<close>. The pool's locks serialise its operations, so
  each operation is a function of the pool's state. The least-recently-used caches are lists together with what they
  keep after an insertion. A channel with one slot is a flag. Errors of other components are \<open>ErrOther\<close>; a nil
  dereference is \<open>Panic\<close>; messages of blocks are decoded from the chain and have all their amounts. Go maps are iterated in an order that is a parameter.
\<close>

subsection \<open>State, provider and steps\<close>

record MpoolConfig =
  PriorityAddrs :: "address list"
  SizeLimitHigh :: int
  SizeLimitLow :: int

datatype MpoolUpdate = MpoolAdd SignedMessage | MpoolRemove SignedMessage

record MessagePool =
  republished :: "cid list"
  localAddrs :: "address list"
  pending :: "(address \<times> msgSet) list"
  keyCache :: "(address \<times> address) list"
  curTs :: "TipSet option"
  cfg :: MpoolConfig
  currentSize :: int
  pruneTrigger :: bool
  repubTrigger :: bool
  blsSigCache :: "(cid \<times> Signature) list"
  localMsgs :: "(cid \<times> SignedMessage) list"
  sigValCache :: "bytes list"
  nonceCache :: "((TipSetKey \<times> address) \<times> int) list"
  changes :: "MpoolUpdate list"
  published :: "SignedMessage list"

record mpool_api =
  StateAccountKeyAtFinality :: "address \<Rightarrow> TipSet option \<Rightarrow> string + address"
  GetActorAfter :: "address \<Rightarrow> TipSet option \<Rightarrow> string + Actor"
  StateNetworkVersion :: "epoch \<Rightarrow> nat"
  ChainComputeBaseFee :: "TipSet \<Rightarrow> string + token"
  PutSignedMessage :: "SignedMessage \<Rightarrow> string option"
  PutUnsignedMessage :: "Message \<Rightarrow> string option"
  PubSubPublish :: "SignedMessage \<Rightarrow> string option"
  api_LoadTipSet :: loader
  api_MessagesForBlock :: "BlockHeader \<Rightarrow> string + Message list \<times> SignedMessage list"
  api_prices :: "(epoch \<times> pricelistV0) list"
  sigs_Verify :: "Signature \<Rightarrow> address \<Rightarrow> cid \<Rightarrow> string option"
  SignatureBytes :: nat
  hash_sig :: "cid \<Rightarrow> bytes \<Rightarrow> bytes"
  cid_bytes :: "cid \<Rightarrow> bytes"
  localMsgs_Put :: "SignedMessage \<Rightarrow> string option"
  localMsgs_Delete :: "cid \<Rightarrow> string option"
  keeps_bls :: "(cid \<times> Signature) list \<Rightarrow> (cid \<times> Signature) list"
  keeps_sig :: "bytes list \<Rightarrow> bytes list"
  keeps_nonce :: "((TipSetKey \<times> address) \<times> int) list \<Rightarrow> ((TipSetKey \<times> address) \<times> int) list"
  api_codec :: codec

text \<open>A step of the pool returns the new state and an error or a result.\<close>

type_synonym 'a mp = "MessagePool \<Rightarrow> MessagePool \<times> (mpool_error + 'a)"

definition mret :: "'a \<Rightarrow> 'a mp" where
  "mret x = (\<lambda>mp. (mp, Inr x))"

definition mfail :: "mpool_error \<Rightarrow> 'a mp" where
  "mfail e = (\<lambda>mp. (mp, Inl e))"

definition mlift :: "mpool_error + 'a \<Rightarrow> 'a mp" where
  "mlift r = (\<lambda>mp. (mp, r))"

definition mupd :: "(MessagePool \<Rightarrow> MessagePool) \<Rightarrow> unit mp" where
  "mupd f = (\<lambda>mp. (f mp, Inr ()))"

definition mbind :: "'a mp \<Rightarrow> ('a \<Rightarrow> 'b mp) \<Rightarrow> 'b mp" where
  "mbind m k = (\<lambda>mp. case m mp of (mp', Inl e) \<Rightarrow> (mp', Inl e) | (mp', Inr x) \<Rightarrow> k x mp')"

definition mget :: "(MessagePool \<Rightarrow> 'a) \<Rightarrow> 'a mp" where
  "mget f = (\<lambda>mp. (mp, Inr (f mp)))"

text \<open>Handling an error; a panic is not handled.\<close>

definition mcatch :: "'a mp \<Rightarrow> (mpool_error \<Rightarrow> 'a mp) \<Rightarrow> 'a mp" where
  "mcatch m h = (\<lambda>mp. case m mp of
     (mp', Inl e) \<Rightarrow> if e = Panic then (mp', Inl Panic) else h e mp'
   | (mp', Inr x) \<Rightarrow> (mp', Inr x))"

definition other :: "string + 'a \<Rightarrow> mpool_error + 'a" where
  "other r = (case r of Inl e \<Rightarrow> Inl (MsgSet.ErrOther e) | Inr x \<Rightarrow> Inr x)"

definition checked :: "string option \<Rightarrow> mpool_error + unit" where
  "checked r = (case r of Some e \<Rightarrow> Inl (MsgSet.ErrOther e) | None \<Rightarrow> Inr ())"

subsection \<open>Addresses\<close>

definition resolveToKey :: "mpool_api \<Rightarrow> address \<Rightarrow> address mp" where
  "resolveToKey api addr =
    mbind (mget (\<lambda>mp. map_of (keyCache mp) addr)) (\<lambda>c. case c of
      Some a \<Rightarrow> mret a
    | None \<Rightarrow>
        mbind (mget curTs) (\<lambda>ts.
        mbind (mlift (other (StateAccountKeyAtFinality api addr ts))) (\<lambda>ka.
        mbind (mupd (\<lambda>mp. mp\<lparr>keyCache := AList.update ka ka (AList.update addr ka (keyCache mp))\<rparr>)) (\<lambda>_.
        mret ka))))"

definition getPendingMset :: "mpool_api \<Rightarrow> address \<Rightarrow> msgSet option mp" where
  "getPendingMset api addr = mbind (resolveToKey api addr) (\<lambda>ra. mget (\<lambda>mp. map_of (pending mp) ra))"

definition setPendingMset :: "mpool_api \<Rightarrow> address \<Rightarrow> msgSet \<Rightarrow> unit mp" where
  "setPendingMset api addr ms = mbind (resolveToKey api addr) (\<lambda>ra. mupd (\<lambda>mp. mp\<lparr>pending := AList.update ra ms (pending mp)\<rparr>))"

definition deletePendingMset :: "mpool_api \<Rightarrow> address \<Rightarrow> unit mp" where
  "deletePendingMset api addr = mbind (resolveToKey api addr) (\<lambda>ra. mupd (\<lambda>mp. mp\<lparr>pending := AList.delete ra (pending mp)\<rparr>))"

definition clearPending :: "MessagePool \<Rightarrow> MessagePool" where
  "clearPending mp = mp\<lparr>pending := []\<rparr>"

definition isLocal :: "mpool_api \<Rightarrow> address \<Rightarrow> bool mp" where
  "isLocal api addr = mbind (resolveToKey api addr) (\<lambda>ra. mget (\<lambda>mp. ra \<in> set (localAddrs mp)))"

definition setLocal :: "mpool_api \<Rightarrow> address \<Rightarrow> unit mp" where
  "setLocal api addr = mbind (resolveToKey api addr) (\<lambda>ra. mupd (\<lambda>mp. mp\<lparr>localAddrs := List.insert ra (localAddrs mp)\<rparr>))"

definition addLocal :: "mpool_api \<Rightarrow> SignedMessage \<Rightarrow> unit mp" where
  "addLocal api m =
    mbind (setLocal api (From (Message m))) (\<lambda>_.
    mbind (mlift (checked (localMsgs_Put api m))) (\<lambda>_.
    mupd (\<lambda>mp. mp\<lparr>localMsgs := AList.update (Cid (api_codec api) m) m (localMsgs mp)\<rparr>)))"

subsection \<open>Reading the state of the sender\<close>

definition ts_Key :: "TipSet option \<Rightarrow> TipSetKey" where
  "ts_Key ts = (case ts of None \<Rightarrow> [] | Some t \<Rightarrow> Key t)"

definition getStateNonce :: "mpool_api \<Rightarrow> address \<Rightarrow> TipSet option \<Rightarrow> int mp" where
  "getStateNonce api addr ts =
    mbind (mget (\<lambda>mp. map_of (nonceCache mp) (ts_Key ts, addr))) (\<lambda>c. case c of
      Some n \<Rightarrow> mret n
    | None \<Rightarrow>
        mbind (mlift (other (GetActorAfter api addr ts))) (\<lambda>act.
        mbind (mupd (\<lambda>mp. mp\<lparr>nonceCache := keeps_nonce api (AList.update (ts_Key ts, addr) (Nonce act) (nonceCache mp))\<rparr>)) (\<lambda>_.
        mret (Nonce act))))"

definition getStateBalance :: "mpool_api \<Rightarrow> address \<Rightarrow> TipSet option \<Rightarrow> token mp" where
  "getStateBalance api addr ts = mbind (mlift (other (GetActorAfter api addr ts))) (\<lambda>act. mret (Balance act))"

definition getNonceLocked :: "mpool_api \<Rightarrow> address \<Rightarrow> TipSet option \<Rightarrow> int mp" where
  "getNonceLocked api addr ts =
    mbind (getStateNonce api addr ts) (\<lambda>stateNonce.
    mbind (getPendingMset api addr) (\<lambda>ms. case ms of
      None \<Rightarrow> mret stateNonce
    | Some ms \<Rightarrow> mret (if stateNonce > nextNonce ms then stateNonce else nextNonce ms)))"

subsection \<open>Checks\<close>

definition MaxMessageSize :: int where
  "MaxMessageSize = 64 * 1024"

definition minimumBaseFee :: token where
  "minimumBaseFee = 100"

definition baseFeeLowerBoundFactorConservative :: int where
  "baseFeeLowerBoundFactorConservative = 100"

definition getBaseFeeLowerBound :: "token \<Rightarrow> int \<Rightarrow> token" where
  "getBaseFeeLowerBound baseFee factor =
    (let b = baseFee div factor in if b < minimumBaseFee then minimumBaseFee else b)"

definition sigCacheKey :: "mpool_api \<Rightarrow> SignedMessage \<Rightarrow> mpool_error + bytes" where
  "sigCacheKey api m = (case Type (Signature m) of
     SigTypeBLS \<Rightarrow> if length (Data (Signature m)) \<noteq> SignatureBytes api then Inl (MsgSet.ErrOther ''bls signature incorrectly sized'')
                   else Inr (hash_sig api (Cid (api_codec api) m) (Data (Signature m)))
   | SigTypeSecp256k1 \<Rightarrow> Inr (cid_bytes api (Cid (api_codec api) m))
   | SigTypeOther _ \<Rightarrow> Inl (MsgSet.ErrOther ''unrecognized signature type''))"

definition VerifyMsgSig :: "mpool_api \<Rightarrow> SignedMessage \<Rightarrow> unit mp" where
  "VerifyMsgSig api m =
    mbind (mlift (sigCacheKey api m)) (\<lambda>sck.
    mbind (mget (\<lambda>mp. sck \<in> set (sigValCache mp))) (\<lambda>ok.
      if ok then mret ()
      else
        mbind (mlift (checked (sigs_Verify api (Signature m) (From (Message m)) (msgCid (api_codec api) (Message m))))) (\<lambda>_.
        mupd (\<lambda>mp. mp\<lparr>sigValCache := keeps_sig api (sck # sigValCache mp)\<rparr>))))"

definition valid_for :: "Message \<Rightarrow> int \<Rightarrow> nat \<Rightarrow> mpool_error + unit" where
  "valid_for m minGas version = (case ValidForBlockInclusion m minGas version of None \<Rightarrow> Inr () | Some e \<Rightarrow> Inl (ErrNotValid e))"

definition checkMessage :: "mpool_api \<Rightarrow> SignedMessage \<Rightarrow> unit mp" where
  "checkMessage api m =
    (if Size (api_codec api) m > MaxMessageSize then mfail ErrMessageTooBig
     else
       mbind (mget curTs) (\<lambda>ts.
       mbind (mlift (notNil ts)) (\<lambda>ts.
       mbind (mlift (valid_for (Message m) 0 (StateNetworkVersion api (height ts)))) (\<lambda>_.
       if To (Message m) = AddrUndef then mfail ErrInvalidToAddr
       else
         mbind (mlift (notNil (Value (Message m)))) (\<lambda>v.
         if \<not> v < TotalFilecoinInt then mfail ErrMessageValueTooHigh
         else
           mbind (mlift (notNil (GasFeeCap (Message m)))) (\<lambda>cap.
           if cap < minimumBaseFee then mfail ErrGasFeeCapTooLow
           else VerifyMsgSig api m))))))"

definition verifyMsgBeforeAdd :: "mpool_api \<Rightarrow> SignedMessage \<Rightarrow> TipSet option \<Rightarrow> bool \<Rightarrow> bool mp" where
  "verifyMsgBeforeAdd api m ts local =
    mbind (mlift (notNil ts)) (\<lambda>ts.
    let ep = add64 (height ts) 1 in
    mbind (mlift (notNil (PricelistByEpoch (api_prices api) ep))) (\<lambda>pl.
    mbind (mlift (valid_for (Message m) (Total (OnChainMessage pl (ChainLength (api_codec api) m))) (StateNetworkVersion api ep))) (\<lambda>_.
    mbind (mlift (if blks ts \<noteq> [] then Inr (ParentBaseFee (blks ts ! 0)) else other (ChainComputeBaseFee api ts))) (\<lambda>baseFee.
    mbind (mlift (notNil (GasFeeCap (Message m)))) (\<lambda>cap.
      if cap < getBaseFeeLowerBound baseFee baseFeeLowerBoundFactorConservative
      then (if local then mret False else mfail ErrSoftValidationFailure)
      else mret local)))))"

definition checkBalance :: "mpool_api \<Rightarrow> SignedMessage \<Rightarrow> TipSet option \<Rightarrow> unit mp" where
  "checkBalance api m ts =
    mbind (mcatch (getStateBalance api (From (Message m)) ts) (\<lambda>_. mfail ErrSoftValidationFailure)) (\<lambda>balance.
    mbind (mlift (notNil (RequiredFunds (Message m)))) (\<lambda>required.
      if balance < required then mfail ErrNotEnoughFunds
      else
        mbind (getPendingMset api (From (Message m))) (\<lambda>ms.
        let required = required + (case ms of None \<Rightarrow> 0 | Some ms \<Rightarrow> getRequiredFunds ms (nonce_of m))
        in if balance < required then mfail ErrSoftValidationFailure else mret ())))"


subsection \<open>Adding a message\<close>

definition mset_for :: "mpool_api \<Rightarrow> address \<Rightarrow> msgSet mp" where
  "mset_for api from =
    mbind (getPendingMset api from) (\<lambda>found. case found of
      Some ms \<Rightarrow> mret ms
    | None \<Rightarrow>
        mbind (mget curTs) (\<lambda>ts.
        mbind (getStateNonce api from ts) (\<lambda>nonce.
        mbind (setPendingMset api from (newMsgSet nonce)) (\<lambda>_.
        mret (newMsgSet nonce)))))"

definition add_to_mset :: "mpool_api \<Rightarrow> SignedMessage \<Rightarrow> bool \<Rightarrow> bool \<Rightarrow> msgSet \<Rightarrow> unit mp" where
  "add_to_mset api m strict untrusted ms =
    mbind (mlift (msgSet_add (api_codec api) ms m strict untrusted)) (\<lambda>(ms, incr).
    mbind (setPendingMset api (From (Message m)) ms) (\<lambda>_.
    mbind (if incr then mupd (\<lambda>mp. mp\<lparr>currentSize := currentSize mp + 1,
                             pruneTrigger := (pruneTrigger mp \<or> currentSize mp + 1 > SizeLimitHigh (cfg mp))\<rparr>)
           else mret ()) (\<lambda>_.
    mupd (\<lambda>mp. mp\<lparr>changes := changes mp @ [MpoolAdd m]\<rparr>))))"

definition addLocked :: "mpool_api \<Rightarrow> SignedMessage \<Rightarrow> bool \<Rightarrow> bool \<Rightarrow> unit mp" where
  "addLocked api m strict untrusted =
    mbind (if Type (Signature m) = SigTypeBLS
           then mupd (\<lambda>mp. mp\<lparr>blsSigCache := keeps_bls api (AList.update (Cid (api_codec api) m) (Signature m) (blsSigCache mp))\<rparr>)
           else mret ()) (\<lambda>_.
    mbind (mlift (checked (PutSignedMessage api m))) (\<lambda>_.
    mbind (mlift (checked (PutUnsignedMessage api (Message m)))) (\<lambda>_.
    mbind (mset_for api (From (Message m))) (add_to_mset api m strict untrusted))))"

definition addTs :: "mpool_api \<Rightarrow> SignedMessage \<Rightarrow> TipSet option \<Rightarrow> bool \<Rightarrow> bool \<Rightarrow> bool mp" where
  "addTs api m ts local untrusted =
    mbind (mcatch (getStateNonce api (From (Message m)) ts) (\<lambda>_. mfail ErrSoftValidationFailure)) (\<lambda>snonce.
      if snonce > nonce_of m then mfail ErrNonceTooLow
      else
        mbind (verifyMsgBeforeAdd api m ts local) (\<lambda>publish.
        mbind (checkBalance api m ts) (\<lambda>_.
        mbind (addLocked api m (\<not> local) untrusted) (\<lambda>_.
        mbind (if local then addLocal api m else mret ()) (\<lambda>_.
        mret publish)))))"

definition addLoaded :: "mpool_api \<Rightarrow> SignedMessage \<Rightarrow> unit mp" where
  "addLoaded api m =
    mbind (checkMessage api m) (\<lambda>_.
    mbind (mget curTs) (\<lambda>ts.
      if ts = None then mfail (MsgSet.ErrOther ''current tipset not loaded'')
      else
        mbind (mcatch (getStateNonce api (From (Message m)) ts) (\<lambda>_. mfail ErrSoftValidationFailure)) (\<lambda>snonce.
          if snonce > nonce_of m then mfail ErrNonceTooLow
          else
            mbind (verifyMsgBeforeAdd api m ts True) (\<lambda>_.
            mbind (checkBalance api m ts) (\<lambda>_.
            addLocked api m False False)))))"

definition addSkipChecks :: "mpool_api \<Rightarrow> SignedMessage \<Rightarrow> unit mp" where
  "addSkipChecks api m = addLocked api m False False"

definition publish_msg :: "mpool_api \<Rightarrow> SignedMessage \<Rightarrow> bool \<Rightarrow> cid mp" where
  "publish_msg api m publish =
    mbind (if publish
           then mbind (mlift (checked (PubSubPublish api m))) (\<lambda>_. mupd (\<lambda>mp. mp\<lparr>published := published mp @ [m]\<rparr>))
           else mret ()) (\<lambda>_.
    mret (Cid (api_codec api) m))"

definition Push :: "mpool_api \<Rightarrow> SignedMessage \<Rightarrow> cid mp" where
  "Push api m =
    mbind (checkMessage api m) (\<lambda>_.
    mbind (mget curTs) (\<lambda>ts.
    mbind (addTs api m ts True False) (\<lambda>publish.
    publish_msg api m publish)))"

definition Add :: "mpool_api \<Rightarrow> SignedMessage \<Rightarrow> unit mp" where
  "Add api m =
    mbind (checkMessage api m) (\<lambda>_.
    mbind (mget curTs) (\<lambda>ts.
    mbind (addTs api m ts False False) (\<lambda>_.
    mret ())))"

definition PushUntrusted :: "mpool_api \<Rightarrow> SignedMessage \<Rightarrow> cid mp" where
  "PushUntrusted api m =
    mbind (checkMessage api m) (\<lambda>_.
    mbind (mget curTs) (\<lambda>ts.
    mbind (addTs api m ts True True) (\<lambda>publish.
    publish_msg api m publish)))"

definition GetNonce :: "mpool_api \<Rightarrow> address \<Rightarrow> int mp" where
  "GetNonce api addr = mbind (mget curTs) (\<lambda>ts. getNonceLocked api addr ts)"

text \<open>What the query of the local messages yields, in its order: errors of the query or of the decoder, and messages.\<close>

fun loadLocal :: "mpool_api \<Rightarrow> (string + SignedMessage) list \<Rightarrow> unit mp" where
  "loadLocal api [] = mret ()"
| "loadLocal api (Inl e # rs) = mfail (MsgSet.ErrOther e)"
| "loadLocal api (Inr sm # rs) =
    mbind (mcatch (mbind (addLoaded api sm) (\<lambda>_. mret True)) (\<lambda>e. mret (e \<noteq> ErrNonceTooLow))) (\<lambda>mark.
    mbind (if mark then setLocal api (From (Message sm)) else mret ()) (\<lambda>_.
    loadLocal api rs))"

subsection \<open>Removing messages\<close>

text \<open>Errors are only logged; the set is changed through its pointer.\<close>

definition remove :: "mpool_api \<Rightarrow> address \<Rightarrow> int \<Rightarrow> bool \<Rightarrow> MessagePool \<Rightarrow> MessagePool" where
  "remove api from nonce applied mp =
    (case getPendingMset api from mp of
       (mp, Inl _) \<Rightarrow> mp
     | (mp, Inr None) \<Rightarrow> mp
     | (mp, Inr (Some ms)) \<Rightarrow>
         let mp = (case map_of (msgs ms) nonce of
                     Some m \<Rightarrow> mp\<lparr>changes := changes mp @ [MpoolRemove m], currentSize := currentSize mp - 1\<rparr>
                   | None \<Rightarrow> mp);
             ms = msgSet_rm ms nonce applied;
             mp = fst (setPendingMset api from ms mp)
         in if msgs ms = [] then fst (deletePendingMset api from mp) else mp)"

definition allPending :: "MessagePool \<Rightarrow> SignedMessage list \<times> TipSet option" where
  "allPending mp = (concat (map (toSlice \<circ> snd) (pending mp)), curTs mp)"

definition pendingFor :: "mpool_api \<Rightarrow> address \<Rightarrow> MessagePool \<Rightarrow> MessagePool \<times> SignedMessage list" where
  "pendingFor api a mp =
    (case getPendingMset api a mp of
       (mp, Inr (Some ms)) \<Rightarrow> (mp, if msgs ms = [] then [] else toSlice ms)
     | (mp, _) \<Rightarrow> (mp, []))"

definition deleteLocalMsgs :: "mpool_api \<Rightarrow> msgSet \<Rightarrow> MessagePool \<Rightarrow> MessagePool" where
  "deleteLocalMsgs api ms = fold (\<lambda>(_, m) mp.
    case localMsgs_Delete api (Cid (api_codec api) m) of
      Some e \<Rightarrow> mp
    | None \<Rightarrow> mp\<lparr>localMsgs := AList.delete (Cid (api_codec api) m) (localMsgs mp)\<rparr>) (msgs ms)"

text \<open>\<open>iter\<close> is the order in which the map of local addresses, or of pending sets, is iterated.\<close>

definition Clear :: "mpool_api \<Rightarrow> (address list \<Rightarrow> address list) \<Rightarrow> bool \<Rightarrow> MessagePool \<Rightarrow> MessagePool" where
  "Clear api iter local mp =
    (if local then
       let mp = fold (\<lambda>la mp. case getPendingMset api la mp of
                   (mp, Inr (Some ms)) \<Rightarrow> deleteLocalMsgs api ms mp
                 | (mp, _) \<Rightarrow> mp) (iter (localAddrs mp)) mp
       in (clearPending mp)\<lparr>republished := []\<rparr>
     else
       fold (\<lambda>a mp. case isLocal api a mp of
               (mp, Inr False) \<Rightarrow> fst (deletePendingMset api a mp)
             | (mp, _) \<Rightarrow> mp) (iter (map fst (pending mp))) mp)"

subsection \<open>Changes of the head\<close>

type_synonym reorg_msgs = "(address \<times> (int \<times> SignedMessage) list) list"

definition RecoverSig :: "mpool_api \<Rightarrow> MessagePool \<Rightarrow> Message \<Rightarrow> SignedMessage option" where
  "RecoverSig api mp m = map_option (\<lambda>s. \<lparr>Message = m, Signature = s\<rparr>) (map_of (blsSigCache mp) (msgCid (api_codec api) m))"

fun MessagesForBlocks :: "mpool_api \<Rightarrow> MessagePool \<Rightarrow> BlockHeader list \<Rightarrow> string + SignedMessage list" where
  "MessagesForBlocks api mp [] = Inr []"
| "MessagesForBlocks api mp (b # bs) =
    andThen (api_MessagesForBlock api b) (\<lambda>(bmsgs, smsgs).
    andThen (MessagesForBlocks api mp bs) (\<lambda>out.
      Inr (smsgs @ List.map_filter (RecoverSig api mp) bmsgs @ out)))"

definition rmsgs_add :: "SignedMessage \<Rightarrow> reorg_msgs \<Rightarrow> reorg_msgs" where
  "rmsgs_add m r =
    (let s = (case map_of r (From (Message m)) of None \<Rightarrow> [] | Some s \<Rightarrow> s)
     in AList.update (From (Message m)) (AList.update (nonce_of m) m s) r)"

text \<open>The state of a head change: the pool, the messages of reverted blocks, the trigger and the errors.\<close>

type_synonym change_state = "MessagePool \<times> reorg_msgs \<times> bool \<times> string list"

definition head_rm :: "mpool_api \<Rightarrow> address \<Rightarrow> int \<Rightarrow> cid \<Rightarrow> change_state \<Rightarrow> change_state" where
  "head_rm api from nonce c = (\<lambda>(mp, r, trig, errs).
    let (mp, r) = (case map_of r from of
           None \<Rightarrow> (remove api from nonce True mp, r)
         | Some s \<Rightarrow> if map_of s nonce \<noteq> None then (mp, AList.update from (AList.delete nonce s) r) else (remove api from nonce True mp, r))
    in (mp, r, trig \<or> c \<in> set (republished mp), errs))"

definition head_revert :: "mpool_api \<Rightarrow> TipSet \<Rightarrow> change_state \<Rightarrow> change_state" where
  "head_revert api ts = (\<lambda>(mp, r, trig, errs).
    case api_LoadTipSet api (Parents ts) of
      Inl e \<Rightarrow> (mp, r, trig, errs @ [e])
    | Inr pts \<Rightarrow>
        let mp = mp\<lparr>curTs := Some pts\<rparr>
        in case MessagesForBlocks api mp (blks ts) of
             Inl e \<Rightarrow> (mp, r, trig, errs @ [e])
           | Inr ms \<Rightarrow> (mp, fold rmsgs_add ms r, trig, errs))"

definition head_apply_block :: "mpool_api \<Rightarrow> BlockHeader \<Rightarrow> change_state \<Rightarrow> change_state" where
  "head_apply_block api b st =
    (case api_MessagesForBlock api b of
       Inl e \<Rightarrow> (case st of (mp, r, trig, errs) \<Rightarrow> (mp, r, trig, errs @ [e]))
     | Inr (bmsgs, smsgs) \<Rightarrow>
         fold (\<lambda>m. head_rm api (From m) (MsgNonce m) (msgCid (api_codec api) m)) bmsgs
           (fold (\<lambda>m. head_rm api (From (Message m)) (nonce_of m) (Cid (api_codec api) m)) smsgs st))"

definition head_apply :: "mpool_api \<Rightarrow> TipSet \<Rightarrow> change_state \<Rightarrow> change_state" where
  "head_apply api ts = (\<lambda>(mp, r, trig, errs). fold (head_apply_block api) (blks ts) (mp\<lparr>curTs := Some ts\<rparr>, r, trig, errs))"

definition mpool_HeadChange :: "mpool_api \<Rightarrow> (reorg_msgs \<Rightarrow> SignedMessage list) \<Rightarrow> TipSet list \<Rightarrow> TipSet list \<Rightarrow> MessagePool
    \<Rightarrow> MessagePool \<times> string list" where
  "mpool_HeadChange api iter revert app mp =
    (let (mp, r, trig, errs) = fold (head_apply api) app (fold (head_revert api) revert (mp, [], False, []));
         mp = mp\<lparr>repubTrigger := (repubTrigger mp \<or> trig)\<rparr>
     in (fold (\<lambda>m mp. fst (addSkipChecks api m mp)) (iter r) mp, errs))"

text \<open>The same on a copy of the pending messages, without the pool: used when messages are selected on another head.\<close>

definition rmsgs_rm :: "address \<Rightarrow> int \<Rightarrow> reorg_msgs \<Rightarrow> reorg_msgs" where
  "rmsgs_rm from nonce r =
    (case map_of r from of
       None \<Rightarrow> r
     | Some s \<Rightarrow> if map_of s nonce \<noteq> None then AList.update from (AList.delete nonce s) r else r)"

definition run_apply_block :: "mpool_api \<Rightarrow> BlockHeader \<Rightarrow> reorg_msgs \<times> string list \<Rightarrow> reorg_msgs \<times> string list" where
  "run_apply_block api b = (\<lambda>(r, errs).
    case api_MessagesForBlock api b of
      Inl e \<Rightarrow> (r, errs @ [e])
    | Inr (bmsgs, smsgs) \<Rightarrow>
        (fold (\<lambda>m. rmsgs_rm (From m) (MsgNonce m)) bmsgs (fold (\<lambda>m. rmsgs_rm (From (Message m)) (nonce_of m)) smsgs r), errs))"

definition runHeadChange :: "mpool_api \<Rightarrow> MessagePool \<Rightarrow> TipSet \<Rightarrow> TipSet \<Rightarrow> reorg_msgs \<Rightarrow> (string + reorg_msgs \<times> string list) option" where
  "runHeadChange api mp fr to r =
    map_option (\<lambda>ops. case ops of
       Inl e \<Rightarrow> Inl e
     | Inr (revert, app) \<Rightarrow>
         let (r, errs) = fold (\<lambda>ts (r, errs). case MessagesForBlocks api mp (blks ts) of
                Inl e \<Rightarrow> (r, errs @ [e])
              | Inr ms \<Rightarrow> (fold rmsgs_add ms r, errs)) revert (r, [])
         in Inr (fold (\<lambda>ts. fold (run_apply_block api) (blks ts)) app (r, errs)))
     (ReorgOps (api_LoadTipSet api) fr to)"


subsection \<open>The contract of the sets\<close>

text \<open>
  What the pool relies on: a set that is well formed stays so, and its size changes with what is added and
  removed. \<open>pool_sets\<close> says that all the sets of a pool are well formed and that their sizes add up.
\<close>

definition pool_sets :: "('s \<Rightarrow> bool) \<Rightarrow> ('s \<Rightarrow> int) \<Rightarrow> ('k \<times> 's) list \<Rightarrow> int \<Rightarrow> bool" where
  "pool_sets ok sz p n \<longleftrightarrow> distinct (map fst p) \<and> (\<forall>s\<in>snd ` set p. ok s) \<and> n = sum_list (map (sz \<circ> snd) p)"

lemma pool_sets_update:
  assumes "pool_sets ok sz p n" and "ok s"
  shows "pool_sets ok sz (AList.update a s p) (n + sz s - (case map_of p a of None \<Rightarrow> 0 | Some t \<Rightarrow> sz t))"
proof -
  have "ok t" if t: "t \<in> snd ` set (AList.update a s p)" for t
  proof -
    have "t = s \<or> t \<in> snd ` set p" using t set_update_subset[of a s p] by auto
    then show ?thesis using assms unfolding pool_sets_def by blast
  qed
  then show ?thesis using assms(1) by (simp add: pool_sets_def distinct_update sum_alist_update)
qed

lemma pool_sets_delete:
  assumes "pool_sets ok sz p n"
  shows "pool_sets ok sz (AList.delete a p) (n - (case map_of p a of None \<Rightarrow> 0 | Some t \<Rightarrow> sz t))"
proof -
  have "set (AList.delete a p) \<subseteq> set p" by (simp add: AList.delete_eq)
  then show ?thesis
    using assms unfolding pool_sets_def
    by (auto simp: distinct_delete sum_alist_delete)
qed

locale message_sets =
  fixes ok :: "'s \<Rightarrow> bool"
    and sz :: "'s \<Rightarrow> int"
    and add :: "'s \<Rightarrow> 'm \<Rightarrow> 'e + 's \<times> bool"
    and rm :: "'s \<Rightarrow> int \<Rightarrow> 's"
    and has :: "'s \<Rightarrow> int \<Rightarrow> bool"
  assumes add_law: "ok s \<Longrightarrow> add s m = Inr (s', new) \<Longrightarrow> ok s' \<and> sz s' = sz s + (if new then 1 else 0)"
    and rm_law: "ok s \<Longrightarrow> ok (rm s n) \<and> sz (rm s n) = sz s - (if has s n then 1 else 0)"
begin

lemma pool_add:
  assumes "pool_sets ok sz p n" and "map_of p a = Some s" and "add s m = Inr (s', new)"
  shows "pool_sets ok sz (AList.update a s' p) (n + (if new then 1 else 0))"
proof -
  have "ok s" using assms(1,2) unfolding pool_sets_def by (metis image_eqI map_of_SomeD snd_conv)
  then show ?thesis using pool_sets_update[OF assms(1), of s' a] add_law[OF _ assms(3)] assms(2) by auto
qed

lemma pool_add_first:
  assumes "pool_sets ok sz p n" and "map_of p a = None" and "ok s" and "sz s = 0" and "add s m = Inr (s', new)"
  shows "pool_sets ok sz (AList.update a s' p) (n + (if new then 1 else 0))"
  using pool_sets_update[OF assms(1), of s' a] add_law[OF assms(3,5)] assms(2,4) by auto

lemma pool_rm:
  assumes "pool_sets ok sz p n" and "map_of p a = Some s"
  shows "pool_sets ok sz (AList.update a (rm s k) p) (n - (if has s k then 1 else 0))"
proof -
  have "ok s" using assms unfolding pool_sets_def by (metis image_eqI map_of_SomeD snd_conv)
  then show ?thesis using pool_sets_update[OF assms(1), of "rm s k" a] rm_law assms(2) by auto
qed

end

interpretation mset: message_sets set_ok "\<lambda>s. int (length (msgs s))" "\<lambda>s m. msgSet_add cd s m strict untrusted"
  "\<lambda>s n. msgSet_rm s n applied" "\<lambda>s n. map_of (msgs s) n \<noteq> None"
  for cd strict untrusted applied
proof unfold_locales
  fix s m s' new
  assume "set_ok s" and a: "msgSet_add cd s m strict untrusted = Inr (s', new)"
  then show "set_ok s' \<and> int (length (msgs s')) = int (length (msgs s)) + (if new then 1 else 0)"
    using add_set_ok[OF a] msgSet_add_Inr(1,2)[OF a] by (simp add: alist_length_update)
next
  fix s n
  assume s: "set_ok s"
  have "length (AList.delete n (msgs s)) + (if map_of (msgs s) n \<noteq> None then 1 else 0) = length (msgs s)"
    using length_delete[OF set_okD(1)[OF s], of n] by (cases "msgs s") (auto split: if_splits)
  then show "set_ok (msgSet_rm s n applied) \<and> int (length (msgs (msgSet_rm s n applied))) = int (length (msgs s)) - (if map_of (msgs s) n \<noteq> None then 1 else 0)"
    using rm_set_ok[OF s] by (auto simp: msgs_rm)
qed


subsection \<open>The size of the pool\<close>

text \<open>The accounts of the pool: the sets are well formed, and the size is the number of messages in them.\<close>

definition pool_ok :: "MessagePool \<Rightarrow> bool" where
  "pool_ok mp \<longleftrightarrow> pool_sets set_ok (\<lambda>s. int (length (msgs s))) (pending mp) (currentSize mp)"

text \<open>Operations that leave the pending sets alone.\<close>

definition same_pending :: "MessagePool \<Rightarrow> MessagePool \<Rightarrow> bool" where
  "same_pending mp mp' \<longleftrightarrow> pending mp' = pending mp \<and> currentSize mp' = currentSize mp \<and> curTs mp' = curTs mp"

definition quiet :: "'a mp \<Rightarrow> bool" where
  "quiet m \<longleftrightarrow> (\<forall>mp. same_pending mp (fst (m mp)))"

lemma same_pending_refl [simp]: "same_pending mp mp"
  by (simp add: same_pending_def)

lemma same_pending_trans: "same_pending a b \<Longrightarrow> same_pending b c \<Longrightarrow> same_pending a c"
  by (simp add: same_pending_def)

lemma mbind_fst: "fst (mbind m k mp) = (case m mp of (mp', Inl e) \<Rightarrow> mp' | (mp', Inr x) \<Rightarrow> fst (k x mp'))"
  by (auto simp: mbind_def split: prod.splits sum.splits)

lemma quiet_basic [simp]: "quiet (mret x)" "quiet (mfail e)" "quiet (mlift r)" "quiet (mget f)"
  by (simp_all add: quiet_def mret_def mfail_def mlift_def mget_def)

lemma quiet_mbind [intro!]:
  assumes "quiet m" and "\<And>x. quiet (k x)"
  shows "quiet (mbind m k)"
  unfolding quiet_def
proof
  fix mp
  obtain mp1 r where 1: "m mp = (mp1, r)" by fastforce
  then have s: "same_pending mp mp1" using assms(1) unfolding quiet_def by (metis fst_conv)
  show "same_pending mp (fst (mbind m k mp))"
  proof (cases r)
    case (Inl e)
    then show ?thesis using 1 s by (simp add: mbind_fst)
  next
    case (Inr x)
    then have "same_pending mp1 (fst (mbind m k mp))" using 1 assms(2)[of x] by (simp add: mbind_fst quiet_def)
    then show ?thesis using s same_pending_trans by blast
  qed
qed

lemma quiet_mcatch [intro!]:
  assumes "quiet m" and "\<And>e. quiet (h e)"
  shows "quiet (mcatch m h)"
  unfolding quiet_def
proof
  fix mp
  obtain mp1 r where 1: "m mp = (mp1, r)" by fastforce
  then have s: "same_pending mp mp1" using assms(1) unfolding quiet_def by (metis fst_conv)
  show "same_pending mp (fst (mcatch m h mp))"
  proof (cases r)
    case (Inl e)
    have "same_pending mp1 (fst (h e mp1))" using assms(2) by (simp add: quiet_def)
    then show ?thesis using 1 s Inl same_pending_trans by (auto simp: mcatch_def)
  qed (use 1 s in \<open>simp add: mcatch_def\<close>)
qed

lemma quiet_mupd [simp]: "quiet (mupd f) \<longleftrightarrow> (\<forall>mp. same_pending mp (f mp))"
  by (simp add: quiet_def mupd_def)

lemma quiet_resolve [simp]: "quiet (resolveToKey api a)"
  by (auto simp: resolveToKey_def same_pending_def split: option.splits)

lemma quiet_get [simp]: "quiet (getPendingMset api a)" "quiet (isLocal api a)" "quiet (setLocal api a)" "quiet (addLocal api m)"
  by (auto simp: getPendingMset_def isLocal_def setLocal_def addLocal_def same_pending_def)

lemma quiet_nonce [simp]: "quiet (getStateNonce api a ts)" "quiet (getStateBalance api a ts)"
  by (auto simp: getStateNonce_def getStateBalance_def same_pending_def split: option.splits)

lemma quiet_getNonceLocked [simp]: "quiet (getNonceLocked api a ts)"
  by (auto simp: getNonceLocked_def split: option.splits)

lemma quiet_checks [simp]: "quiet (VerifyMsgSig api m)" "quiet (verifyMsgBeforeAdd api m ts l)" "quiet (checkBalance api m ts)"
  by (auto simp: VerifyMsgSig_def verifyMsgBeforeAdd_def checkBalance_def same_pending_def Let_def)

lemma quiet_checkMessage [simp]: "quiet (checkMessage api m)"
  by (auto simp: checkMessage_def)

lemma quiet_publish [simp]: "quiet (publish_msg api m b)"
  by (auto simp: publish_msg_def same_pending_def)

lemma pool_ok_quiet: "quiet m \<Longrightarrow> pool_ok mp \<Longrightarrow> pool_ok (fst (m mp))"
  by (auto simp: quiet_def same_pending_def pool_ok_def)

text \<open>An address that was resolved stays resolved.\<close>

lemma resolve_result:
  assumes "resolveToKey api a mp = (mp', Inr ra)"
  shows "map_of (keyCache mp') a = Some ra"
  using assms
  by (auto simp: resolveToKey_def mbind_def mget_def mret_def mlift_def mupd_def other_def update_conv' split: option.splits sum.splits if_splits)

lemma resolve_cached: "map_of (keyCache mp) a = Some ra \<Longrightarrow> resolveToKey api a mp = (mp, Inr ra)"
  by (simp add: resolveToKey_def mbind_def mget_def mret_def)

lemma setPending_cached:
  "map_of (keyCache mp) a = Some ra \<Longrightarrow> setPendingMset api a ms mp = (mp\<lparr>pending := AList.update ra ms (pending mp)\<rparr>, Inr ())"
  by (simp add: setPendingMset_def mbind_def resolve_cached mupd_def)

lemma deletePending_cached:
  "map_of (keyCache mp) a = Some ra \<Longrightarrow> deletePendingMset api a mp = (mp\<lparr>pending := AList.delete ra (pending mp)\<rparr>, Inr ())"
  by (simp add: deletePendingMset_def mbind_def resolve_cached mupd_def)

lemma getPending_result:
  assumes "getPendingMset api a mp = (mp', Inr found)"
  obtains ra where "map_of (keyCache mp') a = Some ra" and "found = map_of (pending mp') ra" and "same_pending mp mp'"
    and "map_of (keyCache mp) a = None \<or> map_of (keyCache mp) a = Some ra"
proof -
  obtain ra where r: "resolveToKey api a mp = (mp', Inr ra)" "found = map_of (pending mp') ra"
    using assms by (auto simp: getPendingMset_def mbind_def mget_def split: prod.splits sum.splits)
  have "same_pending mp mp'" using quiet_get(1)[of api a] assms unfolding quiet_def by (metis fst_conv)
  moreover have "map_of (keyCache mp) a = None \<or> map_of (keyCache mp) a = Some ra"
    using r(1) resolve_cached[of mp a] by (cases "map_of (keyCache mp) a") auto
  ultimately show thesis using that[OF resolve_result[OF r(1)] r(2)] by blast
qed

lemma getStateNonce_keyCache: "keyCache (fst (getStateNonce api a ts mp)) = keyCache mp"
  by (auto simp: getStateNonce_def mbind_def mget_def mret_def mlift_def mupd_def split: option.splits sum.splits)


lemma mbind_quietE:
  assumes "mbind m k mp = (mp', r)" and "quiet m"
  obtains e where "r = Inl e" and "same_pending mp mp'"
  | x mp1 where "m mp = (mp1, Inr x)" and "k x mp1 = (mp', r)" and "same_pending mp mp1"
proof -
  obtain mp1 q where 1: "m mp = (mp1, q)" by fastforce
  then have s: "same_pending mp mp1" using assms(2) unfolding quiet_def by (metis fst_conv)
  show thesis
  proof (cases q)
    case (Inl e)
    then show ?thesis using that(1)[of e] 1 s assms(1) by (simp add: mbind_def)
  next
    case (Inr x)
    then show ?thesis using that(2)[of mp1 x] 1 s assms(1) by (simp add: mbind_def)
  qed
qed

lemma add_to_mset_result:
  assumes "map_of (keyCache mp) (From (Message m)) = Some ra" and "add_to_mset api m strict untrusted ms mp = (mp', r)"
  shows "mp' = mp \<and> (\<exists>e. r = Inl e) \<or>
    (\<exists>ms' new. msgSet_add (api_codec api) ms m strict untrusted = Inr (ms', new) \<and> pending mp' = AList.update ra ms' (pending mp)
      \<and> currentSize mp' = currentSize mp + (if new then 1 else 0) \<and> curTs mp' = curTs mp \<and> keyCache mp' = keyCache mp \<and> r = Inr ())"
proof (cases "msgSet_add (api_codec api) ms m strict untrusted")
  case (Inl e)
  then show ?thesis using assms(2) by (auto simp: add_to_mset_def mbind_def mlift_def)
next
  case (Inr p)
  then show ?thesis using assms(2)
    by (cases p) (auto simp: add_to_mset_def mbind_def mlift_def mupd_def mret_def setPending_cached[OF assms(1)])
qed

text \<open>The set of a sender: the one that is pending, or a new one that is pending from now on.\<close>

lemma mset_for_result:
  assumes "mset_for api from mp = (mp', r)"
  obtains e where "r = Inl e" and "same_pending mp mp'"
  | ra ms where "r = Inr ms" and "map_of (keyCache mp') from = Some ra" and "map_of (pending mp) ra = Some ms" and "same_pending mp mp'"
      and "map_of (keyCache mp) from = None \<or> map_of (keyCache mp) from = Some ra"
  | ra n where "r = Inr (newMsgSet n)" and "map_of (keyCache mp') from = Some ra" and "map_of (pending mp) ra = None"
      and "map_of (keyCache mp) from = None \<or> map_of (keyCache mp) from = Some ra"
      and "pending mp' = AList.update ra (newMsgSet n) (pending mp)" and "currentSize mp' = currentSize mp" and "curTs mp' = curTs mp"
  using assms[unfolded mset_for_def] quiet_get(1)
proof (cases rule: mbind_quietE)
  case (1 e)
  then show ?thesis using that(1) by blast
next
  case (2 found mp1)
  obtain ra where ra: "map_of (keyCache mp1) from = Some ra" "found = map_of (pending mp1) ra"
    "map_of (keyCache mp) from = None \<or> map_of (keyCache mp) from = Some ra" using getPending_result[OF 2(1)] by blast
  have p1: "pending mp1 = pending mp" "currentSize mp1 = currentSize mp" "curTs mp1 = curTs mp" using 2(3) by (simp_all add: same_pending_def)
  show ?thesis
  proof (cases found)
    case (Some ms)
    then show ?thesis using that(2)[of ms ra] 2 ra p1 by (simp add: mret_def)
  next
    case None
    obtain mp2 q where q: "getStateNonce api from (curTs mp1) mp1 = (mp2, q)" by fastforce
    have s2: "same_pending mp1 mp2" using quiet_nonce(1)[of api "from" "curTs mp1"] q unfolding quiet_def by (metis fst_conv)
    have k2: "map_of (keyCache mp2) from = Some ra" using getStateNonce_keyCache[of api "from" "curTs mp1" mp1] q ra(1) by simp
    show ?thesis
    proof (cases q)
      case (Inl e)
      then show ?thesis using that(1)[of e] 2(2,3) None q s2 same_pending_trans by (simp add: mbind_def mget_def)
    next
      case (Inr n)
      then show ?thesis using that(3)[of n ra] 2(2) None q s2 k2 ra(2,3) p1
        by (auto simp: mbind_def mget_def mret_def setPending_cached[OF k2] same_pending_def)
    qed
  qed
qed

lemma addLocked_cases:
  assumes "addLocked api m strict untrusted mp = (mp', r)"
  obtains (failed) e where "r = Inl e" and "same_pending mp mp'"
  | (created) e ra n where "r = Inl e" and "map_of (pending mp) ra = None" and "pending mp' = AList.update ra (newMsgSet n) (pending mp)"
      and "currentSize mp' = currentSize mp" and "curTs mp' = curTs mp"
  | (added) ra ms n ms' new where "r = Inr ()" and "map_of (pending mp) ra = Some ms \<or> map_of (pending mp) ra = None \<and> ms = newMsgSet n"
      and "msgSet_add (api_codec api) ms m strict untrusted = Inr (ms', new)" and "pending mp' = AList.update ra ms' (pending mp)"
      and "currentSize mp' = currentSize mp + (if new then 1 else 0)" and "curTs mp' = curTs mp"
      and "map_of (keyCache mp') (From (Message m)) = Some ra"
      and "map_of (keyCache mp) (From (Message m)) = None \<or> map_of (keyCache mp) (From (Message m)) = Some ra"
proof -
  have q: "quiet (if Type (Signature m) = SigTypeBLS
       then mupd (\<lambda>mp. mp\<lparr>blsSigCache := keeps_bls api (AList.update (Cid (api_codec api) m) (Signature m) (blsSigCache mp))\<rparr>) else mret ())"
    by (simp add: same_pending_def)
  consider (early) e where "r = Inl e" "same_pending mp mp'"
    | (late) mp1 where "same_pending mp mp1" "keyCache mp1 = keyCache mp" "mbind (mset_for api (From (Message m))) (add_to_mset api m strict untrusted) mp1 = (mp', r)"
    using assms unfolding addLocked_def
    by (elim mbind_quietE[OF _ q] mbind_quietE[OF _ quiet_basic(3)])
      (auto simp: mlift_def mupd_def mret_def split: if_splits intro: same_pending_trans, metis same_pending_refl)
  then show thesis
  proof cases
    case early
    then show ?thesis using failed by blast
  next
    case late
    then have p1: "pending mp1 = pending mp" "currentSize mp1 = currentSize mp" "curTs mp1 = curTs mp" by (simp_all add: same_pending_def)
    obtain mp2 s where s: "mset_for api (From (Message m)) mp1 = (mp2, s)" by fastforce
    from s show ?thesis
    proof (cases rule: mset_for_result)
      case (1 e)
      then show ?thesis using failed[of e] late s same_pending_trans by (auto simp: mbind_def)
    next
      case (2 ra ms)
      then have e: "add_to_mset api m strict untrusted ms mp2 = (mp', r)" using late(3) s by (simp add: mbind_def)
      have p2: "pending mp2 = pending mp" "currentSize mp2 = currentSize mp" "curTs mp2 = curTs mp" using 2(4) p1 by (simp_all add: same_pending_def)
      from add_to_mset_result[OF 2(2) e] show ?thesis
        using failed added[of ra ms 0] 2 p1 p2 late(2) by (auto simp: same_pending_def)
    next
      case (3 ra n)
      then have e: "add_to_mset api m strict untrusted (newMsgSet n) mp2 = (mp', r)" using late(3) s by (simp add: mbind_def)
      from add_to_mset_result[OF 3(2) e] show ?thesis
        using created[of _ ra n] added[of ra "newMsgSet n" n] 3 p1 late(2) by auto
    qed
  qed
qed

lemma addLocked_pool_ok:
  assumes "pool_ok mp"
  shows "pool_ok (fst (addLocked api m strict untrusted mp))"
proof -
  obtain mp' r where a: "addLocked api m strict untrusted mp = (mp', r)" by fastforce
  have n: "set_ok (newMsgSet n)" "int (length (msgs (newMsgSet n))) = 0" for n by (simp_all add: newMsgSet_def set_ok_def)
  from a have "pool_ok mp'"
  proof (cases rule: addLocked_cases)
    case failed
    then show ?thesis using assms by (simp add: pool_ok_def same_pending_def)
  next
    case (created e ra k)
    then show ?thesis using pool_sets_update[OF assms[unfolded pool_ok_def] n(1), of ra k] by (simp add: pool_ok_def n(2))
  next
    case (added ra ms k ms' new)
    then show ?thesis using assms mset.pool_add[of "pending mp" "currentSize mp" ra ms] mset.pool_add_first[of "pending mp" "currentSize mp" ra "newMsgSet k"] n
      unfolding pool_ok_def by metis
  qed
  then show ?thesis using a by simp
qed

text \<open>Operations that keep a property of the pool.\<close>

definition sound :: "(MessagePool \<Rightarrow> bool) \<Rightarrow> 'a mp \<Rightarrow> bool" where
  "sound P m \<longleftrightarrow> (\<forall>mp. P mp \<longrightarrow> P (fst (m mp)))"

lemma sound_mbind [intro!]:
  assumes "sound P m" and "\<And>x. sound P (k x)"
  shows "sound P (mbind m k)"
  unfolding sound_def
proof (intro allI impI)
  fix mp assume "P mp"
  obtain mp1 r where 1: "m mp = (mp1, r)" by fastforce
  then have "P mp1" using assms(1) \<open>P mp\<close> unfolding sound_def by (metis fst_conv)
  then show "P (fst (mbind m k mp))" using 1 assms(2) by (cases r) (simp_all add: mbind_def sound_def)
qed

lemma sound_mcatch [intro!]:
  assumes "sound P m" and "\<And>e. sound P (h e)"
  shows "sound P (mcatch m h)"
  unfolding sound_def
proof (intro allI impI)
  fix mp assume "P mp"
  obtain mp1 r where 1: "m mp = (mp1, r)" by fastforce
  then have "P mp1" using assms(1) \<open>P mp\<close> unfolding sound_def by (metis fst_conv)
  then show "P (fst (mcatch m h mp))" using 1 assms(2) by (cases r) (simp_all add: mcatch_def sound_def)
qed

lemma sound_basic [simp]: "sound P (mret x)" "sound P (mfail e)" "sound P (mlift r)" "sound P (mget f)"
  "sound P (mupd g) \<longleftrightarrow> (\<forall>mp. P mp \<longrightarrow> P (g mp))"
  by (simp_all add: sound_def mret_def mfail_def mlift_def mget_def mupd_def)

lemma sound_quiet: "quiet m \<Longrightarrow> sound pool_ok m"
  using pool_ok_quiet by (auto simp: sound_def)

lemmas sound_leaves [simp] = quiet_get[THEN sound_quiet] quiet_nonce[THEN sound_quiet]
  quiet_getNonceLocked[THEN sound_quiet] quiet_checks[THEN sound_quiet] quiet_checkMessage[THEN sound_quiet] quiet_publish[THEN sound_quiet]

lemma sound_addLocked [simp]: "sound pool_ok (addLocked api m strict untrusted)"
  by (simp add: sound_def addLocked_pool_ok)

lemma sound_addTs [simp]: "sound pool_ok (addTs api m ts local untrusted)"
  unfolding addTs_def by auto

lemma sound_addLoaded [simp]: "sound pool_ok (addLoaded api m)"
  unfolding addLoaded_def by auto

lemma sound_entries [simp]: "sound pool_ok (Push api m)" "sound pool_ok (Add api m)" "sound pool_ok (PushUntrusted api m)" "sound pool_ok (GetNonce api a)"
  unfolding Push_def Add_def PushUntrusted_def GetNonce_def by auto

lemma sound_loadLocal [simp]: "sound pool_ok (loadLocal api rs)"
  by (induction api rs rule: loadLocal.induct) auto

lemma remove_pool_ok:
  assumes "pool_ok mp"
  shows "pool_ok (remove api from nonce applied mp)"
proof -
  obtain mp1 q where g: "getPendingMset api from mp = (mp1, q)" by fastforce
  have ok1: "pool_ok mp1" using pool_ok_quiet[OF quiet_get(1) assms, of api "from"] g by simp
  show ?thesis
  proof (cases "\<exists>ms. q = Inr (Some ms)")
    case False
    then have "remove api from nonce applied mp = mp1" using g unfolding remove_def by (auto split: sum.splits option.splits)
    then show ?thesis using ok1 by simp
  next
    case True
    then obtain ms where q: "q = Inr (Some ms)" by blast
    obtain ra where ra: "map_of (keyCache mp1) from = Some ra" "map_of (pending mp1) ra = Some ms"
      using getPending_result[of api "from" mp mp1 "Some ms"] g q by metis
    define ms' where "ms' = msgSet_rm ms nonce applied"
    define mp2 where "mp2 = (case map_of (msgs ms) nonce of
         Some m \<Rightarrow> mp1\<lparr>changes := changes mp1 @ [MpoolRemove m], currentSize := currentSize mp1 - 1\<rparr> | None \<Rightarrow> mp1)"
    have k: "map_of (keyCache mp2) from = Some ra" "pending mp2 = pending mp1"
      "currentSize mp2 = currentSize mp1 - (if map_of (msgs ms) nonce \<noteq> None then 1 else 0)"
      using ra(1) by (simp_all add: mp2_def split: option.splits)
    define mp3 where "mp3 = mp2\<lparr>pending := AList.update ra ms' (pending mp1)\<rparr>"
    have ok3: "pool_sets set_ok (\<lambda>s. int (length (msgs s))) (pending mp3) (currentSize mp3)"
      using mset.pool_rm[OF ok1[unfolded pool_ok_def] ra(2), of nonce applied] k(3) by (simp add: mp3_def ms'_def)
    have "remove api from nonce applied mp = (if msgs ms' = [] then mp3\<lparr>pending := AList.delete ra (pending mp3)\<rparr> else mp3)"
      using g q k(1,2) deletePending_cached[of mp3 "from" ra] setPending_cached[OF k(1)]
      by (simp add: remove_def Let_def mp3_def ms'_def flip: mp2_def)
    moreover have "map_of (pending mp3) ra = Some ms'" by (simp add: mp3_def update_conv')
    ultimately show ?thesis using ok3 pool_sets_delete[OF ok3, of ra] by (auto simp: pool_ok_def)
  qed
qed

text \<open>A change of the head works with removals and additions only.\<close>

lemma fold_keeps: "(\<And>x s. P s \<Longrightarrow> P (f x s)) \<Longrightarrow> P s \<Longrightarrow> P (fold f xs s)"
  by (induction xs arbitrary: s) auto

lemma head_rm_keeps:
  assumes "\<And>mp from nonce. P mp \<Longrightarrow> P (remove api from nonce True mp)" and "P (fst st)"
  shows "P (fst (head_rm api from nonce c st))"
  using assms by (cases st) (auto simp: head_rm_def Let_def split: option.splits)

lemma mpool_HeadChange_keeps:
  assumes rm: "\<And>mp from nonce. P mp \<Longrightarrow> P (remove api from nonce True mp)" and add: "\<And>mp m. P mp \<Longrightarrow> P (fst (addSkipChecks api m mp))"
    and ts: "\<And>mp t. P mp \<Longrightarrow> P (mp\<lparr>curTs := Some t\<rparr>)" and trig: "\<And>mp b. P mp \<Longrightarrow> P (mp\<lparr>repubTrigger := b\<rparr>)" and "P mp"
  shows "P (fst (mpool_HeadChange api iter revert app mp))"
proof -
  define Q where "Q = (\<lambda>st :: change_state. P (fst st))"
  have rmk: "Q (head_rm api f n c st)" if "Q st" for f n c st
    using head_rm_keeps[of P api st f n c] rm that unfolding Q_def by blast
  have rev: "Q (head_revert api t st)" if "Q st" for t st
    using that ts by (cases st) (auto simp: Q_def head_revert_def Let_def split: sum.splits)
  have block: "Q (head_apply_block api b st)" if q: "Q st" for b st
  proof (cases "api_MessagesForBlock api b")
    case (Inl e)
    then show ?thesis using q by (cases st) (simp add: head_apply_block_def Q_def)
  next
    case (Inr ms)
    obtain bm sm where ms: "ms = (bm, sm)" by fastforce
    show ?thesis unfolding head_apply_block_def Inr ms by (simp add: fold_keeps[where P = Q] rmk q)
  qed
  have ap: "Q (head_apply api t st)" if "Q st" for t st
  proof -
    obtain mp1 r tr errs where st: "st = (mp1, r, tr, errs)" by (cases st)
    then have "Q (mp1\<lparr>curTs := Some t\<rparr>, r, tr, errs)" using that ts by (simp add: Q_def)
    then show ?thesis unfolding st head_apply_def by (simp add: fold_keeps[where P = Q] block)
  qed
  define st where "st = fold (head_apply api) app (fold (head_revert api) revert (mp, [], False, []))"
  have "Q (mp, [], False, [])" using assms(5) by (simp add: Q_def)
  then have "Q st" unfolding st_def by (intro fold_keeps[where P = Q] ap rev)
  then obtain mp1 r tr errs where e: "st = (mp1, r, tr, errs)" "P mp1" by (cases st) (simp add: Q_def)
  have "P (fold (\<lambda>m mp. fst (addSkipChecks api m mp)) (iter r) (mp1\<lparr>repubTrigger := (repubTrigger mp1 \<or> tr)\<rparr>))"
    by (intro fold_keeps[where P = P] add trig e(2))
  then show ?thesis unfolding mpool_HeadChange_def st_def[symmetric] e(1) by (simp add: Let_def)
qed

text \<open>The operations of the pool that the node calls, but for \<open>Clear\<close>.\<close>

inductive pool_step :: "mpool_api \<Rightarrow> MessagePool \<Rightarrow> MessagePool \<Rightarrow> bool" for api where
  push: "pool_step api mp (fst (Push api m mp))"
| add: "pool_step api mp (fst (Add api m mp))"
| push_untrusted: "pool_step api mp (fst (PushUntrusted api m mp))"
| get_nonce: "pool_step api mp (fst (GetNonce api a mp))"
| load_local: "pool_step api mp (fst (loadLocal api rs mp))"
| remove: "pool_step api mp (remove api from nonce applied mp)"
| pending_for: "pool_step api mp (fst (pendingFor api a mp))"
| head_change: "pool_step api mp (fst (mpool_HeadChange api iter revert app mp))"

lemma head_change_pool_ok: "pool_ok mp \<Longrightarrow> pool_ok (fst (mpool_HeadChange api iter revert app mp))"
  by (rule mpool_HeadChange_keeps) (simp_all add: remove_pool_ok addSkipChecks_def addLocked_pool_ok, simp_all add: pool_ok_def)

lemma pendingFor_fst: "fst (pendingFor api a mp) = fst (getPendingMset api a mp)"
  by (auto simp: pendingFor_def split: prod.splits sum.splits option.splits)

lemma pool_step_ok:
  assumes "pool_step api mp mp'" and "pool_ok mp"
  shows "pool_ok mp'"
  using assms
proof (induction rule: pool_step.induct)
  case (pending_for mp a)
  then show ?case using pool_ok_quiet[OF quiet_get(1)] by (simp add: pendingFor_fst)
next
  case (remove mp "from" nonce applied)
  then show ?case by (rule remove_pool_ok)
next
  case (head_change mp iter revert app)
  then show ?case by (rule head_change_pool_ok)
qed (use sound_entries sound_loadLocal in \<open>auto simp: sound_def\<close>)

text \<open>
  C16. Whatever messages are pushed, added, loaded and removed, and however the head moves, every pending set is well
  formed (each nonce once, its funds the sum of the funds of its messages) and the size of the pool is the number of
  messages in it. So the trigger for pruning goes by the true size.
\<close>

theorem pool_accounts_add_up:
  assumes "(pool_step api)\<^sup>*\<^sup>* mp mp'" and "pending mp = []" and "currentSize mp = 0"
  shows "(\<forall>(a, ms)\<in>set (pending mp'). distinct (map fst (msgs ms)) \<and> requiredFunds ms = sum_list (map (funds \<circ> snd) (msgs ms)))
    \<and> currentSize mp' = int (sum_list (map (\<lambda>(a, ms). length (msgs ms)) (pending mp')))"
proof -
  have "pool_ok mp" using assms(2,3) by (simp add: pool_ok_def pool_sets_def)
  with assms(1) have ok: "pool_ok mp'" by (induction rule: rtranclp_induct) (auto intro: pool_step_ok)
  have "int (sum_list (map (\<lambda>(a, ms). length (msgs ms)) p)) = sum_list (map ((\<lambda>s. int (length (msgs s))) \<circ> snd) p)" for p :: "(address \<times> msgSet) list"
    by (induction p) auto
  then show ?thesis using ok by (auto simp: pool_ok_def pool_sets_def set_ok_def)
qed


text \<open>A pool at a tipset of height 60, for a sender with nonce 5.\<close>

definition example_api :: mpool_api where
  "example_api = \<lparr>StateAccountKeyAtFinality = (\<lambda>a ts. Inr a),
     GetActorAfter = (\<lambda>a ts. Inr \<lparr>Code = ''account'', Head = '''', Nonce = 5, Balance = 1000000000\<rparr>),
     StateNetworkVersion = (\<lambda>h. 16), ChainComputeBaseFee = (\<lambda>ts. Inr 100), PutSignedMessage = (\<lambda>m. None), PutUnsignedMessage = (\<lambda>m. None),
     PubSubPublish = (\<lambda>m. None), api_LoadTipSet = ChainStore.example_store, api_MessagesForBlock = (\<lambda>b. Inr ([], [])), api_prices = Prices 265200,
     sigs_Verify = (\<lambda>s a c. None), SignatureBytes = 96, hash_sig = (\<lambda>c d. map of_char c @ d), cid_bytes = map of_char,
     localMsgs_Put = (\<lambda>m. None), localMsgs_Delete = (\<lambda>c. None), keeps_bls = id, keeps_sig = id, keeps_nonce = id, api_codec = example_codec\<rparr>"

definition example_pool :: MessagePool where
  "example_pool = \<lparr>republished = [], localAddrs = [], pending = [], keyCache = [], curTs = Some (example_ts ''c'' [''a''] 60),
     cfg = \<lparr>PriorityAddrs = [], SizeLimitHigh = 30000, SizeLimitLow = 20000\<rparr>, currentSize = 0, pruneTrigger = False, repubTrigger = False,
     blsSigCache = [], localMsgs = [], sigValCache = [], nonceCache = [], changes = [], published = []\<rparr>"

lemma example_push:
  shows "currentSize (fst (Push example_api (example_msg 5 10) example_pool)) = 1"
    and "snd (Push example_api (example_msg 5 10) example_pool) = Inr ''sa''"
  by code_simp+

theorem pool_accounts_add_up_witness:
  "\<exists>mp. (pool_step example_api)\<^sup>*\<^sup>* example_pool mp \<and> currentSize mp = 1 \<and> sum_list (map (\<lambda>(a, ms). length (msgs ms)) (pending mp)) = 1"
proof -
  let ?mp = "fst (Push example_api (example_msg 5 10) example_pool)"
  have run: "(pool_step example_api)\<^sup>*\<^sup>* example_pool ?mp" by (blast intro: pool_step.push)
  have "currentSize ?mp = int (sum_list (map (\<lambda>(a, ms). length (msgs ms)) (pending ?mp)))"
    using pool_accounts_add_up[OF run] by (simp add: example_pool_def)
  then show ?thesis using run example_push(1) by fastforce
qed

text \<open>\<open>Clear\<close> forgets the messages but not their number.\<close>

lemma clear_keeps_size: "currentSize (Clear api iter local mp) = currentSize mp"
proof -
  have g: "currentSize (fst (getPendingMset api a mp)) = currentSize mp" "currentSize (fst (isLocal api a mp)) = currentSize mp" for a mp
    using quiet_get(1,2)[of api a] by (simp_all add: quiet_def same_pending_def)
  have d: "currentSize (fst (deletePendingMset api a mp)) = currentSize mp" for a mp
    by (auto simp: deletePendingMset_def mbind_def mupd_def resolveToKey_def mget_def mret_def mlift_def split: option.splits sum.splits)
  have del: "currentSize (deleteLocalMsgs api ms mp) = currentSize mp" for ms mp
    unfolding deleteLocalMsgs_def by (rule fold_keeps[where P = "\<lambda>x. currentSize x = currentSize mp"]) (auto split: option.splits)
  have l: "currentSize (case getPendingMset api a mp of (mp, Inr (Some ms)) \<Rightarrow> deleteLocalMsgs api ms mp | (mp, _) \<Rightarrow> mp) = currentSize mp" for a mp
    using g(1)[of a mp] del by (auto split: prod.splits sum.splits option.splits)
  have n: "currentSize (case isLocal api a mp of (mp, Inr False) \<Rightarrow> fst (deletePendingMset api a mp) | (mp, _) \<Rightarrow> mp) = currentSize mp" for a mp
    using g(2)[of a mp] d by (auto split: prod.splits sum.splits bool.splits)
  have "currentSize (fold (\<lambda>a mp. case isLocal api a mp of (mp, Inr False) \<Rightarrow> fst (deletePendingMset api a mp) | (mp, _) \<Rightarrow> mp) xs mp) = currentSize mp" for xs
    by (rule fold_keeps[where P = "\<lambda>x. currentSize x = currentSize mp"]) (use n in auto)
  moreover have "currentSize (fold (\<lambda>a mp. case getPendingMset api a mp of (mp, Inr (Some ms)) \<Rightarrow> deleteLocalMsgs api ms mp | (mp, _) \<Rightarrow> mp) xs mp) = currentSize mp" for xs
    by (rule fold_keeps[where P = "\<lambda>x. currentSize x = currentSize mp"]) (use l in auto)
  ultimately show ?thesis by (simp add: Clear_def clearPending_def Let_def)
qed

subsection \<open>Funds\<close>

lemma mbind_InrE:
  assumes "mbind m k mp = (mp', Inr y)"
  obtains x mp1 where "m mp = (mp1, Inr x)" and "k x mp1 = (mp', Inr y)"
  using assms by (auto simp: mbind_def split: prod.splits sum.splits)

lemma quiet_same: "quiet m \<Longrightarrow> m mp = (mp', r) \<Longrightarrow> same_pending mp mp'"
  unfolding quiet_def by (metis fst_conv)

lemma checkBalance_result:
  assumes "checkBalance api m ts mp = (mp', Inr ())"
  obtains act f ra where "GetActorAfter api (From (Message m)) ts = Inr act" and "RequiredFunds (Message m) = Some f"
    and "map_of (keyCache mp') (From (Message m)) = Some ra"
    and "f + (case map_of (pending mp') ra of None \<Rightarrow> 0 | Some ms \<Rightarrow> getRequiredFunds ms (nonce_of m)) \<le> Balance act"
proof -
  obtain act where act: "GetActorAfter api (From (Message m)) ts = Inr act"
    using assms by (cases "GetActorAfter api (From (Message m)) ts")
      (auto simp: checkBalance_def mbind_def mcatch_def getStateBalance_def mlift_def other_def mfail_def)
  then have b: "mcatch (getStateBalance api (From (Message m)) ts) (\<lambda>_. mfail ErrSoftValidationFailure) mp = (mp, Inr (Balance act))"
    by (simp add: mcatch_def getStateBalance_def mbind_def mlift_def other_def mret_def)
  obtain f where f: "RequiredFunds (Message m) = Some f"
    using assms b by (cases "RequiredFunds (Message m)") (auto simp: checkBalance_def mbind_def mlift_def notNil_def)
  have "\<not> Balance act < f" using assms b f by (auto simp: checkBalance_def mbind_def mlift_def notNil_def mfail_def)
  then have "mbind (getPendingMset api (From (Message m))) (\<lambda>ms.
       let required = f + (case ms of None \<Rightarrow> 0 | Some ms \<Rightarrow> getRequiredFunds ms (nonce_of m))
       in if Balance act < required then mfail ErrSoftValidationFailure else mret ()) mp = (mp', Inr ())"
    using assms b f by (simp add: checkBalance_def mbind_def mlift_def notNil_def)
  then obtain found mp1 where g: "getPendingMset api (From (Message m)) mp = (mp1, Inr found)"
    and k: "(let required = f + (case found of None \<Rightarrow> 0 | Some ms \<Rightarrow> getRequiredFunds ms (nonce_of m))
       in if Balance act < required then mfail ErrSoftValidationFailure else mret ()) mp1 = (mp', Inr ())"
    by (elim mbind_InrE)
  have "mp' = mp1" "f + (case found of None \<Rightarrow> 0 | Some ms \<Rightarrow> getRequiredFunds ms (nonce_of m)) \<le> Balance act"
    using k by (auto simp: Let_def mfail_def mret_def split: if_splits)
  then show thesis using that[OF act f] getPending_result[OF g] by metis
qed

lemma funds_after_add:
  assumes "msgSet_add cd ms m strict untrusted = Inr (ms', new)" and "RequiredFunds (Message m) = Some f"
  shows "requiredFunds ms' = f + getRequiredFunds ms (nonce_of m)"
  using msgSet_add_Inr(3)[OF assms(1)] assms(2) by (auto simp: getRequiredFunds_def funds_def split: option.splits)

text \<open>
  C17. A message is only accepted when its sender can pay: after \<open>addTs\<close> the message is pending, and the balance of the
  sender covers the required funds of all its pending messages together, the replaced one left out.
\<close>

theorem accepted_messages_are_funded:
  assumes "addTs api m ts local untrusted mp = (mp', Inr publish)" and "pool_ok mp"
  shows "\<exists>act ra ms. GetActorAfter api (From (Message m)) ts = Inr act \<and> map_of (pending mp') ra = Some ms
    \<and> map_of (msgs ms) (nonce_of m) = Some m \<and> sum_list (map (funds \<circ> snd) (msgs ms)) \<le> Balance act"
proof -
  let ?n = "mcatch (getStateNonce api (From (Message m)) ts) (\<lambda>_. mfail ErrSoftValidationFailure)"
  from assms(1) obtain sn mp1 where 1: "?n mp = (mp1, Inr sn)" and r1: "(if sn > nonce_of m then mfail ErrNonceTooLow
      else mbind (verifyMsgBeforeAdd api m ts local) (\<lambda>publish. mbind (checkBalance api m ts) (\<lambda>_.
        mbind (addLocked api m (\<not> local) untrusted) (\<lambda>_. mbind (if local then addLocal api m else mret ()) (\<lambda>_. mret publish))))) mp1 = (mp', Inr publish)"
    unfolding addTs_def by (elim mbind_InrE)
  then obtain pb mp2 mp3 u mp4 v mp5 w where 2: "verifyMsgBeforeAdd api m ts local mp1 = (mp2, Inr pb)"
    and 3: "checkBalance api m ts mp2 = (mp3, Inr u)" and 4: "addLocked api m (\<not> local) untrusted mp3 = (mp4, Inr v)"
    and 5: "(if local then addLocal api m else mret ()) mp4 = (mp5, Inr w)" and 6: "mret pb mp5 = (mp', Inr publish)"
    by (auto simp: mfail_def split: if_splits elim!: mbind_InrE)
  have qn: "quiet ?n" by (rule quiet_mcatch) simp_all
  have s: "same_pending mp mp3"
    using quiet_same[OF qn 1] quiet_same[OF quiet_checks(2) 2] quiet_same[OF quiet_checks(3) 3] same_pending_trans by blast
  have q5: "quiet (if local then addLocal api m else mret ())" by simp
  have s5: "same_pending mp4 mp'" using quiet_same[OF q5 5] 6 by (simp add: mret_def)
  obtain act f ra where b: "GetActorAfter api (From (Message m)) ts = Inr act" "RequiredFunds (Message m) = Some f"
    "map_of (keyCache mp3) (From (Message m)) = Some ra"
    "f + (case map_of (pending mp3) ra of None \<Rightarrow> 0 | Some ms \<Rightarrow> getRequiredFunds ms (nonce_of m)) \<le> Balance act"
    using checkBalance_result[of api m ts mp2 mp3] 3 by auto
  from 4 show ?thesis
  proof (cases rule: addLocked_cases)
    case (added ra' ms n ms' new)
    then have ra: "ra' = ra" using b(3) by simp
    have "getRequiredFunds (newMsgSet n) k = 0" for k by (simp add: getRequiredFunds_def newMsgSet_def)
    then have "requiredFunds ms' \<le> Balance act" using funds_after_add[OF added(3) b(2)] added(2) b(4) ra by auto
    moreover have "set_ok ms'"
    proof -
      have "pool_ok mp4" using addLocked_pool_ok[of mp3 api m "\<not> local" untrusted] 4 s assms(2) by (simp add: pool_ok_def same_pending_def)
      moreover have "(ra', ms') \<in> set (pending mp4)" using added(4) by (simp add: map_of_SomeD update_conv')
      ultimately show ?thesis unfolding pool_ok_def pool_sets_def by (metis image_eqI snd_conv)
    qed
    moreover have "map_of (pending mp') ra' = Some ms'" using added(4) s5 by (simp add: same_pending_def update_conv')
    moreover have "map_of (msgs ms') (nonce_of m) = Some m" using msgSet_add_Inr(1)[OF added(3)] by (simp add: update_conv')
    ultimately show ?thesis using b(1) set_okD(3)[of ms'] by (intro exI[of _ act] exI[of _ ra'] exI[of _ ms']) simp
  qed simp_all
qed

text \<open>The sender of the example has a balance that covers two of its messages, but not three.\<close>

theorem accepted_messages_are_funded_witness:
  "\<exists>mp' act ra ms. addTs example_api (example_msg 5 10) (curTs example_pool) True False example_pool = (mp', Inr True)
    \<and> GetActorAfter example_api (From (Message (example_msg 5 10))) (curTs example_pool) = Inr act
    \<and> map_of (pending mp') ra = Some ms \<and> sum_list (map (funds \<circ> snd) (msgs ms)) \<le> Balance act"
proof -
  obtain mp' r where a: "addTs example_api (example_msg 5 10) (curTs example_pool) True False example_pool = (mp', r)" by fastforce
  have "snd (addTs example_api (example_msg 5 10) (curTs example_pool) True False example_pool) = Inr True" by code_simp
  then have a': "addTs example_api (example_msg 5 10) (curTs example_pool) True False example_pool = (mp', Inr True)" using a by simp
  have "pool_ok example_pool" by (simp add: pool_ok_def pool_sets_def example_pool_def)
  from accepted_messages_are_funded[OF a' this] obtain act ra ms
    where "GetActorAfter example_api (From (Message (example_msg 5 10))) (curTs example_pool) = Inr act" "map_of (pending mp') ra = Some ms"
      "sum_list (map (funds \<circ> snd) (msgs ms)) \<le> Balance act" by (elim exE conjE)
  with a' show ?thesis by (intro exI[of _ mp'] exI[of _ act] exI[of _ ra] exI[of _ ms] conjI)
qed

subsection \<open>Signatures\<close>

text \<open>The signature of a message is valid.\<close>

definition validly_signed :: "mpool_api \<Rightarrow> SignedMessage \<Rightarrow> bool" where
  "validly_signed api m \<longleftrightarrow> sigs_Verify api (Signature m) (From (Message m)) (msgCid (api_codec api) (Message m)) = None"

text \<open>The keys of the cache are made with a hash without collisions, so they tell signed messages apart.\<close>

definition sig_keys_distinct :: "mpool_api \<Rightarrow> bool" where
  "sig_keys_distinct api \<longleftrightarrow> (\<forall>m m' k. sigCacheKey api m = Inr k \<longrightarrow> sigCacheKey api m' = Inr k \<longrightarrow>
     Signature m = Signature m' \<and> From (Message m) = From (Message m') \<and> msgCid (api_codec api) (Message m) = msgCid (api_codec api) (Message m'))"

definition sigs_ok :: "mpool_api \<Rightarrow> MessagePool \<Rightarrow> bool" where
  "sigs_ok api mp \<longleftrightarrow> (\<forall>k\<in>set (sigValCache mp). \<exists>m. sigCacheKey api m = Inr k \<and> validly_signed api m)"

lemma sigs_ok_upd [simp]:
  "sigs_ok api (mp\<lparr>keyCache := x1\<rparr>) = sigs_ok api mp" "sigs_ok api (mp\<lparr>pending := x2\<rparr>) = sigs_ok api mp"
  "sigs_ok api (mp\<lparr>localAddrs := x3\<rparr>) = sigs_ok api mp" "sigs_ok api (mp\<lparr>localMsgs := x4\<rparr>) = sigs_ok api mp"
  "sigs_ok api (mp\<lparr>nonceCache := x5\<rparr>) = sigs_ok api mp" "sigs_ok api (mp\<lparr>blsSigCache := x6\<rparr>) = sigs_ok api mp"
  "sigs_ok api (mp\<lparr>changes := x7\<rparr>) = sigs_ok api mp" "sigs_ok api (mp\<lparr>published := x8\<rparr>) = sigs_ok api mp"
  "sigs_ok api (mp\<lparr>currentSize := x9, pruneTrigger := x10\<rparr>) = sigs_ok api mp" "sigs_ok api (mp\<lparr>curTs := x11\<rparr>) = sigs_ok api mp"
  "sigs_ok api (mp\<lparr>repubTrigger := x12\<rparr>) = sigs_ok api mp" "sigs_ok api (mp\<lparr>changes := x7, currentSize := x9\<rparr>) = sigs_ok api mp"
  by (simp_all add: sigs_ok_def)

lemma sound_VerifyMsgSig:
  assumes "\<And>c. set (keeps_sig api c) \<subseteq> set c"
  shows "sound (sigs_ok api) (VerifyMsgSig api m)"
proof -
  have "sigs_ok api (fst (VerifyMsgSig api m mp))" if ok: "sigs_ok api mp" for mp
  proof (cases "sigCacheKey api m")
    case (Inl e)
    then show ?thesis using ok by (simp add: VerifyMsgSig_def mbind_def mlift_def)
  next
    case (Inr k)
    show ?thesis
    proof (cases "k \<in> set (sigValCache mp) \<or> \<not> validly_signed api m")
      case True
      then show ?thesis using ok Inr
        by (auto simp: VerifyMsgSig_def mbind_def mlift_def mget_def mret_def validly_signed_def checked_def split: option.splits)
    next
      case False
      then have e: "fst (VerifyMsgSig api m mp) = mp\<lparr>sigValCache := keeps_sig api (k # sigValCache mp)\<rparr>"
        using Inr by (simp add: VerifyMsgSig_def mbind_def mlift_def mget_def mupd_def validly_signed_def checked_def)
      show ?thesis unfolding e sigs_ok_def
      proof
        fix x assume "x \<in> set (sigValCache (mp\<lparr>sigValCache := keeps_sig api (k # sigValCache mp)\<rparr>))"
        then have "x \<in> set (k # sigValCache mp)" using assms[of "k # sigValCache mp"] by auto
        then show "\<exists>m. sigCacheKey api m = Inr x \<and> validly_signed api m" using ok Inr False unfolding sigs_ok_def by auto
      qed
    qed
  qed
  then show ?thesis by (simp add: sound_def)
qed

lemma sigs_resolve [simp]: "sound (sigs_ok api) (resolveToKey api a)"
  by (auto simp: resolveToKey_def split: option.splits)

lemma sigs_get [simp]: "sound (sigs_ok api) (getPendingMset api a)" "sound (sigs_ok api) (isLocal api a)" "sound (sigs_ok api) (setLocal api a)"
  "sound (sigs_ok api) (addLocal api m)" "sound (sigs_ok api) (setPendingMset api a ms)" "sound (sigs_ok api) (deletePendingMset api a)"
  by (auto simp: getPendingMset_def isLocal_def setLocal_def addLocal_def setPendingMset_def deletePendingMset_def)

lemma sigs_nonce [simp]: "sound (sigs_ok api) (getStateNonce api a ts)" "sound (sigs_ok api) (getStateBalance api a ts)"
  by (auto simp: getStateNonce_def getStateBalance_def split: option.splits)

lemma sigs_checks [simp]: "sound (sigs_ok api) (verifyMsgBeforeAdd api m ts l)" "sound (sigs_ok api) (checkBalance api m ts)"
  "sound (sigs_ok api) (getNonceLocked api a ts)" "sound (sigs_ok api) (publish_msg api m b)"
  by (auto simp: verifyMsgBeforeAdd_def checkBalance_def getNonceLocked_def publish_msg_def Let_def split: option.splits)

lemma sigs_addLocked [simp]: "sound (sigs_ok api) (addLocked api m strict untrusted)"
proof -
  have "sound (sigs_ok api) (mset_for api a)" for a by (auto simp: mset_for_def split: option.splits)
  moreover have "sound (sigs_ok api) (add_to_mset api m strict untrusted ms)" for ms by (auto simp: add_to_mset_def)
  ultimately show ?thesis by (auto simp: addLocked_def)
qed

lemma sigs_remove: "sigs_ok api mp \<Longrightarrow> sigs_ok api (remove api from nonce applied mp)"
  using sigs_get(1,5,6)[of api] unfolding sound_def remove_def
  by (auto simp: Let_def split: prod.splits sum.splits option.splits) (metis fst_conv sigs_ok_upd(12))+

lemma sigs_addTs [simp]: "sound (sigs_ok api) (addTs api m ts local untrusted)"
  unfolding addTs_def by auto

lemma sigs_step:
  assumes kp: "\<And>c. set (keeps_sig api c) \<subseteq> set c" and "pool_step api mp mp'" and "sigs_ok api mp"
  shows "sigs_ok api mp'"
proof -
  have v [simp]: "sound (sigs_ok api) (VerifyMsgSig api m)" for m using sound_VerifyMsgSig[OF kp] .
  have c [simp]: "sound (sigs_ok api) (checkMessage api m)" for m by (auto simp: checkMessage_def)
  have l [simp]: "sound (sigs_ok api) (addLoaded api m)" for m by (auto simp: addLoaded_def)
  have e: "sound (sigs_ok api) (Push api m)" "sound (sigs_ok api) (Add api m)" "sound (sigs_ok api) (PushUntrusted api m)" "sound (sigs_ok api) (GetNonce api a)" for m a
    unfolding Push_def Add_def PushUntrusted_def GetNonce_def by auto
  have ld: "sound (sigs_ok api) (loadLocal api rs)" for rs
  proof (induction rs)
    case (Cons r rs)
    then show ?case by (cases r) auto
  qed simp
  from assms(2,3) show ?thesis
  proof (induction rule: pool_step.induct)
    case (remove mp "from" nonce applied)
    then show ?case by (rule sigs_remove)
  next
    case (pending_for mp a)
    then show ?case using sigs_get(1) by (simp add: pendingFor_fst sound_def)
  next
    case (head_change mp iter revert app)
    show ?case
      by (rule mpool_HeadChange_keeps) (use head_change sigs_addLocked in \<open>simp_all add: sigs_remove addSkipChecks_def sound_def\<close>)
  qed (use e ld in \<open>auto simp: sound_def\<close>)
qed

lemma VerifyMsgSig_valid:
  assumes "VerifyMsgSig api m mp = (mp', Inr u)" and "sigs_ok api mp" and "sig_keys_distinct api"
  shows "validly_signed api m"
proof (cases "sigCacheKey api m")
  case (Inl e)
  then show ?thesis using assms(1) by (simp add: VerifyMsgSig_def mbind_def mlift_def)
next
  case (Inr k)
  show ?thesis
  proof (cases "k \<in> set (sigValCache mp)")
    case True
    then obtain m' where "sigCacheKey api m' = Inr k" "validly_signed api m'" using assms(2) unfolding sigs_ok_def by blast
    then show ?thesis using assms(3) Inr unfolding sig_keys_distinct_def validly_signed_def by metis
  next
    case False
    then show ?thesis using assms(1) Inr
      by (auto simp: VerifyMsgSig_def mbind_def mlift_def mget_def checked_def validly_signed_def split: option.splits)
  qed
qed

lemma checkMessage_valid:
  assumes "checkMessage api m mp = (mp', Inr u)" and "sigs_ok api mp" and "sig_keys_distinct api"
  shows "validly_signed api m"
proof -
  obtain mp1 where "VerifyMsgSig api m mp1 = (mp', Inr u)" "sigValCache mp1 = sigValCache mp"
    using assms(1) unfolding checkMessage_def
    by (auto simp: mfail_def mlift_def mget_def split: if_splits elim!: mbind_InrE)
  then show ?thesis using VerifyMsgSig_valid[of api m mp1] assms(2,3) by (simp add: sigs_ok_def)
qed


text \<open>A provider whose CIDs and hashes have no collisions, and which accepts empty signatures only.\<close>

fun addr_text :: "address \<Rightarrow> string" where
  "addr_text AddrUndef = ''u''"
| "addr_text (AddrID n) = CHR ''i'' # replicate n (CHR ''1'')"
| "addr_text (AddrSecp s) = CHR ''s'' # s"
| "addr_text (AddrBLS s) = CHR ''b'' # s"
| "addr_text (AddrActor s) = CHR ''a'' # s"

fun bytes_text :: "bytes \<Rightarrow> string" where
  "bytes_text [] = ''#''"
| "bytes_text (n # ns) = replicate n (CHR ''1'') @ CHR ''0'' # bytes_text ns"

definition strict_codec :: codec where
  "strict_codec = \<lparr>msgLen = (\<lambda>m. 100), smLen = (\<lambda>m. 166), msgCid = (\<lambda>m. addr_text (From m)),
     sumCid = (\<lambda>m. bytes_text (Data (Signature m)) @ addr_text (From (Message m)))\<rparr>"

definition strict_api :: mpool_api where
  "strict_api = example_api\<lparr>api_codec := strict_codec, hash_sig := (\<lambda>c d. 1 # d @ map of_char c), cid_bytes := (\<lambda>c. 0 # map of_char c),
     sigs_Verify := (\<lambda>s a c. if Data s = [] then None else Some ''bad signature'')\<rparr>"

lemma addr_text_inj: "addr_text a = addr_text b \<Longrightarrow> a = b"
  by (cases a; cases b) (auto dest: arg_cong[where f = length])

lemma ones_inj:
  assumes "replicate n (CHR ''1'') @ CHR ''0'' # u = replicate k (CHR ''1'') @ CHR ''0'' # v"
  shows "n = k \<and> u = v"
  using assms
proof (induction n arbitrary: k)
  case 0
  then show ?case by (cases k) simp_all
next
  case (Suc n)
  then show ?case by (cases k) simp_all
qed

lemma bytes_text_inj: "bytes_text xs @ s = bytes_text ys @ t \<Longrightarrow> xs = ys \<and> s = t"
proof (induction xs ys rule: list_induct2')
  case 1
  then show ?case by simp
next
  case (2 n xs)
  then show ?case by (cases n) simp_all
next
  case (3 k ys)
  then show ?case by (cases k) simp_all
next
  case (4 n xs k ys)
  have "replicate n (CHR ''1'') @ CHR ''0'' # (bytes_text xs @ s) = replicate k (CHR ''1'') @ CHR ''0'' # (bytes_text ys @ t)"
    using "4.prems" by simp
  from ones_inj[OF this] show ?case using "4.IH" by simp
qed

lemma chars_inj:
  assumes "map of_char s = map (of_char :: char \<Rightarrow> nat) t"
  shows "s = t"
proof -
  have "map char_of (map (of_char :: char \<Rightarrow> nat) s) = map char_of (map (of_char :: char \<Rightarrow> nat) t)" using assms by (rule arg_cong)
  then show ?thesis by (simp add: comp_def)
qed

lemma strict_key:
  "sigCacheKey strict_api m = (case Type (Signature m) of
     SigTypeBLS \<Rightarrow> if length (Data (Signature m)) \<noteq> 96 then Inl (MsgSet.ErrOther ''bls signature incorrectly sized'')
                   else Inr (1 # Data (Signature m) @ map of_char (addr_text (From (Message m))))
   | SigTypeSecp256k1 \<Rightarrow> Inr (0 # map of_char (bytes_text (Data (Signature m)) @ addr_text (From (Message m))))
   | SigTypeOther _ \<Rightarrow> Inl (MsgSet.ErrOther ''unrecognized signature type''))"
  by (simp add: sigCacheKey_def strict_api_def strict_codec_def example_api_def Cid_def split: SigType.splits)

lemma strict_keys: "sig_keys_distinct strict_api"
  unfolding sig_keys_distinct_def
proof (intro allI impI)
  fix m m' k
  assume k: "sigCacheKey strict_api m = Inr k" "sigCacheKey strict_api m' = Inr k"
  have "Type (Signature m) = Type (Signature m') \<and> Data (Signature m) = Data (Signature m') \<and> From (Message m) = From (Message m')"
  proof (cases "Type (Signature m)")
    case SigTypeSecp256k1
    then have t: "Type (Signature m') = SigTypeSecp256k1" using k by (auto simp: strict_key split: SigType.splits if_splits)
    have "(map of_char (bytes_text (Data (Signature m)) @ addr_text (From (Message m))) :: bytes)
        = map of_char (bytes_text (Data (Signature m')) @ addr_text (From (Message m')))"
      using k SigTypeSecp256k1 t by (auto simp: strict_key simp del: map_append)
    from bytes_text_inj[OF chars_inj[OF this]] show ?thesis using SigTypeSecp256k1 t addr_text_inj by simp
  next
    case SigTypeBLS
    then have t: "Type (Signature m') = SigTypeBLS" using k by (auto simp: strict_key split: SigType.splits if_splits)
    then have "Data (Signature m) @ map of_char (addr_text (From (Message m))) = Data (Signature m') @ map of_char (addr_text (From (Message m')))"
      "length (Data (Signature m)) = length (Data (Signature m'))"
      using k SigTypeBLS by (auto simp: strict_key split: if_splits)
    then show ?thesis using SigTypeBLS t chars_inj addr_text_inj by auto
  next
    case (SigTypeOther n)
    then show ?thesis using k by (simp add: strict_key)
  qed
  then show "Signature m = Signature m' \<and> From (Message m) = From (Message m')
      \<and> msgCid (api_codec strict_api) (Message m) = msgCid (api_codec strict_api) (Message m')"
    by (simp add: strict_api_def strict_codec_def)
qed



text \<open>
  Messages of the gateway are pushed as local ones, so they are not added strictly, and then the stricter limits for
  untrusted sources have no effect.
\<close>

lemma push_untrusted_is_push: "PushUntrusted api m = Push api m"
proof -
  have "msgSet_add cd ms m False True = msgSet_add cd ms m False False" for cd ms by (simp add: msgSet_add_def Let_def split: option.split)
  then have "add_to_mset api m False True = add_to_mset api m False False" by (intro ext) (simp add: add_to_mset_def)
  then have al: "addLocked api m False True = addLocked api m False False" unfolding addLocked_def by (rule arg_cong)
  have "addTs api m ts True True = addTs api m ts True False" for ts unfolding addTs_def not_True_eq_False al by (rule refl)
  then show ?thesis by (simp add: PushUntrusted_def Push_def)
qed

text \<open>A message from the data store that is loaded before the head is known makes the pool panic.\<close>

lemma load_without_head_panics:
  assumes "curTs mp = None" and "Size (api_codec api) m \<le> MaxMessageSize"
  shows "snd (addLoaded api m mp) = Inl Panic"
  using assms by (simp add: addLoaded_def checkMessage_def mbind_def mget_def mlift_def notNil_def)

end
