(* ===== verification/Coalescer.thy ===== *)
theory Coalescer
  imports ChainHead
begin

section \<open>Merging head changes\<close>

text \<open>
  Models \<open>src/chain/store/coalescer.go\<close>: an observer of head changes that merges the incoming changes with those it
  has not passed on yet, and passes the merged change to another observer after a delay. Times and delays are
  integers (nanoseconds); the zero time and a nil timer are \<^term>\<open>None\<close>, and so are the nil slices that the code
  distinguishes from empty ones.
\<close>

subsection \<open>The coalescer\<close>

record HeadChangeCoalescer =
  co_revert :: "TipSet list option"
  co_apply :: "TipSet list option"
  co_first :: "int option"
  co_last :: "int option"
  timerC :: "int option"
  co_closed :: bool

definition NewHeadChangeCoalescer :: HeadChangeCoalescer where
  "NewHeadChangeCoalescer = \<lparr>co_revert = None, co_apply = None, co_first = None, co_last = None, timerC = None, co_closed = False\<rparr>"

abbreviation slice :: "'a list option \<Rightarrow> 'a list" where
  "slice s \<equiv> case_option [] id s"

definition merge :: "TipSet list \<Rightarrow> TipSet list \<Rightarrow> TipSetKey set \<Rightarrow> TipSetKey set \<Rightarrow> TipSet list" where
  "merge pend incoming cancel1 cancel2 =
    filter (\<lambda>ts. Key ts \<notin> cancel1 \<and> Key ts \<notin> cancel2) pend @ filter (\<lambda>ts. Key ts \<notin> cancel1 \<and> Key ts \<notin> cancel2) incoming"

definition coalesce :: "HeadChangeCoalescer \<Rightarrow> TipSet list \<Rightarrow> TipSet list \<Rightarrow> HeadChangeCoalescer" where
  "coalesce c revert app =
    (let pendRevert = set (map Key (slice (co_revert c)));
         pendApply = set (map Key (slice (co_apply c)));
         reverting = set (map Key revert);
         applying = set (map Key app)
     in c\<lparr>co_revert := Some (merge (slice (co_revert c)) revert pendApply applying),
          co_apply := Some (merge (slice (co_apply c)) app pendRevert reverting)\<rparr>)"

text \<open>Passing the change on returns what the other observer is called with.\<close>

definition dispatch :: "HeadChangeCoalescer \<Rightarrow> HeadChangeCoalescer \<times> (TipSet list \<times> TipSet list)" where
  "dispatch c = (c\<lparr>co_revert := None, co_apply := None\<rparr>, (slice (co_revert c), slice (co_apply c)))"

text \<open>What the background loop waits for: a head change, its timer, or that the coalescer is closed.\<close>

datatype co_event = Incoming "TipSet list" "TipSet list" int | TimerFires int | CtxDone

record co_delays =
  minDelay :: int
  maxDelay :: int
  mergeInterval :: int

definition background :: "co_delays \<Rightarrow> HeadChangeCoalescer \<Rightarrow> co_event \<Rightarrow> HeadChangeCoalescer \<times> (TipSet list \<times> TipSet list) list" where
  "background d c ev = (case ev of
     Incoming revert app now \<Rightarrow>
       let c = coalesce c revert app;
           c = c\<lparr>co_last := Some now, co_first := (case co_first c of None \<Rightarrow> Some now | Some f \<Rightarrow> Some f)\<rparr>
       in (c\<lparr>timerC := (case timerC c of None \<Rightarrow> Some (now + minDelay d) | Some t \<Rightarrow> Some t)\<rparr>, [])
   | TimerFires now \<Rightarrow>
       let sinceFirst = now - (case co_first c of None \<Rightarrow> 0 | Some f \<Rightarrow> f);
           sinceLast = now - (case co_last c of None \<Rightarrow> 0 | Some l \<Rightarrow> l)
       in if sinceLast < mergeInterval d \<and> sinceFirst < maxDelay d then
            let maxWait = maxDelay d - sinceFirst;
                wait = (if maxWait < minDelay d then maxWait else minDelay d)
            in (c\<lparr>timerC := Some (now + wait)\<rparr>, [])
          else
            let (c, n) = dispatch c
            in (c\<lparr>co_first := None, co_last := None, timerC := None\<rparr>, [n])
   | CtxDone \<Rightarrow>
       if co_revert c \<noteq> None \<or> co_apply c \<noteq> None then
         let (c, n) = dispatch c in (c\<lparr>co_closed := True\<rparr>, [n])
       else (c\<lparr>co_closed := True\<rparr>, []))"

text \<open>What the loop can receive: nothing once it has ended, the timer only when it is due.\<close>

definition receives :: "HeadChangeCoalescer \<Rightarrow> co_event \<Rightarrow> bool" where
  "receives c ev \<longleftrightarrow> \<not> co_closed c \<and> (case ev of TimerFires now \<Rightarrow> (\<exists>t. timerC c = Some t \<and> t \<le> now) | _ \<Rightarrow> True)"

subsection \<open>Merged changes are minimal\<close>

lemma chain_of_self: "chain_of lts a us \<Longrightarrow> t \<in> set us \<Longrightarrow> lts (Key t) = Inr t"
  by (induction rule: chain_of.induct) auto

lemma branch_filter:
  assumes "chain_of lts a us" and "chain_of lts b vs" and "last us = last vs"
  shows "branch us vs = filter (\<lambda>t. t \<notin> set vs) us"
proof -
  obtain c where c: "us = branch us vs @ c" "vs = branch vs us @ c" using branches_meet[OF assms] by blast
  have "filter (\<lambda>t. t \<notin> set vs) (branch us vs) = branch us vs"
    unfolding branch_def by (rule filter_True) (auto dest: set_takeWhileD)
  moreover have "filter (\<lambda>t. t \<notin> set vs) c = []" using c(2) by (metis Un_iff filter_False set_append)
  ultimately show ?thesis using c(1) by (metis append_Nil2 filter_append)
qed

text \<open>Three chains: what leaves the first for the second or the second for the third, without what comes back.\<close>

lemma branch_two_steps:
  assumes "chain_of lts a us" and "chain_of lts b vs" and "last us = last vs"
  shows "filter (\<lambda>t. t \<notin> set ws) (branch us vs) @ filter (\<lambda>t. t \<in> set us \<and> t \<notin> set ws) vs = filter (\<lambda>t. t \<notin> set ws) us"
proof -
  obtain c where c: "us = branch us vs @ c" "vs = branch vs us @ c" using branches_meet[OF assms] by blast
  have "filter (\<lambda>t. t \<in> set us \<and> t \<notin> set ws) (branch vs us) = []"
    by (auto simp: branch_def filter_empty_conv dest: set_takeWhileD)
  then have "filter (\<lambda>t. t \<in> set us \<and> t \<notin> set ws) vs = filter (\<lambda>t. t \<in> set us \<and> t \<notin> set ws) c" by (subst c(2)) simp
  also have "\<dots> = filter (\<lambda>t. t \<notin> set ws) c" using c(1) by (intro filter_cong) (auto, metis Un_iff set_append)
  finally show ?thesis by (metis c(1) filter_append)
qed

lemma set_branch:
  assumes "chain_of lts a us" and "chain_of lts b vs" and "last us = last vs"
  shows "t \<in> set (branch us vs) \<longleftrightarrow> t \<in> set us \<and> t \<notin> set vs"
  by (simp add: branch_filter[OF assms])

lemma Key_in_branch:
  assumes "chain_of lts a us" and "chain_of lts b vs" and "last us = last vs" and "lts (Key t) = Inr t"
  shows "Key t \<in> Key ` set (branch us vs) \<longleftrightarrow> t \<in> set us \<and> t \<notin> set vs"
proof
  assume "Key t \<in> Key ` set (branch us vs)"
  then obtain u where u: "u \<in> set us" "u \<notin> set vs" "Key t = Key u" by (auto simp: set_branch[OF assms(1-3)])
  then have "t = u" using chain_of_self[OF assms(1) u(1)] assms(4) by simp
  then show "t \<in> set us \<and> t \<notin> set vs" using u by simp
qed (simp add: set_branch[OF assms(1-3)])

text \<open>The pending change of the coalescer leads from one chain to another, as directly as possible.\<close>

definition spans :: "HeadChangeCoalescer \<Rightarrow> TipSet list \<Rightarrow> TipSet list \<Rightarrow> bool" where
  "spans c us vs \<longleftrightarrow> slice (co_revert c) = branch us vs \<and> slice (co_apply c) = rev (branch vs us)"

lemma coalesce_spans:
  assumes us: "chain_of lts h us" and vs: "chain_of lts a vs" and ws: "chain_of lts b ws"
    and l: "last us = last vs" "last vs = last ws" and c: "spans c us vs"
  shows "spans (coalesce c (branch vs ws) (rev (branch ws vs))) us ws"
proof -
  have ul: "last us = last ws" using l by simp
  note self = chain_of_self[OF us] chain_of_self[OF vs] chain_of_self[OF ws]
  note brs = branch_filter[OF us vs l(1)] branch_filter[OF vs us l(1)[symmetric]] branch_filter[OF vs ws l(2)] branch_filter[OF ws vs l(2)[symmetric]]
  note keys = Key_in_branch[OF us vs l(1)] Key_in_branch[OF vs us l(1)[symmetric]] Key_in_branch[OF vs ws l(2)] Key_in_branch[OF ws vs l(2)[symmetric]]
  note mem = set_branch[OF us vs l(1)] set_branch[OF vs us l(1)[symmetric]] set_branch[OF vs ws l(2)] set_branch[OF ws vs l(2)[symmetric]]
  let ?P = "\<lambda>ts. Key ts \<notin> Key ` set (branch vs us) \<and> Key ts \<notin> Key ` set (branch ws vs)"
  let ?Q = "\<lambda>ts. Key ts \<notin> Key ` set (branch us vs) \<and> Key ts \<notin> Key ` set (branch vs ws)"
  have "filter ?P (branch us vs) = filter (\<lambda>t. t \<notin> set ws) (branch us vs)"
    by (rule filter_cong[OF refl]) (use self in \<open>auto simp: keys mem\<close>)
  moreover have "filter ?P (branch vs ws) = filter (\<lambda>t. t \<in> set us \<and> t \<notin> set ws) vs"
    unfolding brs(3) filter_filter by (rule filter_cong[OF refl]) (use self in \<open>auto simp: keys\<close>)
  ultimately have rv: "filter ?P (branch us vs) @ filter ?P (branch vs ws) = branch us ws"
    using branch_two_steps[OF us vs l(1)] branch_filter[OF us ws ul] by simp
  have "filter ?Q (branch ws vs) = filter (\<lambda>t. t \<notin> set us) (branch ws vs)"
    by (rule filter_cong[OF refl]) (use self in \<open>auto simp: keys mem\<close>)
  moreover have "filter ?Q (branch vs us) = filter (\<lambda>t. t \<in> set ws \<and> t \<notin> set us) vs"
    unfolding brs(2) filter_filter by (rule filter_cong[OF refl]) (use self in \<open>auto simp: keys\<close>)
  ultimately have ap: "filter ?Q (branch ws vs) @ filter ?Q (branch vs us) = branch ws us"
    using branch_two_steps[OF ws vs l(2)[symmetric]] branch_filter[OF ws us ul[symmetric]] by simp
  have "filter ?Q (rev (branch vs us)) @ filter ?Q (rev (branch ws vs)) = rev (branch ws us)"
    unfolding ap[symmetric] by (simp add: rev_filter)
  then show ?thesis using c rv by (simp add: spans_def coalesce_def merge_def)
qed

subsection \<open>Runs of the coalescer\<close>

text \<open>
  A run of the background loop on the chain of an initial head: each incoming head change is the one the worker
  delivers between the current chain and the next. The run has what was passed on so far and the current chain.
\<close>

inductive co_run :: "co_delays \<Rightarrow> loader \<Rightarrow> TipSet list \<Rightarrow> HeadChangeCoalescer \<Rightarrow> head_event list \<Rightarrow> TipSet list \<Rightarrow> bool" for d lts v0 where
  start: "co_run d lts v0 NewHeadChangeCoalescer [] v0"
| incoming: "co_run d lts v0 c es v \<Longrightarrow> chain_of lts b w \<Longrightarrow> last w = last v
    \<Longrightarrow> receives c (Incoming (branch v w) (rev (branch w v)) now) \<Longrightarrow> background d c (Incoming (branch v w) (rev (branch w v)) now) = (c', ns)
    \<Longrightarrow> co_run d lts v0 c' (es @ map (\<lambda>(r, a). Delivered r a) ns) w"
| other: "co_run d lts v0 c es v \<Longrightarrow> receives c ev \<Longrightarrow> (\<exists>now. ev = TimerFires now) \<or> ev = CtxDone \<Longrightarrow> background d c ev = (c', ns)
    \<Longrightarrow> co_run d lts v0 c' (es @ map (\<lambda>(r, a). Delivered r a) ns) v"

text \<open>The timer runs exactly while something is pending, and it is due in time.\<close>

definition timer_ok :: "co_delays \<Rightarrow> HeadChangeCoalescer \<Rightarrow> bool" where
  "timer_ok d c \<longleftrightarrow> \<not> co_closed c \<longrightarrow> (co_first c = None \<longleftrightarrow> timerC c = None) \<and> (co_revert c = None \<longleftrightarrow> timerC c = None) \<and> (co_apply c = None \<longleftrightarrow> timerC c = None)
     \<and> (\<forall>t f. timerC c = Some t \<longrightarrow> co_first c = Some f \<longrightarrow> t \<le> f + max (minDelay d) (maxDelay d))"

lemma background_timer_ok:
  assumes "timer_ok d c" and "receives c ev" and "background d c ev = (c', ns)"
  shows "timer_ok d c'"
proof (cases ev)
  case (Incoming r a now)
  then show ?thesis using assms by (auto simp: background_def receives_def coalesce_def timer_ok_def Let_def split: option.splits)
next
  case (TimerFires now)
  then obtain t f where "timerC c = Some t" "co_first c = Some f" "co_revert c \<noteq> None" "co_apply c \<noteq> None"
    using assms by (auto simp: receives_def timer_ok_def)
  then show ?thesis using assms(3) TimerFires
    by (auto simp: background_def dispatch_def timer_ok_def Let_def split: if_splits)
next
  case CtxDone
  then show ?thesis using assms(3) by (auto simp: background_def dispatch_def timer_ok_def Let_def split: if_splits)
qed

text \<open>What was passed on and what is pending, together, lead to the current chain.\<close>

definition co_ok :: "loader \<Rightarrow> TipSet list \<Rightarrow> HeadChangeCoalescer \<Rightarrow> head_event list \<Rightarrow> TipSet list \<Rightarrow> bool" where
  "co_ok lts v0 c es v \<longleftrightarrow> (\<exists>h b u. chain_of lts b v \<and> chain_of lts h u \<and> last u = last v \<and> replay es v0 = Some u \<and> spans c u v)"

lemma co_ok_dispatch:
  assumes "co_ok lts v0 c es v" and "slice (co_revert c') = []" and "slice (co_apply c') = []"
  shows "co_ok lts v0 c' (es @ [Delivered (slice (co_revert c)) (slice (co_apply c))]) v"
proof -
  obtain h b u where i: "chain_of lts b v" "chain_of lts h u" "last u = last v" "replay es v0 = Some u" "spans c u v"
    using assms(1) unfolding co_ok_def by blast
  have "change_view (slice (co_revert c)) (slice (co_apply c)) u = Some v"
    using change_view_branches[OF i(2,1,3)] i(5) by (simp add: spans_def)
  then have "replay (es @ [Delivered (slice (co_revert c)) (slice (co_apply c))]) v0 = Some v" using i(4) by (simp add: replay_append)
  then show ?thesis using i(1) assms(2,3) branch_self[OF i(1)] unfolding co_ok_def spans_def by (metis rev.simps(1))
qed

lemma co_run_ok:
  assumes "co_run d lts v0 c es v" and "chain_of lts h0 v0"
  shows "co_ok lts v0 c es v \<and> timer_ok d c"
  using assms(1)
proof (induction rule: co_run.induct)
  case start
  have "co_ok lts v0 NewHeadChangeCoalescer [] v0"
    unfolding co_ok_def spans_def using assms(2) branch_self[OF assms(2)] by (auto simp: NewHeadChangeCoalescer_def)
  then show ?case by (simp add: timer_ok_def NewHeadChangeCoalescer_def)
next
  case (incoming c es v b w now c' ns)
  obtain h a u where i: "chain_of lts a v" "chain_of lts h u" "last u = last v" "replay es v0 = Some u" "spans c u v"
    using incoming.IH unfolding co_ok_def by blast
  have "ns = []" "slice (co_revert c') = slice (co_revert (coalesce c (branch v w) (rev (branch w v))))"
    "slice (co_apply c') = slice (co_apply (coalesce c (branch v w) (rev (branch w v))))"
    using incoming.hyps(5) by (auto simp: background_def Let_def)
  moreover have "spans (coalesce c (branch v w) (rev (branch w v))) u w"
    using coalesce_spans[OF i(2,1) incoming.hyps(2) i(3) incoming.hyps(3)[symmetric] i(5)] .
  ultimately have "co_ok lts v0 c' (es @ map (\<lambda>(r, a). Delivered r a) ns) w"
    using i incoming.hyps(2,3) unfolding co_ok_def spans_def by auto
  then show ?case using background_timer_ok[OF _ incoming.hyps(4,5)] incoming.IH by blast
next
  case (other c es v ev c' ns)
  have "co_ok lts v0 c' (es @ map (\<lambda>(r, a). Delivered r a) ns) v"
  proof (cases "ns = []")
    case True
    then have "slice (co_revert c') = slice (co_revert c)" "slice (co_apply c') = slice (co_apply c)"
      using other.hyps(3,4) by (auto simp: background_def dispatch_def Let_def split: if_splits)
    then show ?thesis using other.IH True by (simp add: co_ok_def spans_def)
  next
    case False
    then have "ns = [(slice (co_revert c), slice (co_apply c))]" "slice (co_revert c') = []" "slice (co_apply c') = []"
      using other.hyps(3,4) by (auto simp: background_def dispatch_def Let_def split: if_splits)
    then show ?thesis using co_ok_dispatch[of lts v0 c es v c'] other.IH by simp
  qed
  then show ?case using background_timer_ok[OF _ other.hyps(2,4)] other.IH by blast
qed

text \<open>The head moves from \<open>b\<close> to \<open>c\<close>; the change is pending.\<close>

definition example_delays :: co_delays where
  "example_delays = \<lparr>minDelay = 2, maxDelay = 6, mergeInterval = 1\<rparr>"

definition example_pending :: HeadChangeCoalescer where
  "example_pending = \<lparr>co_revert = Some [example_ts ''b'' [''a''] 50], co_apply = Some [example_ts ''c'' [''a''] 60],
     co_first = Some 5, co_last = Some 5, timerC = Some 7, co_closed = False\<rparr>"

lemma example_co_run:
  "co_run example_delays example_store [example_ts ''b'' [''a''] 50, example_ts ''a'' [''g''] 25, example_ts ''g'' [] 0] example_pending []
     [example_ts ''c'' [''a''] 60, example_ts ''a'' [''g''] 25, example_ts ''g'' [] 0]"
proof -
  let ?v = "[example_ts ''b'' [''a''] 50, example_ts ''a'' [''g''] 25, example_ts ''g'' [] 0]"
  let ?w = "[example_ts ''c'' [''a''] 60, example_ts ''a'' [''g''] 25, example_ts ''g'' [] 0]"
  have br: "branch ?v ?w = [example_ts ''b'' [''a''] 50]" "branch ?w ?v = [example_ts ''c'' [''a''] 60]"
    by (simp_all add: branch_def example_ts_def)
  have l: "last ?w = last ?v" by simp
  have r: "receives NewHeadChangeCoalescer (Incoming (branch ?v ?w) (rev (branch ?w ?v)) 5)" by (simp add: receives_def NewHeadChangeCoalescer_def)
  have "background example_delays NewHeadChangeCoalescer (Incoming (branch ?v ?w) (rev (branch ?w ?v)) 5) = (example_pending, [])"
    unfolding br by (simp add: background_def coalesce_def merge_def NewHeadChangeCoalescer_def example_pending_def example_delays_def Key_def example_ts_def)
  from co_run.incoming[OF co_run.start example_chains(4) l r this] show ?thesis by simp
qed

text \<open>
  C15. Whatever head changes come in and however they are merged, an observer behind the coalescer that replays what
  is passed on has a chain from which the pending change leads to the current one; the pending change reverts and
  applies no tipset of both chains; when nothing is pending the observer is at the current chain.
\<close>

theorem coalesced_changes_are_exact:
  assumes "co_run d lts v0 c es v" and "chain_of lts h0 v0"
  shows "\<exists>u. replay es v0 = Some u \<and> change_view (slice (co_revert c)) (slice (co_apply c)) u = Some v
    \<and> slice (co_revert c) = filter (\<lambda>t. t \<notin> set v) u \<and> slice (co_apply c) = rev (filter (\<lambda>t. t \<notin> set u) v)
    \<and> (co_revert c = None \<and> co_apply c = None \<longrightarrow> u = v)"
proof -
  obtain h b u where i: "chain_of lts b v" "chain_of lts h u" "last u = last v" "replay es v0 = Some u" "spans c u v"
    using co_run_ok[OF assms] unfolding co_ok_def by blast
  have "change_view (slice (co_revert c)) (slice (co_apply c)) u = Some v"
    using change_view_branches[OF i(2,1,3)] i(5) by (simp add: spans_def)
  moreover have "u = v" if "co_revert c = None" "co_apply c = None" using calculation that by (simp add: change_view_def)
  ultimately show ?thesis
    using i(4,5) branch_filter[OF i(2,1,3)] branch_filter[OF i(1,2) i(3)[symmetric]] by (auto simp: spans_def)
qed

theorem coalesced_changes_are_exact_witness:
  "change_view [example_ts ''b'' [''a''] 50] [example_ts ''c'' [''a''] 60]
     [example_ts ''b'' [''a''] 50, example_ts ''a'' [''g''] 25, example_ts ''g'' [] 0]
   = Some [example_ts ''c'' [''a''] 60, example_ts ''a'' [''g''] 25, example_ts ''g'' [] 0]"
proof -
  have p: "slice (co_revert example_pending) = [example_ts ''b'' [''a''] 50]" "slice (co_apply example_pending) = [example_ts ''c'' [''a''] 60]"
    by (simp_all add: example_pending_def)
  from coalesced_changes_are_exact[OF example_co_run example_chains(3)] obtain u
    where "replay [] [example_ts ''b'' [''a''] 50, example_ts ''a'' [''g''] 25, example_ts ''g'' [] 0] = Some u"
      "change_view (slice (co_revert example_pending)) (slice (co_apply example_pending)) u
        = Some [example_ts ''c'' [''a''] 60, example_ts ''a'' [''g''] 25, example_ts ''g'' [] 0]"
    by (elim exE conjE)
  then show ?thesis unfolding p by simp
qed

text \<open>
  C30. A head change is not held back for ever: while something is pending and the coalescer is open its timer runs, the timer is due at
  most the larger of the two delays after the first pending change, and when it fires the maximal delay after
  that change, the pending change is passed on.
\<close>

theorem coalescer_delay_bounded:
  assumes "co_run d lts v0 c es v" and "chain_of lts h0 v0" and "\<not> co_closed c" and "co_revert c = Some r"
  shows "\<exists>f t. co_first c = Some f \<and> timerC c = Some t \<and> t \<le> f + max (minDelay d) (maxDelay d)
    \<and> (\<forall>now\<ge>f + maxDelay d. snd (background d c (TimerFires now)) = [(r, slice (co_apply c))])"
proof -
  have ok: "timer_ok d c" using co_run_ok[OF assms(1,2)] by simp
  then obtain t f where tf: "timerC c = Some t" "co_first c = Some f" using assms(3,4) by (auto simp: timer_ok_def)
  then have "t \<le> f + max (minDelay d) (maxDelay d)" using ok assms(3) by (auto simp: timer_ok_def)
  moreover have "snd (background d c (TimerFires now)) = [(r, slice (co_apply c))]" if "f + maxDelay d \<le> now" for now
    using that tf assms(4) by (simp add: background_def dispatch_def Let_def)
  ultimately show ?thesis using tf by blast
qed

theorem coalescer_delay_bounded_witness:
  "snd (background example_delays example_pending (TimerFires 11)) = [([example_ts ''b'' [''a''] 50], [example_ts ''c'' [''a''] 60])]"
proof -
  have p: "\<not> co_closed example_pending" "co_revert example_pending = Some [example_ts ''b'' [''a''] 50]" "co_first example_pending = Some 5"
    "slice (co_apply example_pending) = [example_ts ''c'' [''a''] 60]"
    by (simp_all add: example_pending_def)
  obtain f where "co_first example_pending = Some f" "\<forall>now\<ge>f + maxDelay example_delays. snd (background example_delays example_pending (TimerFires now))
      = [([example_ts ''b'' [''a''] 50], slice (co_apply example_pending))]"
    using coalescer_delay_bounded[OF example_co_run example_chains(3) p(1,2)] by blast
  then show ?thesis using p(3,4) by (simp add: example_delays_def)
qed

end
