(* ===== verification/TipsetMsgs.thy ===== *)
theory TipsetMsgs
  imports ChainStore
begin

section \<open>The messages of a tipset and the base fee\<close>

text \<open>
  Models \<open>src/chain/store/messages.go\<close> (which messages of the blocks of a tipset are executed, and in which order) and
  \<open>src/chain/store/basefee.go\<close> (the base fee of the next tipset).

  The block store, the array type of the block headers and the decoders are parameters, and so is the lookup of ID
  addresses in the parent state (\<open>LookupID\<close> of the state tree theory, on the tree loaded from the store).
\<close>

subsection \<open>Reading the messages of a block\<close>

record msg_store =
  ReadMsgMetaCids :: "cid \<Rightarrow> string + cid list \<times> cid list"
  GetMessage :: "cid \<Rightarrow> string + Message"
  GetSignedMessage :: "cid \<Rightarrow> string + SignedMessage"
  LookupID_at :: "cid \<Rightarrow> string + (address \<Rightarrow> string + address)"

fun LoadFromCids :: "(cid \<Rightarrow> string + 'm) \<Rightarrow> cid list \<Rightarrow> string + 'm list" where
  "LoadFromCids get [] = Inr []"
| "LoadFromCids get (c # cs) = andThen (get c) (\<lambda>m. andThen (LoadFromCids get cs) (\<lambda>ms. Inr (m # ms)))"

definition LoadMessagesFromCids :: "msg_store \<Rightarrow> cid list \<Rightarrow> string + Message list" where
  "LoadMessagesFromCids st = LoadFromCids (GetMessage st)"

definition LoadSignedMessagesFromCids :: "msg_store \<Rightarrow> cid list \<Rightarrow> string + SignedMessage list" where
  "LoadSignedMessagesFromCids st = LoadFromCids (GetSignedMessage st)"

definition MessagesForBlock :: "msg_store \<Rightarrow> BlockHeader \<Rightarrow> string + Message list \<times> SignedMessage list" where
  "MessagesForBlock st b =
    andThen (ReadMsgMetaCids st (Messages b)) (\<lambda>(blscids, secpkcids).
    andThen (LoadMessagesFromCids st blscids) (\<lambda>blsmsgs.
    andThen (LoadSignedMessagesFromCids st secpkcids) (\<lambda>secpkmsgs. Inr (blsmsgs, secpkmsgs))))"

subsection \<open>The messages that are executed\<close>

datatype ChainMsg = UnsignedMsg Message | SignedMsg SignedMessage

fun VMMessage :: "ChainMsg \<Rightarrow> Message" where
  "VMMessage (UnsignedMsg m) = m"
| "VMMessage (SignedMsg sm) = Message sm"

record BlockMessages =
  bmMiner :: address
  BlsMessages :: "ChainMsg list"
  SecpkMessages :: "ChainMsg list"

definition UpgradeHyperdriveHeight :: epoch where
  "UpgradeHyperdriveHeight = 892800"

definition msg_sender :: "(address \<Rightarrow> string + address) \<Rightarrow> epoch \<Rightarrow> Message \<Rightarrow> string + address" where
  "msg_sender lookup h m = (if h \<ge> UpgradeHyperdriveHeight then lookup (From m) else Inr (From m))"

type_synonym applied_nonces = "(address \<times> int) list"

definition selectMsg :: "(address \<Rightarrow> string + address) \<Rightarrow> epoch \<Rightarrow> applied_nonces \<Rightarrow> Message \<Rightarrow> string + applied_nonces \<times> bool" where
  "selectMsg lookup h applied m =
    andThen (msg_sender lookup h m) (\<lambda>sender.
      let applied = (case map_of applied sender of None \<Rightarrow> AList.update sender (MsgNonce m) applied | Some _ \<Rightarrow> applied);
          n = (case map_of applied sender of None \<Rightarrow> 0 | Some n \<Rightarrow> n)
      in if n \<noteq> MsgNonce m then Inr (applied, False)
         else Inr (AList.update sender (wrapu64 (n + 1)) applied, True))"

fun select_loop :: "(address \<Rightarrow> string + address) \<Rightarrow> epoch \<Rightarrow> applied_nonces \<Rightarrow> ChainMsg list \<Rightarrow> string + applied_nonces \<times> ChainMsg list" where
  "select_loop lookup h applied [] = Inr (applied, [])"
| "select_loop lookup h applied (m # ms) =
    andThen (selectMsg lookup h applied (VMMessage m)) (\<lambda>(applied, b).
    andThen (select_loop lookup h applied ms) (\<lambda>(applied, out). Inr (applied, if b then m # out else out)))"

fun blocks_loop :: "msg_store \<Rightarrow> (address \<Rightarrow> string + address) \<Rightarrow> epoch \<Rightarrow> applied_nonces \<Rightarrow> BlockHeader list \<Rightarrow> string + BlockMessages list" where
  "blocks_loop st lookup h applied [] = Inr []"
| "blocks_loop st lookup h applied (b # bs) =
    andThen (MessagesForBlock st b) (\<lambda>(bms, sms).
    andThen (select_loop lookup h applied (map UnsignedMsg bms)) (\<lambda>(applied, bls).
    andThen (select_loop lookup h applied (map SignedMsg sms)) (\<lambda>(applied, secpk).
    andThen (blocks_loop st lookup h applied bs) (\<lambda>out.
      Inr (\<lparr>bmMiner = Miner b, BlsMessages = bls, SecpkMessages = secpk\<rparr> # out)))))"

definition BlockMsgsForTipset :: "msg_store \<Rightarrow> TipSet \<Rightarrow> string + BlockMessages list" where
  "BlockMsgsForTipset st ts =
    andThen (LookupID_at st (ParentStateRoot (blks ts ! 0))) (\<lambda>lookup. blocks_loop st lookup (height ts) [] (blks ts))"

definition MessagesForTipset :: "msg_store \<Rightarrow> TipSet \<Rightarrow> string + ChainMsg list" where
  "MessagesForTipset st ts =
    andThen (BlockMsgsForTipset st ts) (\<lambda>bmsgs. Inr (concat (map (\<lambda>bm. BlsMessages bm @ SecpkMessages bm) bmsgs)))"

subsection \<open>Nonces of the executed messages\<close>

text \<open>The uint64 nonces that follow each other from a first one.\<close>

definition consecutive :: "int \<Rightarrow> nat \<Rightarrow> int list" where
  "consecutive n k = map (\<lambda>i. wrapu64 (n + int i)) [0..<k]"

text \<open>How the next nonce of a sender moves while messages with some nonces are selected.\<close>

definition advance :: "int option \<Rightarrow> int list \<Rightarrow> int option \<Rightarrow> bool" where
  "advance a xs b \<longleftrightarrow> xs = [] \<and> b = a \<or>
     (\<exists>n. (a = None \<or> a = Some n) \<and> xs \<noteq> [] \<and> xs = consecutive n (length xs) \<and> b = Some (wrapu64 (n + int (length xs))))"

lemma consecutive_append: "consecutive n (j + k) = consecutive n j @ consecutive (wrapu64 (n + int j)) k"
proof (rule nth_equalityI)
  fix i assume "i < length (consecutive n (j + k))"
  then have i: "i < j + k" by (simp add: consecutive_def)
  show "consecutive n (j + k) ! i = (consecutive n j @ consecutive (wrapu64 (n + int j)) k) ! i"
  proof (cases "i < j")
    case False
    then have "wrapu64 (wrapu64 (n + int j) + int (i - j)) = wrapu64 (n + int i)" by (simp add: wrapu64_add)
    moreover have "i - j < k" using False i by linarith
    ultimately show ?thesis using False i by (simp add: consecutive_def nth_append)
  qed (use i in \<open>simp add: consecutive_def nth_append\<close>)
qed (simp add: consecutive_def)

lemma advance_append:
  assumes "advance a xs b" and "advance b ys c"
  shows "advance a (xs @ ys) c"
proof (cases "xs = [] \<or> ys = []")
  case True
  then show ?thesis using assms by (auto simp: advance_def)
next
  case False
  then obtain n where n: "a = None \<or> a = Some n" "xs = consecutive n (length xs)" "b = Some (wrapu64 (n + int (length xs)))"
    using assms(1) unfolding advance_def by blast
  then have ys: "ys = consecutive (wrapu64 (n + int (length xs))) (length ys)"
    "c = Some (wrapu64 (wrapu64 (n + int (length xs)) + int (length ys)))"
    using assms(2) False unfolding advance_def by auto
  have "xs @ ys = consecutive n (length (xs @ ys))" using n(2) ys(1) consecutive_append[of n "length xs" "length ys"] by simp
  moreover have "c = Some (wrapu64 (n + int (length (xs @ ys))))" using ys(2) by (simp add: wrapu64_add add.assoc)
  ultimately show ?thesis using n(1) False unfolding advance_def by blast
qed

text \<open>The nonces of the messages of one sender.\<close>

definition nonces_of :: "(address \<Rightarrow> string + address) \<Rightarrow> epoch \<Rightarrow> address \<Rightarrow> ChainMsg list \<Rightarrow> int list" where
  "nonces_of lookup h s ms = map (\<lambda>m. MsgNonce (VMMessage m)) (filter (\<lambda>m. msg_sender lookup h (VMMessage m) = Inr s) ms)"

lemma nonces_of_append: "nonces_of lookup h s (xs @ ys) = nonces_of lookup h s xs @ nonces_of lookup h s ys"
  by (simp add: nonces_of_def)

lemma selectMsg_advance:
  assumes "selectMsg lookup h applied (VMMessage m) = Inr (applied', b)" and "inu64 (MsgNonce (VMMessage m))"
  shows "advance (map_of applied s) (nonces_of lookup h s (if b then [m] else [])) (map_of applied' s)"
proof -
  obtain t where t: "msg_sender lookup h (VMMessage m) = Inr t"
    using assms(1) unfolding selectMsg_def andThen_Inr by blast
  have w: "wrapu64 (MsgNonce (VMMessage m)) = MsgNonce (VMMessage m)" using assms(2) by (simp add: wrapu64_def inu64_def)
  show ?thesis using assms(1) t w
    by (cases "s = t"; cases "map_of applied t")
      (auto simp: selectMsg_def andThen_def Let_def update_conv' nonces_of_def advance_def consecutive_def split: if_splits
        intro!: exI[of _ "MsgNonce (VMMessage m)"])
qed

lemma select_loop_advance:
  assumes "select_loop lookup h applied ms = Inr (applied', out)" and "\<forall>m\<in>set ms. inu64 (MsgNonce (VMMessage m))"
  shows "advance (map_of applied s) (nonces_of lookup h s out) (map_of applied' s)"
  using assms
proof (induction ms arbitrary: applied out)
  case Nil
  then show ?case by (simp add: advance_def nonces_of_def)
next
  case (Cons m ms)
  obtain applied1 b out' where 1: "selectMsg lookup h applied (VMMessage m) = Inr (applied1, b)"
    "select_loop lookup h applied1 ms = Inr (applied', out')" "out = (if b then [m] else []) @ out'"
    using Cons.prems(1) by (auto simp: andThen_Inr split: if_splits)
  show ?case unfolding 1(3) nonces_of_append
    using advance_append[OF selectMsg_advance[OF 1(1)] Cons.IH[OF 1(2)]] Cons.prems(2) by simp
qed

lemma blocks_loop_advance:
  assumes "blocks_loop st lookup h applied bs = Inr out"
    and "\<forall>b\<in>set bs. \<forall>bms sms. MessagesForBlock st b = Inr (bms, sms) \<longrightarrow>
      (\<forall>m\<in>set bms. inu64 (MsgNonce m)) \<and> (\<forall>m\<in>set sms. inu64 (nonce_of m))"
  shows "\<exists>a. advance (map_of applied s) (nonces_of lookup h s (concat (map (\<lambda>bm. BlsMessages bm @ SecpkMessages bm) out))) a"
  using assms
proof (induction bs arbitrary: applied out)
  case Nil
  then show ?case by (auto simp: advance_def nonces_of_def)
next
  case (Cons b bs)
  from Cons.prems(1) obtain bms sms a1 bls a2 secpk out' where 1: "MessagesForBlock st b = Inr (bms, sms)"
    "select_loop lookup h applied (map UnsignedMsg bms) = Inr (a1, bls)" "select_loop lookup h a1 (map SignedMsg sms) = Inr (a2, secpk)"
    "blocks_loop st lookup h a2 bs = Inr out'" "out = \<lparr>bmMiner = Miner b, BlsMessages = bls, SecpkMessages = secpk\<rparr> # out'"
    by (auto simp: andThen_Inr)
  have n: "\<forall>m\<in>set bms. inu64 (MsgNonce m)" "\<forall>m\<in>set sms. inu64 (nonce_of m)" using Cons.prems(2) 1(1) by auto
  obtain a where "advance (map_of a2 s) (nonces_of lookup h s (concat (map (\<lambda>bm. BlsMessages bm @ SecpkMessages bm) out'))) a"
    using Cons.IH[OF 1(4)] Cons.prems(2) by auto
  moreover have "advance (map_of applied s) (nonces_of lookup h s bls) (map_of a1 s)"
    using select_loop_advance[OF 1(2)] n(1) by simp
  moreover have "advance (map_of a1 s) (nonces_of lookup h s secpk) (map_of a2 s)"
    using select_loop_advance[OF 1(3)] n(2) by simp
  ultimately show ?case using advance_append by (auto simp: 1(5) nonces_of_append) blast
qed

text \<open>
  C20. Of the messages of a tipset that are executed, those of one sender have consecutive nonces, in the order in which they
  are executed; so no nonce of a sender is executed twice (below \<open>2 ^ 64\<close> messages).
\<close>

theorem tipset_nonces_consecutive:
  assumes "MessagesForTipset st ts = Inr out" and "LookupID_at st (ParentStateRoot (blks ts ! 0)) = Inr lookup"
    and "\<forall>b\<in>set (blks ts). \<forall>bms sms. MessagesForBlock st b = Inr (bms, sms) \<longrightarrow>
      (\<forall>m\<in>set bms. inu64 (MsgNonce m)) \<and> (\<forall>m\<in>set sms. inu64 (nonce_of m))"
  shows "\<exists>n. nonces_of lookup (height ts) s out = consecutive n (length (nonces_of lookup (height ts) s out))
    \<and> (length out < 2 ^ 64 \<longrightarrow> distinct (nonces_of lookup (height ts) s out))"
proof -
  obtain bmsgs where b: "blocks_loop st lookup (height ts) [] (blks ts) = Inr bmsgs" "out = concat (map (\<lambda>bm. BlsMessages bm @ SecpkMessages bm) bmsgs)"
    using assms(1,2) by (auto simp: MessagesForTipset_def BlockMsgsForTipset_def andThen_Inr)
  then obtain n where n: "nonces_of lookup (height ts) s out = consecutive n (length (nonces_of lookup (height ts) s out))"
    using blocks_loop_advance[OF b(1) assms(3), of s] unfolding advance_def by (auto simp: consecutive_def)
  have len: "length (nonces_of lookup (height ts) s out) \<le> length out" by (simp add: nonces_of_def)
  have "distinct (consecutive n k)" if "k < 2 ^ 64" for k
  proof -
    have "inj_on (\<lambda>i. wrapu64 (n + int i)) {0..<k}"
    proof (rule inj_onI)
      fix i j assume ij: "i \<in> {0..<k}" "j \<in> {0..<k}" "wrapu64 (n + int i) = wrapu64 (n + int j)"
      then have "(n + int i) mod 2 ^ 64 = (n + int j) mod 2 ^ 64" unfolding wrapu64_def by simp
      then have "(int i) mod 2 ^ 64 = (int j) mod 2 ^ 64" using mod_diff_cong[of "n + int i" "2 ^ 64" "n + int j" n n] by simp
      then show "i = j" using ij(1,2) that by simp
    qed
    then show ?thesis by (simp add: consecutive_def distinct_map)
  qed
  then show ?thesis using n len by (metis order_le_less_trans)
qed

definition example_bh :: "cid \<Rightarrow> BlockHeader" where
  "example_bh c = \<lparr>blkCid = c, Miner = AddrID 1000, bhParents = [], bhHeight = 1000000, ParentBaseFee = 800, Ticket = None,
     ParentStateRoot = ''root'', Messages = c\<rparr>"

definition example_tipset :: TipSet where
  "example_tipset = \<lparr>cids = [''m1'', ''m2''], blks = [example_bh ''m1'', example_bh ''m2''], height = 1000000\<rparr>"

definition example_unsigned :: "int \<Rightarrow> Message" where
  "example_unsigned n = \<lparr>Version = 0, To = AddrID 7, From = AddrBLS ''b'', MsgNonce = n, Value = Some 0, GasLimit = 1000000,
     GasFeeCap = Some 1, GasPremium = Some 1, Method = 0, Params = []\<rparr>"

text \<open>Both blocks have the message with nonce 5, the second one also that with nonce 6.\<close>

definition example_msgs :: msg_store where
  "example_msgs = \<lparr>ReadMsgMetaCids = (\<lambda>c. Inr (if c = ''m1'' then [''x''] else [''x'', ''y''], [])),
     GetMessage = (\<lambda>c. Inr (example_unsigned (if c = ''x'' then 5 else 6))), GetSignedMessage = (\<lambda>c. Inl ''none''),
     LookupID_at = (\<lambda>r. Inr (\<lambda>a. Inr (AddrID 1001)))\<rparr>"

lemma example_blocks:
  "MessagesForBlock example_msgs (example_bh ''m1'') = Inr ([example_unsigned 5], [])"
  "MessagesForBlock example_msgs (example_bh ''m2'') = Inr ([example_unsigned 5, example_unsigned 6], [])"
  by (simp_all add: MessagesForBlock_def LoadMessagesFromCids_def LoadSignedMessagesFromCids_def example_msgs_def example_bh_def andThen_def)

theorem tipset_nonces_consecutive_witness:
  "MessagesForTipset example_msgs example_tipset = Inr [UnsignedMsg (example_unsigned 5), UnsignedMsg (example_unsigned 6)]
   \<and> (\<exists>n. nonces_of (\<lambda>a. Inr (AddrID 1001)) 1000000 (AddrID 1001) [UnsignedMsg (example_unsigned 5), UnsignedMsg (example_unsigned 6)] = consecutive n 2)"
proof -
  have m: "MessagesForTipset example_msgs example_tipset = Inr [UnsignedMsg (example_unsigned 5), UnsignedMsg (example_unsigned 6)]"
    by (simp add: MessagesForTipset_def BlockMsgsForTipset_def example_tipset_def example_blocks andThen_def selectMsg_def msg_sender_def
        UpgradeHyperdriveHeight_def example_unsigned_def wrapu64_def Let_def)
      (simp add: example_msgs_def example_bh_def example_unsigned_def)
  have l: "LookupID_at example_msgs (ParentStateRoot (blks example_tipset ! 0)) = Inr (\<lambda>a. Inr (AddrID 1001))" by (simp add: example_msgs_def)
  have n: "nonces_of (\<lambda>a. Inr (AddrID 1001)) 1000000 (AddrID 1001) [UnsignedMsg (example_unsigned 5), UnsignedMsg (example_unsigned 6)] = [5, 6]"
    by (simp add: nonces_of_def msg_sender_def UpgradeHyperdriveHeight_def example_unsigned_def)
  have "\<forall>b\<in>set (blks example_tipset). \<forall>bms sms. MessagesForBlock example_msgs b = Inr (bms, sms) \<longrightarrow>
      (\<forall>m\<in>set bms. inu64 (MsgNonce m)) \<and> (\<forall>m\<in>set sms. inu64 (nonce_of m))"
    by (auto simp: example_tipset_def example_blocks example_unsigned_def inu64_def)
  from tipset_nonces_consecutive[OF m l this, of "AddrID 1001"] show ?thesis
    using m n by (auto simp: example_tipset_def numeral_2_eq_2)
qed

subsection \<open>The base fee\<close>

definition BlockGasTarget :: int where
  "BlockGasTarget = BlockGasLimit div 2"

definition BaseFeeMaxChangeDenom :: int where
  "BaseFeeMaxChangeDenom = 8"

definition MinimumBaseFee :: int where
  "MinimumBaseFee = 100"

definition PackingEfficiencyNum :: int where
  "PackingEfficiencyNum = 4"

definition PackingEfficiencyDenom :: int where
  "PackingEfficiencyDenom = 5"

definition UpgradeBreezeHeight :: epoch where
  "UpgradeBreezeHeight = 41280"

definition BreezeGasTampingDuration :: epoch where
  "BreezeGasTampingDuration = 120"

definition UpgradeSmokeHeight :: epoch where
  "UpgradeSmokeHeight = 51000"

text \<open>A tipset without blocks makes the division panic: the result is then \<^term>\<open>None\<close>.\<close>

definition ComputeNextBaseFee :: "token \<Rightarrow> int \<Rightarrow> int \<Rightarrow> epoch \<Rightarrow> token option" where
  "ComputeNextBaseFee baseFee gasLimitUsed noOfBlocks ep =
    (if noOfBlocks = 0 then None
     else
       let delta = (if ep > UpgradeSmokeHeight then sub64 (quot64 gasLimitUsed noOfBlocks) BlockGasTarget
                    else sub64 (quot64 (mul64 PackingEfficiencyDenom gasLimitUsed) (mul64 noOfBlocks PackingEfficiencyNum)) BlockGasTarget);
           delta = (if delta > BlockGasTarget then BlockGasTarget else delta);
           delta = (if delta < - BlockGasTarget then - BlockGasTarget else delta);
           change = baseFee * delta;
           change = change div BlockGasTarget;
           change = change div BaseFeeMaxChangeDenom;
           nextBaseFee = baseFee + change
       in Some (if nextBaseFee < MinimumBaseFee then MinimumBaseFee else nextBaseFee))"

text \<open>The gas limits of the messages, each CID once.\<close>

fun limit_loop :: "(cid \<times> int) list \<Rightarrow> int \<times> cid list \<Rightarrow> int \<times> cid list" where
  "limit_loop [] s = s"
| "limit_loop ((c, gl) # ms) (totalLimit, seen) =
    limit_loop ms (if c \<in> set seen then (totalLimit, seen) else (add64 totalLimit gl, c # seen))"

definition block_limits :: "codec \<Rightarrow> Message list \<Rightarrow> SignedMessage list \<Rightarrow> (cid \<times> int) list" where
  "block_limits cd msg1 msg2 = map (\<lambda>m. (msgCid cd m, GasLimit m)) msg1 @ map (\<lambda>m. (Cid cd m, GasLimit (Message m))) msg2"

fun basefee_loop :: "codec \<Rightarrow> msg_store \<Rightarrow> BlockHeader list \<Rightarrow> int \<times> cid list \<Rightarrow> string + int \<times> cid list" where
  "basefee_loop cd st [] s = Inr s"
| "basefee_loop cd st (b # bs) s =
    andThen (MessagesForBlock st b) (\<lambda>(msg1, msg2). basefee_loop cd st bs (limit_loop (block_limits cd msg1 msg2) s))"

definition ComputeBaseFee :: "codec \<Rightarrow> msg_store \<Rightarrow> TipSet \<Rightarrow> (string + token) option" where
  "ComputeBaseFee cd st ts =
    (if UpgradeBreezeHeight \<ge> 0 \<and> height ts > UpgradeBreezeHeight \<and> height ts < add64 UpgradeBreezeHeight BreezeGasTampingDuration
     then Some (Inr 100)
     else case basefee_loop cd st (blks ts) (0, []) of
       Inl e \<Rightarrow> Some (Inl e)
     | Inr (totalLimit, _) \<Rightarrow>
         if blks ts = [] then None
         else map_option Inr (ComputeNextBaseFee (ParentBaseFee (blks ts ! 0)) totalLimit (int (length (blks ts))) (height ts)))"

subsection \<open>Properties of the base fee\<close>

text \<open>The change of the base fee for a difference to the target, which is capped at the target.\<close>

definition fee_change :: "token \<Rightarrow> int \<Rightarrow> int" where
  "fee_change f delta = f * max (- BlockGasTarget) (min BlockGasTarget delta) div BlockGasTarget div BaseFeeMaxChangeDenom"

lemma target_value: "BlockGasTarget = 5000000000" "MinimumBaseFee = 100" "BaseFeeMaxChangeDenom = 8"
  by (simp_all add: BlockGasTarget_def BlockGasLimit_def MinimumBaseFee_def BaseFeeMaxChangeDenom_def)

lemma next_fee:
  assumes "0 < k"
  shows "ComputeNextBaseFee f gas k ep = Some (max MinimumBaseFee (f + fee_change f
    (if ep > UpgradeSmokeHeight then sub64 (quot64 gas k) BlockGasTarget
     else sub64 (quot64 (mul64 PackingEfficiencyDenom gas) (mul64 k PackingEfficiencyNum)) BlockGasTarget)))"
proof -
  have cap: "(if (if d > BlockGasTarget then BlockGasTarget else d) < - BlockGasTarget then - BlockGasTarget
      else (if d > BlockGasTarget then BlockGasTarget else d)) = max (- BlockGasTarget) (min BlockGasTarget d)" for d
    by (simp add: target_value)
  have low: "(if n < MinimumBaseFee then MinimumBaseFee else n) = max MinimumBaseFee n" for n by simp
  show ?thesis using assms unfolding ComputeNextBaseFee_def Let_def cap low fee_change_def by simp
qed

lemma fee_change_mono:
  assumes "0 \<le> f" and "d \<le> d'"
  shows "fee_change f d \<le> fee_change f d'"
proof -
  have "f * max (- BlockGasTarget) (min BlockGasTarget d) \<le> f * max (- BlockGasTarget) (min BlockGasTarget d')"
    using assms by (intro mult_left_mono) auto
  then show ?thesis unfolding fee_change_def target_value by (intro zdiv_mono1) simp_all
qed

lemma fee_change_bounds:
  assumes "0 \<le> f"
  shows "- ((f + 7) div 8) \<le> fee_change f d" and "fee_change f d \<le> f div 8" and "fee_change f 0 = 0"
proof -
  have "fee_change f (- BlockGasTarget) \<le> fee_change f (max (- BlockGasTarget) (min BlockGasTarget d))"
    "fee_change f (max (- BlockGasTarget) (min BlockGasTarget d)) \<le> fee_change f BlockGasTarget"
    by (intro fee_change_mono[OF assms]; simp add: target_value)+
  moreover have "fee_change f (max (- BlockGasTarget) (min BlockGasTarget d)) = fee_change f d"
    by (simp add: fee_change_def target_value)
  moreover have "fee_change f (- BlockGasTarget) = (- f) div 8" "fee_change f BlockGasTarget = f div 8"
    using nonzero_mult_div_cancel_right[of "5000000000::int" "- f"] by (simp_all add: fee_change_def target_value)
  ultimately show "- ((f + 7) div 8) \<le> fee_change f d" and "fee_change f d \<le> f div 8" by linarith+
  show "fee_change f 0 = 0" by (simp add: fee_change_def target_value)
qed

text \<open>
  C28. The next base fee is at least the minimum and at most an eighth away from the base fee, whatever the gas used.
\<close>

theorem base_fee_bounded:
  assumes "MinimumBaseFee \<le> f" and "0 < k"
  shows "\<exists>n. ComputeNextBaseFee f gas k ep = Some n \<and> MinimumBaseFee \<le> n \<and> f - (f + 7) div 8 \<le> n \<and> n \<le> f + f div 8"
proof -
  have f: "0 \<le> f" using assms(1) by (simp add: target_value)
  show ?thesis unfolding next_fee[OF assms(2)]
    using fee_change_bounds(1,2)[OF f] assms(1) by (auto simp: target_value max_def) (smt (verit))+
qed

theorem base_fee_bounded_witness:
  "\<exists>n. ComputeNextBaseFee 800 0 3 60000 = Some n \<and> 100 \<le> n \<and> 700 \<le> n \<and> n \<le> (900::int)"
  using base_fee_bounded[of 800 3 0 60000] by (simp add: target_value)

text \<open>
  After the Smoke upgrade, tipsets that use more gas get a base fee that is at least as high, and the base fee does
  not change when the blocks use exactly the target.
\<close>

theorem base_fee_follows_gas:
  assumes "MinimumBaseFee \<le> f" and "0 < k" and "0 \<le> gas" and "gas \<le> gas'" and "in64 gas'" and "UpgradeSmokeHeight < ep"
  shows "(\<exists>n n'. ComputeNextBaseFee f gas k ep = Some n \<and> ComputeNextBaseFee f gas' k ep = Some n' \<and> n \<le> n')
    \<and> (gas = k * BlockGasTarget \<longrightarrow> ComputeNextBaseFee f gas k ep = Some f)"
proof -
  have f: "0 \<le> f" using assms(1) by (simp add: target_value)
  have q: "quot64 g k = g div k" "sub64 (quot64 g k) BlockGasTarget = g div k - BlockGasTarget" if "0 \<le> g" "g \<le> gas'" for g
  proof -
    have g: "in64 g" using that assms(5) by (simp add: in64_def)
    then show "quot64 g k = g div k" using that(1) assms(2) by (simp add: quot64_exact)
    moreover have "0 \<le> g div k" "g div k \<le> g" using that(1) assms(2) by (simp_all add: pos_imp_zdiv_nonneg_iff) (metis div_by_1 int_one_le_iff_zero_less zdiv_mono2 zero_less_one)
    ultimately show "sub64 (quot64 g k) BlockGasTarget = g div k - BlockGasTarget"
      using g by (auto simp: in64_def target_value intro!: sub64_exact)
  qed
  have "gas div k \<le> gas' div k" using assms(2,4) by (intro zdiv_mono1)
  then have "fee_change f (gas div k - BlockGasTarget) \<le> fee_change f (gas' div k - BlockGasTarget)" by (intro fee_change_mono[OF f]) simp
  moreover have "ComputeNextBaseFee f g k ep = Some (max MinimumBaseFee (f + fee_change f (g div k - BlockGasTarget)))" if "0 \<le> g" "g \<le> gas'" for g
    unfolding next_fee[OF assms(2)] q(2)[OF that] using assms(6) by simp
  moreover have "gas = k * BlockGasTarget \<longrightarrow> gas div k - BlockGasTarget = 0" using assms(2) by simp
  ultimately show ?thesis using assms(1,3,4) fee_change_bounds(3)[OF f] by auto
qed

theorem base_fee_follows_gas_witness:
  "ComputeNextBaseFee 800 15000000000 3 60000 = Some 800"
  using base_fee_follows_gas[of 800 3 15000000000 15000000000 60000] by (simp add: target_value UpgradeSmokeHeight_def in64_def)

text \<open>The sum over the CIDs, each with the gas limit of its first occurrence.\<close>

definition limit_sum :: "(cid \<times> int) list \<Rightarrow> cid set \<Rightarrow> int" where
  "limit_sum ms seen = (\<Sum>c\<in>fst ` set ms - seen. the (map_of ms c))"

lemma limit_sum_Cons:
  "limit_sum ((c, gl) # ms) seen = (if c \<in> seen then limit_sum ms seen else gl + limit_sum ms (insert c seen))"
proof (cases "c \<in> seen")
  case True
  then have "fst ` set ((c, gl) # ms) - seen = fst ` set ms - seen" by auto
  then show ?thesis using True unfolding limit_sum_def by (auto intro!: sum.cong)
next
  case False
  then have "fst ` set ((c, gl) # ms) - seen = insert c (fst ` set ms - insert c seen)" by auto
  then have "limit_sum ((c, gl) # ms) seen = gl + (\<Sum>x\<in>fst ` set ms - insert c seen. the (map_of ((c, gl) # ms) x))"
    unfolding limit_sum_def by simp
  also have "(\<Sum>x\<in>fst ` set ms - insert c seen. the (map_of ((c, gl) # ms) x)) = limit_sum ms (insert c seen)"
    unfolding limit_sum_def by (rule sum.cong) auto
  finally show ?thesis using False by simp
qed

lemma limit_loop_sum:
  "wrap64 (fst (limit_loop ms (t, seen))) = wrap64 (t + limit_sum ms (set seen))
   \<and> set (snd (limit_loop ms (t, seen))) = set seen \<union> fst ` set ms"
proof (induction ms "(t, seen)" arbitrary: t seen rule: limit_loop.induct)
  case (1 t seen)
  then show ?case by (simp add: limit_sum_def)
next
  case (2 c gl ms t seen)
  show ?case
  proof (cases "c \<in> set seen")
    case True
    then show ?thesis using 2[of t seen] by (auto simp: limit_sum_Cons)
  next
    case False
    then have "wrap64 (fst (limit_loop ms (add64 t gl, c # seen))) = wrap64 (wrap64 (t + gl) + limit_sum ms (insert c (set seen)))"
      using 2[of "add64 t gl" "c # seen"] by (simp add: add64_def)
    then show ?thesis using 2[of "add64 t gl" "c # seen"] False by (simp add: limit_sum_Cons wrap64_add add.assoc)
  qed
qed

lemma limit_loop_append: "limit_loop (xs @ ys) s = limit_loop ys (limit_loop xs s)"
  by (induction xs s rule: limit_loop.induct) auto

lemma limit_loop_in64: "in64 (fst s) \<Longrightarrow> in64 (fst (limit_loop ms s))"
  by (induction ms s rule: limit_loop.induct) (auto simp: add64_def)

text \<open>All the messages of the blocks, when all can be read.\<close>

fun all_limits :: "codec \<Rightarrow> msg_store \<Rightarrow> BlockHeader list \<Rightarrow> string + (cid \<times> int) list" where
  "all_limits cd st [] = Inr []"
| "all_limits cd st (b # bs) = andThen (MessagesForBlock st b) (\<lambda>(msg1, msg2).
     andThen (all_limits cd st bs) (\<lambda>ms. Inr (block_limits cd msg1 msg2 @ ms)))"

lemma basefee_loop_all: "all_limits cd st bs = Inr ms \<Longrightarrow> basefee_loop cd st bs s = Inr (limit_loop ms s)"
  by (induction bs arbitrary: ms s) (auto simp: andThen_def limit_loop_append split: sum.splits prod.splits)

text \<open>
  The base fee after a tipset is computed from the sum of the gas limits of its messages in which a message that is in
  several blocks counts once.
\<close>

theorem base_fee_counts_messages_once:
  assumes "all_limits cd st (blks ts) = Inr ms" and "blks ts \<noteq> []"
    and "\<not> (UpgradeBreezeHeight < height ts \<and> height ts < UpgradeBreezeHeight + BreezeGasTampingDuration)"
  shows "ComputeBaseFee cd st ts = map_option Inr (ComputeNextBaseFee (ParentBaseFee (blks ts ! 0))
    (wrap64 (\<Sum>c\<in>fst ` set ms. the (map_of ms c))) (int (length (blks ts))) (height ts))"
proof -
  have "in64 (fst (limit_loop ms (0, [])))" by (rule limit_loop_in64) (simp add: in64_def)
  then have "fst (limit_loop ms (0, [])) = wrap64 (limit_sum ms {})"
    using limit_loop_sum[of ms 0 "[]"] by (simp add: wrap64_in64)
  moreover have "add64 UpgradeBreezeHeight BreezeGasTampingDuration = UpgradeBreezeHeight + BreezeGasTampingDuration"
    by (intro add64_exact) (simp add: in64_def UpgradeBreezeHeight_def BreezeGasTampingDuration_def)
  ultimately show ?thesis using assms(2,3) basefee_loop_all[OF assms(1), of "(0, [])"]
    by (cases "limit_loop ms (0, [])") (auto simp: ComputeBaseFee_def limit_sum_def)
qed

theorem base_fee_counts_messages_once_witness:
  "ComputeBaseFee \<lparr>msgLen = (\<lambda>_. 1), smLen = (\<lambda>_. 1), msgCid = (\<lambda>m. if MsgNonce m = 5 then ''x'' else ''y''), sumCid = (\<lambda>_. ''z'')\<rparr>
     example_msgs example_tipset = map_option Inr (ComputeNextBaseFee 800 2000000 2 1000000)"
proof -
  let ?cd = "\<lparr>msgLen = (\<lambda>_. 1), smLen = (\<lambda>_. 1), msgCid = (\<lambda>m. if MsgNonce m = 5 then ''x'' else ''y''), sumCid = (\<lambda>_. ''z'')\<rparr>"
  have a: "all_limits ?cd example_msgs (blks example_tipset) = Inr [(''x'', 1000000), (''x'', 1000000), (''y'', 1000000)]"
    by (simp add: example_tipset_def example_blocks andThen_def block_limits_def) (simp add: example_unsigned_def)
  show ?thesis
    using base_fee_counts_messages_once[OF a]
    by (simp add: example_tipset_def example_bh_def UpgradeBreezeHeight_def BreezeGasTampingDuration_def wrap64_in64 in64_def)
qed

end
