(* ===== verification/Spec2Isabelle.thy ===== *)
theory Spec2Isabelle
  imports Lotus_Prelude Gas StateTree ChainMessage VM_Runtime VM_Safety VM_Apply
    SealingState SealingFSM SealingSafety FundManager WdPost
    GoSlice Fr32 IndexLocks SectorIndex
    MsgSet MsgPool ChainStore ChainHead Coalescer TipsetMsgs
begin

text \<open>
  A verification library for Lotus, a Filecoin node written in Go.

  \<^bold>\<open>The program.\<close> A node keeps a block chain whose state is a tree of actors. A store keeps the tipsets and
  chooses the head; a pool keeps the messages that wait for a block; messages are applied to the state by a
  virtual machine that charges gas. A storage provider pads data into field elements, seals sectors of it in a
  pipeline of steps, keeps track of where the files of sectors are and who uses them, proves the sectors in
  every proving period, and keeps funds for its deals in the market actor. The library follows these parts:

  \<^item> the state of the chain and the (legacy) virtual machine that changes it;
  \<^item> the store of the chain: its head, its index, its observers, the messages and the base fee of a tipset;
  \<^item> the pool of pending messages;
  \<^item> the sealing pipeline's state machine;
  \<^item> the padding of data, the index of sector files and the locks on them;
  \<^item> the fund manager of the market;
  \<^item> the handler of chain heads that proves and submits window PoSts.

  \<^bold>\<open>Conventions.\<close> A struct is a record, an enumeration or an interface with known implementations a datatype,
  a Go map an association list, an error the left value of a sum, a panic an error of its own. Go's
  \<open>int64\<close> and \<open>uint64\<close> are integers with \<open>wrap64\<close> and \<open>wrapu64\<close> written where the code computes with them; token
  amounts are unbounded, as in the code. Objects that callbacks share are kept in stores by identity.
  Code outside the repository is a parameter: a record of functions, with what the code relies on as named
  hypotheses. Every property with such a hypothesis is applied to a concrete instance in its witness.

  \<^bold>\<open>Theories.\<close>

  \<^item> \<open>Lotus_Prelude\<close>: vocabulary (addresses, CIDs, epochs, tokens), Go's 64-bit integers and when they do not
    wrap, sums over finite maps.
  \<^item> \<open>Gas\<close>: \<open>chain/vm/gas.go\<close>, \<open>gas_v0.go\<close>, \<open>burn.go\<close>. The price lists, the choice of the list in force, the burn of
    overestimated gas and the outputs of a message. The settlement adds up and nothing is negative; a locale
    \<open>price_table\<close> carries the independence from the order of the map of prices.
  \<^item> \<open>StateTree\<close>: \<open>chain/state/statetree.go\<close>. The cached tree of actors with its stack of snapshots. Every
    operation is related to the abstract view of the actors one can read; runs of operations between a
    snapshot and its revert or clear are a step relation; \<open>Flush\<close> and \<open>LoadStateTree\<close> are inverse.
  \<^item> \<open>ChainMessage\<close>: \<open>chain/types/message.go\<close> and \<open>chain/actors/aerrors\<close>. Messages, their validity for a block,
    and the errors of actors with their exit codes.
  \<^item> \<open>VM_Runtime\<close>: \<open>chain/vm/runtime.go\<close>, \<open>mkactor.go\<close>, \<open>invoker.go\<close> and \<open>send\<close> of \<open>vm.go\<close>. Commands over the
    state of the machine that may panic; actor code is an interaction tree over the runtime's calls and so a
    parameter; nested sends recurse through a callee with fuel.
  \<^item> \<open>VM_Safety\<close>: what each runtime call keeps, by a Hoare logic of the commands (locales \<open>step_logic\<close>,
    \<open>nested_calls\<close> and \<open>actor_tree\<close>): no balance becomes negative, no funds are made, snapshots stay balanced.
  \<^item> \<open>VM_Apply\<close>: \<open>ApplyMessage\<close> and \<open>ApplyImplicitMessage\<close> of \<open>vm.go\<close>. A message never mints, a failed
    message only pays for gas, the gas of a valid message adds up, bad senders are rejected, and the depth of
    calls is bounded, which shows that the fuel \<open>MaxCallDepth + 2\<close> is enough.
  \<^item> \<open>SealingState\<close>: \<open>storage/pipeline/sector_state.go\<close>, \<open>types.go\<close>, \<open>stats.go\<close>. The record of a sector, its
    pieces and the counters of the pipeline.
  \<^item> \<open>SealingFSM\<close>: \<open>storage/pipeline/fsm.go\<close>, \<open>fsm_events.go\<close>. The events, the planners and their table, the
    log of a sector, and \<open>Plan\<close>. \<open>SealingSafety\<close> shows what a step keeps (locale \<open>sector_invariant\<close>, interpreted for
    the states, the log and the pieces of an upgrade), that steps make progress (locale \<open>counting_planner\<close>), that
    every state of the pipeline can reach \<open>Proving\<close>, and that removal is always possible and final.
  \<^item> \<open>FundManager\<close>: \<open>chain/market/fundmanager.go\<close>. The queues of an address, their processing, and the steps
    of the goroutines around it. Reservations add up, withdrawals leave the reserve, one message is pending at
    a time, the queues drain, and a restart restores the state.
  \<^item> \<open>WdPost\<close>: \<open>storage/wdpost/wdpost_changehandler.go\<close>. The cache of proofs, the prover and the submitter.
    Submissions are timely and exclusive; the search for the next deadline ends.

  \<^item> \<open>GoSlice\<close>: Go slices as windows of a backing array, for code that pads in place and in parallel.
  \<^item> \<open>Fr32\<close>: \<open>storage/sealer/fr32\<close> and the filler pieces of \<open>storage/pipeline/input.go\<close>. Padding inserts two zero bits
    after 254 bits and so gives field elements, unpadding is its inverse, sharing the work among goroutines does
    not change the result, and the writer and reader stream the same data however they are called.
  \<^item> \<open>IndexLocks\<close>: \<open>storage/paths/index_locks.go\<close>. The table of sector locks with its condition variables as a
    step relation: holders do not conflict, and a sleeping request waits for a holder.
  \<^item> \<open>SectorIndex\<close>: \<open>storage/paths/index.go\<close>. Which paths have which files of a sector: a refinement of a relation of
    declarations, with attaching, finding, listing, choosing paths and the queue for moves into a path.
  \<^item> \<open>MsgSet\<close>: \<open>msgSet\<close> of \<open>chain/messagepool/messagepool.go\<close> and signed messages. The pending messages of a sender:
    funds, gaps and replacement by fee.
  \<^item> \<open>MsgPool\<close>: the pool around the sets. Checks, caches, adding, removing and changes of the head, in a monad of
    state and error. The locale \<open>message_sets\<close> is the contract of the sets; the size of the pool is right after every
    run, accepted messages are funded and validly signed.
  \<^item> \<open>ChainStore\<close>: \<open>chain/types/tipset.go\<close>, \<open>tipset_key.go\<close> and \<open>chain/store/index.go\<close>. Tipsets and their keys; the
    index of skips finds what walking back finds.
  \<^item> \<open>ChainHead\<close>: the head of \<open>chain/store/store.go\<close>. Paths between tipsets, the limit of forks, the checkpoint, the
    fork choice and the worker that tells the observers, as a step relation with what is delivered: the
    checkpoint stays on the chain, and observers follow the head.
  \<^item> \<open>Coalescer\<close>: \<open>chain/store/coalescer.go\<close>. Merged head changes lead to the same chain, are minimal and are passed on
    in bounded time.
  \<^item> \<open>TipsetMsgs\<close>: \<open>chain/store/messages.go\<close> and \<open>basefee.go\<close>. The messages of a tipset that are executed have
    consecutive nonces; the base fee changes by at most an eighth and counts every message once.

  \<^bold>\<open>Bounds and fuel.\<close> Nested sends use fuel; \<open>call_depth_bounded\<close> shows how much is enough. The loop over pending
  nonces runs at most once per message of the set, which is its fuel, and \<open>fillGap_first_free\<close> shows that it ends at a free
  nonce. The search for the next deadline and the walks along parents (\<open>walkBack\<close>, the index, \<open>ReorgOps\<close>, the fork limit)
  are partial functions; their results are shown to exist on every chain that reaches genesis. All other
  recursion is structural.

  \<^bold>\<open>How the parts fit.\<close> \<open>VM_Apply\<close> runs on \<open>VM_Runtime\<close>, which runs on \<open>StateTree\<close>, \<open>Gas\<close> and \<open>ChainMessage\<close>;
  its properties are about the whole stack. \<open>SealingFSM\<close> runs on \<open>SealingState\<close>: a step updates the counters.
  \<open>ChainHead\<close> and \<open>TipsetMsgs\<close> run on the tipsets of \<open>ChainStore\<close>; \<open>Coalescer\<close> is an observer of \<open>ChainHead\<close>'s worker, and
  \<open>MsgPool\<close>, which runs on \<open>MsgSet\<close>, gets its head changes in the form they deliver. The fund manager and the change
  handler meet the rest of the node only through the chain's API.

  \<^bold>\<open>Not modelled.\<close> The network, the block stores and the proofs, which are I/O or third-party code; the
  generated code (CBOR codecs, RPC proxies, actor bindings); the handlers of the sealing pipeline, which are
  calls to the sealer and to the chain (the state machine is modelled for any events they may send). Of the
  message pool, the selection of messages for a block, pruning and republication, which order chains of messages
  by floating-point numbers; of the chain store, the tracker of tipsets and the import and export of
  snapshots, which read and write block stores. The scheduler of the sealer, the payment channels, the split
  store and the syncer are not modelled: they are mostly concurrent glue around remote calls.
\<close>

end
